(* ===== verification/Prelude.thy ===== *)
theory Prelude
  imports Main "HOL-Library.Word" "HOL-Library.Sublist"
begin

text \<open>
  What every component shares: the machine types, the outcomes a C++ call can have, byte
  buffers with bounds-checked access, the byte order of the host, and the lemma collections
  the component proofs use.

  A \<open>std::string\<close> is a \<open>string\<close> (a list of 8-bit characters); a position or a length
  (\<open>size_t\<close>) is a \<open>nat\<close> where it cannot wrap, and is reduced modulo \<open>2 ^ 64\<close> where it can.
  A fixed-width unsigned integer is a word. The host is little-endian (x86-64), as every
  supported build of the program is.
\<close>

unbundle bit_operations_syntax

named_theorems cxx_simps \<open>equations of the outcome type\<close>
named_theorems bytes_simps \<open>lengths and reads of byte sequences\<close>

type_synonym u8 = "8 word"
type_synonym u16 = "16 word"
type_synonym u32 = "32 word"
type_synonym u64 = "64 word"

section \<open>Outcomes of a call\<close>

datatype errno = EINVAL | EBADMSG | EMSGSIZE | EOVERFLOW | ENOENT | EEXIST | ENOSYS | ENOMEM | ENOBUFS

datatype exn = Length_error | Out_of_range | Invalid_argument

text \<open>
  A call returns, throws a standard exception, does something the language leaves undefined
  (a read or write outside an object, a use after free, a signed overflow), or is cut off
  because the fuel given to one of its loops ran out.
\<close>

datatype 'a cxx = Ok 'a | Throws exn | Undefined | Out_of_fuel

fun cbind :: "'a cxx \<Rightarrow> ('a \<Rightarrow> 'b cxx) \<Rightarrow> 'b cxx" where
  "cbind (Ok x) f = f x"
| "cbind (Throws e) f = Throws e"
| "cbind Undefined f = Undefined"
| "cbind Out_of_fuel f = Out_of_fuel"

lemma cbind_eq_Ok [cxx_simps]: "(cbind m f = Ok y) = (\<exists>x. m = Ok x \<and> f x = Ok y)"
  by (cases m) auto

lemma cbind_Ok_right [simp]: "cbind m Ok = m"
  by (cases m) auto

lemma cbind_assoc [cxx_simps]: "cbind (cbind m f) g = cbind m (\<lambda>x. cbind (f x) g)"
  by (cases m) auto

definition returns :: "'a cxx \<Rightarrow> bool" where
  "returns m \<longleftrightarrow> (\<exists>x. m = Ok x)"

lemma returns_simps [simp]:
  "returns (Ok x)" "\<not> returns (Throws e)" "\<not> returns Undefined" "\<not> returns Out_of_fuel"
  by (simp_all add: returns_def)

lemma returns_cbind [cxx_simps]: "returns (cbind m f) \<longleftrightarrow> (\<exists>x. m = Ok x \<and> returns (f x))"
  by (cases m) auto

section \<open>Lists\<close>

definition segment :: "nat \<Rightarrow> nat \<Rightarrow> 'a list \<Rightarrow> 'a list" where
  "segment p n xs = take n (drop p xs)"

lemma length_segment [bytes_simps]: "p + n \<le> length xs \<Longrightarrow> length (segment p n xs) = n"
  by (simp add: segment_def)

lemma take_segment: "take p xs @ segment p n xs = take (p + n) xs"
  by (simp add: segment_def take_add)

lemma take_segment_eq: "q = p + n \<Longrightarrow> take p xs @ segment p n xs = take q xs"
  by (simp add: take_segment)

lemma segment_append1: "p + n \<le> length xs \<Longrightarrow> segment p n (xs @ ys) = segment p n xs"
  by (simp add: segment_def)

lemma segment_append2 [bytes_simps]:
  "length xs \<le> p \<Longrightarrow> segment p n (xs @ ys) = segment (p - length xs) n ys"
  by (simp add: segment_def)

lemma segment_0 [bytes_simps]: "segment 0 n (xs @ ys) = xs" if "n = length xs"
  using that by (simp add: segment_def)

lemma segment_all [bytes_simps]: "segment 0 n xs = xs" if "n = length xs"
  using that by (simp add: segment_def)

lemma segment_mid: "segment (length xs) (length ys) (xs @ ys @ zs) = ys"
  by (simp add: segment_def)

lemma segment_mid_eq: "p = length xs \<Longrightarrow> n = length ys \<Longrightarrow> segment p n (xs @ ys @ zs) = ys"
  by (simp add: segment_mid)

text \<open>Writing a run of bytes into an array at an offset.\<close>

definition overwrite :: "'a list \<Rightarrow> nat \<Rightarrow> 'a list \<Rightarrow> 'a list" where
  "overwrite dst off src = take off dst @ src @ drop (off + length src) dst"

lemma length_overwrite [simp]: "off + length src \<le> length dst \<Longrightarrow> length (overwrite dst off src) = length dst"
  by (simp add: overwrite_def)

lemma take_overwrite: "off \<le> length dst \<Longrightarrow> take (off + length src) (overwrite dst off src) = take off dst @ src"
  by (simp add: overwrite_def)

lemma overwrite_adjacent:
  assumes "off + length xs + length ys \<le> length dst"
  shows "overwrite (overwrite dst off xs) (off + length xs) ys = overwrite dst off (xs @ ys)"
  using assms by (simp add: overwrite_def add.assoc add.commute add.left_commute)

section \<open>Bytes and byte order\<close>

fun le_val :: "string \<Rightarrow> nat" where
  "le_val [] = 0"
| "le_val (c # s) = of_char c + 256 * le_val s"

fun le_bytes :: "nat \<Rightarrow> nat \<Rightarrow> string" where
  "le_bytes 0 v = []"
| "le_bytes (Suc n) v = char_of (v mod 256) # le_bytes n (v div 256)"

lemma length_le_bytes [simp]: "length (le_bytes n v) = n"
  by (induction n arbitrary: v) auto

lemma of_char_less_256: "(of_char c :: nat) < 256"
  by (metis of_char_mod_256 mod_less_divisor zero_less_numeral)

lemma le_val_le_bytes: "le_val (le_bytes n v) = v mod 256 ^ n"
proof (induction n arbitrary: v)
  case 0
  then show ?case by simp
next
  case (Suc n)
  have "v mod 256 ^ Suc n = v mod 256 + 256 * (v div 256 mod 256 ^ n)"
    by (simp add: mod_mult2_eq)
  then show ?case by (simp add: Suc.IH)
qed

lemma le_bytes_le_val: "n = length s \<Longrightarrow> le_bytes n (le_val s) = s"
proof (induction s arbitrary: n)
  case Nil
  then show ?case by simp
next
  case (Cons c s)
  then show ?case by (simp add: of_char_less_256)
qed

lemma le_val_less: "le_val s < 256 ^ length s"
proof (induction s)
  case Nil
  then show ?case by simp
next
  case (Cons c s)
  have c: "(of_char c :: nat) < 256" by (rule of_char_less_256)
  from Cons have "le_val s + 1 \<le> 256 ^ length s" by simp
  then have "256 * (le_val s + 1) \<le> 256 * 256 ^ length s" by (rule mult_le_mono2)
  moreover from c have "of_char c + 256 * le_val s < 256 * (le_val s + 1)" by simp
  ultimately have "of_char c + 256 * le_val s < 256 * 256 ^ length s" by (rule order.strict_trans2 [rotated])
  then show ?case by simp
qed

text \<open>
  \<open>memcpy\<close> of an integer to or from a buffer stores its bytes in the host's order, and
  \<open>htonl\<close>/\<open>ntohl\<close> (\<open>htons\<close>/\<open>ntohs\<close>) swap the bytes of a value on this host.
\<close>

definition store16 :: "u16 \<Rightarrow> string" where "store16 w = le_bytes 2 (unat w)"
definition store32 :: "u32 \<Rightarrow> string" where "store32 w = le_bytes 4 (unat w)"
definition store64 :: "u64 \<Rightarrow> string" where "store64 w = le_bytes 8 (unat w)"

definition load16 :: "string \<Rightarrow> u16" where "load16 s = of_nat (le_val s)"
definition load32 :: "string \<Rightarrow> u32" where "load32 s = of_nat (le_val s)"
definition load64 :: "string \<Rightarrow> u64" where "load64 s = of_nat (le_val s)"

definition htons :: "u16 \<Rightarrow> u16" where "htons w = load16 (rev (store16 w))"
definition htonl :: "u32 \<Rightarrow> u32" where "htonl w = load32 (rev (store32 w))"

abbreviation ntohs :: "u16 \<Rightarrow> u16" where "ntohs \<equiv> htons"
abbreviation ntohl :: "u32 \<Rightarrow> u32" where "ntohl \<equiv> htonl"

lemma length_store [simp, bytes_simps]:
  "length (store16 a) = 2" "length (store32 b) = 4" "length (store64 c) = 8"
  by (simp_all add: store16_def store32_def store64_def)

lemma load_store [simp]:
  "load16 (store16 a) = a" "load32 (store32 b) = b" "load64 (store64 c) = c"
proof -
  have a: "unat a < 2 ^ 16" and b: "unat b < 2 ^ 32" and c: "unat c < 2 ^ 64"
    by (rule order.strict_trans2 [OF unsigned_less], simp)+
  show "load16 (store16 a) = a" "load32 (store32 b) = b" "load64 (store64 c) = c"
    using a b c by (simp_all add: load16_def load32_def load64_def store16_def store32_def
        store64_def le_val_le_bytes)
qed

lemma store_load16: "length s = 2 \<Longrightarrow> store16 (load16 s) = s"
  using le_val_less[of s] by (simp add: store16_def load16_def le_bytes_le_val unat_of_nat)

lemma store_load32: "length s = 4 \<Longrightarrow> store32 (load32 s) = s"
  using le_val_less[of s] by (simp add: store32_def load32_def le_bytes_le_val unat_of_nat)

lemma store_load64: "length s = 8 \<Longrightarrow> store64 (load64 s) = s"
  using le_val_less[of s] by (simp add: store64_def load64_def le_bytes_le_val unat_of_nat)

lemma htons_htons [simp]: "htons (htons w) = w"
  by (simp add: htons_def store_load16)

lemma htonl_htonl [simp]: "htonl (htonl w) = w"
  by (simp add: htonl_def store_load32)

lemma store32_inject: "store32 a = store32 b \<Longrightarrow> a = b"
  by (metis load_store(2))

lemma rev_store32_eq: "length s = 4 \<Longrightarrow> load32 (rev s) = w \<Longrightarrow> rev (store32 w) = s"
  by (metis length_rev rev_rev_ident store_load32)

lemma store16_inject: "store16 a = store16 b \<Longrightarrow> a = b"
  by (metis load_store(1))

text \<open>On the wire the most significant byte comes first.\<close>

lemma store32_htonl: "store32 (htonl w) = rev (store32 w)"
  by (simp add: htonl_def store_load32)

lemma store16_htons: "store16 (htons w) = rev (store16 w)"
  by (simp add: htons_def store_load16)

lemma ntohl_load32: "length s = 4 \<Longrightarrow> ntohl (load32 s) = load32 (rev s)"
  by (simp add: htonl_def store_load32)

lemma ntohs_load16: "length s = 2 \<Longrightarrow> ntohs (load16 s) = load16 (rev s)"
  by (simp add: htons_def store_load16)

text \<open>The two halves of a 64-bit value.\<close>

lemma le_bytes_append: "le_bytes (a + b) v = le_bytes a v @ le_bytes b (v div 256 ^ a)"
  by (induction a arbitrary: v) (auto simp: div_mult2_eq)

lemma le_bytes_mod: "le_bytes n (v mod 256 ^ n) = le_bytes n v"
  by (metis length_le_bytes le_bytes_le_val le_val_le_bytes)

lemma store64_halves: "store64 v = store32 (ucast v) @ store32 (ucast (drop_bit 32 v))"
proof -
  have lo: "store32 (ucast v) = le_bytes 4 (unat v)"
    using le_bytes_mod [of 4 "unat v"] by (simp add: store32_def unsigned_ucast_eq take_bit_eq_mod)
  have "unat v div 2 ^ 32 < 2 ^ 32"
    using unsigned_less [of v, where 'a = nat] by (simp add: less_mult_imp_div_less)
  then have hi: "store32 (ucast (drop_bit 32 v)) = le_bytes 4 (unat v div 256 ^ 4)"
    by (simp add: store32_def unsigned_ucast_eq take_bit_eq_mod drop_bit_eq_div unat_div_distrib)
  show ?thesis
    using le_bytes_append [of 4 4 "unat v"] by (simp add: store64_def lo hi)
qed

lemma halves_of_u64:
  fixes lo hi :: u32
  shows "(ucast (push_bit 32 (ucast lo) OR ucast hi :: u64) :: u32) = hi"
    and "(ucast (drop_bit 32 (push_bit 32 (ucast lo) OR ucast hi :: u64)) :: u32) = lo"
proof -
  show "(ucast (push_bit 32 (ucast lo) OR ucast hi :: u64) :: u32) = hi"
    by (rule bit_word_eqI) (auto simp: bit_simps)
  show "(ucast (drop_bit 32 (push_bit 32 (ucast lo) OR ucast hi :: u64)) :: u32) = lo"
    by (rule bit_word_eqI) (auto simp: bit_simps dest: bit_imp_le_length)
qed

lemma u64_of_halves: "push_bit 32 (ucast (ucast (drop_bit 32 v) :: u32)) OR ucast (ucast v :: u32) = (v :: u64)"
  by (rule bit_word_eqI) (auto simp: bit_simps)

lemma low_half: "(ucast (v AND 0xffffffff :: u64) :: u32) = ucast v"
proof -
  have "(0xffffffff :: u64) = mask 32" by (simp add: mask_eq_exp_minus_1)
  then show ?thesis
    by (simp only: flip: take_bit_eq_mask) (auto intro!: bit_word_eqI simp: bit_simps)
qed

lemmas u64_halves = store64_halves halves_of_u64 low_half

text \<open>Subtraction of \<open>size_t\<close> values wraps.\<close>

definition sz_sub :: "nat \<Rightarrow> nat \<Rightarrow> nat" where
  "sz_sub a b = (if b \<le> a then a - b else 2 ^ 64 + a - b)"

lemma sz_sub_le [simp]: "b \<le> a \<Longrightarrow> sz_sub a b = a - b"
  by (simp add: sz_sub_def)

text \<open>\<open>memcpy\<close> into an array or a string of a fixed length.\<close>

definition write_buf :: "string \<Rightarrow> nat \<Rightarrow> string \<Rightarrow> string cxx" where
  "write_buf dst off src =
     (if off + length src \<le> length dst then Ok (overwrite dst off src) else Undefined)"

lemma write_buf_inside [simp]:
  "off + length src \<le> length dst \<Longrightarrow> write_buf dst off src = Ok (overwrite dst off src)"
  by (simp add: write_buf_def)

section \<open>Reading from a buffer\<close>

text \<open>
  \<open>read_buf buf pos n\<close> reads \<open>n\<close> bytes at \<open>buf.data() + pos\<close>. The bytes of a
  \<open>std::string\<close> are followed by one NUL byte that belongs to the string, so a read is
  defined up to and including position \<open>size()\<close> and nowhere beyond.
\<close>

definition NUL :: char where "NUL = CHR 0x00"

definition read_buf :: "string \<Rightarrow> nat \<Rightarrow> nat \<Rightarrow> string cxx" where
  "read_buf buf pos n =
     (if pos + n \<le> length buf + 1 then Ok (segment pos n (buf @ [NUL])) else Undefined)"

definition read32 :: "string \<Rightarrow> nat \<Rightarrow> u32 cxx" where
  "read32 buf pos = cbind (read_buf buf pos 4) (\<lambda>s. Ok (ntohl (load32 s)))"

lemma read_buf_inside: "pos + n \<le> length buf \<Longrightarrow> read_buf buf pos n = Ok (segment pos n buf)"
  by (simp add: read_buf_def segment_append1)

lemma read32_inside:
  "pos + 4 \<le> length buf \<Longrightarrow> read32 buf pos = Ok (ntohl (load32 (segment pos 4 buf)))"
  by (simp add: read32_def read_buf_inside)

lemma read_buf_Ok_D: "read_buf buf pos n = Ok s \<Longrightarrow> pos + n \<le> length buf + 1"
  by (simp add: read_buf_def split: if_splits)

lemma read_buf_outside: "length buf + 1 < pos + n \<Longrightarrow> read_buf buf pos n = Undefined"
  by (simp add: read_buf_def)

lemma read_buf_not_Throws [simp]: "read_buf buf pos n \<noteq> Throws e" "read_buf buf pos n \<noteq> Out_of_fuel"
  by (simp_all add: read_buf_def)

end
