(* ===== verification/Crc32.thy ===== *)
theory Crc32
  imports Prelude
begin

text \<open>
  The CRC-32 of the TinyPB codec (\<open>rpc/src/tinypb_codec.cc\<close>): the table built by
  \<open>init_crc32_table\<close> and the table-driven loop \<open>crc32\<close>. The lemmas relate the loop to the
  bit-serial division it stands for, and show what corruption the checksum detects.
\<close>

section \<open>The code\<close>

text \<open>One turn of the inner loop of \<open>init_crc32_table\<close>.\<close>

definition crc_round :: "u32 \<Rightarrow> u32" where
  "crc_round crc = (if crc AND 1 \<noteq> 0 then 0xEDB88320 XOR drop_bit 1 crc else drop_bit 1 crc)"

definition init_crc32_table :: "u32 list" where
  "init_crc32_table = map (\<lambda>i. (crc_round ^^ 8) (of_nat i)) [0..<256]"

text \<open>\<open>data[i]\<close> is a signed \<open>char\<close>, widened to 32 bits with its sign.\<close>

definition char_u8 :: "char \<Rightarrow> u8" where
  "char_u8 c = of_nat (of_char c)"

definition crc_step :: "u32 \<Rightarrow> char \<Rightarrow> u32" where
  "crc_step crc c =
     init_crc32_table ! unat ((crc XOR scast (char_u8 c)) AND 0xFF) XOR drop_bit 8 crc"

definition crc32 :: "string \<Rightarrow> u32" where
  "crc32 data = foldl crc_step 0xFFFFFFFF data XOR 0xFFFFFFFF"

section \<open>The bit-serial reference\<close>

definition crc_bits :: "u32 \<Rightarrow> char \<Rightarrow> u32" where
  "crc_bits crc c = (crc_round ^^ 8) (crc XOR ucast (char_u8 c))"

definition crc32_reference :: "string \<Rightarrow> u32" where
  "crc32_reference data = foldl crc_bits 0xFFFFFFFF data XOR 0xFFFFFFFF"

lemma crc_round_odd: "crc_round c = (if odd c then 0xEDB88320 XOR drop_bit 1 c else drop_bit 1 c)"
  by (cases "odd c") (simp_all add: crc_round_def and_one_eq odd_iff_mod_2_eq_one even_iff_mod_2_eq_zero)

lemma crc_round_xor: "crc_round (a XOR b) = crc_round a XOR crc_round b"
  by (auto simp: crc_round_odd even_xor_iff ac_simps)

lemma funpow_crc_round_xor: "(crc_round ^^ n) (a XOR b) = (crc_round ^^ n) a XOR (crc_round ^^ n) b"
  by (induction n) (simp_all add: crc_round_xor)

lemma xor_cancel: "a XOR c = b XOR c \<longleftrightarrow> a = b" for a b c :: "'a::len word"
  by (metis xor_self_eq xor.right_neutral xor.assoc)

lemma xor_cancel_left: "c XOR a = c XOR b \<longleftrightarrow> a = b" for a b c :: "'a::len word"
  by (metis xor_cancel xor.commute)

lemma xor_eq_0_iff: "a XOR b = 0 \<longleftrightarrow> a = b" for a b :: "'a::len word"
  by (metis xor_self_eq xor.right_neutral xor.assoc)

lemma crc_round_eq_0: "crc_round x = 0 \<Longrightarrow> x = 0"
proof -
  assume z: "crc_round x = 0"
  show "x = 0"
  proof (cases "odd x")
    case True
    with z have "0xEDB88320 XOR drop_bit 1 x = 0" by (simp add: crc_round_odd)
    then have "drop_bit 1 x = 0xEDB88320" by (metis xor_eq_0_iff)
    then have "bit (drop_bit 1 x) 31" by (simp only:) simp
    moreover have "\<not> bit (drop_bit 1 x) 31"
      using bit_imp_le_length[of x 32] by (auto simp: bit_drop_bit_eq)
    ultimately show ?thesis by blast
  next
    case False
    with z have d: "drop_bit 1 x = 0" by (simp add: crc_round_odd)
    have "bit x (Suc n) = bit (drop_bit 1 x) n" for n by (simp add: bit_drop_bit_eq)
    then have "\<not> bit x (Suc n)" for n by (simp only: d) simp
    moreover have "\<not> bit x 0" using False by (simp add: bit_0)
    ultimately have "\<not> bit x n" for n by (cases n) auto
    then show ?thesis by (simp add: bit_eq_iff)
  qed
qed

lemma crc_round_inject: "crc_round a = crc_round b \<Longrightarrow> a = b"
  by (metis crc_round_eq_0 crc_round_xor xor_eq_0_iff)

lemma funpow_crc_round_inject: "(crc_round ^^ n) a = (crc_round ^^ n) b \<Longrightarrow> a = b"
  by (induction n) (auto dest: crc_round_inject)

lemma funpow_crc_round_low_zero:
  "(\<And>i. i < k \<Longrightarrow> \<not> bit x i) \<Longrightarrow> (crc_round ^^ k) x = drop_bit k x"
proof (induction k)
  case 0
  then show ?case by simp
next
  case (Suc k)
  then have IH: "(crc_round ^^ k) x = drop_bit k x" by simp
  have "even (drop_bit k x)" using Suc.prems[of k] by (simp add: bit_iff_odd_drop_bit)
  then have "crc_round (drop_bit k x) = drop_bit 1 (drop_bit k x)" by (simp add: crc_round_odd)
  with IH show ?case by simp
qed

lemma funpow_crc_round_push:
  "drop_bit k (push_bit k x) = x \<Longrightarrow> (crc_round ^^ k) (push_bit k x) = x"
  by (subst funpow_crc_round_low_zero) (auto simp: bit_push_bit_iff)

lemma byte_mask: "(0xFF :: u32) = mask 8"
  by (simp add: mask_eq_exp_minus_1)

lemma mask_byte_split: "x = (x AND mask 8) XOR (x AND NOT (mask 8))" for x :: u32
  by (rule bit_eqI) (auto simp: bit_and_iff bit_xor_iff bit_not_iff)

lemma low_byte_xor: "(crc XOR scast b) AND mask 8 = (crc XOR ucast b) AND mask 8" for b :: u8 and crc :: u32
proof (rule bit_word_eqI)
  fix n assume "n < LENGTH(32)"
  show "bit ((crc XOR scast b) AND mask 8) n = bit ((crc XOR ucast b) AND mask 8) n"
  proof (cases "n < 8")
    case True
    then have "min 7 n = n" by simp
    with \<open>n < LENGTH(32)\<close> show ?thesis
      by (simp add: bit_and_iff bit_xor_iff bit_mask_iff bit_signed_iff bit_unsigned_iff)
  next
    case False
    then show ?thesis by (simp add: bit_and_iff bit_mask_iff)
  qed
qed

lemma init_crc32_table_nth: "n < 256 \<Longrightarrow> init_crc32_table ! n = (crc_round ^^ 8) (of_nat n)"
  by (simp add: init_crc32_table_def)

lemma unat_byte_less: "unat (x AND mask 8) < 256" for x :: u32
proof -
  have "x AND mask 8 \<le> mask 8" by (rule word_and_le1)
  then show ?thesis by (simp add: word_le_nat_alt mask_eq_exp_minus_1)
qed

text \<open>The table step and the eight bit-serial rounds are the same function.\<close>

lemma crc_step_eq_crc_bits: "crc_step crc c = crc_bits crc c"
proof -
  let ?b = "char_u8 c" and ?x = "crc XOR ucast (char_u8 c) :: u32"
  have "init_crc32_table ! unat ((crc XOR scast ?b) AND mask 8) = (crc_round ^^ 8) (?x AND mask 8)"
    by (simp add: init_crc32_table_nth unat_byte_less low_byte_xor)
  moreover have "(crc_round ^^ 8) (?x AND NOT (mask 8)) = drop_bit 8 (?x AND NOT (mask 8))"
    by (rule funpow_crc_round_low_zero) (simp add: bit_and_iff bit_not_iff bit_mask_iff)
  moreover have "drop_bit 8 (?x AND NOT (mask 8)) = drop_bit 8 crc"
    by (rule bit_eqI)
      (auto simp: bit_drop_bit_eq bit_and_iff bit_not_iff bit_xor_iff bit_mask_iff bit_unsigned_iff
        dest: bit_imp_le_length)
  ultimately have "crc_step crc c
      = (crc_round ^^ 8) (?x AND mask 8) XOR (crc_round ^^ 8) (?x AND NOT (mask 8))"
    by (simp add: crc_step_def byte_mask)
  also have "\<dots> = (crc_round ^^ 8) ((?x AND mask 8) XOR (?x AND NOT (mask 8)))"
    by (simp only: funpow_crc_round_xor)
  finally show ?thesis by (simp only: mask_byte_split [symmetric] crc_bits_def)
qed

lemma crc_step_crc_bits: "crc_step = crc_bits"
  by (intro ext) (rule crc_step_eq_crc_bits)

section \<open>What the checksum detects\<close>

lemma char_u8_inject: "char_u8 a = char_u8 b \<Longrightarrow> a = b"
proof -
  assume "char_u8 a = char_u8 b"
  then have "unat (char_u8 a) = unat (char_u8 b)" by simp
  then have "(of_char a :: nat) = of_char b"
    using of_char_less_256[of a] of_char_less_256[of b] by (simp add: char_u8_def unat_of_nat)
  then show ?thesis by simp
qed

lemma ucast_u8_inject: "(ucast a :: u32) = ucast b \<Longrightarrow> a = b" for a b :: u8
proof (rule bit_word_eqI)
  fix n assume eq: "(ucast a :: u32) = ucast b" and n: "n < LENGTH(8)"
  have "bit w n = bit (ucast w :: u32) n" for w :: u8 using n by (simp add: bit_unsigned_iff)
  with eq show "bit a n = bit b n" by metis
qed

lemma crc_step_inject_state: "crc_step crc c = crc_step crc' c \<Longrightarrow> crc = crc'"
  unfolding crc_step_crc_bits crc_bits_def
  by (drule funpow_crc_round_inject) (simp add: xor_cancel)

lemma foldl_crc_inject_state: "foldl crc_step crc s = foldl crc_step crc' s \<Longrightarrow> crc = crc'"
  by (induction s arbitrary: crc crc') (auto dest: crc_step_inject_state)

text \<open>The value of up to four consecutive bytes, the first the least significant.\<close>

fun burst :: "string \<Rightarrow> u32" where
  "burst [] = 0"
| "burst (c # s) = ucast (char_u8 c) XOR push_bit 8 (burst s)"

lemma burst_high_zero: "8 * length s \<le> n \<Longrightarrow> \<not> bit (burst s) n"
proof (induction s arbitrary: n)
  case Nil
  then show ?case by simp
next
  case (Cons c s)
  then have "\<not> bit (burst s) (n - 8)" by simp
  moreover have "\<not> bit (char_u8 c) n" using Cons.prems by (auto dest: bit_imp_le_length)
  ultimately show ?case by (simp add: bit_xor_iff bit_push_bit_iff bit_unsigned_iff)
qed

lemma burst_push_drop:
  assumes "length s \<le> 3"
  shows "drop_bit 8 (push_bit 8 (burst s)) = burst s"
proof (rule bit_word_eqI)
  fix n assume "n < LENGTH(32)"
  then show "bit (drop_bit 8 (push_bit 8 (burst s))) n = bit (burst s) n"
    using burst_high_zero[of s n] assms
    by (cases "n < 24") (auto simp: bit_drop_bit_eq bit_push_bit_iff)
qed

lemma foldl_crc_burst:
  "length s \<le> 4 \<Longrightarrow> foldl crc_step crc s = (crc_round ^^ (8 * length s)) (crc XOR burst s)"
proof (induction s arbitrary: crc)
  case Nil
  then show ?case by simp
next
  case (Cons c s)
  have "foldl crc_step crc (c # s)
      = (crc_round ^^ (8 * length s)) (crc_bits crc c XOR burst s)"
    using Cons by (simp add: crc_step_crc_bits)
  also have "crc_bits crc c XOR burst s = (crc_round ^^ 8) (crc XOR burst (c # s))"
  proof -
    have "burst s = (crc_round ^^ 8) (push_bit 8 (burst s))"
      using Cons.prems by (simp only: funpow_crc_round_push [OF burst_push_drop] list.size)
    then have "crc_bits crc c XOR burst s
        = (crc_round ^^ 8) (crc XOR ucast (char_u8 c)) XOR (crc_round ^^ 8) (push_bit 8 (burst s))"
      by (simp only: crc_bits_def)
    then show ?thesis by (simp only: funpow_crc_round_xor [symmetric] xor.assoc burst.simps)
  qed
  also have "(crc_round ^^ (8 * length s)) ((crc_round ^^ 8) (crc XOR burst (c # s)))
      = (crc_round ^^ (8 * length (c # s))) (crc XOR burst (c # s))"
    by (simp only: funpow_add [THEN fun_cong, unfolded comp_def, symmetric]) (simp add: add.commute)
  finally show ?case .
qed

lemma burst_inject: "length s = length t \<Longrightarrow> length t \<le> 4 \<Longrightarrow> burst s = burst t \<Longrightarrow> s = t"
proof (induction s t rule: list_induct2)
  case Nil
  then show ?case by simp
next
  case (Cons c s d t)
  have low: "take_bit 8 (burst (e # r)) = (ucast (char_u8 e) :: u32)" for e r
    by (rule bit_eqI)
      (auto simp: bit_take_bit_iff bit_xor_iff bit_push_bit_iff bit_unsigned_iff dest: bit_imp_le_length)
  have high: "drop_bit 8 (burst (e # r)) = drop_bit 8 (push_bit 8 (burst r))" for e r
    by (rule bit_eqI)
      (auto simp: bit_drop_bit_eq bit_xor_iff bit_push_bit_iff bit_unsigned_iff dest: bit_imp_le_length)
  from Cons.prems low[of c s] low[of d t] have "(ucast (char_u8 c) :: u32) = ucast (char_u8 d)" by simp
  then have "c = d" by (rule char_u8_inject [OF ucast_u8_inject])
  moreover from Cons.prems high[of c s] high[of d t] Cons.hyps have "burst s = burst t"
    by (simp add: burst_push_drop)
  ultimately show ?case using Cons by simp
qed

lemma crc32_burst:
  assumes "length s = length t" and "length t \<le> 4"
    and "crc32 (xs @ s @ ys) = crc32 (xs @ t @ ys)"
  shows "s = t"
proof -
  let ?c = "foldl crc_step 0xFFFFFFFF xs"
  have "foldl crc_step (foldl crc_step ?c s) ys = foldl crc_step (foldl crc_step ?c t) ys"
    using assms(3) by (simp add: crc32_def xor_cancel del: foldl_Cons)
  then have "foldl crc_step ?c s = foldl crc_step ?c t" by (rule foldl_crc_inject_state)
  then have "(crc_round ^^ (8 * length t)) (?c XOR burst s) = (crc_round ^^ (8 * length t)) (?c XOR burst t)"
    using assms(1,2) by (simp add: foldl_crc_burst)
  then have "?c XOR burst s = ?c XOR burst t" by (rule funpow_crc_round_inject)
  then have "burst s = burst t" by (simp only: xor_cancel_left)
  with assms(1,2) show ?thesis by (rule burst_inject)
qed

section \<open>Properties\<close>

text \<open>C21: The table-driven checksum loop of the codec computes the bit-serial CRC-32 (reflected
  polynomial 0xEDB88320, initial value and final XOR 0xFFFFFFFF) of its input, although each
  \<open>char\<close> is sign-extended before it is mixed in.\<close>

theorem crc32_is_bit_serial: "crc32 data = crc32_reference data"
  by (simp add: crc32_def crc32_reference_def crc_step_crc_bits)

text \<open>Any corruption confined to at most four consecutive bytes changes the checksum.\<close>

theorem crc32_detects_bursts:
  assumes "length s = length t" and "length t \<le> 4" and "s \<noteq> t"
  shows "crc32 (xs @ s @ ys) \<noteq> crc32 (xs @ t @ ys)"
  using crc32_burst [OF assms(1,2)] assms(3) by blast

theorem crc32_detects_bursts_witness:
  "crc32 (''pb'' @ ''abcd'' @ ''end'') \<noteq> crc32 (''pb'' @ ''wxyz'' @ ''end'')"
  by (rule crc32_detects_bursts) simp_all

end
