(* ===== verification/TinyPbCodec.thy ===== *)
theory TinyPbCodec
  imports Crc32
begin

text \<open>
  The TinyPB frame: \<open>rpc/src/tinypb_constants.h\<close>, \<open>rpc/src/tinypb_struct.h\<close> and
  \<open>rpc/src/tinypb_codec.cc\<close>. A frame is
  \<^verbatim>\<open>start pk_len req_len req service_len service err_code info_len info pb_data checksum end\<close>,
  every integer four bytes, most significant first. \<open>decode\<close> trusts the three length fields,
  so reads beyond the buffer are part of its model.
\<close>

section \<open>Constants and the message structure\<close>

definition TINYPB_START :: char where "TINYPB_START = CHR 0x02"
definition TINYPB_END :: char where "TINYPB_END = CHR 0x03"

definition TINYPB_FIXED_HEADER_SIZE :: nat where
  "TINYPB_FIXED_HEADER_SIZE = 1 + 4 + 4 + 4 + 4 + 4 + 4 + 1"

record TinyPbStruct =
  msg_req :: string
  service_full_name :: string
  err_code :: u32
  err_info :: string
  pb_data :: string

definition new_TinyPbStruct :: TinyPbStruct where
  "new_TinyPbStruct =
     \<lparr>msg_req = [], service_full_name = [], err_code = 0, err_info = [], pb_data = []\<rparr>"

section \<open>Encoding\<close>

definition encode_uint32 :: "u32 \<Rightarrow> u32" where "encode_uint32 hostlong = htonl hostlong"
definition decode_uint32 :: "u32 \<Rightarrow> u32" where "decode_uint32 netlong = ntohl netlong"

text \<open>The sizes are of type \<open>size_t\<close>: their sum is taken modulo \<open>2 ^ 64\<close>.\<close>

definition encode :: "TinyPbStruct \<Rightarrow> errno + string" where
  "encode data =
     (let msg_req_len = length (msg_req data);
          service_name_len = length (service_full_name data);
          err_info_len = length (err_info data);
          pb_data_len = length (pb_data data);
          variable_size = (msg_req_len + service_name_len + err_info_len + pb_data_len) mod 2 ^ 64;
          total_len = TINYPB_FIXED_HEADER_SIZE + variable_size
      in if variable_size > 2 ^ 64 - 1 - TINYPB_FIXED_HEADER_SIZE then Inl EMSGSIZE
         else
           let written = [TINYPB_START]
                 @ store32 (encode_uint32 (of_nat (total_len - 2)))
                 @ store32 (encode_uint32 (of_nat msg_req_len))
                 @ msg_req data
                 @ store32 (encode_uint32 (of_nat service_name_len))
                 @ service_full_name data
                 @ store32 (encode_uint32 (err_code data))
                 @ store32 (encode_uint32 (of_nat err_info_len))
                 @ err_info data
                 @ pb_data data;
               checksum_len = total_len - 1 - 4 - 1;
               checksum = encode_uint32 (crc32 (segment 1 checksum_len written))
           in Inr (written @ store32 checksum @ [TINYPB_END]))"

section \<open>Decoding\<close>

text \<open>
  The result is the return value (\<open>None\<close> for 0, \<open>Some e\<close> for -1 with \<open>errno = e\<close>) and the
  structure passed by reference, whose fields are assigned as the frame is read. A \<open>pb_data\<close>
  length below zero wraps to a huge \<open>size_t\<close>, for which \<open>std::string::assign\<close> throws.
\<close>

definition decode :: "string \<Rightarrow> TinyPbStruct \<Rightarrow> (errno option \<times> TinyPbStruct) cxx" where
  "decode inp data =
     (if length inp < TINYPB_FIXED_HEADER_SIZE then Ok (Some EINVAL, data)
      else cbind (read_buf inp 0 1) (\<lambda>start.
        if start \<noteq> [TINYPB_START] then Ok (Some EBADMSG, data)
        else cbind (read32 inp 1) (\<lambda>pk_len.
          if unat (pk_len + 2) \<noteq> length inp then Ok (Some EBADMSG, data)
          else cbind (read32 inp 5) (\<lambda>msg_req_len.
            let pos = 9 in
            cbind (read_buf inp pos (unat msg_req_len)) (\<lambda>req.
            let data = data\<lparr>msg_req := req\<rparr>; pos = pos + unat msg_req_len in
            cbind (read32 inp pos) (\<lambda>service_name_len.
            let pos = pos + 4 in
            cbind (read_buf inp pos (unat service_name_len)) (\<lambda>service.
            let data = data\<lparr>service_full_name := service\<rparr>; pos = pos + unat service_name_len in
            cbind (read32 inp pos) (\<lambda>code.
            let data = data\<lparr>err_code := code\<rparr>; pos = pos + 4 in
            cbind (read32 inp pos) (\<lambda>err_info_len.
            let pos = pos + 4 in
            cbind (read_buf inp pos (unat err_info_len)) (\<lambda>info.
            let data = data\<lparr>err_info := info\<rparr>; pos = pos + unat err_info_len;
                pb_data_end = length inp - 4 - 1 in
            cbind (if pos \<le> pb_data_end then read_buf inp pos (pb_data_end - pos)
                   else Throws Length_error) (\<lambda>pb.
            let data = data\<lparr>pb_data := pb\<rparr> in
            cbind (read32 inp pb_data_end) (\<lambda>expected_checksum.
            let actual_checksum = crc32 (segment 1 (pb_data_end - 1) inp) in
            if actual_checksum \<noteq> expected_checksum then Ok (Some EBADMSG, data)
            else cbind (read_buf inp (length inp - 1) 1) (\<lambda>last_byte.
            if last_byte \<noteq> [TINYPB_END] then Ok (Some EBADMSG, data)
            else Ok (None, data))))))))))))))"

section \<open>The bytes of a frame\<close>

text \<open>What lies between the start byte and the checksum, and the whole frame.\<close>

definition payload_size :: "TinyPbStruct \<Rightarrow> nat" where
  "payload_size d = length (msg_req d) + length (service_full_name d)
     + length (err_info d) + length (pb_data d)"

definition frame_body :: "TinyPbStruct \<Rightarrow> string" where
  "frame_body d =
     store32 (htonl (of_nat (24 + payload_size d)))
     @ store32 (htonl (of_nat (length (msg_req d)))) @ msg_req d
     @ store32 (htonl (of_nat (length (service_full_name d)))) @ service_full_name d
     @ store32 (htonl (err_code d))
     @ store32 (htonl (of_nat (length (err_info d)))) @ err_info d @ pb_data d"

definition frame :: "TinyPbStruct \<Rightarrow> string" where
  "frame d = TINYPB_START # frame_body d @ store32 (htonl (crc32 (frame_body d))) @ [TINYPB_END]"

lemma length_frame_body: "length (frame_body d) = 20 + payload_size d"
  by (simp add: frame_body_def payload_size_def)

lemma length_frame: "length (frame d) = 26 + payload_size d"
  by (simp add: frame_def length_frame_body)

lemma encode_eq_frame:
  assumes "payload_size d < 2 ^ 64 - 26"
  shows "encode d = Inr (frame d)"
proof -
  let ?w = "TINYPB_START # frame_body d"
  have seg: "segment 1 (20 + payload_size d) ?w = frame_body d"
    by (simp add: segment_def length_frame_body)
  show ?thesis
    using assms seg unfolding encode_def Let_def payload_size_def [symmetric]
    by (simp add: frame_def frame_body_def TINYPB_FIXED_HEADER_SIZE_def encode_uint32_def
        del: of_nat_add)
qed

lemma encode_small: "encode d = Inr out \<Longrightarrow> length out < 2 ^ 32 \<Longrightarrow> out = frame d \<and> payload_size d < 2 ^ 32 - 26"
proof -
  assume e: "encode d = Inr out" and l: "length out < 2 ^ 32"
  have "length out = 26 + payload_size d"
    using e by (auto simp: encode_def payload_size_def Let_def split: if_splits)
  with l have p: "payload_size d < 2 ^ 32 - 26" by simp
  then have "encode d = Inr (frame d)" by (intro encode_eq_frame) simp
  with e p show ?thesis by simp
qed

section \<open>Where the fields of a frame lie\<close>

definition be32_at :: "nat \<Rightarrow> string \<Rightarrow> u32" where
  "be32_at p s = ntohl (load32 (segment p 4 s))"

definition req_len :: "string \<Rightarrow> nat" where "req_len s = unat (be32_at 5 s)"
definition service_len :: "string \<Rightarrow> nat" where "service_len s = unat (be32_at (9 + req_len s) s)"
definition code_pos :: "string \<Rightarrow> nat" where "code_pos s = 13 + req_len s + service_len s"
definition info_len :: "string \<Rightarrow> nat" where "info_len s = unat (be32_at (code_pos s + 4) s)"
definition data_pos :: "string \<Rightarrow> nat" where "data_pos s = code_pos s + 8 + info_len s"

text \<open>The three length fields leave room for the checksum and the end byte.\<close>

definition lengths_fit :: "string \<Rightarrow> bool" where
  "lengths_fit s \<longleftrightarrow> data_pos s + 5 \<le> length s"

definition head_ok :: "string \<Rightarrow> bool" where
  "head_ok s \<longleftrightarrow> segment 0 1 s = [TINYPB_START] \<and> unat (be32_at 1 s + 2) = length s"

definition tail_ok :: "string \<Rightarrow> bool" where
  "tail_ok s \<longleftrightarrow> crc32 (segment 1 (length s - 6) s) = be32_at (length s - 5) s
     \<and> segment (length s - 1) 1 s = [TINYPB_END]"

definition parsed :: "string \<Rightarrow> TinyPbStruct" where
  "parsed s =
     \<lparr>msg_req = segment 9 (req_len s) s,
      service_full_name = segment (13 + req_len s) (service_len s) s,
      err_code = be32_at (code_pos s) s,
      err_info = segment (code_pos s + 8) (info_len s) s,
      pb_data = segment (data_pos s) (length s - 5 - data_pos s) s\<rparr>"

lemmas field_defs = req_len_def service_len_def code_pos_def info_len_def data_pos_def

lemma read32_be: "p + 4 \<le> length s \<Longrightarrow> read32 s p = Ok (be32_at p s)"
  by (simp add: read32_inside be32_at_def)

lemma read32_Ok_bound: "read32 s p = Ok w \<Longrightarrow> p + 4 \<le> length s + 1"
  by (auto simp: read32_def cxx_simps dest: read_buf_Ok_D)

lemma read32_not_Throws [simp]: "read32 s p \<noteq> Throws e" "read32 s p \<noteq> Out_of_fuel"
  by (simp_all add: read32_def read_buf_def)

text \<open>When the lengths fit, the outcome of \<open>decode\<close> is determined by the two checks.\<close>

lemma decode_fits:
  assumes "26 \<le> length s" and "lengths_fit s"
  shows "decode s d =
    (if \<not> head_ok s then Ok (Some EBADMSG, d)
     else if \<not> tail_ok s then Ok (Some EBADMSG, parsed s) else Ok (None, parsed s))"
proof -
  have b: "13 + req_len s + 4 \<le> length s" "code_pos s + 4 + 4 \<le> length s"
    "data_pos s \<le> length s - 4 - 1"
    using assms by (simp_all add: lengths_fit_def data_pos_def code_pos_def)
  have "read32 s 1 = Ok (be32_at 1 s)" "read32 s 5 = Ok (be32_at 5 s)"
    "read_buf s 0 1 = Ok (segment 0 1 s)" "read_buf s (length s - 1) 1 = Ok (segment (length s - 1) 1 s)"
    "read32 s (length s - 4 - 1) = Ok (be32_at (length s - 5) s)"
    using assms(1) by (simp_all add: read32_be read_buf_inside)
  moreover have "read_buf s 9 (req_len s) = Ok (segment 9 (req_len s) s)"
    "read32 s (9 + req_len s) = Ok (be32_at (9 + req_len s) s)"
    "read_buf s (9 + req_len s + 4) (service_len s) = Ok (segment (13 + req_len s) (service_len s) s)"
    "read32 s (9 + req_len s + 4 + service_len s) = Ok (be32_at (code_pos s) s)"
    "read32 s (9 + req_len s + 4 + service_len s + 4) = Ok (be32_at (code_pos s + 4) s)"
    "read_buf s (9 + req_len s + 4 + service_len s + 4 + 4) (info_len s)
       = Ok (segment (code_pos s + 8) (info_len s) s)"
    "read_buf s (9 + req_len s + 4 + service_len s + 4 + 4 + info_len s)
       (length s - 4 - 1 - (9 + req_len s + 4 + service_len s + 4 + 4 + info_len s))
       = Ok (segment (data_pos s) (length s - 5 - data_pos s) s)"
    using b by (simp_all add: read32_be read_buf_inside code_pos_def data_pos_def add.commute add.left_commute)
  moreover have "9 + req_len s + 4 + service_len s + 4 + 4 + info_len s \<le> length s - 4 - 1"
    using b by (simp add: data_pos_def code_pos_def)
  ultimately show ?thesis
    using assms(1)
    unfolding decode_def Let_def head_ok_def tail_ok_def parsed_def TINYPB_FIXED_HEADER_SIZE_def
      req_len_def [symmetric] service_len_def [symmetric] info_len_def [symmetric]
    by (simp add: req_len_def [symmetric] service_len_def [symmetric] info_len_def [symmetric])
qed

lemma decode_short: "length s < 26 \<Longrightarrow> decode s d = Ok (Some EINVAL, d)"
  by (simp add: decode_def TINYPB_FIXED_HEADER_SIZE_def)

lemma decode_bad_head: "26 \<le> length s \<Longrightarrow> \<not> head_ok s \<Longrightarrow> decode s d = Ok (Some EBADMSG, d)"
  by (auto simp: decode_def TINYPB_FIXED_HEADER_SIZE_def head_ok_def read_buf_inside read32_be)

lemma decode_returns_fits:
  assumes "26 \<le> length s" and "head_ok s" and ret: "decode s d = Ok r"
  shows "lengths_fit s"
proof -
  have head: "read_buf s 0 1 = Ok [TINYPB_START]" "read32 s 1 = Ok (be32_at 1 s)"
    "unat (be32_at 1 s + 2) = length s" "read32 s 5 = Ok (be32_at 5 s)"
    using assms(1,2) by (simp_all add: head_ok_def read_buf_inside read32_be)
  have len: "\<not> length s < TINYPB_FIXED_HEADER_SIZE"
    using assms(1) by (simp add: TINYPB_FIXED_HEADER_SIZE_def)
  obtain w2 w3 w4 where
    r2: "read32 s (9 + req_len s) = Ok w2" and
    r4: "read32 s (9 + req_len s + 4 + unat w2 + 4) = Ok w4" and
    fit: "9 + req_len s + 4 + unat w2 + 4 + 4 + unat w4 \<le> length s - 4 - 1"
    using ret unfolding decode_def Let_def head cbind.simps simp_thms if_False if_not_P [OF len]
    by (auto simp: cxx_simps req_len_def split: if_splits)
  from fit assms(1) have "w2 = be32_at (9 + req_len s) s"
    using r2 read32_be[of "9 + req_len s" s] by simp
  then have "unat w2 = service_len s" by (simp add: service_len_def)
  with fit assms(1) r4 read32_be[of "code_pos s + 4" s] have "unat w4 = info_len s"
    by (simp add: info_len_def code_pos_def add.commute add.left_commute)
  with fit \<open>unat w2 = service_len s\<close> show ?thesis
    using assms(1) by (simp add: lengths_fit_def data_pos_def code_pos_def)
qed

lemma decode_returns_iff:
  "returns (decode s d) \<longleftrightarrow> length s < 26 \<or> \<not> head_ok s \<or> lengths_fit s"
proof (cases "length s < 26 \<or> \<not> head_ok s")
  case True
  then show ?thesis by (cases "length s < 26") (auto simp: decode_short decode_bad_head)
next
  case False
  then have n: "26 \<le> length s" and h: "head_ok s" by auto
  show ?thesis
  proof (cases "lengths_fit s")
    case True
    with n h show ?thesis by (simp add: decode_fits)
  next
    case False
    with n h have "\<not> returns (decode s d)"
      by (auto simp: returns_def dest: decode_returns_fits)
    with n h False show ?thesis by simp
  qed
qed

lemma decode_success_iff:
  "decode s d0 = Ok (None, d) \<longleftrightarrow>
     26 \<le> length s \<and> head_ok s \<and> lengths_fit s \<and> tail_ok s \<and> d = parsed s"
proof (cases "26 \<le> length s \<and> head_ok s \<and> lengths_fit s")
  case True
  then show ?thesis by (auto simp: decode_fits)
next
  case False
  then show ?thesis
    using decode_short[of s d0] decode_bad_head[of s d0] decode_returns_fits[of s d0]
    by (metis Pair_inject cxx.inject(1) not_le option.distinct(1))
qed

section \<open>Decoding inverts encoding\<close>

lemma be32_at_mid: "p = length xs \<Longrightarrow> be32_at p (xs @ store32 (htonl w) @ ys) = w"
  by (simp add: be32_at_def segment_mid_eq)

lemma be32_at_inverse: "p + 4 \<le> length s \<Longrightarrow> store32 (htonl (be32_at p s)) = segment p 4 s"
  by (simp add: be32_at_def store_load32 length_segment)

lemma be32_at_load: "p + 4 \<le> length s \<Longrightarrow> be32_at p s = load32 (rev (segment p 4 s))"
  by (simp add: be32_at_def ntohl_load32 length_segment)

lemma unat_of_nat_u32: "n < 2 ^ 32 \<Longrightarrow> unat (of_nat n :: u32) = n"
  by (simp add: unat_of_nat)

lemma frame_shape:
  "frame d = [TINYPB_START]
     @ store32 (htonl (of_nat (24 + payload_size d)))
     @ store32 (htonl (of_nat (length (msg_req d)))) @ msg_req d
     @ store32 (htonl (of_nat (length (service_full_name d)))) @ service_full_name d
     @ store32 (htonl (err_code d))
     @ store32 (htonl (of_nat (length (err_info d)))) @ err_info d @ pb_data d
     @ store32 (htonl (crc32 (frame_body d))) @ [TINYPB_END]"
  by (simp add: frame_def frame_body_def)

lemma frame_field_positions:
  assumes "payload_size d < 2 ^ 32 - 26"
  shows "req_len (frame d) = length (msg_req d)"
    and "service_len (frame d) = length (service_full_name d)"
    and "info_len (frame d) = length (err_info d)"
    and "be32_at 1 (frame d) = of_nat (24 + payload_size d)"
    and "be32_at (code_pos (frame d)) (frame d) = err_code d"
proof -
  have small: "length (msg_req d) < 2 ^ 32" "length (service_full_name d) < 2 ^ 32"
    "length (err_info d) < 2 ^ 32"
    using assms by (simp_all add: payload_size_def)
  let ?h = "[TINYPB_START] @ store32 (htonl (of_nat (24 + payload_size d)))"
  let ?m = "?h @ store32 (htonl (of_nat (length (msg_req d)))) @ msg_req d"
  let ?s = "?m @ store32 (htonl (of_nat (length (service_full_name d)))) @ service_full_name d"
  show "be32_at 1 (frame d) = of_nat (24 + payload_size d)"
    using be32_at_mid[of 1 "[TINYPB_START]"] by (simp only: frame_shape) simp
  show m: "req_len (frame d) = length (msg_req d)"
    using be32_at_mid[of 5 ?h] small by (simp only: frame_shape append_assoc req_len_def)
      (simp add: unat_of_nat_u32)
  show s: "service_len (frame d) = length (service_full_name d)"
    using be32_at_mid[of "9 + length (msg_req d)" ?m] small
    by (simp only: service_len_def m) (simp add: frame_shape unat_of_nat_u32)
  have c: "code_pos (frame d) = 13 + length (msg_req d) + length (service_full_name d)"
    by (simp add: code_pos_def m s)
  show "be32_at (code_pos (frame d)) (frame d) = err_code d"
    using be32_at_mid[of "13 + length (msg_req d) + length (service_full_name d)" ?s]
    by (simp only: c) (simp add: frame_shape add.assoc)
  show "info_len (frame d) = length (err_info d)"
    using be32_at_mid[of "17 + length (msg_req d) + length (service_full_name d)"
        "?s @ store32 (htonl (err_code d))"] small
    by (simp only: info_len_def c) (simp add: frame_shape unat_of_nat_u32 add.assoc)
qed

lemma parsed_frame:
  assumes "payload_size d < 2 ^ 32 - 26"
  shows "parsed (frame d) = d"
proof -
  note pos = frame_field_positions [OF assms]
  let ?h = "[TINYPB_START] @ store32 (htonl (of_nat (24 + payload_size d)))
    @ store32 (htonl (of_nat (length (msg_req d))))"
  let ?s = "?h @ msg_req d @ store32 (htonl (of_nat (length (service_full_name d))))"
  let ?i = "?s @ service_full_name d @ store32 (htonl (err_code d))
    @ store32 (htonl (of_nat (length (err_info d))))"
  let ?e = "store32 (htonl (crc32 (frame_body d))) @ [TINYPB_END]"
  have c: "code_pos (frame d) = 13 + length (msg_req d) + length (service_full_name d)"
    by (simp add: code_pos_def pos)
  have dp: "data_pos (frame d) = length ?i + length (err_info d)"
    by (simp add: data_pos_def c pos)
  have l: "length (frame d) - (5 + data_pos (frame d)) = length (pb_data d)"
    by (simp add: length_frame payload_size_def dp)
  have shape: "frame d = ?i @ err_info d @ pb_data d @ ?e" by (simp add: frame_shape)
  have "segment 9 (length (msg_req d)) (frame d) = msg_req d"
    using segment_mid_eq[of 9 ?h "length (msg_req d)" "msg_req d"] by (simp add: frame_shape)
  moreover have "segment (13 + length (msg_req d)) (length (service_full_name d)) (frame d)
      = service_full_name d"
    using segment_mid_eq[of "13 + length (msg_req d)" ?s] by (simp add: frame_shape)
  moreover have "segment (code_pos (frame d) + 8) (length (err_info d)) (frame d) = err_info d"
    by (subst shape, rule segment_mid_eq) (simp_all add: c)
  moreover have "segment (data_pos (frame d)) (length (pb_data d)) (frame d) = pb_data d"
  proof -
    have "segment p (length (pb_data d)) (frame d) = pb_data d" if "p = length (?i @ err_info d)" for p
      using segment_mid_eq[OF that refl, of "pb_data d" ?e] by (simp add: shape)
    from this [OF refl] show ?thesis unfolding dp by (simp add: add.assoc)
  qed
  ultimately show ?thesis by (simp add: parsed_def pos l)
qed

lemma checks_frame:
  assumes "payload_size d < 2 ^ 32 - 26"
  shows "head_ok (frame d)" and "lengths_fit (frame d)" and "tail_ok (frame d)"
proof -
  note pos = frame_field_positions [OF assms]
  have "of_nat (24 + payload_size d) + 2 = (of_nat (26 + payload_size d) :: u32)" by simp
  then have "unat (be32_at 1 (frame d) + 2) = length (frame d)"
    using assms by (simp only: pos length_frame) (simp add: unat_of_nat_u32 del: of_nat_add)
  then show "head_ok (frame d)" by (simp add: head_ok_def segment_def frame_def)
  show "lengths_fit (frame d)"
    by (simp add: lengths_fit_def data_pos_def code_pos_def pos length_frame payload_size_def)
  have "be32_at (length (frame d) - 5) (frame d) = crc32 (frame_body d)"
    using be32_at_mid[of "length (frame d) - 5" "TINYPB_START # frame_body d"]
    by (simp add: length_frame length_frame_body) (simp add: frame_def)
  moreover have "segment 1 (length (frame d) - 6) (frame d) = frame_body d"
    by (simp add: length_frame) (simp add: frame_def segment_def length_frame_body)
  moreover have "segment (length (frame d) - 1) 1 (frame d) = [TINYPB_END]"
    using segment_mid_eq[of "length (frame d) - 1"
        "TINYPB_START # frame_body d @ store32 (htonl (crc32 (frame_body d)))" 1 "[TINYPB_END]" "[]"]
    by (simp add: length_frame length_frame_body) (simp add: frame_def)
  ultimately show "tail_ok (frame d)" by (simp add: tail_ok_def)
qed

lemma decode_frame: "payload_size d < 2 ^ 32 - 26 \<Longrightarrow> decode (frame d) d0 = Ok (None, d)"
  by (simp add: decode_success_iff checks_frame parsed_frame length_frame)

lemma parsed_lengths:
  assumes "26 \<le> length s" and "lengths_fit s"
  shows "length (msg_req (parsed s)) = req_len s"
    and "length (service_full_name (parsed s)) = service_len s"
    and "length (err_info (parsed s)) = info_len s"
    and "payload_size (parsed s) = length s - 26"
  using assms
  by (simp_all add: parsed_def payload_size_def length_segment lengths_fit_def data_pos_def code_pos_def)

lemma frame_body_parsed:
  assumes n: "26 \<le> length s" and fit: "lengths_fit s" and head: "head_ok s"
  shows "frame_body (parsed s) = segment 1 (length s - 6) s"
proof -
  note len = parsed_lengths [OF n fit]
  let ?d = "parsed s" and ?r = "req_len s" and ?c = "code_pos s" and ?p = "data_pos s"
  have b: "?p + 5 \<le> length s" "?p = ?c + 8 + info_len s" "?c = 13 + ?r + service_len s"
    using fit by (simp_all add: lengths_fit_def data_pos_def code_pos_def)
  have "be32_at 1 s + 2 = of_nat (length s)"
    using head by (metis head_ok_def of_nat_unat ucast_id)
  then have "be32_at 1 s = of_nat (length s) - 2" by (simp add: eq_diff_eq)
  also have "\<dots> = of_nat (24 + payload_size ?d)" using n by (simp add: len of_nat_diff)
  finally have w0: "store32 (htonl (of_nat (24 + payload_size ?d))) = segment 1 4 s"
    using n be32_at_inverse[of 1 s] by (simp del: of_nat_add)
  have w: "store32 (htonl (of_nat ?r)) = segment 5 4 s"
    "store32 (htonl (of_nat (service_len s))) = segment (9 + ?r) 4 s"
    "store32 (htonl (be32_at ?c s)) = segment ?c 4 s"
    "store32 (htonl (of_nat (info_len s))) = segment (?c + 4) 4 s"
    using b n be32_at_inverse[of 5 s] be32_at_inverse[of "9 + ?r" s] be32_at_inverse[of ?c s]
      be32_at_inverse[of "?c + 4" s]
    by (simp_all add: req_len_def service_len_def info_len_def)
  have "take 1 s @ frame_body ?d = take (length s - 5) s"
    using w0 w b take_segment[of 1 s 4] take_segment[of 5 s 4] take_segment[of 9 s ?r]
      take_segment[of "9 + ?r" s 4] take_segment[of "13 + ?r" s "service_len s"]
      take_segment[of ?c s 4] take_segment[of "?c + 4" s 4] take_segment[of "?c + 8" s "info_len s"]
      take_segment[of ?p s "length s - 5 - ?p"]
    by (simp add: frame_body_def len) (simp add: parsed_def flip: append_assoc)
  also have "\<dots> = take 1 s @ segment 1 (length s - 6) s"
    by (rule take_segment_eq [symmetric]) (use n in arith)
  finally show ?thesis by simp
qed

lemma frame_parsed:
  assumes n: "26 \<le> length s" and fit: "lengths_fit s" and head: "head_ok s" and tail: "tail_ok s"
  shows "frame (parsed s) = s"
proof -
  have "frame (parsed s) = segment 0 1 s @ segment 1 (length s - 6) s
      @ segment (length s - 5) 4 s @ segment (length s - 1) 1 s"
    using head tail be32_at_inverse[of "length s - 5" s] n
    by (simp add: frame_def frame_body_parsed [OF n fit head] head_ok_def tail_ok_def)
  also have "\<dots> = ((take 1 s @ segment 1 (length s - 6) s) @ segment (length s - 5) 4 s)
      @ segment (length s - 1) 1 s"
    by (simp add: segment_def)
  also have "take 1 s @ segment 1 (length s - 6) s = take (length s - 5) s"
    by (rule take_segment_eq) (use n in arith)
  also have "take (length s - 5) s @ segment (length s - 5) 4 s = take (length s - 1) s"
    by (rule take_segment_eq) (use n in arith)
  also have "take (length s - 1) s @ segment (length s - 1) 1 s = take (length s) s"
    by (rule take_segment_eq) (use n in arith)
  finally show ?thesis by simp
qed

lemma unat_u32_less: "unat (w :: u32) < 2 ^ 32"
  by (rule order.strict_trans2 [OF unsigned_less]) simp

lemma decode_iff_encode:
  "decode s d0 = Ok (None, d) \<longleftrightarrow> encode d = Inr s \<and> length s < 2 ^ 32"
proof
  assume "decode s d0 = Ok (None, d)"
  then have n: "26 \<le> length s" and ok: "head_ok s" "lengths_fit s" "tail_ok s" and d: "d = parsed s"
    by (simp_all add: decode_success_iff)
  from ok have l: "length s < 2 ^ 32" by (metis head_ok_def unat_u32_less)
  with n d ok have "encode d = Inr (frame d)"
    by (intro encode_eq_frame) (simp add: parsed_lengths)
  with n d ok l show "encode d = Inr s \<and> length s < 2 ^ 32" by (simp add: frame_parsed)
next
  assume "encode d = Inr s \<and> length s < 2 ^ 32"
  then have "s = frame d" "payload_size d < 2 ^ 32 - 26" by (auto dest: encode_small)
  then show "decode s d0 = Ok (None, d)" by (simp add: decode_frame)
qed

lemma encode_wire_form:
  assumes "encode d = Inr s" and "length s < 2 ^ 32"
  shows "s = [TINYPB_START] @ frame_body d @ store32 (htonl (crc32 (frame_body d))) @ [TINYPB_END]"
  using encode_small [OF assms] by (simp add: frame_def)

text \<open>A change of one byte of a sealed body, of its checksum or of a delimiter is noticed.\<close>

lemma sealed_single_change:
  assumes eq: "xs @ a # ys = [TINYPB_START] @ body @ store32 (htonl (crc32 body)) @ [TINYPB_END]"
    and eq': "xs @ b # ys = [TINYPB_START] @ body' @ store32 (htonl (crc32 body')) @ [TINYPB_END]"
  shows "a = b"
proof (rule ccontr)
  assume ab: "a \<noteq> b"
  have "length (xs @ a # ys) = length (xs @ b # ys)" by simp
  then have len: "length body = length body'" unfolding eq eq' by simp
  from ab eq eq' obtain xs' where xs: "xs = TINYPB_START # xs'" by (cases xs) auto
  from ab eq eq' obtain ys' where ys: "ys = ys' @ [TINYPB_END]"
    by (cases ys rule: rev_cases) (auto simp flip: append_Cons append_assoc)
  from eq eq' have e: "xs' @ a # ys' = body @ store32 (htonl (crc32 body))"
    and e': "xs' @ b # ys' = body' @ store32 (htonl (crc32 body'))"
  proof -
    from eq eq' have "(xs' @ a # ys') @ [TINYPB_END] = (body @ store32 (htonl (crc32 body))) @ [TINYPB_END]"
      "(xs' @ b # ys') @ [TINYPB_END] = (body' @ store32 (htonl (crc32 body'))) @ [TINYPB_END]"
      by (simp_all add: xs ys)
    then show "xs' @ a # ys' = body @ store32 (htonl (crc32 body))"
      "xs' @ b # ys' = body' @ store32 (htonl (crc32 body'))"
      by (simp_all only: append1_eq_conv)
  qed
  show False
  proof (cases "length xs' < length body")
    case True
    with len e e' have bodies: "body = take (length body) (xs' @ a # ys')"
      "body' = take (length body) (xs' @ b # ys')" by simp_all
    define r where "r = take (length body - length xs' - 1) ys'"
    have split: "body = xs' @ [a] @ r" "body' = xs' @ [b] @ r"
      using bodies True by (simp_all add: r_def take_Cons' )
    have "drop (length body) (xs' @ a # ys') = drop (length body) (xs' @ b # ys')"
      using True by (simp add: drop_Cons')
    then have "store32 (htonl (crc32 body)) = store32 (htonl (crc32 body'))"
      unfolding e e' using len by simp
    then have "crc32 body = crc32 body'" by (metis store32_inject htonl_htonl)
    then have "[a] = [b]" unfolding split by (intro crc32_burst) auto
    with ab show False by simp
  next
    case False
    have "take (length body) (xs' @ a # ys') = take (length body) (xs' @ b # ys')"
      using False by simp
    then have "body = body'" unfolding e e' using len by simp
    then have "xs' @ a # ys' = xs' @ b # ys'" unfolding e e' by simp
    with ab show False by simp
  qed
qed

section \<open>Reading past the end\<close>

lemma decode_overread:
  assumes "26 \<le> length s" and "head_ok s" and "length s + 1 < 9 + req_len s"
  shows "decode s d0 = Undefined"
proof -
  have "read_buf s 0 1 = Ok [TINYPB_START]" "read32 s 1 = Ok (be32_at 1 s)"
    "read32 s 5 = Ok (be32_at 5 s)" "read_buf s 9 (unat (be32_at 5 s)) = Undefined"
    using assms by (simp_all add: head_ok_def read_buf_inside read32_be read_buf_outside req_len_def)
  then show ?thesis
    using assms(1,2) by (simp add: decode_def head_ok_def TINYPB_FIXED_HEADER_SIZE_def Let_def)
qed

text \<open>A frame of 26 bytes that announces a request number of 4 GB.\<close>

definition overread_frame :: string where
  "overread_frame = [CHR 0x02, CHR 0x00, CHR 0x00, CHR 0x00, CHR 0x18,
     CHR 0xFF, CHR 0xFF, CHR 0xFF, CHR 0xFF] @ replicate 16 (CHR 0x00) @ [CHR 0x03]"

lemma overread_frame_shape:
  "26 \<le> length overread_frame" "head_ok overread_frame"
  "length overread_frame + 1 < 9 + req_len overread_frame"
  by (simp_all add: overread_frame_def head_ok_def req_len_def segment_def be32_at_load load32_def TINYPB_START_def)

lemma decode_overread_frame: "decode overread_frame d0 = Undefined"
  by (rule decode_overread) (rule overread_frame_shape)+

section \<open>Properties\<close>

text \<open>C2: The codec is exact: \<open>decode\<close> accepts a buffer and yields a message precisely when the
  buffer is what \<open>encode\<close> produces for that message and is shorter than \<open>2 ^ 32\<close> bytes. So
  decoding inverts encoding, accepted frames are canonical, and frames of \<open>2 ^ 32\<close> bytes or more,
  which \<open>encode\<close> still produces, are never accepted.\<close>

theorem tinypb_decode_iff_encode:
  "decode s d0 = Ok (None, d) \<longleftrightarrow> encode d = Inr s \<and> length s < 2 ^ 32"
  by (rule decode_iff_encode)

text \<open>C20: Exactly which inputs make \<open>decode\<close> fail to return: a buffer of at least 26 bytes whose
  start byte and packet length are right, but whose inner length fields do not leave room for the
  checksum and the end byte. Every other input is answered with 0 or -1.\<close>

theorem tinypb_decode_unsafe_iff:
  "\<not> returns (decode s d0) \<longleftrightarrow> 26 \<le> length s \<and> head_ok s \<and> \<not> lengths_fit s"
  by (auto simp: decode_returns_iff)

text \<open>A well-headed frame whose first inner length reaches past the buffer makes \<open>decode\<close>
  read outside the buffer: the length is used before anything checks it.\<close>

theorem tinypb_decode_overread:
  assumes "26 \<le> length s" and "head_ok s" and "length s + 1 < 9 + req_len s"
  shows "decode s d0 = Undefined"
  using assms by (rule decode_overread)

theorem tinypb_decode_overread_witness: "decode overread_frame new_TinyPbStruct = Undefined"
  by (rule tinypb_decode_overread) (rule overread_frame_shape)+

text \<open>Changing any single byte of an encoded frame, wherever it lies, yields a buffer that
  \<open>decode\<close> does not accept, with any content.\<close>

theorem tinypb_single_byte_corruption:
  assumes "encode d = Inr (xs @ a # ys)" and "length (xs @ a # ys) < 2 ^ 32" and "a \<noteq> b"
  shows "decode (xs @ b # ys) d0 \<noteq> Ok (None, d')"
proof
  assume "decode (xs @ b # ys) d0 = Ok (None, d')"
  then have "encode d' = Inr (xs @ b # ys)" and "length (xs @ b # ys) < 2 ^ 32"
    by (simp_all only: decode_iff_encode)
  from encode_wire_form [OF assms(1,2)] encode_wire_form [OF this] have "a = b"
    by (rule sealed_single_change)
  with assms(3) show False by simp
qed

theorem tinypb_single_byte_corruption_witness:
  "decode ([] @ CHR 0x00 # tl (frame new_TinyPbStruct)) new_TinyPbStruct
     \<noteq> Ok (None, new_TinyPbStruct)"
proof (rule tinypb_single_byte_corruption)
  have "payload_size new_TinyPbStruct = 0" by (simp add: payload_size_def new_TinyPbStruct_def)
  then have "encode new_TinyPbStruct = Inr (frame new_TinyPbStruct)"
    and l: "length (frame new_TinyPbStruct) = 26"
    by (simp_all add: encode_eq_frame length_frame)
  moreover have "[] @ TINYPB_START # tl (frame new_TinyPbStruct) = frame new_TinyPbStruct"
    by (simp add: frame_def)
  ultimately show "encode new_TinyPbStruct = Inr ([] @ TINYPB_START # tl (frame new_TinyPbStruct))"
    and "length ([] @ TINYPB_START # tl (frame new_TinyPbStruct)) < 2 ^ 32" by simp_all
  show "TINYPB_START \<noteq> CHR 0x00" by (simp add: TINYPB_START_def)
qed

end
