(* ===== verification/Stream_Parser.thy ===== *)
theory Stream_Parser
  imports Prelude
begin

text \<open>
  The interface between the transport and a message that is parsed as its bytes arrive: the
  receiving side calls \<open>append\<close> on every chunk the socket delivers until it reports that the
  message is complete or broken (\<open>Communicator::append_message\<close> in
  \<open>workflow/src/kernel/Communicator.cc\<close>, \<open>ProtocolMessage::append\<close> in
  \<open>workflow/src/protocol/ProtocolMessage.h\<close>). Two messages provide it: \<open>RpcMessage\<close> and
  \<open>TLVMessage\<close>. What the client of the interface needs is proved once, in the locale: how the
  bytes are cut into chunks makes no difference.
\<close>

section \<open>Base class of the messages\<close>

record ProtocolMessage =
  size_limit :: nat

definition new_ProtocolMessage :: ProtocolMessage where
  "new_ProtocolMessage = \<lparr>size_limit = 2 ^ 64 - 1\<rparr>"

definition set_size_limit :: "nat \<Rightarrow> 'a ProtocolMessage_scheme \<Rightarrow> 'a ProtocolMessage_scheme" where
  "set_size_limit limit m = m\<lparr>size_limit := limit\<rparr>"

text \<open>What a call of \<open>append\<close> returns: -1 with \<open>errno\<close>, 0, or 1.\<close>

datatype append_ret = Append_error errno | More | Done

type_synonym 's append_result = "(append_ret \<times> nat \<times> 's) cxx"

section \<open>Delivering chunks\<close>

text \<open>
  The transport stops at the first chunk that completes or breaks the message. The number
  returned is the number of bytes consumed.
\<close>

fun shift_used :: "nat \<Rightarrow> append_ret \<times> nat \<times> 's \<Rightarrow> 's append_result" where
  "shift_used k (r, n, s) = Ok (r, k + n, s)"

fun feed_chunks :: "('s \<Rightarrow> string \<Rightarrow> 's append_result) \<Rightarrow> 's \<Rightarrow> string list \<Rightarrow> 's append_result" where
  "feed_chunks feed s [] = Ok (More, 0, s)"
| "feed_chunks feed s (c # cs) = cbind (feed s c) (\<lambda>(r, n, s').
     if r = More then cbind (feed_chunks feed s' cs) (shift_used n) else Ok (r, n, s'))"

lemma cbind_shift_used_Ok [simp]:
  "cbind m (shift_used k) = Ok (r, n, s) \<longleftrightarrow> (\<exists>n'. m = Ok (r, n', s) \<and> n = k + n')"
  by (cases m) auto

lemma shift_used_0 [simp]: "shift_used 0 = Ok"
  by (rule ext) auto

section \<open>The interface\<close>

locale stream_parser =
  fixes feed :: "'s \<Rightarrow> string \<Rightarrow> 's append_result"
    and ready :: "'s \<Rightarrow> bool"
  assumes feed_nil: "ready s \<Longrightarrow> feed s [] = Ok (More, 0, s)"
    and feed_total: "ready s \<Longrightarrow> returns (feed s c)"
    and feed_ready: "ready s \<Longrightarrow> feed s c = Ok (More, n, s') \<Longrightarrow> ready s' \<and> n = length c"
    and feed_more: "ready s \<Longrightarrow> feed s c = Ok (More, n, s')
      \<Longrightarrow> feed s (c @ c') = cbind (feed s' c') (shift_used n)"
    and feed_done: "ready s \<Longrightarrow> feed s c = Ok (Done, n, s')
      \<Longrightarrow> n \<le> length c \<and> feed s (c @ c') = Ok (Done, n, s')"
    and feed_error: "ready s \<Longrightarrow> feed s c = Ok (Append_error e, n, s')
      \<Longrightarrow> \<exists>n' s''. feed s (c @ c') = Ok (Append_error e, n', s'')"
begin

text \<open>No cutting of the bytes makes the parser fail to return.\<close>

lemma chunks_total: "ready s \<Longrightarrow> returns (feed_chunks feed s cs)"
proof (induction cs arbitrary: s)
  case Nil
  then show ?case by simp
next
  case (Cons c cs)
  from feed_total [OF Cons.prems, of c] obtain r n s' where f: "feed s c = Ok (r, n, s')"
    by (auto simp: returns_def)
  show ?case
  proof (cases "r = More")
    case True
    with f Cons.prems have "ready s'" using feed_ready by blast
    then have "returns (feed_chunks feed s' cs)" by (rule Cons.IH)
    with f True show ?thesis by (auto simp: returns_def)
  next
    case False
    with f show ?thesis by simp
  qed
qed

text \<open>A message that is complete in the concatenation is complete, with the same content and the
  same number of bytes used, however the bytes are delivered; an incomplete one stays incomplete.\<close>

lemma chunks_agree:
  "ready s \<Longrightarrow> feed s (concat cs) = Ok (r, n, s') \<Longrightarrow> r = More \<or> r = Done
    \<Longrightarrow> feed_chunks feed s cs = Ok (r, n, s')"
proof (induction cs arbitrary: s n)
  case Nil
  then show ?case by (simp add: feed_nil)
next
  case (Cons c cs)
  note rdy = Cons.prems(1)
  from feed_total [OF rdy, of c] obtain q k t where f: "feed s c = Ok (q, k, t)"
    by (auto simp: returns_def)
  show ?case
  proof (cases q)
    case More
    with f have m: "feed s c = Ok (More, k, t)" by simp
    from Cons.prems(2) feed_more [OF rdy m, of "concat cs"]
    obtain n' where "feed t (concat cs) = Ok (r, n', s')" "n = k + n'" by auto
    with Cons.IH feed_ready [OF rdy m] Cons.prems(3) have "feed_chunks feed t cs = Ok (r, n', s')"
      by blast
    with m \<open>n = k + n'\<close> show ?thesis by simp
  next
    case Done
    with f feed_done [OF rdy, of c k t "concat cs"] Cons.prems(2) show ?thesis by simp
  next
    case (Append_error e)
    with f feed_error [OF rdy, of c e k t "concat cs"] Cons.prems(2,3) show ?thesis by auto
  qed
qed

end

text \<open>
  A parser together with the sender's side: \<open>wire m\<close> is what is written for the message \<open>m\<close>,
  \<open>fits s m\<close> says that a receiver in state \<open>s\<close> is prepared to take it, and \<open>received s m\<close> that a
  receiver in state \<open>s\<close> holds it.
\<close>

locale wire_protocol = stream_parser feed ready
  for feed :: "'s \<Rightarrow> string \<Rightarrow> 's append_result" and ready :: "'s \<Rightarrow> bool" +
  fixes wire :: "'m \<Rightarrow> string"
    and fits :: "'s \<Rightarrow> 'm \<Rightarrow> bool"
    and received :: "'s \<Rightarrow> 'm \<Rightarrow> bool"
  assumes fits_ready: "fits s m \<Longrightarrow> ready s"
    and wire_received: "fits s m \<Longrightarrow> \<exists>s'. feed s (wire m) = Ok (Done, length (wire m), s') \<and> received s' m"
begin

lemma delivered:
  assumes "fits s m" and "concat cs = wire m @ rest"
  shows "\<exists>s'. feed_chunks feed s cs = Ok (Done, length (wire m), s') \<and> received s' m"
proof -
  from wire_received [OF assms(1)] obtain s'
    where w: "feed s (wire m) = Ok (Done, length (wire m), s')" and r: "received s' m" by blast
  from feed_done [OF fits_ready [OF assms(1)] w] have "feed s (concat cs) = Ok (Done, length (wire m), s')"
    by (simp add: assms(2))
  then have "feed_chunks feed s cs = Ok (Done, length (wire m), s')"
    by (rule chunks_agree [OF fits_ready [OF assms(1)]]) simp
  with r show ?thesis by blast
qed

end

end
