(* ===== verification/RpcMessage.thy ===== *)
theory RpcMessage
  imports Stream_Parser
begin

text \<open>
  The message of the Simple RPC protocol (\<open>rpc/src/rpc_message.h\<close>, \<open>rpc/src/rpc_message.cc\<close>):
  a header of 32 bytes, then \<open>meta\<close> (service and method name) and \<open>payload\<close>. The message object
  is both what is sent (\<open>encode\<close>) and what is parsed chunk by chunk (\<open>append\<close>).
\<close>

section \<open>State\<close>

definition RPC_MAGIC :: u32 where "RPC_MAGIC = 0x57525043"
definition RPC_VERSION :: u16 where "RPC_VERSION = 1"
definition RPC_HEADER_SIZE :: nat where "RPC_HEADER_SIZE = 32"

record RpcMessage = ProtocolMessage +
  send_header :: string
  recv_header :: string
  recv_header_bytes :: nat
  recv_meta_bytes :: nat
  recv_payload_bytes :: nat
  expected_meta_len :: u32
  expected_payload_len :: u32
  header_ready :: bool
  sequence_no :: u64
  flags :: u16
  status :: u32
  meta :: string
  payload :: string

definition reset_parse_state :: "RpcMessage \<Rightarrow> RpcMessage" where
  "reset_parse_state m =
     m\<lparr>recv_header_bytes := 0, recv_meta_bytes := 0, recv_payload_bytes := 0,
       expected_meta_len := 0, expected_payload_len := 0, header_ready := False,
       meta := [], payload := []\<rparr>"

text \<open>
  The constructor leaves the two header arrays as the memory was: they are arguments of the model.
\<close>

definition new_RpcMessage :: "string \<Rightarrow> string \<Rightarrow> RpcMessage" where
  "new_RpcMessage raw_send raw_recv =
     \<lparr>size_limit = size_limit new_ProtocolMessage,
      send_header = raw_send, recv_header = raw_recv, recv_header_bytes = 0, recv_meta_bytes = 0,
      recv_payload_bytes = 0, expected_meta_len = 0, expected_payload_len = 0,
      header_ready = False, sequence_no = 0, flags = 0, status = 0, meta = [], payload = []\<rparr>"

text \<open>The move constructor: the new message and the one moved from.\<close>

definition move_RpcMessage :: "RpcMessage \<Rightarrow> RpcMessage \<times> RpcMessage" where
  "move_RpcMessage other =
     (\<lparr>size_limit = size_limit other,
       send_header = send_header other, recv_header = recv_header other,
       recv_header_bytes = recv_header_bytes other, recv_meta_bytes = recv_meta_bytes other,
       recv_payload_bytes = recv_payload_bytes other, expected_meta_len = expected_meta_len other,
       expected_payload_len = expected_payload_len other, header_ready = header_ready other,
       sequence_no = sequence_no other, flags = flags other, status = status other,
       meta = meta other, payload = payload other\<rparr>,
      (reset_parse_state other)\<lparr>sequence_no := 0, flags := 0, status := 0\<rparr>)"

text \<open>Move assignment of two different messages replaces every field of the target.\<close>

definition move_assign_RpcMessage :: "RpcMessage \<Rightarrow> RpcMessage \<Rightarrow> RpcMessage \<times> RpcMessage" where
  "move_assign_RpcMessage this other =
     (this\<lparr>size_limit := size_limit other,
       send_header := send_header other, recv_header := recv_header other,
       recv_header_bytes := recv_header_bytes other, recv_meta_bytes := recv_meta_bytes other,
       recv_payload_bytes := recv_payload_bytes other, expected_meta_len := expected_meta_len other,
       expected_payload_len := expected_payload_len other, header_ready := header_ready other,
       sequence_no := sequence_no other, flags := flags other, status := status other,
       meta := meta other, payload := payload other\<rparr>,
      (reset_parse_state other)\<lparr>sequence_no := 0, flags := 0, status := 0\<rparr>)"

definition set_sequence :: "u64 \<Rightarrow> RpcMessage \<Rightarrow> RpcMessage" where
  "set_sequence s m = m\<lparr>sequence_no := s\<rparr>"
definition set_flags :: "u16 \<Rightarrow> RpcMessage \<Rightarrow> RpcMessage" where
  "set_flags f m = m\<lparr>flags := f\<rparr>"
definition set_status :: "u32 \<Rightarrow> RpcMessage \<Rightarrow> RpcMessage" where
  "set_status s m = m\<lparr>status := s\<rparr>"
definition set_payload :: "string \<Rightarrow> RpcMessage \<Rightarrow> RpcMessage" where
  "set_payload p m = m\<lparr>payload := p\<rparr>"

section \<open>The header\<close>

text \<open>
  \<open>htonll64\<close> and \<open>ntohll64\<close> are the same code: the two halves are converted and exchanged.
\<close>

definition htonll64 :: "u64 \<Rightarrow> u64" where
  "htonll64 v =
     (let hi = htonl (ucast (drop_bit 32 v)); lo = htonl (ucast (v AND 0xffffffff))
      in push_bit 32 (ucast lo) OR ucast hi)"

definition ntohll64 :: "u64 \<Rightarrow> u64" where
  "ntohll64 v =
     (let hi = ntohl (ucast (drop_bit 32 v)); lo = ntohl (ucast (v AND 0xffffffff))
      in push_bit 32 (ucast lo) OR ucast hi)"

definition encode_header :: "RpcMessage \<Rightarrow> RpcMessage" where
  "encode_header m =
     (let magic = htonl RPC_MAGIC; version = htons RPC_VERSION; fl = htons (flags m);
          seq = htonll64 (sequence_no m);
          meta_len = htonl (of_nat (length (meta m)));
          payload_len = htonl (of_nat (length (payload m)));
          st = htonl (status m); reserved = 0;
          h = overwrite (send_header m) 0 (store32 magic);
          h = overwrite h 4 (store16 version);
          h = overwrite h 6 (store16 fl);
          h = overwrite h 8 (store64 seq);
          h = overwrite h 16 (store32 meta_len);
          h = overwrite h 20 (store32 payload_len);
          h = overwrite h 24 (store32 st);
          h = overwrite h 28 (store32 reserved)
      in m\<lparr>send_header := h\<rparr>)"

definition decode_header :: "RpcMessage \<Rightarrow> errno + RpcMessage" where
  "decode_header m =
     (let h = recv_header m;
          magic = ntohl (load32 (segment 0 4 h));
          version = ntohs (load16 (segment 4 2 h));
          fl = ntohs (load16 (segment 6 2 h));
          seq = ntohll64 (load64 (segment 8 8 h));
          meta_len = ntohl (load32 (segment 16 4 h));
          payload_len = ntohl (load32 (segment 20 4 h));
          st = ntohl (load32 (segment 24 4 h))
      in if magic \<noteq> RPC_MAGIC \<or> version \<noteq> RPC_VERSION then Inl EBADMSG
         else
           let body_size = unat meta_len + unat payload_len
           in if body_size > size_limit m then Inl EMSGSIZE
              else Inr (m\<lparr>flags := fl, sequence_no := seq, status := st,
                expected_meta_len := meta_len, expected_payload_len := payload_len,
                meta := replicate (unat meta_len) NUL, payload := replicate (unat payload_len) NUL,
                recv_meta_bytes := 0, recv_payload_bytes := 0, header_ready := True\<rparr>))"

section \<open>Sending\<close>

text \<open>The I/O vectors, as the bytes they point to; \<open>Inl\<close> is -1 with \<open>errno\<close>.\<close>

definition encode :: "RpcMessage \<Rightarrow> int \<Rightarrow> (errno + string list) \<times> RpcMessage" where
  "encode m max_iov =
     (let cnt = 1 + (if meta m \<noteq> [] then 1 else 0) + (if payload m \<noteq> [] then 1 else 0)
      in if cnt > max_iov then (Inl EOVERFLOW, m)
         else
           let m = encode_header m
           in (Inr ([send_header m]
                 @ (if meta m \<noteq> [] then [meta m] else [])
                 @ (if payload m \<noteq> [] then [payload m] else [])), m))"

section \<open>Receiving\<close>

text \<open>
  One turn of the loop of \<open>append\<close>, in the order of the code: the header, the meta bytes, the
  payload bytes, the final test. \<open>p\<close> holds the bytes not yet read (\<open>remain\<close> is its length).
  \<open>Inl\<close> leaves the loop with a result, \<open>Inr\<close> goes round again.
\<close>

type_synonym turn = "((append_ret \<times> nat \<times> RpcMessage) + (RpcMessage \<times> string \<times> nat)) cxx"

definition append_finish :: "RpcMessage \<Rightarrow> string \<Rightarrow> nat \<Rightarrow> turn" where
  "append_finish m p used =
     (if recv_meta_bytes m = unat (expected_meta_len m)
        \<and> recv_payload_bytes m = unat (expected_payload_len m)
      then Ok (Inl (Done, used, m)) else Ok (Inr (m, p, used)))"

definition append_payload :: "RpcMessage \<Rightarrow> string \<Rightarrow> nat \<Rightarrow> turn" where
  "append_payload m p used =
     (if recv_payload_bytes m < unat (expected_payload_len m) then
        let n = min (length p) (unat (expected_payload_len m) - recv_payload_bytes m)
        in cbind (write_buf (payload m) (recv_payload_bytes m) (take n p)) (\<lambda>s.
          let m = m\<lparr>payload := s, recv_payload_bytes := recv_payload_bytes m + n\<rparr>;
              p = drop n p; used = used + n
          in if recv_payload_bytes m < unat (expected_payload_len m)
             then Ok (Inl (More, used, m)) else append_finish m p used)
      else append_finish m p used)"

definition append_meta :: "RpcMessage \<Rightarrow> string \<Rightarrow> nat \<Rightarrow> turn" where
  "append_meta m p used =
     (if recv_meta_bytes m < unat (expected_meta_len m) then
        let n = min (length p) (unat (expected_meta_len m) - recv_meta_bytes m)
        in cbind (write_buf (meta m) (recv_meta_bytes m) (take n p)) (\<lambda>s.
          let m = m\<lparr>meta := s, recv_meta_bytes := recv_meta_bytes m + n\<rparr>;
              p = drop n p; used = used + n
          in if recv_meta_bytes m < unat (expected_meta_len m)
             then Ok (Inl (More, used, m)) else append_payload m p used)
      else append_payload m p used)"

definition append_turn :: "RpcMessage \<Rightarrow> string \<Rightarrow> nat \<Rightarrow> turn" where
  "append_turn m p used =
     (if \<not> header_ready m then
        let n = min (length p) (sz_sub RPC_HEADER_SIZE (recv_header_bytes m))
        in cbind (write_buf (recv_header m) (recv_header_bytes m) (take n p)) (\<lambda>h.
          let m = m\<lparr>recv_header := h, recv_header_bytes := recv_header_bytes m + n\<rparr>;
              p = drop n p; used = used + n
          in if recv_header_bytes m < RPC_HEADER_SIZE then Ok (Inl (More, used, m))
             else case decode_header m of
               Inl e \<Rightarrow> Ok (Inl (Append_error e, used, m))
             | Inr m \<Rightarrow>
                 if expected_meta_len m = 0 \<and> expected_payload_len m = 0
                 then Ok (Inl (Done, used, m)) else append_meta m p used)
      else append_meta m p used)"

fun append_loop :: "nat \<Rightarrow> RpcMessage \<Rightarrow> string \<Rightarrow> nat \<Rightarrow> RpcMessage append_result" where
  "append_loop 0 m p used = Out_of_fuel"
| "append_loop (Suc fuel) m p used =
     (if p = [] then Ok (More, used, m)
      else cbind (append_turn m p used) (\<lambda>t. case t of
        Inl result \<Rightarrow> Ok result
      | Inr (m, p, used) \<Rightarrow> append_loop fuel m p used))"

text \<open>
  The fuel is one turn more than there are bytes; \<open>append_parse\<close> below shows that one turn is
  enough for every message whose parse state is sound.
\<close>

definition append :: "RpcMessage \<Rightarrow> string \<Rightarrow> RpcMessage append_result" where
  "append m buf = append_loop (Suc (length buf)) m buf 0"

section \<open>Service and method\<close>

definition set_service_method :: "string \<Rightarrow> string \<Rightarrow> RpcMessage \<Rightarrow> errno + RpcMessage" where
  "set_service_method service method m =
     (if length service > 0xffff \<or> length method > 0xffff then Inl EINVAL
      else
        let s_len = htons (of_nat (length service)); m_len = htons (of_nat (length method))
        in Inr (m\<lparr>meta := store16 s_len @ store16 m_len @ service @ method\<rparr>))"

definition get_service_method :: "RpcMessage \<Rightarrow> (string \<times> string) option" where
  "get_service_method m =
     (if length (meta m) < 4 then None
      else
        let s_len = unat (ntohs (load16 (segment 0 2 (meta m))));
            m_len = unat (ntohs (load16 (segment 2 2 (meta m))));
            expect = 4 + s_len + m_len
        in if expect \<noteq> length (meta m) then None
           else Some (segment 4 s_len (meta m), segment (4 + s_len) m_len (meta m)))"

section \<open>The parser in closed form\<close>

definition meta_left :: "RpcMessage \<Rightarrow> nat" where
  "meta_left m = unat (expected_meta_len m) - recv_meta_bytes m"
definition payload_left :: "RpcMessage \<Rightarrow> nat" where
  "payload_left m = unat (expected_payload_len m) - recv_payload_bytes m"
definition header_left :: "RpcMessage \<Rightarrow> nat" where
  "header_left m = 32 - recv_header_bytes m"

text \<open>The part of the state \<open>append\<close> relies on while a message is incomplete.\<close>

definition body_inv :: "RpcMessage \<Rightarrow> bool" where
  "body_inv m \<longleftrightarrow> length (meta m) = unat (expected_meta_len m)
     \<and> length (payload m) = unat (expected_payload_len m)
     \<and> recv_meta_bytes m \<le> unat (expected_meta_len m)
     \<and> recv_payload_bytes m \<le> unat (expected_payload_len m)"

definition parse_ready :: "RpcMessage \<Rightarrow> bool" where
  "parse_ready m \<longleftrightarrow> length (recv_header m) = 32
     \<and> (if header_ready m then body_inv m \<and> (0 < meta_left m \<or> 0 < payload_left m)
        else recv_header_bytes m < 32)"

definition fill_header :: "RpcMessage \<Rightarrow> string \<Rightarrow> RpcMessage" where
  "fill_header m s = m\<lparr>recv_header := overwrite (recv_header m) (recv_header_bytes m) s,
     recv_header_bytes := recv_header_bytes m + length s\<rparr>"
definition fill_meta :: "RpcMessage \<Rightarrow> string \<Rightarrow> RpcMessage" where
  "fill_meta m s = m\<lparr>meta := overwrite (meta m) (recv_meta_bytes m) s,
     recv_meta_bytes := recv_meta_bytes m + length s\<rparr>"
definition fill_payload :: "RpcMessage \<Rightarrow> string \<Rightarrow> RpcMessage" where
  "fill_payload m s = m\<lparr>payload := overwrite (payload m) (recv_payload_bytes m) s,
     recv_payload_bytes := recv_payload_bytes m + length s\<rparr>"

definition payload_result :: "RpcMessage \<Rightarrow> string \<Rightarrow> nat \<Rightarrow> append_ret \<times> nat \<times> RpcMessage" where
  "payload_result m p used =
     (if length p < payload_left m then (More, used + length p, fill_payload m p)
      else (Done, used + payload_left m, fill_payload m (take (payload_left m) p)))"

definition body_result :: "RpcMessage \<Rightarrow> string \<Rightarrow> nat \<Rightarrow> append_ret \<times> nat \<times> RpcMessage" where
  "body_result m p used =
     (if length p < meta_left m then (More, used + length p, fill_meta m p)
      else payload_result (fill_meta m (take (meta_left m) p)) (drop (meta_left m) p)
             (used + meta_left m))"

definition header_result :: "RpcMessage \<Rightarrow> string \<Rightarrow> append_ret \<times> nat \<times> RpcMessage" where
  "header_result m buf =
     (let k = header_left m in
      if length buf < k then (More, length buf, fill_header m buf)
      else case decode_header (fill_header m (take k buf)) of
          Inl e \<Rightarrow> (Append_error e, k, fill_header m (take k buf))
        | Inr m' \<Rightarrow> if expected_meta_len m' = 0 \<and> expected_payload_len m' = 0 then (Done, k, m')
                    else body_result m' (drop k buf) k)"

lemma fill_nil [simp]: "fill_header m [] = m" "fill_meta m [] = m" "fill_payload m [] = m"
  by (simp_all add: fill_header_def fill_meta_def fill_payload_def overwrite_def)

lemma append_payload_eq:
  assumes "body_inv m" and "meta_left m = 0"
  shows "append_payload m p used = Ok (Inl (payload_result m p used))"
proof (cases "recv_payload_bytes m < unat (expected_payload_len m)")
  case True
  then show ?thesis
    using assms
    by (auto simp: append_payload_def append_finish_def payload_result_def fill_payload_def Let_def
        body_inv_def payload_left_def meta_left_def min_def)
next
  case False
  then show ?thesis
    using assms
    by (auto simp: append_payload_def append_finish_def payload_result_def body_inv_def
        payload_left_def meta_left_def)
qed

lemma body_inv_fill_meta: "body_inv m \<Longrightarrow> length s \<le> meta_left m \<Longrightarrow> body_inv (fill_meta m s)"
  by (auto simp: body_inv_def fill_meta_def meta_left_def)

lemma append_meta_eq:
  assumes "body_inv m"
  shows "append_meta m p used = Ok (Inl (body_result m p used))"
proof (cases "recv_meta_bytes m < unat (expected_meta_len m)")
  case True
  let ?n = "min (length p) (meta_left m)"
  have "append_payload (fill_meta m (take (meta_left m) p)) (drop (meta_left m) p) (used + meta_left m)
      = Ok (Inl (payload_result (fill_meta m (take (meta_left m) p)) (drop (meta_left m) p)
          (used + meta_left m)))" if "meta_left m \<le> length p"
    using that by (intro append_payload_eq body_inv_fill_meta assms)
      (auto simp: fill_meta_def meta_left_def)
  with True assms show ?thesis
    by (auto simp: append_meta_def body_result_def fill_meta_def Let_def body_inv_def meta_left_def min_def)
next
  case False
  with assms have z: "meta_left m = 0" by (simp add: body_inv_def meta_left_def)
  with False assms show ?thesis
    by (simp add: append_meta_def body_result_def append_payload_eq)
qed

lemma decode_header_ok:
  assumes "decode_header m = Inr m'"
  shows "header_ready m'" "body_inv m'" "recv_header m' = recv_header m"
    "meta_left m' = unat (expected_meta_len m')" "payload_left m' = unat (expected_payload_len m')"
  using assms
  by (auto simp: decode_header_def Let_def body_inv_def meta_left_def payload_left_def split: if_splits)

lemma append_turn_ready:
  assumes "parse_ready m"
  shows "append_turn m p used = (if header_ready m then Ok (Inl (body_result m p used))
    else cbind (Ok (header_result m p)) (\<lambda>(r, n, m'). Ok (Inl (r, used + n, m'))))"
proof (cases "header_ready m")
  case True
  with assms show ?thesis by (simp add: append_turn_def append_meta_eq parse_ready_def)
next
  case False
  let ?k = "header_left m"
  have shift: "body_result x q (used + ?k) = (case body_result x q ?k of (r, n, m') \<Rightarrow> (r, used + n, m'))" for x q
    by (auto simp: body_result_def payload_result_def)
  have b: "recv_header_bytes m < 32" "length (recv_header m) = 32"
    using assms False by (simp_all add: parse_ready_def)
  show ?thesis
  proof (cases "length p < ?k")
    case True
    with b have "recv_header_bytes m + length p < 32" by (simp add: header_left_def)
    with True b False show ?thesis
      by (simp add: append_turn_def header_result_def fill_header_def header_left_def Let_def
          RPC_HEADER_SIZE_def min_def)
  next
    case long: False
    have "append_turn m p used = (case decode_header (fill_header m (take ?k p)) of
        Inl e \<Rightarrow> Ok (Inl (Append_error e, used + ?k, fill_header m (take ?k p)))
      | Inr m' \<Rightarrow> if expected_meta_len m' = 0 \<and> expected_payload_len m' = 0
          then Ok (Inl (Done, used + ?k, m')) else append_meta m' (drop ?k p) (used + ?k))"
    proof -
      have "min (length p) (sz_sub RPC_HEADER_SIZE (recv_header_bytes m)) = ?k"
        "length (take ?k p) = ?k" "recv_header_bytes m + ?k = 32"
        using long b by (simp_all add: header_left_def RPC_HEADER_SIZE_def)
      with long False b(2) show ?thesis
        by (simp add: append_turn_def Let_def fill_header_def RPC_HEADER_SIZE_def split: sum.split)
    qed
    then show ?thesis
      using long False
      by (auto simp: header_result_def Let_def append_meta_eq decode_header_ok shift split: sum.splits prod.splits)
  qed
qed

lemma append_ready:
  assumes "parse_ready m"
  shows "append m buf = Ok (if header_ready m then body_result m buf 0 else header_result m buf)"
proof (cases "buf = []")
  case True
  with assms show ?thesis
    by (auto simp: append_def parse_ready_def body_result_def payload_result_def header_result_def
        header_left_def)
next
  case False
  with assms show ?thesis
    by (cases "header_result m buf") (auto simp: append_def append_turn_ready)
qed

section \<open>The parser meets the interface of the transport\<close>

lemma fill_append:
  "recv_header_bytes m + length a + length b \<le> length (recv_header m)
    \<Longrightarrow> fill_header (fill_header m a) b = fill_header m (a @ b)"
  "recv_meta_bytes m + length a + length b \<le> length (meta m)
    \<Longrightarrow> fill_meta (fill_meta m a) b = fill_meta m (a @ b)"
  "recv_payload_bytes m + length a + length b \<le> length (payload m)
    \<Longrightarrow> fill_payload (fill_payload m a) b = fill_payload m (a @ b)"
  by (simp_all add: fill_header_def fill_meta_def fill_payload_def overwrite_adjacent add.assoc)

lemma left_fill [simp]:
  "meta_left (fill_meta m s) = meta_left m - length s"
  "payload_left (fill_payload m s) = payload_left m - length s"
  "header_left (fill_header m s) = header_left m - length s"
  "payload_left (fill_meta m s) = payload_left m" "meta_left (fill_payload m s) = meta_left m"
  "header_ready (fill_meta m s) = header_ready m" "header_ready (fill_payload m s) = header_ready m"
  "header_ready (fill_header m s) = header_ready m"
  "recv_header (fill_meta m s) = recv_header m" "recv_header (fill_payload m s) = recv_header m"
  by (simp_all add: meta_left_def payload_left_def header_left_def fill_meta_def fill_payload_def
      fill_header_def)

lemma body_inv_fill_payload:
  "body_inv m \<Longrightarrow> length s \<le> payload_left m \<Longrightarrow> body_inv (fill_payload m s)"
  by (auto simp: body_inv_def fill_payload_def payload_left_def)

lemma body_inv_room:
  "body_inv m \<Longrightarrow> recv_meta_bytes m + meta_left m = length (meta m)"
  "body_inv m \<Longrightarrow> recv_payload_bytes m + payload_left m = length (payload m)"
  by (simp_all add: body_inv_def meta_left_def payload_left_def)

lemma body_result_used:
  "body_result m p (a + b) = (case body_result m p b of (r, n, m') \<Rightarrow> (r, a + n, m'))"
  by (simp add: body_result_def payload_result_def)

lemma body_more:
  assumes inv: "body_inv m" and more: "body_result m p u = (More, n, m')"
  shows "n = u + length p" "body_inv m'" "header_ready m' = header_ready m"
    "recv_header m' = recv_header m" "0 < meta_left m' \<or> 0 < payload_left m'"
    "body_result m (p @ q) u = body_result m' q n"
proof -
  consider (meta) "length p < meta_left m" | (payload) "meta_left m \<le> length p"
    "length (drop (meta_left m) p) < payload_left m"
    using more by (fastforce simp: body_result_def payload_result_def split: if_splits)
  then have "n = u + length p \<and> body_inv m' \<and> header_ready m' = header_ready m
    \<and> recv_header m' = recv_header m \<and> (0 < meta_left m' \<or> 0 < payload_left m')
    \<and> body_result m (p @ q) u = body_result m' q n"
  proof cases
    case meta
    with more have "n = u + length p" and m': "m' = fill_meta m p"
      by (simp_all add: body_result_def)
    have "body_result m (p @ q) u = body_result m' q n"
    proof (cases "length (p @ q) < meta_left m")
      case True
      with meta \<open>n = u + length p\<close> m' show ?thesis
        using body_inv_room(1) [OF inv] by (auto simp: body_result_def fill_append)
    next
      case False
      then have "fill_meta (fill_meta m p) (take (meta_left m - length p) q) = fill_meta m (take (meta_left m) (p @ q))"
        using meta body_inv_room(1) [OF inv] by (subst fill_append) auto
      with False meta \<open>n = u + length p\<close> m' show ?thesis by (auto simp: body_result_def)
    qed
    with meta m' \<open>n = u + length p\<close> show ?thesis by (simp add: body_inv_fill_meta inv)
  next
    case payload
    let ?m = "fill_meta m (take (meta_left m) p)" and ?p = "drop (meta_left m) p"
    from payload more have n: "n = u + length p" and m': "m' = fill_payload ?m ?p"
      by (simp_all add: body_result_def payload_result_def)
    have inv': "body_inv ?m" by (rule body_inv_fill_meta [OF inv]) simp
    have room: "recv_payload_bytes ?m + payload_left m = length (payload ?m)"
      using body_inv_room(2) [OF inv'] by simp
    have "body_result m (p @ q) u = payload_result ?m (?p @ q) (u + meta_left m)"
      using payload(1) by (simp add: body_result_def)
    also have "\<dots> = payload_result m' q n"
    proof (cases "length (?p @ q) < payload_left m")
      case True
      with payload room n m' show ?thesis by (simp add: payload_result_def fill_append)
    next
      case False
      then have "fill_payload (fill_payload ?m ?p) (take (payload_left m - length ?p) q)
          = fill_payload ?m (take (payload_left m) (?p @ q))"
        using payload room by (subst fill_append) auto
      with False payload n m' show ?thesis by (auto simp: payload_result_def)
    qed
    also have "\<dots> = body_result m' q n" using payload(1) m' by (simp add: body_result_def)
    finally show ?thesis
      using payload n m' inv' by (simp add: body_inv_fill_payload)
  qed
  then show "n = u + length p" "body_inv m'" "header_ready m' = header_ready m"
    "recv_header m' = recv_header m" "0 < meta_left m' \<or> 0 < payload_left m'"
    "body_result m (p @ q) u = body_result m' q n" by auto
qed

lemma body_done:
  assumes "body_result m p u = (Done, n, m')"
  shows "n \<le> u + length p" "body_result m (p @ q) u = (Done, n, m')"
  using assms by (auto simp: body_result_def payload_result_def split: if_splits)

lemma body_result_not_error: "body_result m p u \<noteq> (Append_error e, n, m')"
  by (auto simp: body_result_def payload_result_def)

section \<open>What is written\<close>

text \<open>Network byte order: the most significant byte first.\<close>

definition header_bytes :: "RpcMessage \<Rightarrow> string" where
  "header_bytes m = rev (store32 RPC_MAGIC) @ rev (store16 RPC_VERSION) @ rev (store16 (flags m))
     @ rev (store64 (sequence_no m)) @ rev (store32 (of_nat (length (meta m))))
     @ rev (store32 (of_nat (length (payload m)))) @ rev (store32 (status m)) @ store32 0"

definition rpc_frame :: "RpcMessage \<Rightarrow> string" where
  "rpc_frame m = header_bytes m @ meta m @ payload m"

lemma length_header_bytes [simp]: "length (header_bytes m) = 32"
  by (simp add: header_bytes_def)

lemma store64_htonll64: "store64 (htonll64 v) = rev (store64 v)"
  by (simp add: htonll64_def Let_def store64_halves halves_of_u64 low_half store32_htonl del: drop_bit_or)

lemma ntohll64_htonll64 [simp]: "ntohll64 (htonll64 v) = v"
  by (simp add: ntohll64_def htonll64_def Let_def halves_of_u64 low_half u64_of_halves del: drop_bit_or)

lemma ntohll64_load64: "length s = 8 \<Longrightarrow> ntohll64 (load64 s) = load64 (rev s)"
  by (metis load_store(3) ntohll64_htonll64 rev_rev_ident store64_htonll64 store_load64)

lemma encode_header_eq:
  assumes "length (send_header m) = 32"
  shows "encode_header m = m\<lparr>send_header := header_bytes m\<rparr>"
  using assms
  by (simp add: encode_header_def Let_def header_bytes_def store32_htonl store16_htons store64_htonll64)
    (simp add: overwrite_def)

lemma encode_eq:
  assumes "length (send_header m) = 32" and "3 \<le> max_iov"
  shows "\<exists>v. encode m max_iov = (Inr v, m\<lparr>send_header := header_bytes m\<rparr>) \<and> concat v = rpc_frame m"
  using assms by (simp add: encode_def encode_header_eq Let_def rpc_frame_def)

definition decoded :: "RpcMessage \<Rightarrow> RpcMessage \<Rightarrow> RpcMessage" where
  "decoded s m = s\<lparr>flags := flags m, sequence_no := sequence_no m, status := status m,
     expected_meta_len := of_nat (length (meta m)), expected_payload_len := of_nat (length (payload m)),
     meta := replicate (length (meta m)) NUL, payload := replicate (length (payload m)) NUL,
     recv_meta_bytes := 0, recv_payload_bytes := 0, header_ready := True\<rparr>"

definition sendable :: "RpcMessage \<Rightarrow> bool" where
  "sendable m \<longleftrightarrow> length (meta m) < 2 ^ 32 \<and> length (payload m) < 2 ^ 32"

lemma load_rev_rev [simp]:
  "ntohl (load32 (rev (store32 w))) = w" "ntohs (load16 (rev (store16 v))) = v"
  "ntohll64 (load64 (rev (store64 u))) = u"
  by (simp_all add: ntohl_load32 ntohs_load16 ntohll64_load64)

lemma header_bytes_fields:
  "segment 0 4 (header_bytes m) = rev (store32 RPC_MAGIC)"
  "segment 4 2 (header_bytes m) = rev (store16 RPC_VERSION)"
  "segment 6 2 (header_bytes m) = rev (store16 (flags m))"
  "segment 8 8 (header_bytes m) = rev (store64 (sequence_no m))"
  "segment 16 4 (header_bytes m) = rev (store32 (of_nat (length (meta m))))"
  "segment 20 4 (header_bytes m) = rev (store32 (of_nat (length (payload m))))"
  "segment 24 4 (header_bytes m) = rev (store32 (status m))"
  by (simp_all add: header_bytes_def bytes_simps)

lemma decode_header_bytes:
  assumes "recv_header s = header_bytes m" and "sendable m"
  shows "decode_header s = (if size_limit s < length (meta m) + length (payload m)
    then Inl EMSGSIZE else Inr (decoded s m))"
  using assms by (simp add: decode_header_def Let_def header_bytes_fields decoded_def sendable_def
      unat_of_nat)

section \<open>The provider of the transport's interface\<close>

definition rpc_fits :: "RpcMessage \<Rightarrow> RpcMessage \<Rightarrow> bool" where
  "rpc_fits s m \<longleftrightarrow> length (recv_header s) = 32 \<and> recv_header_bytes s = 0 \<and> \<not> header_ready s
     \<and> sendable m \<and> length (meta m) + length (payload m) \<le> size_limit s"

definition same_content :: "RpcMessage \<Rightarrow> RpcMessage \<Rightarrow> bool" where
  "same_content s m \<longleftrightarrow> sequence_no s = sequence_no m \<and> flags s = flags m \<and> status s = status m
     \<and> meta s = meta m \<and> payload s = payload m"

lemma body_result_frame:
  assumes "sendable m"
  shows "\<exists>s'. body_result (decoded s m) (meta m @ payload m) u
           = (Done, u + length (meta m) + length (payload m), s') \<and> same_content s' m"
proof -
  have "unat (of_nat (length (meta m)) :: u32) = length (meta m)"
    "unat (of_nat (length (payload m)) :: u32) = length (payload m)"
    using assms by (simp_all add: sendable_def unat_of_nat)
  then show ?thesis
    by (simp add: body_result_def payload_result_def decoded_def meta_left_def payload_left_def
        fill_meta_def fill_payload_def overwrite_def same_content_def)
qed

lemma append_frame:
  assumes "rpc_fits s m"
  shows "\<exists>s'. append s (rpc_frame m) = Ok (Done, length (rpc_frame m), s') \<and> same_content s' m"
proof -
  have rdy: "parse_ready s" "\<not> header_ready s" "header_left s = 32"
    using assms by (simp_all add: rpc_fits_def parse_ready_def header_left_def)
  have "recv_header (fill_header s (header_bytes m)) = header_bytes m"
    using assms by (simp add: fill_header_def rpc_fits_def overwrite_def)
  then have dec: "decode_header (fill_header s (header_bytes m))
      = Inr (decoded (fill_header s (header_bytes m)) m)"
    using assms by (subst decode_header_bytes) (auto simp: rpc_fits_def fill_header_def)
  obtain s' where b: "body_result (decoded (fill_header s (header_bytes m)) m) (meta m @ payload m) 32
      = (Done, 32 + length (meta m) + length (payload m), s')" and c: "same_content s' m"
    using body_result_frame assms unfolding rpc_fits_def by blast
  have z: "meta m = [] \<and> payload m = []"
    if "(of_nat (length (meta m)) :: u32) = 0" "(of_nat (length (payload m)) :: u32) = 0"
    using that assms by (auto simp: rpc_fits_def sendable_def dest!: arg_cong [where f = unat] simp: unat_of_nat)
  show ?thesis
    using rdy dec b c by (auto simp: append_ready header_result_def rpc_frame_def decoded_def
        same_content_def Let_def dest: z)
qed

definition parse_result :: "RpcMessage \<Rightarrow> string \<Rightarrow> append_ret \<times> nat \<times> RpcMessage" where
  "parse_result m buf = (if header_ready m then body_result m buf 0 else header_result m buf)"

lemma append_parse: "parse_ready m \<Longrightarrow> append m buf = Ok (parse_result m buf)"
  by (simp add: append_ready parse_result_def)

lemma parse_more:
  assumes rdy: "parse_ready s" and more: "parse_result s c = (More, n, s')"
  shows "parse_ready s' \<and> n = length c \<and> parse_result s (c @ d) = (case parse_result s' d of (r, k, t) \<Rightarrow> (r, n + k, t))"
proof (cases "header_ready s")
  case True
  then have b: "body_result s c 0 = (More, n, s')" and inv: "body_inv s"
    using more rdy by (simp_all add: parse_result_def parse_ready_def)
  note p = body_more [OF inv b]
  then show ?thesis
    using True rdy body_result_used [of s' d n 0] by (simp add: parse_result_def parse_ready_def)
next
  case hdr: False
  let ?k = "header_left s"
  have room: "recv_header_bytes s + ?k = length (recv_header s)" and pos: "0 < ?k"
    using hdr rdy by (auto simp: parse_ready_def header_left_def)
  show ?thesis
  proof (cases "length c < ?k")
    case True
    then have n: "n = length c" "s' = fill_header s c"
      using more hdr by (simp_all add: parse_result_def header_result_def)
    then have "parse_ready s'"
      using True hdr rdy by (auto simp: parse_ready_def fill_header_def header_left_def)
    moreover have "fill_header s' (take (?k - length c) d) = fill_header s (take ?k (c @ d))"
      using n True room by (simp add: fill_append)
    moreover have "fill_header s' d = fill_header s (c @ d)" if "length (c @ d) < ?k"
      using n that room by (simp add: fill_append)
    moreover have "body_result m' (drop (?k - length c) d) ?k = (case body_result m' (drop (?k - length c) d) (?k - length c) of (r, k, t) \<Rightarrow> (r, n + k, t))" for m'
      using body_result_used [of m' "drop (?k - length c) d" n "?k - length c"] n True by simp
    ultimately show ?thesis
      using n True hdr by (auto simp: parse_result_def header_result_def Let_def split: sum.split)
  next
    case False
    with more hdr obtain m' where d: "decode_header (fill_header s (take ?k c)) = Inr m'"
      and nz: "\<not> (expected_meta_len m' = 0 \<and> expected_payload_len m' = 0)"
      and b: "body_result m' (drop ?k c) ?k = (More, n, s')"
      by (auto simp: parse_result_def header_result_def Let_def split: sum.splits if_splits)
    note ok = decode_header_ok [OF d] and p = body_more [OF decode_header_ok(2) [OF d] b]
    have "length (recv_header (fill_header s (take ?k c))) = 32"
      using False room rdy by (simp add: fill_header_def parse_ready_def)
    then show ?thesis
      using False hdr d nz p ok body_result_used [of s' _ n 0]
      by (auto simp: parse_result_def header_result_def parse_ready_def Let_def)
  qed
qed

lemma parse_done:
  assumes "parse_ready s" and "parse_result s c = (Done, n, s')"
  shows "n \<le> length c \<and> parse_result s (c @ d) = (Done, n, s')"
proof (cases "header_ready s")
  case True
  with assms body_done [of s c 0 n s'] show ?thesis by (simp add: parse_result_def)
next
  case False
  with assms show ?thesis
    using body_done [of _ "drop (header_left s) c" "header_left s" n s']
    by (fastforce simp: parse_result_def header_result_def Let_def split: sum.splits if_splits)
qed

lemma parse_error:
  assumes "parse_result s c = (Append_error e, n, s')"
  shows "parse_result s (c @ d) = (Append_error e, n, s')"
  using assms by (auto simp: parse_result_def header_result_def Let_def body_result_not_error
      split: sum.splits if_splits)

interpretation rpc_msg: wire_protocol append parse_ready rpc_frame rpc_fits same_content
proof unfold_locales
  show "append s [] = Ok (More, 0, s)" if "parse_ready s" for s
    using that by (auto simp: append_ready parse_ready_def body_result_def payload_result_def
        header_result_def header_left_def)
  show "returns (append s c)" if "parse_ready s" for s c
    using that by (simp add: append_ready)
  show "parse_ready s' \<and> n = length c" if "parse_ready s" "append s c = Ok (More, n, s')" for s c n s'
    using that parse_more by (simp add: append_parse)
  show "append s (c @ c') = cbind (append s' c') (shift_used n)"
    if "parse_ready s" "append s c = Ok (More, n, s')" for s c n s' c'
    using that parse_more [of s c n s' c'] by (simp add: append_parse split: prod.splits)
  show "n \<le> length c \<and> append s (c @ c') = Ok (Done, n, s')"
    if "parse_ready s" "append s c = Ok (Done, n, s')" for s c n s' c'
    using that parse_done by (simp add: append_parse)
  show "\<exists>n' s''. append s (c @ c') = Ok (Append_error e, n', s'')"
    if "parse_ready s" "append s c = Ok (Append_error e, n, s')" for s c e n s' c'
    using that parse_error by (simp add: append_parse)
  show "parse_ready s" if "rpc_fits s m" for s m
    using that by (simp add: rpc_fits_def parse_ready_def)
  show "\<exists>s'. append s (rpc_frame m) = Ok (Done, length (rpc_frame m), s') \<and> same_content s' m"
    if "rpc_fits s m" for s m
    using that by (rule append_frame)
qed

section \<open>The receiver's memory\<close>

text \<open>What the receiver allocates for a message is bounded by its size limit in every state.\<close>

definition body_bounded :: "nat \<Rightarrow> RpcMessage \<Rightarrow> bool" where
  "body_bounded lim m \<longleftrightarrow> size_limit m = lim \<and> length (meta m) + length (payload m) \<le> lim"

lemma body_bounded_fill [simp]:
  "body_bounded lim (fill_header m s) = body_bounded lim m"
  "body_inv m \<Longrightarrow> length s \<le> meta_left m \<Longrightarrow> body_bounded lim (fill_meta m s) = body_bounded lim m"
  "body_inv m \<Longrightarrow> length s \<le> payload_left m \<Longrightarrow> body_bounded lim (fill_payload m s) = body_bounded lim m"
  by (auto simp: body_bounded_def fill_header_def fill_meta_def fill_payload_def body_inv_def
      meta_left_def payload_left_def)

lemma body_result_bounded:
  assumes "body_bounded lim m" "body_inv m" "body_result m p u = (r, n, m')"
  shows "body_bounded lim m'"
proof -
  have "body_inv (fill_meta m (take (meta_left m) p))"
    using assms(2) by (simp add: body_inv_fill_meta)
  with assms show ?thesis
    by (auto simp: body_result_def payload_result_def split: if_splits)
qed

lemma decode_header_bounded: "body_bounded lim m \<Longrightarrow> decode_header m = Inr m'
  \<Longrightarrow> body_bounded lim m' \<and> body_inv m'"
  by (auto simp: decode_header_def body_bounded_def body_inv_def Let_def split: if_splits)

lemma parse_bounded:
  assumes "parse_ready m" "body_bounded lim m" "parse_result m p = (r, n, m')"
  shows "body_bounded lim m'"
proof (cases "header_ready m")
  case True
  with assms show ?thesis using body_result_bounded by (auto simp: parse_result_def parse_ready_def)
next
  case False
  with assms show ?thesis
    by (auto simp: parse_result_def header_result_def Let_def split: if_splits sum.splits
        dest!: decode_header_bounded [rotated] intro: body_result_bounded)
qed

lemma feed_bounded:
  "parse_ready m \<Longrightarrow> body_bounded lim m \<Longrightarrow> feed_chunks append m cs = Ok (r, n, m') \<Longrightarrow> body_bounded lim m'"
proof (induction cs arbitrary: m n)
  case Nil
  then show ?case by simp
next
  case (Cons c cs)
  obtain q k t where p: "parse_result m c = (q, k, t)" by (cases "parse_result m c")
  note t = parse_bounded [OF Cons.prems(1,2) p]
  show ?case
  proof (cases "q = More")
    case True
    with p Cons.prems t show ?thesis
      using Cons.IH parse_more [of m c k t] by (auto simp: append_parse)
  next
    case False
    with p Cons.prems t show ?thesis by (simp add: append_parse)
  qed
qed

lemma new_message_ready:
  "length raw = 32 \<Longrightarrow> parse_ready (set_size_limit lim (new_RpcMessage raw_send raw))
    \<and> body_bounded lim (set_size_limit lim (new_RpcMessage raw_send raw))"
  by (simp add: parse_ready_def body_bounded_def set_size_limit_def new_RpcMessage_def)

section \<open>The names in the meta part\<close>

lemma service_method_inverse:
  assumes "set_service_method s f m = Inr m'"
  shows "get_service_method m' = Some (s, f)"
proof -
  have l: "length s < 2 ^ 16" "length f < 2 ^ 16" and
    m': "m' = m\<lparr>meta := store16 (htons (of_nat (length s))) @ store16 (htons (of_nat (length f))) @ s @ f\<rparr>"
    using assms by (auto simp: set_service_method_def Let_def split: if_splits)
  then have u: "unat (of_nat (length s) :: u16) = length s" "unat (of_nat (length f) :: u16) = length f"
    by (simp_all add: unat_of_nat)
  then show ?thesis
    by (simp add: m' get_service_method_def Let_def bytes_simps)
qed

lemma get_set_service_method:
  assumes "get_service_method m = Some (s, f)"
  shows "set_service_method s f m = Inr m"
proof -
  let ?a = "segment 0 2 (meta m)" and ?b = "segment 2 2 (meta m)"
  have len: "length (meta m) = 4 + unat (ntohs (load16 ?a)) + unat (ntohs (load16 ?b))"
    and s: "s = segment 4 (unat (ntohs (load16 ?a))) (meta m)"
    and f: "f = segment (4 + unat (ntohs (load16 ?a))) (unat (ntohs (load16 ?b))) (meta m)"
    using assms by (auto simp: get_service_method_def Let_def split: if_splits)
  have ls: "length s = unat (ntohs (load16 ?a))" and lf: "length f = unat (ntohs (load16 ?b))"
    and la: "length ?a = 2" "length ?b = 2"
    using len by (simp_all add: s f length_segment)
  have small: "length s \<le> 0xffff" "length f \<le> 0xffff"
    using unsigned_less [of "ntohs (load16 ?a)", where 'a = nat] unsigned_less [of "ntohs (load16 ?b)", where 'a = nat]
    by (simp_all add: ls lf)
  have "?a @ ?b @ s @ f = meta m"
  proof -
    let ?k = "unat (ntohs (load16 ?a))" and ?l = "unat (ntohs (load16 ?b))"
    have "((?a @ ?b) @ s) @ f = take (4 + ?k + ?l) (meta m)"
      using take_segment [of 2 "meta m" 2] take_segment [of 4 "meta m" ?k]
        take_segment [of "4 + ?k" "meta m" ?l] by (simp add: s f segment_def)
    then show ?thesis by (simp add: len)
  qed
  moreover have "(of_nat (length s) :: u16) = ntohs (load16 ?a)" "(of_nat (length f) :: u16) = ntohs (load16 ?b)"
    by (simp_all add: ls lf)
  ultimately show ?thesis
    using small la by (simp add: set_service_method_def Let_def store_load16)
qed

lemma load32_rev_iff: "length s = 4 \<Longrightarrow> load32 (rev s) = w \<longleftrightarrow> s = rev (store32 w)"
  by (metis length_rev load_store(2) rev_rev_ident store_load32)

lemma load16_rev_iff: "length s = 2 \<Longrightarrow> load16 (rev s) = w \<longleftrightarrow> s = rev (store16 w)"
  by (metis length_rev load_store(1) rev_rev_ident store_load16)

lemma magic_iff:
  assumes "length h = 32"
  shows "take 6 h = ''WRPC'' @ [CHR 0x00, CHR 0x01] \<longleftrightarrow>
    load32 (rev (segment 0 4 h)) = RPC_MAGIC \<and> load16 (rev (segment 4 2 h)) = RPC_VERSION"
proof -
  have v: "rev (store32 RPC_MAGIC) = ''WRPC''" "rev (store16 RPC_VERSION) = [CHR 0x00, CHR 0x01]"
    using load32_rev_iff [of "''WRPC''" RPC_MAGIC] load16_rev_iff [of "[CHR 0x00, CHR 0x01]" RPC_VERSION]
    by (simp_all add: load32_def load16_def RPC_MAGIC_def RPC_VERSION_def)
  have l: "length (segment 0 4 h) = 4" "length (segment 4 2 h) = 2"
    using assms by (simp_all add: length_segment)
  have t: "take 6 h = segment 0 4 h @ segment 4 2 h"
    using take_segment [of 0 h 4] take_segment [of 4 h 2] by (simp add: segment_def)
  have "take 6 h = ''WRPC'' @ [CHR 0x00, CHR 0x01] \<longleftrightarrow>
      segment 0 4 h = rev (store32 RPC_MAGIC) \<and> segment 4 2 h = rev (store16 RPC_VERSION)"
    unfolding v t by (rule append_eq_append_conv) (simp add: l)
  also have "\<dots> \<longleftrightarrow> load32 (rev (segment 0 4 h)) = RPC_MAGIC \<and> load16 (rev (segment 4 2 h)) = RPC_VERSION"
    using l by (simp add: load32_rev_iff load16_rev_iff)
  finally show ?thesis .
qed

section \<open>Properties\<close>

text \<open>C4: Whatever a message holds (names, payload, sequence number, flags, status), and however
  the transport cuts the bytes that \<open>encode\<close> produced into chunks, also when they are followed
  by other bytes, a fresh receiver that accepts messages of this size reports the message as
  complete after exactly these bytes, with the same content.\<close>

theorem rpc_message_delivered:
  assumes "length (send_header m) = 32" and "encode m 3 = (Inr vectors, m')" and "sendable m"
    and "length raw = 32" and "length (meta m) + length (payload m) \<le> lim"
    and "concat cs = concat vectors @ rest"
  shows "\<exists>s'. feed_chunks append (set_size_limit lim (new_RpcMessage raw_send raw)) cs
           = Ok (Done, length (concat vectors), s') \<and> same_content s' m"
proof -
  have v: "concat vectors = rpc_frame m" using encode_eq [OF assms(1), of 3] assms(2) by auto
  have "rpc_fits (set_size_limit lim (new_RpcMessage raw_send raw)) m"
    using assms by (simp add: rpc_fits_def set_size_limit_def new_RpcMessage_def)
  from rpc_msg.delivered [OF this] assms(6) show ?thesis by (simp add: v)
qed

definition sample_message :: RpcMessage where
  "sample_message = (new_RpcMessage (replicate 32 NUL) (replicate 32 NUL))
     \<lparr>sequence_no := 7, status := 3, meta := [CHR 0x00, CHR 0x01, CHR 0x00, CHR 0x01] @ ''sm'', payload := ''hi''\<rparr>"

theorem rpc_message_delivered_witness:
  "\<exists>s'. feed_chunks append (set_size_limit 100 (new_RpcMessage [] (replicate 32 NUL)))
       [take 5 (rpc_frame sample_message), drop 5 (rpc_frame sample_message) @ ''xyz'']
     = Ok (Done, 40, s') \<and> same_content s' sample_message"
proof -
  let ?v = "[header_bytes sample_message, meta sample_message, payload sample_message]"
  have "encode sample_message 3 = (Inr ?v, sample_message\<lparr>send_header := header_bytes sample_message\<rparr>)"
    by (simp add: encode_def encode_header_eq sample_message_def new_RpcMessage_def Let_def header_bytes_def)
  moreover have "length (send_header sample_message) = 32" "sendable sample_message"
    "length (meta sample_message) + length (payload sample_message) \<le> 100"
    by (simp_all add: sample_message_def new_RpcMessage_def sendable_def)
  moreover have "length (concat ?v) = 40" by (simp add: sample_message_def)
  moreover have "concat [take 5 (rpc_frame sample_message), drop 5 (rpc_frame sample_message) @ ''xyz'']
    = concat ?v @ ''xyz''"
    by (simp add: rpc_frame_def)
  moreover have "length (replicate 32 NUL) = 32" by simp
  ultimately show ?thesis using rpc_message_delivered by metis
qed

text \<open>C19: Whatever bytes arrive, in whatever chunks, parsing them never reads or writes outside
  the message's buffers and each call returns; and in every state the receiver has allocated at
  most \<open>size_limit\<close> bytes for the body, whatever lengths the header claims.\<close>

theorem rpc_receiver_safe:
  assumes "length raw = 32"
  shows "\<exists>r n s'. feed_chunks append (set_size_limit lim (new_RpcMessage raw_send raw)) cs = Ok (r, n, s')
     \<and> length (meta s') + length (payload s') \<le> lim"
proof -
  note rdy = new_message_ready [OF assms, of lim raw_send]
  obtain r n s' where "feed_chunks append (set_size_limit lim (new_RpcMessage raw_send raw)) cs = Ok (r, n, s')"
    using rpc_msg.chunks_total [of _ cs] rdy by (fastforce simp: returns_def)
  with feed_bounded [of _ lim cs r n s'] rdy show ?thesis by (auto simp: body_bounded_def)
qed

theorem rpc_receiver_safe_witness:
  "\<exists>r n s'. feed_chunks append (set_size_limit 16 (new_RpcMessage [] (replicate 32 NUL)))
      [replicate 20 (CHR 0xff), replicate 20 (CHR 0xff)] = Ok (r, n, s')
     \<and> length (meta s') + length (payload s') \<le> 16"
  by (rule rpc_receiver_safe) simp

text \<open>The verdict on a complete header: a wrong magic number or version is refused as a bad
  message, a body larger than the limit as too large (without allocating it), an empty body
  completes the message, and any other header asks for exactly the announced bytes.\<close>

theorem rpc_header_verdict:
  assumes "length raw = 32" and "length h = 32"
  shows "append (set_size_limit lim (new_RpcMessage raw_send raw)) h =
     (let s = fill_header (set_size_limit lim (new_RpcMessage raw_send raw)) h;
          meta_len = unat (load32 (rev (segment 16 4 h)));
          payload_len = unat (load32 (rev (segment 20 4 h)))
      in if take 6 h \<noteq> ''WRPC'' @ [CHR 0x00, CHR 0x01] then Ok (Append_error EBADMSG, 32, s)
         else if lim < meta_len + payload_len then Ok (Append_error EMSGSIZE, 32, s)
         else Ok (if meta_len = 0 \<and> payload_len = 0 then Done else More, 32,
           s\<lparr>flags := load16 (rev (segment 6 2 h)), sequence_no := load64 (rev (segment 8 8 h)),
             status := load32 (rev (segment 24 4 h)),
             expected_meta_len := of_nat meta_len, expected_payload_len := of_nat payload_len,
             meta := replicate meta_len NUL, payload := replicate payload_len NUL,
             header_ready := True\<rparr>))"
proof -
  let ?r = "set_size_limit lim (new_RpcMessage raw_send raw)"
  let ?s = "fill_header ?r h"
  have s: "recv_header ?s = h" "size_limit ?s = lim" "recv_meta_bytes ?s = 0" "recv_payload_bytes ?s = 0"
    using assms by (simp_all add: fill_header_def set_size_limit_def new_RpcMessage_def overwrite_def)
  have "append ?r h = Ok (header_result ?r h)"
    using new_message_ready [OF assms(1)]
    by (simp add: append_ready set_size_limit_def new_RpcMessage_def)
  also have "header_result ?r h = (case decode_header ?s of
      Inl e \<Rightarrow> (Append_error e, 32, ?s)
    | Inr m' \<Rightarrow> if expected_meta_len m' = 0 \<and> expected_payload_len m' = 0 then (Done, 32, m')
               else body_result m' [] 32)"
  proof -
    have "header_left ?r = 32"
      using assms by (simp_all add: header_left_def set_size_limit_def new_RpcMessage_def)
    then show ?thesis using assms(2) by (auto simp: header_result_def Let_def split: sum.split)
  qed
  finally show ?thesis
    using assms(2) s magic_iff [OF assms(2)]
    by (auto simp: decode_header_def Let_def body_result_def payload_result_def meta_left_def
        payload_left_def ntohl_load32 ntohs_load16 ntohll64_load64 length_segment unat_eq_0
        simp flip: unat_eq_0)
qed

theorem rpc_header_verdict_witness:
  "\<exists>n s'. append (set_size_limit 64 (new_RpcMessage [] (replicate 32 NUL))) (''WRPD'' @ replicate 28 NUL)
     = Ok (Append_error EBADMSG, n, s')"
  using rpc_header_verdict [of "replicate 32 NUL" "''WRPD'' @ replicate 28 NUL" 64 "[]"] by simp

text \<open>Names of at most 65535 bytes written by \<open>set_service_method\<close> are read back unchanged, longer
  ones are refused; and \<open>get_service_method\<close> accepts exactly the meta parts that
  \<open>set_service_method\<close> writes for the names it returns.\<close>

theorem rpc_service_method_roundtrip:
  "map_sum id get_service_method (set_service_method s f m)
     = (if 65535 < length s \<or> 65535 < length f then Inl EINVAL else Inr (Some (s, f)))
   \<and> (get_service_method m = Some (s, f) \<longleftrightarrow> set_service_method s f m = Inr m)"
proof
  show "map_sum id get_service_method (set_service_method s f m)
     = (if 65535 < length s \<or> 65535 < length f then Inl EINVAL else Inr (Some (s, f)))"
    using service_method_inverse [of s f m] by (auto simp: set_service_method_def Let_def)
  show "get_service_method m = Some (s, f) \<longleftrightarrow> set_service_method s f m = Inr m"
    using get_set_service_method service_method_inverse by blast
qed

end
