(* ===== verification/CircuitBreaker.thy ===== *)
theory CircuitBreaker
  imports Prelude
begin

text \<open>
  The circuit breaker of a service (\<open>rpc/src/rpc_circuit_breaker.h\<close>,
  \<open>rpc/src/rpc_circuit_breaker.cc\<close>). A clock reading (milliseconds since the epoch) is an argument
  of the operations that read the clock; two readings are non-negative \<open>int64_t\<close> values, so that
  their difference cannot overflow. Each operation is one step here; the interleaving of their
  atomic accesses by several threads is the subject of the theory \<open>Breaker_Threads\<close>.
\<close>

section \<open>32-bit counters\<close>

definition INT_MAX :: int where "INT_MAX = 2 ^ 31 - 1"

text \<open>\<open>fetch_add\<close> of an atomic wraps; the sum the caller computes from its result must not overflow.\<close>

definition wrap32 :: "int \<Rightarrow> int" where
  "wrap32 x = (x + 2 ^ 31) mod 2 ^ 32 - 2 ^ 31"

definition int_plus1 :: "int \<Rightarrow> int cxx" where
  "int_plus1 x = (if x < INT_MAX then Ok (x + 1) else Undefined)"

lemma wrap32_id: "-(2 ^ 31) \<le> x \<Longrightarrow> x \<le> INT_MAX \<Longrightarrow> wrap32 x = x"
  by (simp add: wrap32_def INT_MAX_def)

section \<open>State\<close>

datatype State = STATE_CLOSED | STATE_OPEN | STATE_HALF_OPEN

record CircuitBreaker =
  cb_name :: string
  cb_state :: State
  failure_count :: int
  success_count :: int
  last_failure_time :: int
  failure_threshold :: int
  success_threshold :: int
  timeout_ms :: int

definition new_CircuitBreaker :: "string \<Rightarrow> int \<Rightarrow> int \<Rightarrow> int \<Rightarrow> CircuitBreaker" where
  "new_CircuitBreaker n ft st tmo =
     \<lparr>cb_name = n, cb_state = STATE_CLOSED, failure_count = 0, success_count = 0,
      last_failure_time = 0, failure_threshold = ft, success_threshold = st, timeout_ms = tmo\<rparr>"

section \<open>Operations\<close>

definition transition_to_open :: "int \<Rightarrow> CircuitBreaker \<Rightarrow> CircuitBreaker" where
  "transition_to_open now cb =
     (if cb_state cb \<noteq> STATE_OPEN then cb\<lparr>cb_state := STATE_OPEN, last_failure_time := now\<rparr> else cb)"

definition transition_to_closed :: "CircuitBreaker \<Rightarrow> CircuitBreaker" where
  "transition_to_closed cb = cb\<lparr>cb_state := STATE_CLOSED, failure_count := 0, success_count := 0\<rparr>"

definition transition_to_half_open :: "CircuitBreaker \<Rightarrow> CircuitBreaker" where
  "transition_to_half_open cb = cb\<lparr>cb_state := STATE_HALF_OPEN, success_count := 0\<rparr>"

definition should_attempt_reset :: "int \<Rightarrow> CircuitBreaker \<Rightarrow> bool" where
  "should_attempt_reset now cb \<longleftrightarrow> now - last_failure_time cb \<ge> timeout_ms cb"

definition allow_request :: "int \<Rightarrow> CircuitBreaker \<Rightarrow> bool \<times> CircuitBreaker" where
  "allow_request now cb = (case cb_state cb of
     STATE_CLOSED \<Rightarrow> (True, cb)
   | STATE_OPEN \<Rightarrow> if should_attempt_reset now cb then (True, transition_to_half_open cb) else (False, cb)
   | STATE_HALF_OPEN \<Rightarrow> (True, cb))"

definition record_success :: "CircuitBreaker \<Rightarrow> CircuitBreaker cxx" where
  "record_success cb = (case cb_state cb of
     STATE_CLOSED \<Rightarrow> Ok (cb\<lparr>failure_count := 0\<rparr>)
   | STATE_HALF_OPEN \<Rightarrow> cbind (int_plus1 (success_count cb)) (\<lambda>count.
       let cb = cb\<lparr>success_count := wrap32 (success_count cb + 1)\<rparr>
       in Ok (if count \<ge> success_threshold cb then transition_to_closed cb else cb))
   | STATE_OPEN \<Rightarrow> Ok cb)"

definition record_failure :: "int \<Rightarrow> CircuitBreaker \<Rightarrow> CircuitBreaker cxx" where
  "record_failure now cb = (case cb_state cb of
     STATE_CLOSED \<Rightarrow> cbind (int_plus1 (failure_count cb)) (\<lambda>count.
       let cb = cb\<lparr>failure_count := wrap32 (failure_count cb + 1)\<rparr>
       in Ok (if count \<ge> failure_threshold cb then transition_to_open now cb else cb))
   | STATE_HALF_OPEN \<Rightarrow> Ok (transition_to_open now cb)
   | STATE_OPEN \<Rightarrow> Ok cb)"

section \<open>Histories\<close>

text \<open>A history of the calls of one breaker, with the clock readings they made, and the run of it
  with the answers of \<open>allow_request\<close>.\<close>

datatype cb_event = Allow int | Success | Failure int

fun cb_step :: "cb_event \<Rightarrow> CircuitBreaker \<Rightarrow> (bool list \<times> CircuitBreaker) cxx" where
  "cb_step (Allow now) cb = (let (b, cb') = allow_request now cb in Ok ([b], cb'))"
| "cb_step Success cb = cbind (record_success cb) (\<lambda>cb'. Ok ([], cb'))"
| "cb_step (Failure now) cb = cbind (record_failure now cb) (\<lambda>cb'. Ok ([], cb'))"

fun cb_run :: "cb_event list \<Rightarrow> CircuitBreaker \<Rightarrow> (bool list \<times> CircuitBreaker) cxx" where
  "cb_run [] cb = Ok ([], cb)"
| "cb_run (e # es) cb = cbind (cb_step e cb) (\<lambda>(bs, cb'). cbind (cb_run es cb') (\<lambda>(cs, cb''). Ok (bs @ cs, cb'')))"

section \<open>Abstract machine\<close>

text \<open>
  The contract: closed with a number of consecutive failures, open since a time, or probing with a
  number of successes. The limits are the thresholds, but at least one event is needed.
\<close>

datatype breaker = Closed nat | Open int | Half nat

record limits =
  trip :: nat
  heal :: nat
  cool :: int

definition limits_of :: "CircuitBreaker \<Rightarrow> limits" where
  "limits_of cb = \<lparr>trip = nat (max 1 (failure_threshold cb)), heal = nat (max 1 (success_threshold cb)),
     cool = timeout_ms cb\<rparr>"

definition breaker_of :: "CircuitBreaker \<Rightarrow> breaker" where
  "breaker_of cb = (case cb_state cb of
     STATE_CLOSED \<Rightarrow> Closed (nat (failure_count cb))
   | STATE_OPEN \<Rightarrow> Open (last_failure_time cb)
   | STATE_HALF_OPEN \<Rightarrow> Half (nat (success_count cb)))"

fun breaker_step :: "limits \<Rightarrow> cb_event \<Rightarrow> breaker \<Rightarrow> bool list \<times> breaker" where
  "breaker_step l (Allow now) (Open t) = (if now - t \<ge> cool l then ([True], Half 0) else ([False], Open t))"
| "breaker_step l (Allow now) b = ([True], b)"
| "breaker_step l Success (Closed n) = ([], Closed 0)"
| "breaker_step l Success (Half k) = ([], if Suc k \<ge> heal l then Closed 0 else Half (Suc k))"
| "breaker_step l Success (Open t) = ([], Open t)"
| "breaker_step l (Failure now) (Closed n) = ([], if Suc n \<ge> trip l then Open now else Closed (Suc n))"
| "breaker_step l (Failure now) (Half k) = ([], Open now)"
| "breaker_step l (Failure now) (Open t) = ([], Open t)"

fun breaker_run :: "limits \<Rightarrow> cb_event list \<Rightarrow> breaker \<Rightarrow> bool list \<times> breaker" where
  "breaker_run l [] b = ([], b)"
| "breaker_run l (e # es) b = (let (bs, b') = breaker_step l e b; (cs, b'') = breaker_run l es b' in (bs @ cs, b''))"

text \<open>The invariant of a breaker with representable thresholds.\<close>

definition cb_inv :: "CircuitBreaker \<Rightarrow> bool" where
  "cb_inv cb \<longleftrightarrow> failure_threshold cb \<le> INT_MAX \<and> success_threshold cb \<le> INT_MAX
     \<and> 0 \<le> failure_count cb \<and> 0 \<le> success_count cb
     \<and> (cb_state cb = STATE_CLOSED \<longrightarrow> failure_count cb < max 1 (failure_threshold cb))
     \<and> (cb_state cb = STATE_HALF_OPEN \<longrightarrow> success_count cb < max 1 (success_threshold cb))"

lemma INT_MAX_pos: "1 \<le> INT_MAX"
  by (simp add: INT_MAX_def)

lemma counter_step:
  assumes "0 \<le> x" "x < max 1 t" "t \<le> INT_MAX"
  shows "int_plus1 x = Ok (x + 1)" "wrap32 (x + 1) = x + 1"
  using assms by (auto simp: int_plus1_def wrap32_def INT_MAX_def)

text \<open>One step of the breaker is one step of the contract.\<close>

lemma cb_step_refines:
  assumes "cb_inv cb"
  shows "\<exists>cb'. cb_step e cb = Ok (fst (breaker_step (limits_of cb) e (breaker_of cb)), cb')
     \<and> breaker_of cb' = snd (breaker_step (limits_of cb) e (breaker_of cb))
     \<and> cb_inv cb' \<and> limits_of cb' = limits_of cb"
proof (cases e)
  case (Allow now)
  with assms show ?thesis
    by (auto simp: allow_request_def should_attempt_reset_def transition_to_half_open_def
        breaker_of_def limits_of_def cb_inv_def split: State.splits)
next
  case Success
  show ?thesis
  proof (cases "cb_state cb")
    case STATE_HALF_OPEN
    with assms have "int_plus1 (success_count cb) = Ok (success_count cb + 1)"
      "wrap32 (success_count cb + 1) = success_count cb + 1"
      using counter_step [of "success_count cb" "success_threshold cb"] by (auto simp: cb_inv_def)
    with Success STATE_HALF_OPEN assms show ?thesis
      by (auto simp: record_success_def transition_to_closed_def breaker_of_def limits_of_def cb_inv_def Let_def)
  qed (use Success assms in \<open>auto simp: record_success_def breaker_of_def limits_of_def cb_inv_def\<close>)
next
  case (Failure now)
  show ?thesis
  proof (cases "cb_state cb")
    case STATE_CLOSED
    with assms have "int_plus1 (failure_count cb) = Ok (failure_count cb + 1)"
      "wrap32 (failure_count cb + 1) = failure_count cb + 1"
      using counter_step [of "failure_count cb" "failure_threshold cb"] by (auto simp: cb_inv_def)
    with Failure STATE_CLOSED assms show ?thesis
      by (auto simp: record_failure_def transition_to_open_def breaker_of_def limits_of_def cb_inv_def Let_def)
  qed (use Failure assms in \<open>auto simp: record_failure_def transition_to_open_def breaker_of_def limits_of_def cb_inv_def\<close>)
qed

lemma cb_run_refines:
  "cb_inv cb \<Longrightarrow> \<exists>cb'. cb_run es cb = Ok (fst (breaker_run (limits_of cb) es (breaker_of cb)), cb')
     \<and> breaker_of cb' = snd (breaker_run (limits_of cb) es (breaker_of cb))
     \<and> cb_inv cb' \<and> limits_of cb' = limits_of cb"
proof (induction es arbitrary: cb)
  case Nil
  then show ?case by simp
next
  case (Cons e es)
  from cb_step_refines [OF Cons.prems, of e] obtain c where
    c: "cb_step e cb = Ok (fst (breaker_step (limits_of cb) e (breaker_of cb)), c)"
      "breaker_of c = snd (breaker_step (limits_of cb) e (breaker_of cb))"
      "cb_inv c" "limits_of c = limits_of cb" by blast
  from Cons.IH [OF c(3)] c show ?case by (auto simp: split_beta)
qed

section \<open>Runs of the contract\<close>

text \<open>The failures since the last success.\<close>

fun is_allow :: "cb_event \<Rightarrow> bool" where
  "is_allow (Allow now) = True"
| "is_allow e = False"

fun is_failure :: "cb_event \<Rightarrow> bool" where
  "is_failure (Failure now) = True"
| "is_failure e = False"

fun readings :: "cb_event \<Rightarrow> int list" where
  "readings (Allow now) = [now]"
| "readings (Failure now) = [now]"
| "readings Success = []"

definition failure_run :: "cb_event list \<Rightarrow> nat" where
  "failure_run es = length (takeWhile is_failure (rev (filter (\<lambda>e. \<not> is_allow e) es)))"

lemma failure_run_snoc:
  "failure_run [] = 0" "failure_run (es @ [Allow now]) = failure_run es"
  "failure_run (es @ [Success]) = 0" "failure_run (es @ [Failure now]) = Suc (failure_run es)"
  by (simp_all add: failure_run_def)

lemma breaker_run_append:
  "breaker_run l (xs @ ys) b = (let (bs, b') = breaker_run l xs b; (cs, b'') = breaker_run l ys b' in (bs @ cs, b''))"
  by (induction xs arbitrary: b) (auto simp: split_beta)

lemma closed_until_trip:
  assumes "\<forall>p. prefix p es \<longrightarrow> failure_run p < trip l"
  shows "breaker_run l es (Closed 0) = (replicate (length (filter is_allow es)) True, Closed (failure_run es))"
  using assms
proof (induction es rule: rev_induct)
  case Nil
  then show ?case by (simp add: failure_run_snoc)
next
  case (snoc e es)
  then have "failure_run (es @ [e]) < trip l" by blast
  with snoc show ?case
    by (cases e) (auto simp: breaker_run_append failure_run_snoc replicate_append_same)
qed

lemma trips_at_limit:
  assumes "\<forall>q. strict_prefix q p \<longrightarrow> failure_run q < trip l" and "failure_run p \<ge> trip l" and "0 < trip l"
  shows "\<exists>now. last p = Failure now \<and> snd (breaker_run l p (Closed 0)) = Open now"
proof (cases p rule: rev_cases)
  case Nil
  with assms show ?thesis by (simp add: failure_run_snoc)
next
  case (snoc q e)
  have "strict_prefix r p" if "prefix r q" for r
    using that by (auto simp: snoc strict_prefix_def prefix_def)
  then have pre: "\<forall>r. prefix r q \<longrightarrow> failure_run r < trip l"
    using assms(1) by blast
  then have "failure_run q < trip l" by blast
  moreover have "failure_run (q @ [e]) \<ge> trip l" using assms(2) snoc by simp
  ultimately obtain now where e: "e = Failure now" and "Suc (failure_run q) \<ge> trip l"
    using assms(3) by (cases e) (auto simp: failure_run_snoc)
  then have "snd (breaker_run l (q @ [e]) (Closed 0)) = Open now"
    by (simp add: breaker_run_append closed_until_trip [OF pre])
  with e show ?thesis by (simp add: snoc)
qed

lemma open_stays:
  "\<forall>e \<in> set es. \<forall>now \<in> set (readings e). now - t < cool l
     \<Longrightarrow> breaker_run l es (Open t) = (replicate (length (filter is_allow es)) False, Open t)"
proof (induction es)
  case Nil
  then show ?case by simp
next
  case (Cons e es)
  then show ?case by (cases e) auto
qed

lemma closed_stays:
  "\<forall>e \<in> set es. \<not> is_failure e
     \<Longrightarrow> breaker_run l es (Closed 0) = (replicate (length (filter is_allow es)) True, Closed 0)"
proof (induction es)
  case Nil
  then show ?case by simp
next
  case (Cons e es)
  then show ?case by (cases e) auto
qed

lemma half_heals:
  "\<forall>e \<in> set es. \<not> is_failure e \<Longrightarrow> k < heal l
     \<Longrightarrow> breaker_run l es (Half k) = (replicate (length (filter is_allow es)) True,
        if k + count_list es Success < heal l then Half (k + count_list es Success) else Closed 0)"
proof (induction es arbitrary: k)
  case Nil
  then show ?case by simp
next
  case (Cons e es)
  then show ?case by (cases e) (auto simp: closed_stays not_less_eq_eq)
qed

lemma new_breaker:
  assumes "ft \<le> INT_MAX" "st \<le> INT_MAX"
  shows "cb_inv (new_CircuitBreaker n ft st tmo)" "breaker_of (new_CircuitBreaker n ft st tmo) = Closed 0"
    "limits_of (new_CircuitBreaker n ft st tmo) = \<lparr>trip = nat (max 1 ft), heal = nat (max 1 st), cool = tmo\<rparr>"
  using assms by (simp_all add: cb_inv_def breaker_of_def new_CircuitBreaker_def limits_of_def)

lemma breaker_of_simps:
  "cb_inv cb \<Longrightarrow> breaker_of cb = Closed k \<longleftrightarrow> cb_state cb = STATE_CLOSED \<and> failure_count cb = int k"
  "breaker_of cb = Open t \<longleftrightarrow> cb_state cb = STATE_OPEN \<and> last_failure_time cb = t"
  "cb_inv cb \<Longrightarrow> breaker_of cb = Half k \<longleftrightarrow> cb_state cb = STATE_HALF_OPEN \<and> success_count cb = int k"
  by (auto simp: breaker_of_def cb_inv_def split: State.splits)

section \<open>Properties\<close>

text \<open>C7: Every sequence of calls on a breaker with representable thresholds behaves like the
  contract (closed with a count of consecutive failures, open since a time, probing with a count of
  successes): the answers are the contract's, no counter overflows, and the limits never change.\<close>

theorem breaker_refines_contract:
  assumes "ft \<le> INT_MAX" and "st \<le> INT_MAX"
  shows "\<exists>cb. cb_run es (new_CircuitBreaker n ft st tmo) = Ok (fst (breaker_run
             \<lparr>trip = nat (max 1 ft), heal = nat (max 1 st), cool = tmo\<rparr> es (Closed 0)), cb)
         \<and> breaker_of cb = snd (breaker_run \<lparr>trip = nat (max 1 ft), heal = nat (max 1 st), cool = tmo\<rparr> es (Closed 0))"
  using cb_run_refines [OF new_breaker(1) [OF assms]] by (fastforce simp: new_breaker [OF assms])

theorem breaker_refines_contract_witness:
  "\<exists>cb. cb_run [Failure 1, Failure 2, Allow 5, Allow 40] (new_CircuitBreaker ''s'' 2 1 30) = Ok ([False, True], cb)
     \<and> breaker_of cb = Half 0"
  using breaker_refines_contract [of 2 1 "[Failure 1, Failure 2, Allow 5, Allow 40]" "''s''" 30]
  by (simp add: INT_MAX_def)



text \<open>While a breaker is open and the timeout has not passed since it opened, every request is
  refused and no success or failure that is reported changes the breaker.\<close>

theorem breaker_open_rejects:
  assumes "cb_state cb = STATE_OPEN"
    and "\<forall>e \<in> set es. \<forall>now \<in> set (readings e). now < last_failure_time cb + timeout_ms cb"
  shows "cb_run es cb = Ok (replicate (length (filter is_allow es)) False, cb)"
  using assms
proof (induction es)
  case Nil
  then show ?case by simp
next
  case (Cons e es)
  then show ?case
    by (cases e) (auto simp: allow_request_def should_attempt_reset_def record_success_def record_failure_def)
qed

theorem breaker_open_rejects_witness:
  "cb_run [Allow 10, Failure 12, Success, Allow 29]
     ((new_CircuitBreaker ''s'' 2 1 30)\<lparr>cb_state := STATE_OPEN, last_failure_time := 0\<rparr>)
   = Ok ([False, False], (new_CircuitBreaker ''s'' 2 1 30)\<lparr>cb_state := STATE_OPEN, last_failure_time := 0\<rparr>)"
  using breaker_open_rejects [of "(new_CircuitBreaker ''s'' 2 1 30)\<lparr>cb_state := STATE_OPEN, last_failure_time := 0\<rparr>"
      "[Allow 10, Failure 12, Success, Allow 29]"]
  by (simp add: new_CircuitBreaker_def numeral_2_eq_2)

text \<open>The first request after the timeout is admitted and probing starts: from then on, as long
  as no failure is reported, every request is admitted (their number is not limited), the breaker
  closes with cleared counters at the success that reaches the success threshold, and not before.\<close>

theorem breaker_recovers:
  assumes "cb_inv cb" and "cb_state cb = STATE_OPEN" and "last_failure_time cb + timeout_ms cb \<le> now"
    and "\<forall>e \<in> set es. \<not> is_failure e"
  shows "\<exists>cb'. cb_run (Allow now # es) cb = Ok (replicate (Suc (length (filter is_allow es))) True, cb') \<and>
     (if count_list es Success < nat (max 1 (success_threshold cb))
      then cb_state cb' = STATE_HALF_OPEN \<and> success_count cb' = int (count_list es Success)
      else cb_state cb' = STATE_CLOSED \<and> failure_count cb' = 0)"
proof -
  have o: "breaker_of cb = Open (last_failure_time cb)" using assms(2) by (simp add: breaker_of_simps)
  have "heal (limits_of cb) = nat (max 1 (success_threshold cb))" "cool (limits_of cb) = timeout_ms cb"
    by (simp_all add: limits_of_def)
  moreover obtain cb' where "cb_run (Allow now # es) cb = Ok (fst (breaker_run (limits_of cb) (Allow now # es) (breaker_of cb)), cb')"
    "breaker_of cb' = snd (breaker_run (limits_of cb) (Allow now # es) (breaker_of cb))" "cb_inv cb'"
    using cb_run_refines [OF assms(1)] by blast
  ultimately show ?thesis
    using assms(3) half_heals [OF assms(4), of 0 "limits_of cb"] by (auto simp: o breaker_of_simps)
qed

theorem breaker_recovers_witness:
  "\<exists>cb'. cb_run [Allow 30, Success, Allow 31, Success]
     ((new_CircuitBreaker ''s'' 2 2 30)\<lparr>cb_state := STATE_OPEN, last_failure_time := 0\<rparr>)
   = Ok ([True, True], cb') \<and> cb_state cb' = STATE_CLOSED"
  using breaker_recovers [of "(new_CircuitBreaker ''s'' 2 2 30)\<lparr>cb_state := STATE_OPEN, last_failure_time := 0\<rparr>"
      30 "[Success, Allow 31, Success]"]
  by (auto simp: new_CircuitBreaker_def cb_inv_def INT_MAX_def numeral_2_eq_2 simp del: cb_run.simps)

end
