(* ===== verification/RateLimiter.thy ===== *)
theory RateLimiter
  imports Prelude "HOL-Library.Signed_Division"
begin

text \<open>
  The token bucket of a service (\<open>rpc/src/rpc_rate_limiter.h\<close>, \<open>rpc/src/rpc_rate_limiter.cc\<close>). Times
  are milliseconds since the epoch; a clock reading is an argument of the operations. The
  arithmetic of the refill is on \<open>int64_t\<close>, whose overflow is undefined, and its division
  truncates towards zero (\<open>sdiv\<close>).
\<close>

section \<open>State and operations\<close>

definition i64 :: "int \<Rightarrow> int cxx" where
  "i64 x = (if - (2 ^ 63) \<le> x \<and> x < 2 ^ 63 then Ok x else Undefined)"

record RateLimiter =
  rl_name :: string
  qps :: int
  tokens :: int
  last_refill_time :: int

definition new_RateLimiter :: "string \<Rightarrow> int \<Rightarrow> int \<Rightarrow> RateLimiter" where
  "new_RateLimiter n q now = \<lparr>rl_name = n, qps = q, tokens = q, last_refill_time = now\<rparr>"

definition set_rate :: "int \<Rightarrow> RateLimiter \<Rightarrow> RateLimiter" where
  "set_rate q rl = rl\<lparr>qps := q, tokens := q\<rparr>"

text \<open>\<open>(elapsed_ms * qps) / 1000\<close>\<close>

definition refill_amount :: "int \<Rightarrow> RateLimiter \<Rightarrow> int cxx" where
  "refill_amount now rl =
     cbind (i64 (now - last_refill_time rl)) (\<lambda>elapsed_ms.
     cbind (i64 (elapsed_ms * qps rl)) (\<lambda>product. Ok (product sdiv 1000)))"

definition refill :: "int \<Rightarrow> RateLimiter \<Rightarrow> RateLimiter cxx" where
  "refill now rl =
     cbind (refill_amount now rl) (\<lambda>new_tokens.
     if new_tokens > 0 then
       cbind (refill_amount now rl) (\<lambda>new_tokens.
       if new_tokens > 0 then
         cbind (i64 (tokens rl + new_tokens)) (\<lambda>sum.
         Ok (rl\<lparr>tokens := min sum (qps rl), last_refill_time := now\<rparr>))
       else Ok rl)
     else Ok rl)"

text \<open>
  The loop of \<open>compare_exchange_weak\<close>: an attempt may fail for no reason, and the loop then tests
  again. The first argument is the number of attempts that fail so.
\<close>

fun take_tokens :: "nat \<Rightarrow> int \<Rightarrow> RateLimiter \<Rightarrow> bool \<times> RateLimiter" where
  "take_tokens 0 permits rl =
     (if tokens rl \<ge> permits then (True, rl\<lparr>tokens := tokens rl - permits\<rparr>) else (False, rl))"
| "take_tokens (Suc n) permits rl =
     (if tokens rl \<ge> permits then take_tokens n permits rl else (False, rl))"

definition try_acquire_internal :: "nat \<Rightarrow> int \<Rightarrow> int \<Rightarrow> RateLimiter \<Rightarrow> (bool \<times> RateLimiter) cxx" where
  "try_acquire_internal spurious permits now rl =
     cbind (refill now rl) (\<lambda>rl'. Ok (take_tokens spurious permits rl'))"

definition try_acquire :: "nat \<Rightarrow> int \<Rightarrow> int \<Rightarrow> RateLimiter \<Rightarrow> (bool \<times> RateLimiter) cxx" where
  "try_acquire spurious permits now rl =
     (if permits \<le> 0 \<or> qps rl \<le> 0 then Ok (False, rl) else try_acquire_internal spurious permits now rl)"

section \<open>Runs\<close>

text \<open>A request: the spurious failures it meets, the permits it asks for, the clock it reads. A run
  answers each and returns the number of permits granted.\<close>

type_synonym request = "nat \<times> int \<times> int"

fun rl_run :: "request list \<Rightarrow> RateLimiter \<Rightarrow> (int \<times> RateLimiter) cxx" where
  "rl_run [] rl = Ok (0, rl)"
| "rl_run ((k, permits, now) # rs) rl =
     cbind (try_acquire k permits now rl) (\<lambda>(ok, rl').
     cbind (rl_run rs rl') (\<lambda>(granted, rl''). Ok ((if ok then permits else 0) + granted, rl'')))"

section \<open>Lemmas\<close>

lemma take_tokens_eq [simp]:
  "take_tokens n permits rl =
     (if tokens rl \<ge> permits then (True, rl\<lparr>tokens := tokens rl - permits\<rparr>) else (False, rl))"
  by (induction n) auto

lemma sdiv_1000_pos: "0 < x sdiv 1000 \<Longrightarrow> 1000 * (x sdiv 1000) \<le> x \<and> 0 < x"
  for x :: int
  by (cases "x < 0") (auto simp: signed_divide_int_def sgn_if abs_if)

lemma sdiv_nonneg: "0 \<le> x \<Longrightarrow> x sdiv 1000 = x div 1000"
  for x :: int
  by (auto simp: signed_divide_int_def sgn_if)

text \<open>A refill adds tokens up to the limit, no faster than the rate, and moves the time forward.\<close>

lemma refill_Ok_D:
  assumes "refill now rl = Ok rl'"
  shows "rl' = (let n = ((now - last_refill_time rl) * qps rl) sdiv 1000
     in if n > 0 then rl\<lparr>tokens := min (tokens rl + n) (qps rl), last_refill_time := now\<rparr> else rl)"
  using assms by (auto simp: refill_def refill_amount_def i64_def cxx_simps Let_def split: if_splits)

lemma refill_cases:
  assumes "refill now rl = Ok rl'" and "0 < qps rl"
  obtains (none) "rl' = rl"
    | (some) new_tokens where "rl' = rl\<lparr>tokens := min (tokens rl + new_tokens) (qps rl), last_refill_time := now\<rparr>"
      "0 < new_tokens" "last_refill_time rl < now"
      "1000 * min (tokens rl + new_tokens) (qps rl) \<le> 1000 * tokens rl + (now - last_refill_time rl) * qps rl"
proof (cases "((now - last_refill_time rl) * qps rl) sdiv 1000 > 0")
  case True
  let ?n = "((now - last_refill_time rl) * qps rl) sdiv 1000"
  from sdiv_1000_pos [OF True] have n: "1000 * ?n \<le> (now - last_refill_time rl) * qps rl"
    and p: "0 < (now - last_refill_time rl) * qps rl" by auto
  from p assms(2) have "last_refill_time rl < now" by (simp add: zero_less_mult_iff)
  moreover have "1000 * min (tokens rl + ?n) (qps rl) \<le> 1000 * tokens rl + (now - last_refill_time rl) * qps rl"
    using n by (simp add: min_def)
  ultimately show ?thesis
    using some [of ?n] True refill_Ok_D [OF assms(1)] by (simp add: Let_def)
next
  case False
  with refill_Ok_D [OF assms(1)] none show ?thesis by (simp add: Let_def)
qed

definition rl_inv :: "RateLimiter \<Rightarrow> bool" where
  "rl_inv rl \<longleftrightarrow> 0 < qps rl \<and> 0 \<le> tokens rl \<and> tokens rl \<le> qps rl"

text \<open>Bookkeeping of one request: tokens granted and left are covered by the time that passed.\<close>

lemma try_acquire_step:
  assumes "rl_inv rl" and "try_acquire k permits now rl = Ok (ok, rl')"
  shows "rl_inv rl'" "qps rl' = qps rl" "last_refill_time rl \<le> last_refill_time rl'"
    "last_refill_time rl' \<le> max now (last_refill_time rl)"
    "1000 * ((if ok then permits else 0) + tokens rl')
       \<le> 1000 * tokens rl + (last_refill_time rl' - last_refill_time rl) * qps rl"
    "0 \<le> (if ok then permits else 0)"
proof -
  show "rl_inv rl'" "qps rl' = qps rl" "last_refill_time rl \<le> last_refill_time rl'"
    "last_refill_time rl' \<le> max now (last_refill_time rl)"
    "1000 * ((if ok then permits else 0) + tokens rl')
       \<le> 1000 * tokens rl + (last_refill_time rl' - last_refill_time rl) * qps rl"
    "0 \<le> (if ok then permits else 0)"
    using assms
    by (auto simp: try_acquire_def try_acquire_internal_def rl_inv_def cxx_simps
        split: if_splits elim!: refill_cases)
qed

text \<open>No overflow while the time since the last refill, times the rate, fits.\<close>

lemma refill_Ok:
  assumes "rl_inv rl" "qps rl < 2 ^ 31" "\<bar>now - last_refill_time rl\<bar> < 2 ^ 32"
  shows "returns (refill now rl)"
proof -
  let ?x = "(now - last_refill_time rl) * qps rl"
  have "\<bar>?x\<bar> = \<bar>now - last_refill_time rl\<bar> * qps rl"
    using assms(1) by (simp add: rl_inv_def abs_mult)
  also have "\<dots> \<le> (2 ^ 32 - 1) * (2 ^ 31 - 1)"
    using assms by (intro mult_mono) (auto simp: rl_inv_def)
  finally have x: "\<bar>?x\<bar> \<le> (2 ^ 32 - 1) * (2 ^ 31 - 1)" .
  then have d: "i64 (now - last_refill_time rl) = Ok (now - last_refill_time rl)" "i64 ?x = Ok ?x"
    using assms(3) by (auto simp: i64_def)
  have "i64 (tokens rl + ?x sdiv 1000) = Ok (tokens rl + ?x sdiv 1000)" if "0 < ?x sdiv 1000"
    using that x sdiv_1000_pos [OF that] assms by (auto simp: i64_def rl_inv_def)
  with d show ?thesis by (auto simp: refill_def refill_amount_def)
qed

lemma rl_run_bound:
  assumes "rl_inv rl" and "qps rl < 2 ^ 31" and "T < lo + 2 ^ 32"
    and "lo \<le> last_refill_time rl" "last_refill_time rl \<le> T"
    and "\<forall>(k, p, now) \<in> set rs. lo \<le> now \<and> now \<le> T"
  shows "\<exists>granted rl'. rl_run rs rl = Ok (granted, rl') \<and> rl_inv rl' \<and> qps rl' = qps rl
     \<and> last_refill_time rl' \<le> T
     \<and> 1000 * (granted + tokens rl') \<le> 1000 * tokens rl + (last_refill_time rl' - last_refill_time rl) * qps rl"
  using assms
proof (induction rs arbitrary: rl)
  case Nil
  then show ?case by simp
next
  case (Cons r rs)
  obtain k p now where r: "r = (k, p, now)" by (cases r)
  have "\<bar>now - last_refill_time rl\<bar> < 2 ^ 32" using Cons.prems r by auto
  from refill_Ok [OF Cons.prems(1,2) this] have "returns (try_acquire k p now rl)"
    by (auto simp: try_acquire_def try_acquire_internal_def cxx_simps returns_def [of "refill now rl"])
  then obtain ok rl1 where a: "try_acquire k p now rl = Ok (ok, rl1)" by (auto simp: returns_def)
  note st = try_acquire_step [OF Cons.prems(1) a]
  have "last_refill_time rl1 \<le> T" using st(4) Cons.prems r by auto
  with Cons.IH [of rl1] st Cons.prems obtain g rl2 where
    b: "rl_run rs rl1 = Ok (g, rl2)" "rl_inv rl2" "qps rl2 = qps rl" "last_refill_time rl2 \<le> T"
      "1000 * (g + tokens rl2) \<le> 1000 * tokens rl1 + (last_refill_time rl2 - last_refill_time rl1) * qps rl"
    by auto
  then have "1000 * ((if ok then p else 0) + g + tokens rl2)
      \<le> 1000 * tokens rl + (last_refill_time rl2 - last_refill_time rl) * qps rl"
    using st(5) by (simp add: algebra_simps)
  with a b show ?case by (simp add: r)
qed

lemma full_after_second:
  assumes "rl_inv rl" "refill now rl = Ok rl'" "last_refill_time rl + 1000 \<le> now"
  shows "tokens rl' = qps rl \<and> qps rl' = qps rl"
proof -
  let ?x = "(now - last_refill_time rl) * qps rl"
  have "1000 * qps rl \<le> ?x"
    using assms by (intro mult_right_mono) (auto simp: rl_inv_def)
  moreover from this have "?x sdiv 1000 = ?x div 1000"
    using assms(1) by (intro sdiv_nonneg) (simp add: rl_inv_def)
  ultimately have "qps rl \<le> ?x sdiv 1000" by linarith
  with assms refill_Ok_D [OF assms(2)] show ?thesis by (auto simp: rl_inv_def Let_def)
qed

section \<open>Properties\<close>



text \<open>A limiter that has not been refilled for a second grants any request for at most its
  rate, however the loop of its atomic exchange fares.\<close>

theorem limiter_recovers:
  assumes "rl_inv rl" and "qps rl < 2 ^ 31" and "last_refill_time rl + 1000 \<le> now"
    and "now < last_refill_time rl + 2 ^ 32" and "0 < permits" and "permits \<le> qps rl"
  shows "\<exists>rl'. try_acquire spurious permits now rl = Ok (True, rl') \<and> tokens rl' = qps rl - permits"
proof -
  have "\<bar>now - last_refill_time rl\<bar> < 2 ^ 32" using assms by auto
  from refill_Ok [OF assms(1,2) this] obtain r where r: "refill now rl = Ok r" by (auto simp: returns_def)
  with full_after_second [OF assms(1) r assms(3)] assms show ?thesis
    by (simp add: try_acquire_def try_acquire_internal_def rl_inv_def)
qed

theorem limiter_recovers_witness:
  "\<exists>rl'. try_acquire 3 5 1000 ((new_RateLimiter ''s'' 5 0)\<lparr>tokens := 0\<rparr>) = Ok (True, rl') \<and> tokens rl' = 0"
  using limiter_recovers [of "(new_RateLimiter ''s'' 5 0)\<lparr>tokens := 0\<rparr>" 1000 5 3]
  by (simp add: rl_inv_def new_RateLimiter_def)

text \<open>Each refill forgets the fraction of a token that the division cuts off. An empty limiter
  with a rate of 999 a second that two requests ask every 2 ms grants only every other one, about half
  of its rate, although 1.998 tokens are due each time.\<close>

theorem limiter_forgets_fractions:
  "rl_run (concat (map (\<lambda>i. [(0, 1, t0 + 2 * int (Suc i)), (0, 1, t0 + 2 * int (Suc i))]) [0..<n]))
     (\<lparr>rl_name = s, qps = 999, tokens = 0, last_refill_time = t0\<rparr>)
   = Ok (int n, \<lparr>rl_name = s, qps = 999, tokens = 0, last_refill_time = t0 + 2 * int n\<rparr>)"
proof (induction n arbitrary: t0)
  case 0
  then show ?case by simp
next
  case (Suc n)
  let ?f = "\<lambda>t i. [(0 :: nat, 1 :: int, t + 2 * int (Suc i)), (0, 1, t + 2 * int (Suc i))]"
  have shift: "?f t0 (Suc i) = ?f (t0 + 2) i" for i by simp
  have "concat (map (?f t0) [0..<Suc n]) = ?f t0 0 @ concat (map (?f (t0 + 2)) [0..<n])"
    unfolding map_upt_Suc shift by simp
  moreover have "try_acquire 0 1 (t0 + 2) \<lparr>rl_name = s, qps = 999, tokens = 0, last_refill_time = t0\<rparr>
      = Ok (True, \<lparr>rl_name = s, qps = 999, tokens = 0, last_refill_time = t0 + 2\<rparr>)"
    by (simp add: try_acquire_def try_acquire_internal_def refill_def refill_amount_def i64_def
        signed_divide_int_def)
  moreover have "try_acquire 0 1 (t0 + 2) \<lparr>rl_name = s, qps = 999, tokens = 0, last_refill_time = t0 + 2\<rparr>
      = Ok (False, \<lparr>rl_name = s, qps = 999, tokens = 0, last_refill_time = t0 + 2\<rparr>)"
    by (simp add: try_acquire_def try_acquire_internal_def refill_def refill_amount_def i64_def
        signed_divide_int_def)
  ultimately show ?case
    using Suc.IH [of "t0 + 2"] by (simp add: algebra_simps)
qed

end
