(* ===== verification/Cxx_Strings.thy ===== *)
theory Cxx_Strings
  imports Prelude
begin

text \<open>
  What the program uses of the standard library's strings: searching, cutting, decimal numbers,
  \<open>c_str()\<close>. A search returns an index or \<open>npos\<close>; it is an option here, and \<open>pos_of\<close> gives the
  number \<open>npos\<close> (all bits set) where the code computes with the result.
\<close>

section \<open>Searching and cutting\<close>

definition npos :: nat where "npos = 2 ^ 64 - 1"

definition pos_of :: "nat option \<Rightarrow> nat" where
  "pos_of r = (case r of Some i \<Rightarrow> i | None \<Rightarrow> npos)"

text \<open>Addition on \<open>size_t\<close> wraps.\<close>

definition sz_add :: "nat \<Rightarrow> nat \<Rightarrow> nat" where
  "sz_add a b = (a + b) mod 2 ^ 64"

fun find_sub :: "string \<Rightarrow> string \<Rightarrow> nat option" where
  "find_sub pat [] = (if pat = [] then Some 0 else None)"
| "find_sub pat (c # s) = (if prefix pat (c # s) then Some 0 else map_option Suc (find_sub pat s))"

definition find_str :: "string \<Rightarrow> string \<Rightarrow> nat \<Rightarrow> nat option" where
  "find_str s pat pos = (if pos > length s then None else map_option (\<lambda>i. pos + i) (find_sub pat (drop pos s)))"

abbreviation find_ch :: "char \<Rightarrow> string \<Rightarrow> nat option" where
  "find_ch c s \<equiv> find_sub [c] s"

fun rfind_ch :: "char \<Rightarrow> string \<Rightarrow> nat option" where
  "rfind_ch c [] = None"
| "rfind_ch c (d # s) = (case rfind_ch c s of Some i \<Rightarrow> Some (Suc i) | None \<Rightarrow> if c = d then Some 0 else None)"

definition substr :: "string \<Rightarrow> nat \<Rightarrow> nat \<Rightarrow> string cxx" where
  "substr s pos n = (if pos > length s then Throws Out_of_range else Ok (segment pos n s))"

definition substr_from :: "string \<Rightarrow> nat \<Rightarrow> string cxx" where
  "substr_from s pos = (if pos > length s then Throws Out_of_range else Ok (drop pos s))"

definition c_str :: "string \<Rightarrow> string" where
  "c_str s = takeWhile (\<lambda>c. c \<noteq> NUL) s"

lemma rfind_ch_None_D: "rfind_ch c s = None \<Longrightarrow> c \<notin> set s"
  by (induction s) (auto split: option.splits if_splits)

lemma rfind_ch_None [simp]: "rfind_ch c s = None \<longleftrightarrow> c \<notin> set s"
  by (induction s) (auto split: option.splits)

lemma rfind_ch_Some: "rfind_ch c s = Some i \<longleftrightarrow> i < length s \<and> s ! i = c \<and> c \<notin> set (drop (Suc i) s)"
proof (induction s arbitrary: i)
  case Nil
  then show ?case by simp
next
  case (Cons d s)
  show ?case
  proof (cases "rfind_ch c s")
    case None
    then have "c \<notin> set s" by (rule rfind_ch_None_D)
    moreover have "rfind_ch c (d # s) = (if c = d then Some 0 else None)"
      using None by (simp del: rfind_ch_None)
    ultimately show ?thesis by (cases i) (auto simp del: rfind_ch.simps dest: nth_mem)
  next
    case (Some j)
    with Cons.IH [of j] have "c \<in> set s" by (auto dest: nth_mem)
    with Some show ?thesis
      by (cases i) (auto simp flip: Cons.IH)
  qed
qed

lemma rfind_ch_append: "c \<notin> set t \<Longrightarrow> rfind_ch c (s @ c # t) = Some (length s)"
  by (simp add: rfind_ch_Some)

lemma find_ch_None [simp]: "find_ch c s = None \<longleftrightarrow> c \<notin> set s"
  by (induction s) auto

lemma find_ch_append: "c \<notin> set s \<Longrightarrow> find_ch c (s @ c # t) = Some (length s)"
  by (induction s) (auto simp: prefix_Cons)

lemma find_sub_Some_D: "find_sub pat s = Some i \<Longrightarrow> i + length pat \<le> length s \<and> segment i (length pat) s = pat"
proof (induction s arbitrary: i)
  case Nil
  then show ?case by (simp add: segment_def split: if_splits)
next
  case (Cons c s)
  show ?case
  proof (cases "prefix pat (c # s)")
    case True
    with Cons.prems show ?thesis by (auto simp: segment_def prefix_def dest: arg_cong [where f = length])
  next
    case False
    with Cons.prems Cons.IH show ?thesis by (auto simp: segment_def)
  qed
qed

lemma find_str_bounds: "find_str s pat pos = Some i \<Longrightarrow> pos \<le> i \<and> i + length pat \<le> length s"
  by (auto simp: find_str_def dest: find_sub_Some_D split: if_splits)

lemma find_sub_prefix: "find_sub pat (pat @ s) = Some 0"
  by (cases "pat @ s") (auto intro: prefixI [OF sym])

lemma find_sub_skip:
  "pat \<noteq> [] \<Longrightarrow> hd pat \<notin> set xs \<Longrightarrow> find_sub pat (xs @ r) = map_option ((+) (length xs)) (find_sub pat r)"
proof (induction xs)
  case Nil
  then show ?case by (simp add: plus_nat.add_0 option.map_ident flip: id_def) (simp add: option.map_id)
next
  case (Cons c xs)
  then have "\<not> prefix pat (c # xs @ r)" by (cases pat) auto
  with Cons show ?case by (simp add: option.map_comp comp_def)
qed

lemma find_str_at: "find_str (A @ s) pat (length A) = map_option ((+) (length A)) (find_sub pat s)"
  by (simp add: find_str_def)

lemma find_str_at_add: "k \<le> length s \<Longrightarrow> find_str (A @ s) pat (length A + k) = map_option ((+) (length A + k)) (find_sub pat (drop k s))"
  by (simp add: find_str_def)

lemma substr_inside [simp]: "pos \<le> length s \<Longrightarrow> substr s pos n = Ok (segment pos n s)"
  by (simp add: substr_def)

lemma substr_from_inside [simp]: "pos \<le> length s \<Longrightarrow> substr_from s pos = Ok (drop pos s)"
  by (simp add: substr_from_def)

lemma c_str_id: "NUL \<notin> set s \<Longrightarrow> c_str s = s"
  by (induction s) (auto simp: c_str_def)

section \<open>Decimal numbers\<close>

definition digit :: "nat \<Rightarrow> char" where
  "digit d = char_of (48 + d)"

fun dec_nat :: "nat \<Rightarrow> string" where
  "dec_nat n = (if n < 10 then [digit n] else dec_nat (n div 10) @ [digit (n mod 10)])"

declare dec_nat.simps [simp del]

text \<open>\<open>std::to_string\<close>, \<open>operator<<\<close> and \<open>%d\<close>, \<open>%ld\<close>\<close>

definition dec_int :: "int \<Rightarrow> string" where
  "dec_int i = (if i < 0 then CHR ''-'' # dec_nat (nat (- i)) else dec_nat (nat i))"

definition is_digit :: "char \<Rightarrow> bool" where
  "is_digit c \<longleftrightarrow> 48 \<le> (of_char c :: nat) \<and> (of_char c :: nat) \<le> 57"

definition digit_val :: "char \<Rightarrow> nat" where
  "digit_val c = of_char c - 48"

definition digits_val :: "string \<Rightarrow> nat" where
  "digits_val s = foldl (\<lambda>v c. 10 * v + digit_val c) 0 s"

lemma digit_simps [simp]: "d < 10 \<Longrightarrow> is_digit (digit d)" "d < 10 \<Longrightarrow> digit_val (digit d) = d"
  by (auto simp: is_digit_def digit_def digit_val_def)

lemma digits_val_append1: "digits_val (s @ [c]) = 10 * digits_val s + digit_val c"
  by (simp add: digits_val_def)

lemma dec_nat_digits: "c \<in> set (dec_nat n) \<Longrightarrow> is_digit c"
proof (induction n rule: dec_nat.induct)
  case (1 n)
  then show ?case by (subst (asm) (2) dec_nat.simps) (auto split: if_splits)
qed

lemma dec_nat_not_Nil [simp]: "dec_nat n \<noteq> []"
  by (subst dec_nat.simps) simp

lemma digits_val_dec_nat [simp]: "digits_val (dec_nat n) = n"
proof (induction n rule: dec_nat.induct)
  case (1 n)
  then show ?case
    by (subst dec_nat.simps) (auto simp: digits_val_append1 digits_val_def [of "[_]"])
qed

lemma dec_nat_inject [simp]: "dec_nat m = dec_nat n \<longleftrightarrow> m = n"
  by (metis digits_val_dec_nat)

lemma length_dec_nat: "n < 10 ^ Suc k \<Longrightarrow> length (dec_nat n) \<le> Suc k"
proof (induction k arbitrary: n)
  case 0
  then show ?case by (subst dec_nat.simps) simp
next
  case (Suc k)
  then have "n div 10 < 10 ^ Suc k" by (simp add: less_mult_imp_div_less)
  with Suc.IH have "length (dec_nat (n div 10)) \<le> Suc k" by blast
  then show ?case by (subst dec_nat.simps) simp
qed

lemma not_digit_Minus: "\<not> is_digit (CHR ''-'')"
  by (simp add: is_digit_def)

lemma dec_int_inject [simp]: "dec_int i = dec_int j \<longleftrightarrow> i = j"
proof -
  have "CHR ''-'' # dec_nat m \<noteq> dec_nat n" for m n
    using dec_nat_digits [of "CHR ''-''" n] not_digit_Minus by (metis list.set_intros(1))
  then show ?thesis by (auto simp: dec_int_def) metis+
qed

text \<open>
  \<open>atoi\<close> of the C library: blanks, a sign, digits up to the first other character; the value is
  that of \<open>strtol\<close>, limited to 64 bits, cut to 32 bits.
\<close>

definition is_space :: "char \<Rightarrow> bool" where
  "is_space c \<longleftrightarrow> c = CHR '' '' \<or> (9 \<le> (of_char c :: nat) \<and> (of_char c :: nat) \<le> 13)"

definition clamp64 :: "int \<Rightarrow> int" where
  "clamp64 x = max (- (2 ^ 63)) (min (2 ^ 63 - 1) x)"

definition cut32 :: "int \<Rightarrow> int" where
  "cut32 x = (x + 2 ^ 31) mod 2 ^ 32 - 2 ^ 31"

definition strtol_prefix :: "string \<Rightarrow> (int \<times> string) option" where
  "strtol_prefix s =
     (let t = dropWhile is_space s;
          (neg, u) = (case t of
            c # u \<Rightarrow> if c = CHR ''-'' then (True, u) else if c = CHR ''+'' then (False, u) else (False, t)
          | [] \<Rightarrow> (False, t));
          ds = takeWhile is_digit u
      in if ds = [] then None
         else Some (if neg then - int (digits_val ds) else int (digits_val ds), dropWhile is_digit u))"

definition atoi :: "string \<Rightarrow> int" where
  "atoi s = (case strtol_prefix (c_str s) of None \<Rightarrow> 0 | Some (v, rest) \<Rightarrow> cut32 (clamp64 v))"

text \<open>\<open>std::stoi\<close> throws when there is no number and when it is out of range.\<close>

definition stoi :: "string \<Rightarrow> int cxx" where
  "stoi s = (case strtol_prefix (c_str s) of
     None \<Rightarrow> Throws Invalid_argument
   | Some (v, rest) \<Rightarrow> if - (2 ^ 31) \<le> v \<and> v < 2 ^ 31 then Ok v else Throws Out_of_range)"

lemma strtol_dec_nat:
  assumes "rest = [] \<or> \<not> is_digit (hd rest)"
  shows "strtol_prefix (dec_nat n @ rest) = Some (int n, rest)"
proof -
  obtain c u where d: "dec_nat n = c # u" by (cases "dec_nat n") auto
  then have c: "is_digit c" using dec_nat_digits [of c n] by simp
  have "dropWhile is_space (dec_nat n @ rest) = dec_nat n @ rest"
    using c by (auto simp: d is_digit_def is_space_def)
  moreover have "c \<noteq> CHR ''-''" "c \<noteq> CHR ''+''" using c by (auto simp: is_digit_def)
  moreover have "takeWhile is_digit (dec_nat n @ rest) = dec_nat n"
    "dropWhile is_digit (dec_nat n @ rest) = rest"
    using assms dec_nat_digits [of _ n]
    by (cases rest; auto simp: takeWhile_append2 dropWhile_append)+
  moreover have "dec_nat n @ rest = c # (u @ rest)" by (simp add: d)
  ultimately show ?thesis
    using digits_val_dec_nat [of n] by (simp add: strtol_prefix_def Let_def)
qed

lemma c_str_dec_nat [simp]: "c_str (dec_nat n) = dec_nat n"
  by (rule c_str_id) (auto dest!: dec_nat_digits simp: is_digit_def NUL_def)

lemma atoi_dec_nat: "int n < 2 ^ 31 \<Longrightarrow> atoi (dec_nat n) = int n"
  using strtol_dec_nat [of "[]" n] by (simp add: atoi_def clamp64_def cut32_def)

end
