(* ===== verification/Metrics.thy ===== *)
theory Metrics
  imports Cxx_Strings "HOL-Library.Char_ord" "HOL-Library.List_Lexorder"
begin

text \<open>
  The metrics of the program (\<open>rpc/src/rpc_metrics.h\<close>, \<open>rpc/src/rpc_metrics.cc\<close>): counters and a
  histogram for all calls and one of each per service and method, exported as text. A
  \<open>std::map\<close> is an association list that is kept sorted by key, the order in which the export
  walks it. Atomic arithmetic wraps.
\<close>

section \<open>Counters, histograms, gauges\<close>

definition wrap64 :: "int \<Rightarrow> int" where
  "wrap64 x = (x + 2 ^ 63) mod 2 ^ 64 - 2 ^ 63"

definition INT64_MAX :: int where "INT64_MAX = 2 ^ 63 - 1"
definition INT64_MIN :: int where "INT64_MIN = - (2 ^ 63)"

record MetricsCounter = counter_count :: int

definition new_counter :: MetricsCounter where "new_counter = \<lparr>counter_count = 0\<rparr>"
definition counter_inc :: "int \<Rightarrow> MetricsCounter \<Rightarrow> MetricsCounter" where
  "counter_inc n c = c\<lparr>counter_count := wrap64 (counter_count c + n)\<rparr>"
definition counter_reset :: "MetricsCounter \<Rightarrow> MetricsCounter" where
  "counter_reset c = c\<lparr>counter_count := 0\<rparr>"

record MetricsHistogram =
  h_sum :: int
  h_count :: int
  h_min :: int
  h_max :: int

definition new_histogram :: MetricsHistogram where
  "new_histogram = \<lparr>h_sum = 0, h_count = 0, h_min = INT64_MAX, h_max = INT64_MIN\<rparr>"

definition record_value :: "int \<Rightarrow> MetricsHistogram \<Rightarrow> MetricsHistogram" where
  "record_value v h =
     (let h = h\<lparr>h_sum := wrap64 (h_sum h + v)\<rparr>;
          h = h\<lparr>h_count := wrap64 (h_count h + 1)\<rparr>;
          h = (if v < h_min h then h\<lparr>h_min := v\<rparr> else h)
      in if v > h_max h then h\<lparr>h_max := v\<rparr> else h)"

definition get_min :: "MetricsHistogram \<Rightarrow> int" where
  "get_min h = (if h_min h = INT64_MAX then 0 else h_min h)"
definition get_max :: "MetricsHistogram \<Rightarrow> int" where
  "get_max h = (if h_max h = INT64_MIN then 0 else h_max h)"

record MetricsGauge = gauge_value :: int

definition gauge_set :: "int \<Rightarrow> MetricsGauge \<Rightarrow> MetricsGauge" where
  "gauge_set v g = g\<lparr>gauge_value := v\<rparr>"
definition gauge_inc :: "int \<Rightarrow> MetricsGauge \<Rightarrow> MetricsGauge" where
  "gauge_inc n g = g\<lparr>gauge_value := wrap64 (gauge_value g + n)\<rparr>"
definition gauge_dec :: "int \<Rightarrow> MetricsGauge \<Rightarrow> MetricsGauge" where
  "gauge_dec n g = g\<lparr>gauge_value := wrap64 (gauge_value g - n)\<rparr>"

section \<open>Sorted maps\<close>

text \<open>\<open>m[k]\<close> on a \<open>std::map\<close>, followed by an update of the value found or created.\<close>

fun at_key :: "string \<Rightarrow> 'v \<Rightarrow> ('v \<Rightarrow> 'v) \<Rightarrow> (string \<times> 'v) list \<Rightarrow> (string \<times> 'v) list" where
  "at_key k d f [] = [(k, f d)]"
| "at_key k d f ((j, v) # m) =
     (if k = j then (j, f v) # m
      else if k < j then (k, f d) # (j, v) # m
      else (j, v) # at_key k d f m)"

definition sorted_map :: "(string \<times> 'v) list \<Rightarrow> bool" where
  "sorted_map m \<longleftrightarrow> sorted (map fst m) \<and> distinct (map fst m)"

lemma keys_at_key: "fst ` set (at_key k d f m) = insert k (fst ` set m)"
  by (induction k d f m rule: at_key.induct) (simp_all add: insert_commute)

lemma sorted_at_key: "sorted_map m \<Longrightarrow> sorted_map (at_key k d f m)"
proof (induction m)
  case Nil
  then show ?case by (simp add: sorted_map_def)
next
  case (Cons p m)
  obtain j v where p: "p = (j, v)" by (cases p)
  have "fst ` set (at_key k d f m) = insert k (fst ` set m)" by (rule keys_at_key)
  then have keys: "set (map fst (at_key k d f m)) = insert k (set (map fst m))" by simp
  with Cons p show ?case by (fastforce simp: sorted_map_def simp del: set_map)
qed

lemma lookup_at_key:
  "sorted_map m \<Longrightarrow> map_of (at_key k d f m) = (map_of m)(k \<mapsto> f (case map_of m k of Some v \<Rightarrow> v | None \<Rightarrow> d))"
proof (induction m)
  case Nil
  then show ?case by simp
next
  case (Cons p m)
  obtain j v where p: "p = (j, v)" by (cases p)
  have "map_of m k = None" if "k < j"
    using that Cons.prems by (force simp: p sorted_map_def map_of_eq_None_iff)
  with Cons show ?case by (auto simp: p sorted_map_def fun_eq_iff)
qed

section \<open>The metrics object\<close>

record RpcMetrics =
  total_requests :: MetricsCounter
  success_requests :: MetricsCounter
  failure_requests :: MetricsCounter
  request_latency :: MetricsHistogram
  active_connections :: MetricsGauge
  service_requests :: "(string \<times> MetricsCounter) list"
  service_successes :: "(string \<times> MetricsCounter) list"
  service_failures :: "(string \<times> MetricsCounter) list"
  service_latencies :: "(string \<times> MetricsHistogram) list"

text \<open>The only instance is static, so that the gauge starts at zero.\<close>

definition instance_RpcMetrics :: RpcMetrics where
  "instance_RpcMetrics = \<lparr>total_requests = new_counter, success_requests = new_counter,
     failure_requests = new_counter, request_latency = new_histogram,
     active_connections = \<lparr>gauge_value = 0\<rparr>, service_requests = [], service_successes = [],
     service_failures = [], service_latencies = []\<rparr>"

definition metrics_key :: "string \<Rightarrow> string \<Rightarrow> string" where
  "metrics_key service method = service @ ''_'' @ method"

definition metrics_request :: "string \<Rightarrow> string \<Rightarrow> RpcMetrics \<Rightarrow> RpcMetrics" where
  "metrics_request service method m =
     (let m = m\<lparr>total_requests := counter_inc 1 (total_requests m)\<rparr>
      in m\<lparr>service_requests := at_key (metrics_key service method) new_counter (counter_inc 1) (service_requests m)\<rparr>)"

definition metrics_success :: "string \<Rightarrow> string \<Rightarrow> RpcMetrics \<Rightarrow> RpcMetrics" where
  "metrics_success service method m =
     (let m = m\<lparr>success_requests := counter_inc 1 (success_requests m)\<rparr>
      in m\<lparr>service_successes := at_key (metrics_key service method) new_counter (counter_inc 1) (service_successes m)\<rparr>)"

definition metrics_failure :: "string \<Rightarrow> string \<Rightarrow> RpcMetrics \<Rightarrow> RpcMetrics" where
  "metrics_failure service method m =
     (let m = m\<lparr>failure_requests := counter_inc 1 (failure_requests m)\<rparr>
      in m\<lparr>service_failures := at_key (metrics_key service method) new_counter (counter_inc 1) (service_failures m)\<rparr>)"

definition metrics_latency :: "string \<Rightarrow> string \<Rightarrow> int \<Rightarrow> RpcMetrics \<Rightarrow> RpcMetrics" where
  "metrics_latency service method ms m =
     (let m = m\<lparr>request_latency := record_value ms (request_latency m)\<rparr>
      in m\<lparr>service_latencies := at_key (metrics_key service method) new_histogram (record_value ms) (service_latencies m)\<rparr>)"

definition set_active_connections :: "int \<Rightarrow> RpcMetrics \<Rightarrow> RpcMetrics" where
  "set_active_connections n m = m\<lparr>active_connections := gauge_set n (active_connections m)\<rparr>"
definition inc_active_connections :: "RpcMetrics \<Rightarrow> RpcMetrics" where
  "inc_active_connections m = m\<lparr>active_connections := gauge_inc 1 (active_connections m)\<rparr>"
definition dec_active_connections :: "RpcMetrics \<Rightarrow> RpcMetrics" where
  "dec_active_connections m = m\<lparr>active_connections := gauge_dec 1 (active_connections m)\<rparr>"

section \<open>Export\<close>

definition NL :: string where "NL = [CHR 0x0A]"

definition sample_line :: "string \<Rightarrow> int \<Rightarrow> int \<Rightarrow> string" where
  "sample_line lhs value now = lhs @ '' '' @ dec_int value @ '' '' @ dec_int now @ NL"

definition family_head :: "string \<Rightarrow> string \<Rightarrow> string \<Rightarrow> string" where
  "family_head n help kind = ''# HELP '' @ n @ '' '' @ help @ NL @ ''# TYPE '' @ n @ '' '' @ kind @ NL"

definition service_lines :: "string \<Rightarrow> string \<Rightarrow> int \<Rightarrow> (string \<times> MetricsCounter) list \<Rightarrow> string" where
  "service_lines n help now m = concat (map (\<lambda>(k, c). family_head n help ''counter''
       @ sample_line (n @ ''{service='' @ [CHR 0x22] @ k @ [CHR 0x22] @ ''}'') (counter_count c) now) m)"

definition to_prometheus_format :: "int \<Rightarrow> RpcMetrics \<Rightarrow> string" where
  "to_prometheus_format now m =
     family_head ''wf_rpc_total_requests'' ''Total RPC requests'' ''counter''
   @ sample_line ''wf_rpc_total_requests'' (counter_count (total_requests m)) now @ NL
   @ family_head ''wf_rpc_success_requests'' ''Successful RPC requests'' ''counter''
   @ sample_line ''wf_rpc_success_requests'' (counter_count (success_requests m)) now @ NL
   @ family_head ''wf_rpc_failure_requests'' ''Failed RPC requests'' ''counter''
   @ sample_line ''wf_rpc_failure_requests'' (counter_count (failure_requests m)) now @ NL
   @ family_head ''wf_rpc_request_latency_ms'' ''RPC request latency in milliseconds'' ''summary''
   @ sample_line ''wf_rpc_request_latency_ms_sum'' (h_sum (request_latency m)) now
   @ sample_line ''wf_rpc_request_latency_ms_count'' (h_count (request_latency m)) now
   @ sample_line ''wf_rpc_request_latency_ms_min'' (get_min (request_latency m)) now
   @ sample_line ''wf_rpc_request_latency_ms_max'' (get_max (request_latency m)) now @ NL
   @ family_head ''wf_rpc_active_connections'' ''Current active connections'' ''gauge''
   @ sample_line ''wf_rpc_active_connections'' (gauge_value (active_connections m)) now @ NL
   @ service_lines ''wf_rpc_service_requests_total'' ''Total requests per service'' now (service_requests m)
   @ service_lines ''wf_rpc_service_successes_total'' ''Successful requests per service'' now (service_successes m)
   @ service_lines ''wf_rpc_service_failures_total'' ''Failed requests per service'' now (service_failures m)"

section \<open>What the metrics count\<close>

datatype metrics_event = Request_ev string string | Success_ev string string | Failure_ev string string
  | Latency_ev string string int | Active_set int | Active_inc | Active_dec

fun metrics_step :: "metrics_event \<Rightarrow> RpcMetrics \<Rightarrow> RpcMetrics" where
  "metrics_step (Request_ev s f) m = metrics_request s f m"
| "metrics_step (Success_ev s f) m = metrics_success s f m"
| "metrics_step (Failure_ev s f) m = metrics_failure s f m"
| "metrics_step (Latency_ev s f v) m = metrics_latency s f v m"
| "metrics_step (Active_set n) m = set_active_connections n m"
| "metrics_step Active_inc m = inc_active_connections m"
| "metrics_step Active_dec m = dec_active_connections m"

text \<open>The keys counted by each family, and the latencies recorded, in a history.\<close>

fun request_keys :: "metrics_event \<Rightarrow> string list" where
  "request_keys (Request_ev s f) = [metrics_key s f]"
| "request_keys _ = []"
fun success_keys :: "metrics_event \<Rightarrow> string list" where
  "success_keys (Success_ev s f) = [metrics_key s f]"
| "success_keys _ = []"
fun failure_keys :: "metrics_event \<Rightarrow> string list" where
  "failure_keys (Failure_ev s f) = [metrics_key s f]"
| "failure_keys _ = []"
fun latencies :: "metrics_event \<Rightarrow> int list" where
  "latencies (Latency_ev s f v) = [v]"
| "latencies _ = []"

definition counts :: "(string \<times> MetricsCounter) list \<Rightarrow> MetricsCounter \<Rightarrow> string list \<Rightarrow> bool" where
  "counts m c ks \<longleftrightarrow> sorted_map m \<and> counter_count c = wrap64 (int (length ks))
     \<and> map_of m = (\<lambda>k. if k \<in> set ks then Some \<lparr>counter_count = wrap64 (int (count_list ks k))\<rparr> else None)"

lemma wrap64_add [simp]: "wrap64 (wrap64 a + b) = wrap64 (a + b)"
proof -
  have "(wrap64 a + b + 2 ^ 63) mod 2 ^ 64 = ((a + 2 ^ 63) mod 2 ^ 64 + b) mod 2 ^ 64"
    by (simp add: wrap64_def)
  also have "\<dots> = (a + b + 2 ^ 63) mod 2 ^ 64"
    by (simp add: mod_simps ac_simps)
  finally show ?thesis by (simp add: wrap64_def)
qed

lemma counts_Nil: "counts [] new_counter []"
  by (simp add: counts_def sorted_map_def new_counter_def wrap64_def)

lemma counts_snoc:
  assumes "counts m c ks"
  shows "counts (at_key k new_counter (counter_inc 1) m) (counter_inc 1 c) (ks @ [k])"
  using assms
  by (auto simp: counts_def sorted_at_key lookup_at_key counter_inc_def new_counter_def fun_eq_iff
      count_list_append count_list_0_iff wrap64_def mod_simps add.commute)

definition summarises :: "MetricsHistogram \<Rightarrow> int list \<Rightarrow> bool" where
  "summarises h vs \<longleftrightarrow> h_sum h = wrap64 (sum_list vs) \<and> h_count h = wrap64 (int (length vs))
     \<and> h_min h = Min (insert INT64_MAX (set vs)) \<and> h_max h = Max (insert INT64_MIN (set vs))"

lemma summarises_snoc: "summarises h vs \<Longrightarrow> summarises (record_value v h) (vs @ [v])"
proof -
  have r: "h_sum (record_value v h) = wrap64 (h_sum h + v)" "h_count (record_value v h) = wrap64 (h_count h + 1)"
    "h_min (record_value v h) = min v (h_min h)" "h_max (record_value v h) = max v (h_max h)"
    by (auto simp: record_value_def Let_def)
  have "Min (insert INT64_MAX (set (vs @ [v]))) = min v (Min (insert INT64_MAX (set vs)))"
    "Max (insert INT64_MIN (set (vs @ [v]))) = max v (Max (insert INT64_MIN (set vs)))" for vs
    by (simp_all add: insert_commute [of _ v])
  then show "summarises h vs \<Longrightarrow> summarises (record_value v h) (vs @ [v])"
    using wrap64_add [of "sum_list vs" v] wrap64_add [of "int (length vs)" 1]
    by (simp add: summarises_def r add.commute)
qed

lemma summarises_Nil: "summarises new_histogram []"
  by (simp add: summarises_def new_histogram_def wrap64_def)

definition metrics_inv :: "metrics_event list \<Rightarrow> RpcMetrics \<Rightarrow> bool" where
  "metrics_inv es m \<longleftrightarrow> counts (service_requests m) (total_requests m) (concat (map request_keys es))
     \<and> counts (service_successes m) (success_requests m) (concat (map success_keys es))
     \<and> counts (service_failures m) (failure_requests m) (concat (map failure_keys es))
     \<and> summarises (request_latency m) (concat (map latencies es))"

lemma metrics_inv_snoc: "metrics_inv es m \<Longrightarrow> metrics_inv (es @ [e]) (metrics_step e m)"
  by (cases e) (auto simp: metrics_inv_def metrics_request_def metrics_success_def metrics_failure_def
      metrics_latency_def set_active_connections_def inc_active_connections_def
      dec_active_connections_def Let_def counts_snoc summarises_snoc)

lemma metrics_run: "metrics_inv es (fold metrics_step es instance_RpcMetrics)"
proof (induction es rule: rev_induct)
  case Nil
  show ?case
    by (simp add: metrics_inv_def instance_RpcMetrics_def counts_Nil summarises_Nil)
next
  case (snoc e es)
  then show ?case by (simp add: metrics_inv_snoc)
qed

section \<open>Properties\<close>

text \<open>After any history of recorded events, the totals and the counters per service and method
  are the numbers of the events recorded (modulo \<open>2 ^ 64\<close>, as atomics count): a key has a counter
  exactly when it was recorded, its value counts its events, and the export lists each key once.\<close>

theorem metrics_count_events:
  "(counter_count (total_requests (fold metrics_step es instance_RpcMetrics)) = wrap64 (int (length (concat (map request_keys es)))))
   \<and> map_of (service_requests (fold metrics_step es instance_RpcMetrics)) =
     (\<lambda>k. if k \<in> set (concat (map request_keys es))
       then Some \<lparr>counter_count = wrap64 (int (count_list (concat (map request_keys es)) k))\<rparr> else None)
   \<and> counter_count (failure_requests (fold metrics_step es instance_RpcMetrics)) = wrap64 (int (length (concat (map failure_keys es))))
   \<and> map_of (service_failures (fold metrics_step es instance_RpcMetrics)) =
     (\<lambda>k. if k \<in> set (concat (map failure_keys es))
       then Some \<lparr>counter_count = wrap64 (int (count_list (concat (map failure_keys es)) k))\<rparr> else None)
   \<and> distinct (map fst (service_requests (fold metrics_step es instance_RpcMetrics)))
   \<and> distinct (map fst (service_failures (fold metrics_step es instance_RpcMetrics)))"
  using metrics_run [of es] by (simp_all add: metrics_inv_def counts_def sorted_map_def)

text \<open>The latency summary of a history: sum and count of the recorded values (modulo
  \<open>2 ^ 64\<close>), and, when values were recorded and none is the largest or smallest 64-bit number, their
  minimum and maximum; zero when none was recorded.\<close>

theorem metrics_latency_summary:
  fixes es
  defines "h \<equiv> request_latency (fold metrics_step es instance_RpcMetrics)"
    and "vs \<equiv> concat (map latencies es)"
  assumes "\<forall>v \<in> set vs. INT64_MIN < v \<and> v < INT64_MAX"
  shows "h_sum h = wrap64 (sum_list vs) \<and> h_count h = wrap64 (int (length vs))
    \<and> get_min h = (if vs = [] then 0 else Min (set vs)) \<and> get_max h = (if vs = [] then 0 else Max (set vs))"
proof -
  have s: "summarises h vs" using metrics_run [of es] by (simp add: metrics_inv_def h_def vs_def)
  then have "h_sum h = wrap64 (sum_list vs)" "h_count h = wrap64 (int (length vs))"
    by (simp_all add: summarises_def)
  moreover have "get_min h = (if vs = [] then 0 else Min (set vs)) \<and> get_max h = (if vs = [] then 0 else Max (set vs))"
  proof -
    have "Min (set vs) < INT64_MAX" "INT64_MIN < Max (set vs)" if "vs \<noteq> []"
      using that assms(3) by auto
    then have "vs \<noteq> [] \<Longrightarrow> Min (insert INT64_MAX (set vs)) = Min (set vs) \<and> Min (set vs) \<noteq> INT64_MAX"
      "vs \<noteq> [] \<Longrightarrow> Max (insert INT64_MIN (set vs)) = Max (set vs) \<and> Max (set vs) \<noteq> INT64_MIN"
      by (simp_all add: Min_insert Max_insert del: Min_less_iff Max_less_iff)
    with s show ?thesis by (auto simp: get_min_def get_max_def summarises_def)
  qed
  ultimately show ?thesis by blast
qed

theorem metrics_latency_summary_witness:
  "get_min (request_latency (fold metrics_step [Latency_ev ''s'' ''f'' 7, Request_ev ''s'' ''f'', Latency_ev ''s'' ''g'' 3] instance_RpcMetrics)) = 3"
  using metrics_latency_summary [of "[Latency_ev ''s'' ''f'' 7, Request_ev ''s'' ''f'', Latency_ev ''s'' ''g'' 3]"]
  by (simp add: INT64_MAX_def INT64_MIN_def del: fold_simps)

text \<open>The key of a counter does not determine the service: services and methods whose names
  meet at a different underscore share one counter, and the export cannot tell them apart.\<close>

theorem metrics_keys_collide:
  "metrics_request (a @ ''_'' @ b) c m = metrics_request a (b @ ''_'' @ c) m"
  by (simp add: metrics_request_def metrics_key_def)

end
