(* ===== verification/Logger.thy ===== *)
theory Logger
  imports Cxx_Strings
begin

text \<open>
  The log (\<open>rpc/src/rpc_logger.h\<close>, \<open>rpc/src/rpc_logger.cc\<close>). What \<open>put_time\<close> prints for the local
  time is not the program's: the function from seconds to that text is an argument
  (\<open>local_time\<close>), and so is whether a file can be opened. What the process has written to the
  console and to each file is part of the state.
\<close>

section \<open>Levels\<close>

datatype LogLevel = LOG_LEVEL_DEBUG | LOG_LEVEL_INFO | LOG_LEVEL_WARN | LOG_LEVEL_ERROR | LOG_LEVEL_FATAL

fun level_number :: "LogLevel \<Rightarrow> nat" where
  "level_number LOG_LEVEL_DEBUG = 0"
| "level_number LOG_LEVEL_INFO = 1"
| "level_number LOG_LEVEL_WARN = 2"
| "level_number LOG_LEVEL_ERROR = 3"
| "level_number LOG_LEVEL_FATAL = 4"

instantiation LogLevel :: linorder
begin

definition less_eq_LogLevel :: "LogLevel \<Rightarrow> LogLevel \<Rightarrow> bool" where
  "less_eq_LogLevel a b \<longleftrightarrow> level_number a \<le> level_number b"

definition less_LogLevel :: "LogLevel \<Rightarrow> LogLevel \<Rightarrow> bool" where
  "less_LogLevel a b \<longleftrightarrow> level_number a < level_number b"

instance
proof
  fix a b :: LogLevel
  show "a \<le> b \<Longrightarrow> b \<le> a \<Longrightarrow> a = b"
    by (cases a; cases b; simp add: less_eq_LogLevel_def)
qed (auto simp: less_eq_LogLevel_def less_LogLevel_def)

end

definition level_to_string :: "LogLevel \<Rightarrow> string" where
  "level_to_string l = (case l of
     LOG_LEVEL_DEBUG \<Rightarrow> ''DEBUG'' | LOG_LEVEL_INFO \<Rightarrow> ''INFO'' | LOG_LEVEL_WARN \<Rightarrow> ''WARN''
   | LOG_LEVEL_ERROR \<Rightarrow> ''ERROR'' | LOG_LEVEL_FATAL \<Rightarrow> ''FATAL'')"

section \<open>State and operations\<close>

record RpcLogger =
  log_file :: string
  file_stream :: "string option"
  log_level :: LogLevel
  console_output :: bool
  console :: string
  files :: "string \<Rightarrow> string"

definition new_RpcLogger :: RpcLogger where
  "new_RpcLogger = \<lparr>log_file = [], file_stream = None, log_level = LOG_LEVEL_INFO,
     console_output = True, console = [], files = (\<lambda>_. [])\<rparr>"

definition close_RpcLogger :: "RpcLogger \<Rightarrow> RpcLogger" where
  "close_RpcLogger l = (if file_stream l \<noteq> None then l\<lparr>file_stream := None\<rparr> else l)"

definition set_level :: "LogLevel \<Rightarrow> RpcLogger \<Rightarrow> RpcLogger" where
  "set_level level l = l\<lparr>log_level := level\<rparr>"

definition set_output_file :: "(string \<Rightarrow> bool) \<Rightarrow> string \<Rightarrow> RpcLogger \<Rightarrow> RpcLogger" where
  "set_output_file openable filename l =
     (let l = l\<lparr>log_file := filename\<rparr>;
          l = (if file_stream l \<noteq> None then l\<lparr>file_stream := None\<rparr> else l)
      in if openable filename then l\<lparr>file_stream := Some filename\<rparr> else l)"

definition enable_console_output :: "bool \<Rightarrow> RpcLogger \<Rightarrow> RpcLogger" where
  "enable_console_output enable l = l\<lparr>console_output := enable\<rparr>"

text \<open>The local time to the second, a dot, and the milliseconds with three digits.\<close>

definition get_timestamp :: "(int \<Rightarrow> string) \<Rightarrow> int \<Rightarrow> string" where
  "get_timestamp local_time now_ms =
     (let ms = dec_int (now_ms mod 1000)
      in local_time (now_ms div 1000) @ ''.'' @ replicate (3 - length ms) (CHR ''0'') @ ms)"

definition format_message :: "string \<Rightarrow> LogLevel \<Rightarrow> string \<Rightarrow> string" where
  "format_message timestamp level message =
     timestamp @ '' ['' @ level_to_string level @ ''] '' @ message"

definition log_line :: "string \<Rightarrow> LogLevel \<Rightarrow> string \<Rightarrow> RpcLogger \<Rightarrow> RpcLogger" where
  "log_line timestamp level message l =
     (let formatted = format_message timestamp level message;
          l = (if console_output l then l\<lparr>console := console l @ c_str formatted @ [CHR 0x0A]\<rparr> else l)
      in case file_stream l of
           Some f \<Rightarrow> l\<lparr>files := (files l)(f := files l f @ formatted @ [CHR 0x0A])\<rparr>
         | None \<Rightarrow> l)"

definition log_debug :: "string \<Rightarrow> string \<Rightarrow> RpcLogger \<Rightarrow> RpcLogger" where
  "log_debug ts message l = (if log_level l \<le> LOG_LEVEL_DEBUG then log_line ts LOG_LEVEL_DEBUG message l else l)"
definition log_info :: "string \<Rightarrow> string \<Rightarrow> RpcLogger \<Rightarrow> RpcLogger" where
  "log_info ts message l = (if log_level l \<le> LOG_LEVEL_INFO then log_line ts LOG_LEVEL_INFO message l else l)"
definition log_warn :: "string \<Rightarrow> string \<Rightarrow> RpcLogger \<Rightarrow> RpcLogger" where
  "log_warn ts message l = (if log_level l \<le> LOG_LEVEL_WARN then log_line ts LOG_LEVEL_WARN message l else l)"
definition log_error :: "string \<Rightarrow> string \<Rightarrow> RpcLogger \<Rightarrow> RpcLogger" where
  "log_error ts message l = (if log_level l \<le> LOG_LEVEL_ERROR then log_line ts LOG_LEVEL_ERROR message l else l)"
definition log_fatal :: "string \<Rightarrow> string \<Rightarrow> RpcLogger \<Rightarrow> RpcLogger" where
  "log_fatal ts message l = (if log_level l \<le> LOG_LEVEL_FATAL then log_line ts LOG_LEVEL_FATAL message l else l)"

section \<open>Formatted messages\<close>

text \<open>What \<open>vsnprintf\<close> does for the directives the program uses: \<open>%s\<close>, \<open>%d\<close>, \<open>%ld\<close>.\<close>

datatype fmt_arg = Str_arg string | Int_arg int

fun print_arg :: "fmt_arg \<Rightarrow> string" where
  "print_arg (Str_arg s) = c_str s"
| "print_arg (Int_arg i) = dec_int i"

fun vformat :: "string \<Rightarrow> fmt_arg list \<Rightarrow> string" where
  "vformat [] args = []"
| "vformat [c] args = [c]"
| "vformat (c # d # f) [] = c # vformat (d # f) []"
| "vformat (c # d # f) (a # args) =
     (if c = CHR ''%'' then
        if d = CHR ''l'' then print_arg a @ vformat (tl f) args
        else print_arg a @ vformat f args
      else c # vformat (d # f) (a # args))"

text \<open>The buffer of 1024 bytes holds 1023 characters and the final NUL.\<close>

definition log_buffer :: "string \<Rightarrow> fmt_arg list \<Rightarrow> string" where
  "log_buffer fmt args = take 1023 (vformat fmt args)"

definition log_debugf :: "string \<Rightarrow> string \<Rightarrow> fmt_arg list \<Rightarrow> RpcLogger \<Rightarrow> RpcLogger" where
  "log_debugf ts fmt args l =
     (if log_level l > LOG_LEVEL_DEBUG then l else log_line ts LOG_LEVEL_DEBUG (c_str (log_buffer fmt args)) l)"
definition log_infof :: "string \<Rightarrow> string \<Rightarrow> fmt_arg list \<Rightarrow> RpcLogger \<Rightarrow> RpcLogger" where
  "log_infof ts fmt args l =
     (if log_level l > LOG_LEVEL_INFO then l else log_line ts LOG_LEVEL_INFO (c_str (log_buffer fmt args)) l)"
definition log_warnf :: "string \<Rightarrow> string \<Rightarrow> fmt_arg list \<Rightarrow> RpcLogger \<Rightarrow> RpcLogger" where
  "log_warnf ts fmt args l =
     (if log_level l > LOG_LEVEL_WARN then l else log_line ts LOG_LEVEL_WARN (c_str (log_buffer fmt args)) l)"
definition log_errorf :: "string \<Rightarrow> string \<Rightarrow> fmt_arg list \<Rightarrow> RpcLogger \<Rightarrow> RpcLogger" where
  "log_errorf ts fmt args l =
     (if log_level l > LOG_LEVEL_ERROR then l else log_line ts LOG_LEVEL_ERROR (c_str (log_buffer fmt args)) l)"
definition log_fatalf :: "string \<Rightarrow> string \<Rightarrow> fmt_arg list \<Rightarrow> RpcLogger \<Rightarrow> RpcLogger" where
  "log_fatalf ts fmt args l =
     (if log_level l > LOG_LEVEL_FATAL then l else log_line ts LOG_LEVEL_FATAL (c_str (log_buffer fmt args)) l)"

section \<open>Lemmas\<close>

text \<open>A call by its level: what the macros of the header select.\<close>

fun log_at :: "LogLevel \<Rightarrow> string \<Rightarrow> string \<Rightarrow> RpcLogger \<Rightarrow> RpcLogger" where
  "log_at LOG_LEVEL_DEBUG = log_debug"
| "log_at LOG_LEVEL_INFO = log_info"
| "log_at LOG_LEVEL_WARN = log_warn"
| "log_at LOG_LEVEL_ERROR = log_error"
| "log_at LOG_LEVEL_FATAL = log_fatal"

fun logf_at :: "LogLevel \<Rightarrow> string \<Rightarrow> string \<Rightarrow> fmt_arg list \<Rightarrow> RpcLogger \<Rightarrow> RpcLogger" where
  "logf_at LOG_LEVEL_DEBUG = log_debugf"
| "logf_at LOG_LEVEL_INFO = log_infof"
| "logf_at LOG_LEVEL_WARN = log_warnf"
| "logf_at LOG_LEVEL_ERROR = log_errorf"
| "logf_at LOG_LEVEL_FATAL = log_fatalf"

lemma log_at_eq: "log_at lv ts msg l = (if log_level l \<le> lv then log_line ts lv msg l else l)"
  by (cases lv) (simp_all add: log_debug_def log_info_def log_warn_def log_error_def log_fatal_def)

lemma logf_at_eq: "logf_at lv ts fmt args l = log_at lv ts (c_str (log_buffer fmt args)) l"
  by (cases lv) (simp_all add: log_debugf_def log_infof_def log_warnf_def log_errorf_def log_fatalf_def
      log_debug_def log_info_def log_warn_def log_error_def log_fatal_def not_less [symmetric])

lemma log_line_fields [simp]:
  "log_level (log_line ts lv msg l) = log_level l" "file_stream (log_line ts lv msg l) = file_stream l"
  "console_output (log_line ts lv msg l) = console_output l"
  "console (log_line ts lv msg l) = (if console_output l then console l @ c_str (format_message ts lv msg) @ [CHR 0x0A] else console l)"
  "files (log_line ts lv msg l) = (case file_stream l of
     Some f \<Rightarrow> (files l)(f := files l f @ format_message ts lv msg @ [CHR 0x0A]) | None \<Rightarrow> files l)"
  by (simp_all add: log_line_def Let_def split: option.splits)

text \<open>The text a history of messages (time, level, text) leaves: one line for each that passes.\<close>

definition passing :: "LogLevel \<Rightarrow> (string \<times> LogLevel \<times> string) list \<Rightarrow> string list" where
  "passing threshold ms = map (\<lambda>(ts, lv, msg). format_message ts lv msg) (filter (\<lambda>(ts, lv, msg). threshold \<le> lv) ms)"

definition as_lines :: "string list \<Rightarrow> string" where
  "as_lines ls = concat (map (\<lambda>l. l @ [CHR 0x0A]) ls)"

abbreviation log_all :: "(string \<times> LogLevel \<times> string) list \<Rightarrow> RpcLogger \<Rightarrow> RpcLogger" where
  "log_all ms l \<equiv> fold (\<lambda>(ts, lv, msg). log_at lv ts msg) ms l"

lemma log_all_effect:
  "log_level (log_all ms l) = log_level l \<and> file_stream (log_all ms l) = file_stream l
   \<and> console_output (log_all ms l) = console_output l
   \<and> console (log_all ms l) = console l @ (if console_output l then as_lines (map c_str (passing (log_level l) ms)) else [])
   \<and> files (log_all ms l) = (case file_stream l of
       Some f \<Rightarrow> (files l)(f := files l f @ as_lines (passing (log_level l) ms)) | None \<Rightarrow> files l)"
proof (induction ms arbitrary: l)
  case Nil
  then show ?case by (simp add: passing_def as_lines_def split: option.split)
next
  case (Cons m ms)
  obtain ts lv msg where m: "m = (ts, lv, msg)" by (cases m)
  show ?case
    using Cons.IH [of "log_at lv ts msg l"]
    by (simp add: m log_at_eq [of lv ts msg l] passing_def as_lines_def split: option.split)
qed

lemma length_log_buffer: "length (log_buffer fmt args) \<le> 1023"
  by (simp add: log_buffer_def)

section \<open>Properties\<close>

text \<open>Exactly the messages whose level is at least the configured one are written, in order,
  one line each, to the console when it is enabled (up to a NUL byte) and to the open file.\<close>

theorem logger_writes_passing:
  "(console (log_all ms l) = console l @ (if console_output l then as_lines (map c_str (passing (log_level l) ms)) else []))
   \<and> files (log_all ms l) = (case file_stream l of
     Some f \<Rightarrow> (files l)(f := files l f @ as_lines (passing (log_level l) ms)) | None \<Rightarrow> files l)"
  using log_all_effect [of ms l] by simp_all

text \<open>A formatted message writes at most 1023 characters of text, and the same as the plain
  message of that text: longer texts are cut silently.\<close>

theorem logger_format_cut:
  "logf_at lv ts fmt args l = log_at lv ts (c_str (take 1023 (vformat fmt args))) l
   \<and> length (c_str (take 1023 (vformat fmt args))) \<le> 1023"
  using length_log_buffer [of fmt args]
  by (simp_all add: logf_at_eq log_buffer_def c_str_def order.trans [OF length_takeWhile_le])

text \<open>Line breaks in a message are written as they are, so that a text received from a peer can
  add lines to the file that look like the program's own.\<close>

theorem logger_lines_can_be_forged:
  "files (log_at lv ts (msg @ [CHR 0x0A] @ format_message ts' lv' msg') l) f =
     (if log_level l \<le> lv \<and> file_stream l = Some f
      then files (log_line ts' lv' msg' (log_line ts lv msg l)) f else files l f)"
  by (simp add: log_at_eq format_message_def split: option.split)

end
