(* ===== verification/Governance.thy ===== *)
theory Governance
  imports CircuitBreaker RateLimiter
begin

text \<open>
  The governance manager (\<open>rpc/src/rpc_service_governance.h\<close>,
  \<open>rpc/src/rpc_service_governance.cc\<close>): a breaker and a limiter per service, owned by the manager
  and handed out as raw pointers. Objects live in two heaps, indexed by address; a destroyed
  object leaves \<open>None\<close> at its address, and using a pointer to it is undefined.
\<close>

section \<open>State\<close>

record ServiceGovernanceManager =
  breaker_heap :: "nat \<Rightarrow> CircuitBreaker option"
  limiter_heap :: "nat \<Rightarrow> RateLimiter option"
  next_address :: nat
  circuit_breakers :: "string \<Rightarrow> nat option"
  rate_limiters :: "string \<Rightarrow> nat option"
  circuit_breaker_enabled :: "string \<Rightarrow> bool option"
  rate_limiter_enabled :: "string \<Rightarrow> bool option"

definition new_governance :: ServiceGovernanceManager where
  "new_governance = \<lparr>breaker_heap = Map.empty, limiter_heap = Map.empty, next_address = 1,
     circuit_breakers = Map.empty, rate_limiters = Map.empty,
     circuit_breaker_enabled = Map.empty, rate_limiter_enabled = Map.empty\<rparr>"

section \<open>Operations\<close>

definition new_breaker_at :: "string \<Rightarrow> CircuitBreaker \<Rightarrow> ServiceGovernanceManager \<Rightarrow> ServiceGovernanceManager" where
  "new_breaker_at service cb g = g\<lparr>breaker_heap := (breaker_heap g)(next_address g \<mapsto> cb),
     circuit_breakers := (circuit_breakers g)(service \<mapsto> next_address g),
     next_address := next_address g + 1\<rparr>"

definition get_circuit_breaker ::
  "string \<Rightarrow> int \<Rightarrow> int \<Rightarrow> int \<Rightarrow> ServiceGovernanceManager \<Rightarrow> nat \<times> ServiceGovernanceManager" where
  "get_circuit_breaker service ft st tmo g =
     (case circuit_breakers g service of
        Some p \<Rightarrow> (p, g)
      | None \<Rightarrow>
          let g' = new_breaker_at service (new_CircuitBreaker service ft st tmo) g
          in (next_address g, g'\<lparr>circuit_breaker_enabled := (circuit_breaker_enabled g')(service \<mapsto> True)\<rparr>))"

definition get_rate_limiter ::
  "string \<Rightarrow> int \<Rightarrow> int \<Rightarrow> ServiceGovernanceManager \<Rightarrow> nat \<times> ServiceGovernanceManager" where
  "get_rate_limiter service q now g =
     (case rate_limiters g service of
        Some p \<Rightarrow> (p, g)
      | None \<Rightarrow>
          (next_address g, g\<lparr>limiter_heap := (limiter_heap g)(next_address g \<mapsto> new_RateLimiter service q now),
             rate_limiters := (rate_limiters g)(service \<mapsto> next_address g),
             next_address := next_address g + 1,
             rate_limiter_enabled := (rate_limiter_enabled g)(service \<mapsto> True)\<rparr>))"

text \<open>The old breaker is destroyed when the new one takes its place in the map.\<close>

definition set_circuit_breaker_params ::
  "string \<Rightarrow> int \<Rightarrow> int \<Rightarrow> int \<Rightarrow> ServiceGovernanceManager \<Rightarrow> ServiceGovernanceManager" where
  "set_circuit_breaker_params service ft st tmo g =
     (case circuit_breakers g service of
        None \<Rightarrow> g
      | Some p \<Rightarrow>
          let g' = new_breaker_at service (new_CircuitBreaker service ft st tmo) g
          in g'\<lparr>breaker_heap := (breaker_heap g')(p := None)\<rparr>)"

definition set_rate_limiter_params :: "string \<Rightarrow> int \<Rightarrow> ServiceGovernanceManager \<Rightarrow> ServiceGovernanceManager cxx" where
  "set_rate_limiter_params service q g =
     (case rate_limiters g service of
        None \<Rightarrow> Ok g
      | Some p \<Rightarrow> (case limiter_heap g p of
            None \<Rightarrow> Undefined
          | Some rl \<Rightarrow> Ok (g\<lparr>limiter_heap := (limiter_heap g)(p \<mapsto> set_rate q rl)\<rparr>)))"

definition enable_circuit_breaker :: "string \<Rightarrow> bool \<Rightarrow> ServiceGovernanceManager \<Rightarrow> ServiceGovernanceManager" where
  "enable_circuit_breaker service enable g =
     g\<lparr>circuit_breaker_enabled := (circuit_breaker_enabled g)(service \<mapsto> enable)\<rparr>"
definition disable_circuit_breaker :: "string \<Rightarrow> ServiceGovernanceManager \<Rightarrow> ServiceGovernanceManager" where
  "disable_circuit_breaker service g =
     g\<lparr>circuit_breaker_enabled := (circuit_breaker_enabled g)(service \<mapsto> False)\<rparr>"
definition enable_rate_limiter :: "string \<Rightarrow> bool \<Rightarrow> ServiceGovernanceManager \<Rightarrow> ServiceGovernanceManager" where
  "enable_rate_limiter service enable g =
     g\<lparr>rate_limiter_enabled := (rate_limiter_enabled g)(service \<mapsto> enable)\<rparr>"
definition disable_rate_limiter :: "string \<Rightarrow> ServiceGovernanceManager \<Rightarrow> ServiceGovernanceManager" where
  "disable_rate_limiter service g =
     g\<lparr>rate_limiter_enabled := (rate_limiter_enabled g)(service \<mapsto> False)\<rparr>"

definition is_circuit_breaker_enabled :: "string \<Rightarrow> ServiceGovernanceManager \<Rightarrow> bool" where
  "is_circuit_breaker_enabled service g \<longleftrightarrow> circuit_breaker_enabled g service = Some True"
definition is_rate_limiter_enabled :: "string \<Rightarrow> ServiceGovernanceManager \<Rightarrow> bool" where
  "is_rate_limiter_enabled service g \<longleftrightarrow> rate_limiter_enabled g service = Some True"

section \<open>Calls through the pointers\<close>

definition breaker_allow_request :: "nat \<Rightarrow> int \<Rightarrow> ServiceGovernanceManager \<Rightarrow> (bool \<times> ServiceGovernanceManager) cxx" where
  "breaker_allow_request p now g = (case breaker_heap g p of
     None \<Rightarrow> Undefined
   | Some cb \<Rightarrow> let (b, cb') = allow_request now cb in Ok (b, g\<lparr>breaker_heap := (breaker_heap g)(p \<mapsto> cb')\<rparr>))"

definition breaker_record_success :: "nat \<Rightarrow> ServiceGovernanceManager \<Rightarrow> ServiceGovernanceManager cxx" where
  "breaker_record_success p g = (case breaker_heap g p of
     None \<Rightarrow> Undefined
   | Some cb \<Rightarrow> cbind (record_success cb) (\<lambda>cb'. Ok (g\<lparr>breaker_heap := (breaker_heap g)(p \<mapsto> cb')\<rparr>)))"

definition breaker_record_failure :: "nat \<Rightarrow> int \<Rightarrow> ServiceGovernanceManager \<Rightarrow> ServiceGovernanceManager cxx" where
  "breaker_record_failure p now g = (case breaker_heap g p of
     None \<Rightarrow> Undefined
   | Some cb \<Rightarrow> cbind (record_failure now cb) (\<lambda>cb'. Ok (g\<lparr>breaker_heap := (breaker_heap g)(p \<mapsto> cb')\<rparr>)))"

definition limiter_try_acquire :: "nat \<Rightarrow> int \<Rightarrow> int \<Rightarrow> ServiceGovernanceManager \<Rightarrow> (bool \<times> ServiceGovernanceManager) cxx" where
  "limiter_try_acquire p permits now g = (case limiter_heap g p of
     None \<Rightarrow> Undefined
   | Some rl \<Rightarrow> cbind (try_acquire 0 permits now rl) (\<lambda>(b, rl'). Ok (b, g\<lparr>limiter_heap := (limiter_heap g)(p \<mapsto> rl')\<rparr>)))"

section \<open>Histories of configuration calls\<close>

datatype gov_event = Get_breaker string int int int | Get_limiter string int int
  | Set_breaker string int int int | Set_limiter string int
  | Enable_breaker string bool | Disable_breaker string | Enable_limiter string bool | Disable_limiter string
  | Use_allow nat int | Use_success nat | Use_failure nat int | Use_acquire nat int int

fun gov_step :: "gov_event \<Rightarrow> ServiceGovernanceManager \<Rightarrow> ServiceGovernanceManager cxx" where
  "gov_step (Get_breaker s ft st tmo) g = Ok (snd (get_circuit_breaker s ft st tmo g))"
| "gov_step (Get_limiter s q now) g = Ok (snd (get_rate_limiter s q now g))"
| "gov_step (Set_breaker s ft st tmo) g = Ok (set_circuit_breaker_params s ft st tmo g)"
| "gov_step (Set_limiter s q) g = set_rate_limiter_params s q g"
| "gov_step (Enable_breaker s b) g = Ok (enable_circuit_breaker s b g)"
| "gov_step (Disable_breaker s) g = Ok (disable_circuit_breaker s g)"
| "gov_step (Enable_limiter s b) g = Ok (enable_rate_limiter s b g)"
| "gov_step (Disable_limiter s) g = Ok (disable_rate_limiter s g)"
| "gov_step (Use_allow p now) g = cbind (breaker_allow_request p now g) (\<lambda>(b, g). Ok g)"
| "gov_step (Use_success p) g = breaker_record_success p g"
| "gov_step (Use_failure p now) g = breaker_record_failure p now g"
| "gov_step (Use_acquire p n now) g = cbind (limiter_try_acquire p n now g) (\<lambda>(b, g). Ok g)"

fun gov_run :: "gov_event list \<Rightarrow> ServiceGovernanceManager \<Rightarrow> ServiceGovernanceManager cxx" where
  "gov_run [] g = Ok g"
| "gov_run (e # es) g = cbind (gov_step e g) (gov_run es)"

text \<open>A map owns the objects of a heap below an address; an object bears the name it is kept under.\<close>

definition owns :: "('o \<Rightarrow> string) \<Rightarrow> (nat \<Rightarrow> 'o option) \<Rightarrow> nat \<Rightarrow> (string \<Rightarrow> nat option) \<Rightarrow> bool" where
  "owns name_of heap n m \<longleftrightarrow>
     (\<forall>s p. m s = Some p \<longleftrightarrow> (\<exists>x. heap p = Some x \<and> name_of x = s)) \<and> (\<forall>p \<ge> n. heap p = None)"

definition gov_inv :: "ServiceGovernanceManager \<Rightarrow> bool" where
  "gov_inv g \<longleftrightarrow> owns cb_name (breaker_heap g) (next_address g) (circuit_breakers g)
     \<and> owns rl_name (limiter_heap g) (next_address g) (rate_limiters g)"

lemma owns_update: "owns nm h n m \<Longrightarrow> h p = Some x \<Longrightarrow> nm x' = nm x \<Longrightarrow> owns nm (h(p \<mapsto> x')) n m"
  by (auto simp: owns_def)

lemma owns_new:
  assumes "owns nm h n m" and "m (nm x) = None"
  shows "owns nm (h(n \<mapsto> x)) (Suc n) (m(nm x \<mapsto> n))"
proof -
  have "h n = None" using assms(1) by (simp add: owns_def)
  moreover have "nm y \<noteq> nm x" if "h q = Some y" for q y
    using assms that unfolding owns_def by (metis option.distinct(1))
  ultimately show ?thesis using assms by (auto simp: owns_def)
qed

lemma owns_mono: "owns nm h n m \<Longrightarrow> owns nm h (Suc n) m"
  by (simp add: owns_def)

lemma owns_delete:
  assumes "owns nm h n m" "m s = Some p"
  shows "owns nm (h(p := None)) n (m(s := None))"
proof -
  have "nm y = s \<longleftrightarrow> q = p" if "h q = Some y" for q y
    using assms that unfolding owns_def by (metis option.inject)
  with assms show ?thesis by (fastforce simp: owns_def)
qed

lemma owns_replace:
  assumes "owns nm h n m" "m (nm x) = Some p"
  shows "owns nm ((h(n \<mapsto> x))(p := None)) (Suc n) (m(nm x \<mapsto> n))"
proof -
  have "n \<noteq> p" using assms by (auto simp: owns_def)
  with owns_new [OF owns_delete [OF assms], of x] show ?thesis by (simp add: fun_upd_twist)
qed

lemma cb_ops_name:
  "allow_request now cb = (b, cb') \<Longrightarrow> cb_name cb' = cb_name cb"
  "record_success cb = Ok cb' \<Longrightarrow> cb_name cb' = cb_name cb"
  "record_failure now cb = Ok cb' \<Longrightarrow> cb_name cb' = cb_name cb"
  by (auto simp: allow_request_def record_success_def record_failure_def transition_to_open_def
      transition_to_closed_def transition_to_half_open_def cxx_simps Let_def split: State.splits if_splits)

lemma rl_ops_name:
  "try_acquire k n now rl = Ok (b, rl') \<Longrightarrow> rl_name rl' = rl_name rl"
  "rl_name (set_rate q rl) = rl_name rl"
  by (auto simp: try_acquire_def try_acquire_internal_def refill_def set_rate_def cxx_simps split: if_splits)

lemma gov_inv_new: "gov_inv new_governance"
  by (simp add: gov_inv_def new_governance_def owns_def)

lemma gov_inv_step:
  assumes "gov_inv g" and "gov_step e g = Ok g'"
  shows "gov_inv g'"
  using assms
proof (cases e)
  case (Get_breaker s ft st tmo)
  with assms show ?thesis
    using owns_new [of cb_name "breaker_heap g" "next_address g" "circuit_breakers g" "new_CircuitBreaker s ft st tmo"]
    by (auto simp: gov_inv_def get_circuit_breaker_def new_breaker_at_def Let_def new_CircuitBreaker_def
        owns_mono split: option.splits)
next
  case (Get_limiter s q now)
  with assms show ?thesis
    using owns_new [of rl_name "limiter_heap g" "next_address g" "rate_limiters g" "new_RateLimiter s q now"]
    by (auto simp: gov_inv_def get_rate_limiter_def Let_def new_RateLimiter_def owns_mono split: option.splits)
next
  case (Set_breaker s ft st tmo)
  with assms show ?thesis
    using owns_replace [of cb_name "breaker_heap g" "next_address g" "circuit_breakers g" "new_CircuitBreaker s ft st tmo"]
    by (auto simp: gov_inv_def set_circuit_breaker_params_def new_breaker_at_def Let_def new_CircuitBreaker_def
        owns_mono split: option.splits)
qed (auto simp: gov_inv_def set_rate_limiter_params_def enable_circuit_breaker_def disable_circuit_breaker_def
    enable_rate_limiter_def disable_rate_limiter_def breaker_allow_request_def breaker_record_success_def
    breaker_record_failure_def limiter_try_acquire_def cxx_simps rl_ops_name cb_ops_name
    intro!: owns_update split: option.splits prod.splits)

lemma gov_inv_run: "gov_inv g \<Longrightarrow> gov_run es g = Ok g' \<Longrightarrow> gov_inv g'"
  by (induction es arbitrary: g) (auto simp: cxx_simps intro: gov_inv_step)

fun sets_breaker :: "string \<Rightarrow> gov_event \<Rightarrow> bool" where
  "sets_breaker s (Set_breaker t ft st tmo) \<longleftrightarrow> s = t"
| "sets_breaker s _ \<longleftrightarrow> False"

lemmas gov_op_defs = get_circuit_breaker_def get_rate_limiter_def new_breaker_at_def
  set_circuit_breaker_params_def set_rate_limiter_params_def enable_circuit_breaker_def
  disable_circuit_breaker_def enable_rate_limiter_def disable_rate_limiter_def
  breaker_allow_request_def breaker_record_success_def breaker_record_failure_def limiter_try_acquire_def

lemma handle_kept:
  "circuit_breakers g s = Some p \<Longrightarrow> gov_step e g = Ok g' \<Longrightarrow> \<not> sets_breaker s e
     \<Longrightarrow> circuit_breakers g' s = Some p"
  by (cases e) (auto simp: gov_op_defs Let_def cxx_simps split: option.splits prod.splits)

lemma handle_dead:
  "breaker_heap g p = None \<and> p < next_address g \<Longrightarrow> gov_step e g = Ok g'
     \<Longrightarrow> breaker_heap g' p = None \<and> p < next_address g'"
  by (cases e) (auto simp: gov_op_defs Let_def cxx_simps split: option.splits prod.splits if_splits)

lemma handle_kept_run:
  "circuit_breakers g s = Some p \<Longrightarrow> gov_run es g = Ok g' \<Longrightarrow> \<forall>e \<in> set es. \<not> sets_breaker s e
     \<Longrightarrow> circuit_breakers g' s = Some p"
  by (induction es arbitrary: g) (auto simp: cxx_simps dest: handle_kept)

lemma handle_dead_run:
  "breaker_heap g p = None \<and> p < next_address g \<Longrightarrow> gov_run es g = Ok g' \<Longrightarrow> breaker_heap g' p = None"
proof (induction es arbitrary: g)
  case Nil
  then show ?case by simp
next
  case (Cons e es)
  then obtain g1 where "gov_step e g = Ok g1" "gov_run es g1 = Ok g'" by (auto simp: cxx_simps)
  with Cons.IH handle_dead [OF Cons.prems(1)] show ?case by blast
qed

lemma owned_live: "gov_inv g \<Longrightarrow> circuit_breakers g s = Some p \<Longrightarrow> \<exists>cb. breaker_heap g p = Some cb \<and> cb_name cb = s"
  by (auto simp: gov_inv_def owns_def)

lemma get_circuit_breaker_bound: "get_circuit_breaker s ft st tmo g = (p, g') \<Longrightarrow> circuit_breakers g' s = Some p"
  by (auto simp: get_circuit_breaker_def new_breaker_at_def Let_def split: option.splits)

text \<open>C22: A breaker handed out for a service stays the service's breaker, alive under the same
  address, through any later history of configuration and use, as long as the parameters of this
  service's breaker are not set.\<close>

theorem governance_handles_valid:
  assumes "gov_run es0 new_governance = Ok g" and "get_circuit_breaker s ft st tmo g = (p, g1)"
    and "gov_run es g1 = Ok g2" and "\<forall>e \<in> set es. \<not> sets_breaker s e"
  shows "fst (get_circuit_breaker s ft' st' tmo' g2) = p
     \<and> (\<exists>cb. breaker_heap g2 p = Some cb \<and> cb_name cb = s)"
proof -
  have "gov_step (Get_breaker s ft st tmo) g = Ok g1" using assms(2) by simp
  with gov_inv_run [OF gov_inv_new assms(1)] have "gov_inv g1" by (rule gov_inv_step)
  with assms(3) have "gov_inv g2" by (blast intro: gov_inv_run)
  moreover have "circuit_breakers g2 s = Some p"
    using handle_kept_run [OF get_circuit_breaker_bound [OF assms(2)] assms(3,4)] .
  ultimately show ?thesis using owned_live by (auto simp: get_circuit_breaker_def)
qed

theorem governance_handles_valid_witness:
  "\<exists>g2. gov_run [Use_failure 1 7, Set_breaker ''b'' 1 1 1, Get_breaker ''b'' 2 2 2] (snd (get_circuit_breaker ''a'' 2 1 30 new_governance)) = Ok g2
     \<and> fst (get_circuit_breaker ''a'' 9 9 9 g2) = 1"
proof -
  let ?g = "snd (get_circuit_breaker ''a'' 2 1 30 new_governance)"
  have 1: "get_circuit_breaker ''a'' 2 1 30 new_governance = (1, ?g)"
    by (simp add: get_circuit_breaker_def new_governance_def Let_def)
  obtain g2 where 2: "gov_run [Use_failure 1 7, Set_breaker ''b'' 1 1 1, Get_breaker ''b'' 2 2 2] ?g = Ok g2"
    by (simp add: gov_op_defs new_governance_def Let_def record_failure_def new_CircuitBreaker_def int_plus1_def INT_MAX_def)
  from governance_handles_valid [of "[]" new_governance "''a''" 2 1 30 1 ?g, OF _ 1 2] 2 show ?thesis by simp
qed

text \<open>Setting the parameters of a service's breaker destroys the breaker that calls in flight
  still point to: whatever happens afterwards, reporting their outcome through that pointer is
  undefined behaviour.\<close>

theorem governance_params_dangle:
  assumes "gov_run es0 new_governance = Ok g" and "fst (get_circuit_breaker s ft st tmo g) = p"
    and "gov_run es (set_circuit_breaker_params s ft' st' tmo' (snd (get_circuit_breaker s ft st tmo g))) = Ok g2"
  shows "breaker_record_failure p now g2 = Undefined \<and> breaker_record_success p g2 = Undefined"
proof -
  let ?g = "snd (get_circuit_breaker s ft st tmo g)"
  have "gov_step (Get_breaker s ft st tmo) g = Ok ?g" by simp
  with gov_inv_run [OF gov_inv_new assms(1)] have inv: "gov_inv ?g" by (rule gov_inv_step)
  have b: "circuit_breakers ?g s = Some p"
    using get_circuit_breaker_bound assms(2) by (metis prod.collapse)
  then have "p < next_address ?g" using inv by (auto simp: gov_inv_def owns_def not_less [symmetric])
  with b have "breaker_heap (set_circuit_breaker_params s ft' st' tmo' ?g) p = None
      \<and> p < next_address (set_circuit_breaker_params s ft' st' tmo' ?g)"
    by (simp add: set_circuit_breaker_params_def new_breaker_at_def Let_def)
  from handle_dead_run [OF this assms(3)] show ?thesis
    by (simp add: breaker_record_failure_def breaker_record_success_def)
qed

theorem governance_params_dangle_witness:
  "breaker_record_failure 1 5 (set_circuit_breaker_params ''a'' 3 1 30 (snd (get_circuit_breaker ''a'' 2 1 30 new_governance)))
     = Undefined"
  using governance_params_dangle [of "[]" new_governance "''a''" 2 1 30 1 "[]" 3 1 30 _ 5]
  by (simp add: get_circuit_breaker_def new_governance_def Let_def)

end
