(* ===== verification/Name_Table.thy ===== *)
theory Name_Table
  imports Prelude
begin

text \<open>
  The interface that the program's maps from names provide to their users (services of a
  dispatcher, handlers of a server, clients of the name service): \<open>enter v\<close> binds the name
  \<open>key v\<close> to \<open>val v\<close>, and a lookup sees the last binding of its name and no other.
\<close>

locale name_table =
  fixes lookup :: "'s \<Rightarrow> string \<Rightarrow> 'w option"
    and enter :: "'v \<Rightarrow> 's \<Rightarrow> 's"
    and key :: "'v \<Rightarrow> string"
    and val :: "'v \<Rightarrow> 'w"
  assumes lookup_enter: "lookup (enter v s) k = (if k = key v then Some (val v) else lookup s k)"
begin

lemma lookup_fold_enter:
  "lookup (fold enter vs s) k
     = (case find (\<lambda>v. key v = k) (rev vs) of Some v \<Rightarrow> Some (val v) | None \<Rightarrow> lookup s k)"
proof (induction vs rule: rev_induct)
  case Nil
  then show ?case by simp
next
  case (snoc v vs)
  then show ?case by (simp add: lookup_enter)
qed

lemma lookup_last:
  "lookup (fold enter (vs @ v # ws) s) (key v) = Some (val v)" if "\<forall>w \<in> set ws. key w \<noteq> key v"
proof -
  have "find (\<lambda>w. key w = key v) (rev (vs @ v # ws)) = Some v"
    using that by (induction ws rule: rev_induct) auto
  then show ?thesis by (simp only: lookup_fold_enter option.case)
qed

lemma lookup_never: "\<forall>v \<in> set vs. key v \<noteq> k \<Longrightarrow> lookup (fold enter vs s) k = lookup s k"
  by (induction vs arbitrary: s) (auto simp: lookup_enter)

end

end
