(* ===== verification/Dispatcher.thy ===== *)
theory Dispatcher
  imports TinyPbCodec Cxx_Strings Name_Table
begin

text \<open>
  The controller of a call (\<open>rpc/src/tinypb_rpc_controller.h\<close>, \<open>.cc\<close>) and the dispatcher of the
  server (\<open>rpc/src/tinypb_rpc_dispatcher.h\<close>, \<open>.cc\<close>). A service is generated by protobuf from
  the user's interface and implemented by the user: what the dispatcher calls of it is a record of
  functions, an argument of the model.
\<close>

section \<open>Controller\<close>

record TinyPbRpcController =
  ctl_failed :: bool
  error_text :: string
  error_code :: int
  ctl_timeout_ms :: int
  ctl_msg_req :: string
  canceled :: bool

definition new_TinyPbRpcController :: TinyPbRpcController where
  "new_TinyPbRpcController = \<lparr>ctl_failed = False, error_text = [], error_code = 0,
     ctl_timeout_ms = 5000, ctl_msg_req = [], canceled = False\<rparr>"

definition ctl_Reset :: "TinyPbRpcController \<Rightarrow> TinyPbRpcController" where
  "ctl_Reset c = c\<lparr>ctl_failed := False, error_text := [], error_code := 0, ctl_timeout_ms := 5000,
     ctl_msg_req := [], canceled := False\<rparr>"
definition SetFailed :: "string \<Rightarrow> TinyPbRpcController \<Rightarrow> TinyPbRpcController" where
  "SetFailed reason c = c\<lparr>ctl_failed := True, error_text := reason\<rparr>"
definition StartCancel :: "TinyPbRpcController \<Rightarrow> TinyPbRpcController" where
  "StartCancel c = c\<lparr>canceled := True\<rparr>"
definition SetTimeout :: "int \<Rightarrow> TinyPbRpcController \<Rightarrow> TinyPbRpcController" where
  "SetTimeout ms c = c\<lparr>ctl_timeout_ms := ms\<rparr>"
definition SetErrorCode :: "int \<Rightarrow> TinyPbRpcController \<Rightarrow> TinyPbRpcController" where
  "SetErrorCode code c = c\<lparr>error_code := code\<rparr>"
definition SetMsgReq :: "string \<Rightarrow> TinyPbRpcController \<Rightarrow> TinyPbRpcController" where
  "SetMsgReq r c = c\<lparr>ctl_msg_req := r\<rparr>"

section \<open>Services\<close>

text \<open>
  The generated part of a service, over the type of its messages: its full name, the methods it
  knows, how the bytes of a request are parsed for a method, what the user's implementation answers,
  and how the answer is serialised (whether it succeeded, and what it left in the string).
\<close>

record 'msg pb_service =
  service_name :: string
  find_method :: "string \<Rightarrow> nat option"
  parse_request :: "nat \<Rightarrow> string \<Rightarrow> 'msg option"
  call_method :: "nat \<Rightarrow> 'msg \<Rightarrow> 'msg"
  serialize :: "'msg \<Rightarrow> bool \<times> string"

section \<open>Dispatcher\<close>

record 'msg TinyPbRpcDispatcher =
  service_map :: "string \<Rightarrow> 'msg pb_service option"

definition new_TinyPbRpcDispatcher :: "'msg TinyPbRpcDispatcher" where
  "new_TinyPbRpcDispatcher = \<lparr>service_map = Map.empty\<rparr>"

definition registerService :: "'msg pb_service \<Rightarrow> 'msg TinyPbRpcDispatcher \<Rightarrow> 'msg TinyPbRpcDispatcher" where
  "registerService service d = d\<lparr>service_map := (service_map d)(service_name service \<mapsto> service)\<rparr>"

definition getService :: "string \<Rightarrow> 'msg TinyPbRpcDispatcher \<Rightarrow> 'msg pb_service option" where
  "getService n d = service_map d n"

text \<open>\<open>rfind\<close> gives a position inside the string, so that neither \<open>substr\<close> throws.\<close>

definition dispatch :: "'msg TinyPbRpcDispatcher \<Rightarrow> TinyPbStruct \<Rightarrow> TinyPbStruct \<Rightarrow> TinyPbStruct cxx" where
  "dispatch d request response =
     (let response = response\<lparr>msg_req := msg_req request, service_full_name := service_full_name request\<rparr>
      in case rfind_ch (CHR ''.'') (service_full_name request) of
        None \<Rightarrow> Ok (response\<lparr>err_code := 400, err_info := ''invalid service_full_name format''\<rparr>)
      | Some dot_pos \<Rightarrow>
          cbind (substr (service_full_name request) 0 dot_pos) (\<lambda>sname.
          cbind (substr_from (service_full_name request) (dot_pos + 1)) (\<lambda>mname.
          case service_map d sname of
            None \<Rightarrow> Ok (response\<lparr>err_code := 404, err_info := ''service not found: '' @ sname\<rparr>)
          | Some service \<Rightarrow> (case find_method service mname of
              None \<Rightarrow> Ok (response\<lparr>err_code := 404, err_info := ''method not found: '' @ mname\<rparr>)
            | Some method \<Rightarrow> (case parse_request service method (pb_data request) of
                None \<Rightarrow> Ok (response\<lparr>err_code := 422, err_info := ''failed to parse request''\<rparr>)
              | Some req_msg \<Rightarrow>
                  let (done, bytes) = serialize service (call_method service method req_msg);
                      response = response\<lparr>pb_data := bytes\<rparr>
                  in if \<not> done then Ok (response\<lparr>err_code := 500, err_info := ''failed to serialize response''\<rparr>)
                     else Ok (response\<lparr>err_code := 0, err_info := ''''\<rparr>))))))"

section \<open>Lemmas\<close>

interpretation services: name_table "\<lambda>d n. getService n d" registerService service_name id
  by unfold_locales (simp add: getService_def registerService_def)

text \<open>What a call of a method answers.\<close>

definition answer :: "'msg pb_service \<Rightarrow> nat \<Rightarrow> string \<Rightarrow> (int \<times> string \<times> string)" where
  "answer service method bytes = (case parse_request service method bytes of
     None \<Rightarrow> (422, ''failed to parse request'', [])
   | Some req \<Rightarrow> let (done, out) = serialize service (call_method service method req)
       in if done then (0, [], out) else (500, ''failed to serialize response'', out))"

definition route :: "'msg TinyPbRpcDispatcher \<Rightarrow> string \<Rightarrow> string \<Rightarrow> ('msg pb_service \<times> nat) option" where
  "route d sname mname = Option.bind (getService sname d)
     (\<lambda>service. map_option (\<lambda>k. (service, k)) (find_method service mname))"

lemma dispatch_no_dot:
  "CHR ''.'' \<notin> set (service_full_name req) \<Longrightarrow> dispatch d req resp = Ok (resp\<lparr>msg_req := msg_req req,
     service_full_name := service_full_name req, err_code := 400, err_info := ''invalid service_full_name format''\<rparr>)"
proof -
  assume "CHR ''.'' \<notin> set (service_full_name req)"
  then have "rfind_ch (CHR ''.'') (service_full_name req) = None" by simp
  then show ?thesis by (simp only: dispatch_def Let_def option.case)
qed

lemma dispatch_dot:
  assumes "CHR ''.'' \<notin> set mname" and "service_full_name req = sname @ CHR ''.'' # mname"
  shows "dispatch d req resp = Ok (
     let r = resp\<lparr>msg_req := msg_req req, service_full_name := service_full_name req\<rparr>
     in case getService sname d of
       None \<Rightarrow> r\<lparr>err_code := 404, err_info := ''service not found: '' @ sname\<rparr>
     | Some service \<Rightarrow> (case find_method service mname of
         None \<Rightarrow> r\<lparr>err_code := 404, err_info := ''method not found: '' @ mname\<rparr>
       | Some k \<Rightarrow> (case parse_request service k (pb_data req) of
           None \<Rightarrow> r\<lparr>err_code := 422, err_info := ''failed to parse request''\<rparr>
         | Some msg \<Rightarrow> (case serialize service (call_method service k msg) of (ok, out) \<Rightarrow>
             if ok then r\<lparr>pb_data := out, err_code := 0, err_info := []\<rparr>
             else r\<lparr>pb_data := out, err_code := 500, err_info := ''failed to serialize response''\<rparr>))))"
proof -
  have "rfind_ch (CHR ''.'') (service_full_name req) = Some (length sname)"
    using assms by (simp add: rfind_ch_append)
  then show ?thesis
    by (simp add: dispatch_def Let_def assms(2) getService_def segment_def split: option.split prod.split)
qed

text \<open>A name is split at its last dot, if it has one.\<close>

lemma last_dot:
  obtains (none) "CHR ''.'' \<notin> set n"
  | (dot) s m where "n = s @ CHR ''.'' # m" "CHR ''.'' \<notin> set m"
  by (cases "CHR ''.'' \<in> set n") (auto dest!: split_list_last)

lemma last_dot_unique:
  assumes "s @ CHR ''.'' # m = s' @ CHR ''.'' # m'" "CHR ''.'' \<notin> set m" "CHR ''.'' \<notin> set m'"
  shows "s = s' \<and> m = m'"
proof -
  have "length s = length s'"
    using assms rfind_ch_append [of "CHR ''.''" m s] rfind_ch_append [of "CHR ''.''" m' s'] by simp
  with assms(1) show ?thesis by simp
qed

lemma dispatch_echo:
  assumes "dispatch d req resp = Ok r"
  shows "msg_req r = msg_req req \<and> service_full_name r = service_full_name req"
proof (cases rule: last_dot [of "service_full_name req"])
  case none
  with assms show ?thesis by (auto simp: dispatch_no_dot)
next
  case (dot s m)
  with assms dispatch_dot [OF dot(2,1), of d resp] show ?thesis
    by (auto simp: Let_def split: option.splits prod.splits if_splits)
qed

definition served :: "'msg TinyPbRpcDispatcher \<Rightarrow> TinyPbStruct \<Rightarrow> string \<Rightarrow> bool" where
  "served d req out \<longleftrightarrow> (\<exists>sname mname service k msg. service_full_name req = sname @ ''.'' @ mname
     \<and> CHR ''.'' \<notin> set mname \<and> getService sname d = Some service \<and> find_method service mname = Some k
     \<and> parse_request service k (pb_data req) = Some msg
     \<and> serialize service (call_method service k msg) = (True, out))"

lemma served_dot:
  assumes "service_full_name req = s @ CHR ''.'' # m" and "CHR ''.'' \<notin> set m"
  shows "served d req out \<longleftrightarrow> (\<exists>service k msg. getService s d = Some service \<and> find_method service m = Some k
     \<and> parse_request service k (pb_data req) = Some msg
     \<and> serialize service (call_method service k msg) = (True, out))"
  using last_dot_unique [of _ _ s m] assms unfolding served_def
  by (metis append_Cons append_Nil)

lemma dispatch_registered:
  assumes "service_full_name req = service_name service @ ''.'' @ mname" and "CHR ''.'' \<notin> set mname"
    and "\<forall>w \<in> set ws. service_name w \<noteq> service_name service" and "find_method service mname = Some k"
  shows "dispatch (fold registerService (vs @ service # ws) new_TinyPbRpcDispatcher) req new_TinyPbStruct
    = Ok (case answer service k (pb_data req) of (code, info, out) \<Rightarrow>
        \<lparr>msg_req = msg_req req, service_full_name = service_full_name req,
         err_code = of_int code, err_info = info, pb_data = out\<rparr>)"
proof -
  have "getService (service_name service) (fold registerService (vs @ service # ws) new_TinyPbRpcDispatcher) = Some service"
    using services.lookup_last [OF assms(3), of vs new_TinyPbRpcDispatcher] by simp
  moreover have "service_full_name req = service_name service @ CHR ''.'' # mname" using assms(1) by simp
  ultimately show ?thesis
    using assms(4) by (simp add: dispatch_dot [OF assms(2)] answer_def Let_def new_TinyPbStruct_def
        split: option.split prod.split)
qed

text \<open>C16: A request for the name of a registered service, a dot, and one of its methods (whose name
  has no dot, while the service's may) is answered by this method of the service registered last
  under that name: the answer echoes the request's number and name and carries the method's output,
  or the status 422 or 500 when the request or the answer cannot be converted.\<close>

theorem dispatch_routes:
  assumes "service_full_name req = service_name service @ ''.'' @ mname" and "CHR ''.'' \<notin> set mname"
    and "\<forall>w \<in> set ws. service_name w \<noteq> service_name service" and "find_method service mname = Some k"
  shows "dispatch (fold registerService (vs @ service # ws) new_TinyPbRpcDispatcher) req new_TinyPbStruct
    = Ok (case answer service k (pb_data req) of (code, info, out) \<Rightarrow>
        \<lparr>msg_req = msg_req req, service_full_name = service_full_name req,
         err_code = of_int code, err_info = info, pb_data = out\<rparr>)"
  using assms by (rule dispatch_registered)

definition reverse_service :: "string pb_service" where
  "reverse_service = \<lparr>service_name = ''pkg.Rev'', find_method = (\<lambda>n. if n = ''run'' then Some 0 else None),
     parse_request = (\<lambda>k s. Some s), call_method = (\<lambda>k. rev), serialize = (\<lambda>s. (True, s))\<rparr>"

theorem dispatch_routes_witness:
  "dispatch (fold registerService ([] @ reverse_service # []) new_TinyPbRpcDispatcher)
     \<lparr>msg_req = ''7'', service_full_name = ''pkg.Rev.run'', err_code = 0, err_info = [], pb_data = ''abc''\<rparr> new_TinyPbStruct
   = Ok \<lparr>msg_req = ''7'', service_full_name = ''pkg.Rev.run'', err_code = 0, err_info = [], pb_data = ''cba''\<rparr>"
  using dispatch_routes [of "\<lparr>msg_req = ''7'', service_full_name = ''pkg.Rev.run'', err_code = 0, err_info = [], pb_data = ''abc''\<rparr>"
      reverse_service "''run''" "[]" 0 "[]"]
  by (simp add: reverse_service_def answer_def)

text \<open>C17: The dispatcher answers every request without an exception. The answer echoes the number
  and the name; it reports success exactly when the name, cut at its last dot, names a method of a
  registered service, the request parses and the method's answer can be serialised; otherwise it
  has one of the codes 400, 404, 422 and 500.\<close>

theorem dispatch_verdict:
  "\<exists>r. dispatch d req resp = Ok r \<and> msg_req r = msg_req req \<and> service_full_name r = service_full_name req
     \<and> err_code r \<in> {0, 400, 404, 422, 500}
     \<and> (err_code r = 0 \<longleftrightarrow> (\<exists>sname mname service k msg. service_full_name req = sname @ ''.'' @ mname
          \<and> CHR ''.'' \<notin> set mname \<and> getService sname d = Some service \<and> find_method service mname = Some k
          \<and> parse_request service k (pb_data req) = Some msg
          \<and> serialize service (call_method service k msg) = (True, pb_data r)))"
proof (cases rule: last_dot [of "service_full_name req"])
  case none
  then show ?thesis by (force simp: dispatch_no_dot)
next
  case (dot s m)
  show ?thesis
    unfolding dispatch_dot [OF dot(2,1)] served_def [symmetric] served_dot [OF dot(1,2)]
    by (auto simp: Let_def split: option.split prod.split)
qed

end
