(* ===== verification/World.thy ===== *)
theory World
  imports Metrics Logger Governance
begin

text \<open>
  The objects every call of the program shares: the metrics, the log and the governance manager
  (single instances), the counters that number the requests, and the clocks. The reading a call
  of \<open>system_clock::now()\<close> (in milliseconds) or \<open>steady_clock::now()\<close> (in nanoseconds) gives is
  the environment's: the world holds the readings to come, indexed by the number of readings taken.
\<close>

record World =
  metrics :: RpcMetrics
  logger :: RpcLogger
  governance :: ServiceGovernanceManager
  msg_req_seq :: u64
  async_msg_req_seq :: u64
  wall_clock :: "nat \<Rightarrow> int"
  steady_clock :: "nat \<Rightarrow> int"
  ticks :: nat
  local_time :: "int \<Rightarrow> string"

text \<open>The world at the start of the program, for given clocks and a given way to print the time.\<close>

definition start_world :: "(nat \<Rightarrow> int) \<Rightarrow> (nat \<Rightarrow> int) \<Rightarrow> (int \<Rightarrow> string) \<Rightarrow> World" where
  "start_world wall steady lt = \<lparr>metrics = instance_RpcMetrics, logger = new_RpcLogger,
     governance = new_governance, msg_req_seq = 0, async_msg_req_seq = 0,
     wall_clock = wall, steady_clock = steady, ticks = 0, local_time = lt\<rparr>"

abbreviation quiet_world :: World where
  "quiet_world \<equiv> start_world (\<lambda>_. 0) (\<lambda>_. 0) (\<lambda>_. [])"

definition system_now :: "World \<Rightarrow> int \<times> World" where
  "system_now w = (wall_clock w (ticks w), w\<lparr>ticks := Suc (ticks w)\<rparr>)"

definition steady_now :: "World \<Rightarrow> int \<times> World" where
  "steady_now w = (steady_clock w (ticks w), w\<lparr>ticks := Suc (ticks w)\<rparr>)"

text \<open>\<open>duration_cast<milliseconds>\<close> of the time between two steady readings.\<close>

definition elapsed_ms :: "int \<Rightarrow> int \<Rightarrow> int" where
  "elapsed_ms start stop = (stop - start) sdiv 1000000"

definition upd_metrics :: "(RpcMetrics \<Rightarrow> RpcMetrics) \<Rightarrow> World \<Rightarrow> World" where
  "upd_metrics f w = w\<lparr>metrics := f (metrics w)\<rparr>"

text \<open>The macros of the log: the clock is read only when the message passes the level.\<close>

definition rpc_log :: "LogLevel \<Rightarrow> string \<Rightarrow> World \<Rightarrow> World" where
  "rpc_log lv msg w =
     (if log_level (logger w) \<le> lv then
        let (now, w) = system_now w
        in w\<lparr>logger := log_at lv (get_timestamp (local_time w) now) msg (logger w)\<rparr>
      else w)"

definition rpc_logf :: "LogLevel \<Rightarrow> string \<Rightarrow> fmt_arg list \<Rightarrow> World \<Rightarrow> World" where
  "rpc_logf lv fmt args w =
     (if log_level (logger w) > lv then w
      else
        let (now, w) = system_now w
        in w\<lparr>logger := logf_at lv (get_timestamp (local_time w) now) fmt args (logger w)\<rparr>)"

lemma world_log_simps [simp]:
  "metrics (rpc_log lv msg w) = metrics w" "metrics (rpc_logf lv fmt args w) = metrics w"
  "governance (rpc_log lv msg w) = governance w" "governance (rpc_logf lv fmt args w) = governance w"
  "msg_req_seq (rpc_log lv msg w) = msg_req_seq w" "msg_req_seq (rpc_logf lv fmt args w) = msg_req_seq w"
  "async_msg_req_seq (rpc_log lv msg w) = async_msg_req_seq w"
  "async_msg_req_seq (rpc_logf lv fmt args w) = async_msg_req_seq w"
  by (simp_all add: rpc_log_def rpc_logf_def system_now_def)

lemma world_upd_simps [simp]:
  "metrics (upd_metrics f w) = f (metrics w)" "governance (upd_metrics f w) = governance w"
  "msg_req_seq (upd_metrics f w) = msg_req_seq w" "async_msg_req_seq (upd_metrics f w) = async_msg_req_seq w"
  by (simp_all add: upd_metrics_def)

lemma clock_simps:
  "steady_now w = (t, w') \<Longrightarrow> metrics w' = metrics w" "steady_now w = (t, w') \<Longrightarrow> governance w' = governance w"
  "steady_now w = (t, w') \<Longrightarrow> msg_req_seq w' = msg_req_seq w"
  "steady_now w = (t, w') \<Longrightarrow> async_msg_req_seq w' = async_msg_req_seq w"
  "system_now w = (t, w') \<Longrightarrow> metrics w' = metrics w" "system_now w = (t, w') \<Longrightarrow> governance w' = governance w"
  "system_now w = (t, w') \<Longrightarrow> msg_req_seq w' = msg_req_seq w"
  "system_now w = (t, w') \<Longrightarrow> async_msg_req_seq w' = async_msg_req_seq w"
  by (auto simp: steady_now_def system_now_def)

end
