(* ===== verification/TinyPbServer.thy ===== *)
theory TinyPbServer
  imports World Dispatcher
begin

text \<open>
  The server's handler of a request (\<open>TinyPbRpcServer::on_process\<close> in
  \<open>rpc/src/tinypb_rpc_server.cc\<close>): decode the request, dispatch it, account for it, encode the
  answer.
\<close>

section \<open>Names for the log and the metrics\<close>

text \<open>The handler cuts the full name at its first dot.\<close>

definition split_first_dot :: "string \<Rightarrow> (string \<times> string) cxx" where
  "split_first_dot full =
     (case find_ch (CHR ''.'') full of
        Some pos \<Rightarrow> cbind (substr full 0 pos) (\<lambda>s. cbind (substr_from full (pos + 1)) (\<lambda>m. Ok (s, m)))
      | None \<Rightarrow> Ok (full, ''unknown''))"

section \<open>Handler\<close>

definition reply_value :: "TinyPbStruct \<Rightarrow> string option" where
  "reply_value response = (case encode response of Inr encoded \<Rightarrow> Some encoded | Inl e \<Rightarrow> None)"

text \<open>The answer to a request that cannot be decoded.\<close>

definition process_undecodable :: "World \<Rightarrow> string option \<times> World" where
  "process_undecodable w =
     (let w = rpc_log LOG_LEVEL_ERROR ''Failed to decode request'' w;
          w = upd_metrics (metrics_failure ''unknown'' ''unknown'') w;
          response = new_TinyPbStruct\<lparr>msg_req := ''unknown'', service_full_name := [],
            err_code := 400, err_info := ''invalid request''\<rparr>
      in (reply_value response, w))"

text \<open>The accounting after the dispatcher has answered.\<close>

definition account_response :: "string \<Rightarrow> string \<Rightarrow> TinyPbStruct \<Rightarrow> int \<Rightarrow> World \<Rightarrow> World" where
  "account_response service method response latency w =
     (if err_code response = 0 then
        let w = upd_metrics (metrics_success service method) w;
            w = upd_metrics (metrics_latency service method latency) w
        in rpc_logf LOG_LEVEL_INFO ''Request success: service=%s, method=%s, latency=%ldms''
             [Str_arg service, Str_arg method, Int_arg latency] w
      else
        let w = upd_metrics (metrics_failure service method) w;
            w = upd_metrics (metrics_latency service method latency) w
        in rpc_logf LOG_LEVEL_ERROR ''Request failed: service=%s, method=%s, err_code=%d, err_info=%s, latency=%ldms''
             [Str_arg service, Str_arg method, Int_arg (sint (err_code response)),
              Str_arg (err_info response), Int_arg latency] w)"

text \<open>
  The value set in the response of the task, if one is set, for the value of its request.
\<close>

definition on_process :: "'msg TinyPbRpcDispatcher \<Rightarrow> string \<Rightarrow> World \<Rightarrow> (string option \<times> World) cxx" where
  "on_process d req_value w =
     (let (start_time, w) = steady_now w
      in cbind (TinyPbCodec.decode req_value new_TinyPbStruct) (\<lambda>(err, request).
         if err \<noteq> None then Ok (process_undecodable w)
         else
           cbind (split_first_dot (service_full_name request)) (\<lambda>(service, method).
           let w = rpc_logf LOG_LEVEL_INFO ''Received request: service=%s, method=%s, msg_req=%s''
                     [Str_arg service, Str_arg method, Str_arg (msg_req request)] w;
               w = upd_metrics (metrics_request service method) w
           in cbind (dispatch d request new_TinyPbStruct) (\<lambda>response.
              let (end_time, w) = steady_now w;
                  latency = elapsed_ms start_time end_time;
                  w = account_response service method response latency w
              in Ok (reply_value response, w)))))"

section \<open>Lemmas about the handler\<close>

lemma split_first_dot_eq:
  "split_first_dot full = Ok (case find_ch (CHR ''.'') full of
     Some pos \<Rightarrow> (take pos full, drop (Suc pos) full) | None \<Rightarrow> (full, ''unknown''))"
proof (cases "find_ch (CHR ''.'') full")
  case None
  then show ?thesis by (simp only: split_first_dot_def option.case)
next
  case (Some pos)
  then show ?thesis using find_sub_Some_D [OF Some] by (simp add: split_first_dot_def segment_def)
qed

lemma split_first_dot_total: obtains s m where "split_first_dot full = Ok (s, m)"
  by (cases "case find_ch (CHR ''.'') full of Some pos \<Rightarrow> (take pos full, drop (Suc pos) full) | None \<Rightarrow> (full, ''unknown'')")
    (simp add: split_first_dot_eq)

lemma split_first_dot_name:
  "CHR ''.'' \<notin> set s \<Longrightarrow> split_first_dot (s @ CHR ''.'' # m) = Ok (s, m)"
proof -
  assume "CHR ''.'' \<notin> set s"
  then have "find_ch (CHR ''.'') (s @ CHR ''.'' # m) = Some (length s)" by (rule find_ch_append)
  then show ?thesis by (simp only: split_first_dot_eq option.case) simp
qed

text \<open>How a request that decodes is accounted for, by the status of its answer.\<close>

definition account :: "string \<Rightarrow> string \<Rightarrow> u32 \<Rightarrow> int \<Rightarrow> RpcMetrics \<Rightarrow> RpcMetrics" where
  "account s m code latency ms = metrics_latency s m latency
     ((if code = 0 then metrics_success else metrics_failure) s m (metrics_request s m ms))"

lemma account_response_metrics [simp]:
  "metrics (account_response s m r l w)
     = metrics_latency s m l ((if err_code r = 0 then metrics_success else metrics_failure) s m (metrics w))"
  by (simp add: account_response_def Let_def)

lemma on_process_decoded:
  assumes "TinyPbCodec.decode bytes new_TinyPbStruct = Ok (None, request)"
    and "split_first_dot (service_full_name request) = Ok (s, m)"
    and "dispatch d request new_TinyPbStruct = Ok response"
  shows "\<exists>w' latency. on_process d bytes w = Ok (reply_value response, w')
     \<and> metrics w' = account s m (err_code response) latency (metrics w) \<and> governance w' = governance w"
proof -
  obtain t0 w0 where t0: "steady_now w = (t0, w0)" by (cases "steady_now w")
  let ?w1 = "upd_metrics (metrics_request s m) (rpc_logf LOG_LEVEL_INFO ''Received request: service=%s, method=%s, msg_req=%s''
     [Str_arg s, Str_arg m, Str_arg (msg_req request)] w0)"
  obtain t1 w1 where t1: "steady_now ?w1 = (t1, w1)" by (cases "steady_now ?w1")
  have "on_process d bytes w = Ok (reply_value response, account_response s m response (elapsed_ms t0 t1) w1)"
    using assms by (simp add: on_process_def t0 t1 Let_def)
  moreover have "governance (account_response s m response (elapsed_ms t0 t1) w1) = governance w"
    using clock_simps(2) [OF t0] clock_simps(2) [OF t1] by (simp add: account_response_def Let_def)
  moreover have "metrics (account_response s m response (elapsed_ms t0 t1) w1)
      = account s m (err_code response) (elapsed_ms t0 t1) (metrics w)"
    using clock_simps(1) [OF t0] clock_simps(1) [OF t1] by (simp add: account_def)
  ultimately show ?thesis by blast
qed

lemma reply_value_frame: "payload_size r < 2 ^ 32 - 26 \<Longrightarrow> reply_value r = Some (frame r)"
  by (simp add: reply_value_def encode_eq_frame)

section \<open>Properties\<close>

text \<open>C18: A request sent by any encoder is answered with an encoding of exactly what the dispatcher
  answers, which every receiver decodes; the answer bears the request's number and name; and the
  call is counted as one request and one success or failure, by its status, with one latency.\<close>

theorem server_answers_request:
  assumes "TinyPbCodec.encode request = Inr bytes" and "length bytes < 2 ^ 32"
    and "dispatch d request new_TinyPbStruct = Ok response" and "payload_size response < 2 ^ 32 - 26"
  shows "\<exists>reply w' s m latency. on_process d bytes w = Ok (Some reply, w')
     \<and> TinyPbCodec.decode reply d0 = Ok (None, response)
     \<and> msg_req response = msg_req request \<and> service_full_name response = service_full_name request
     \<and> metrics w' = account s m (err_code response) latency (metrics w)"
proof -
  have "TinyPbCodec.decode bytes new_TinyPbStruct = Ok (None, request)"
    using assms(1,2) decode_iff_encode by blast
  moreover obtain s m where "split_first_dot (service_full_name request) = Ok (s, m)"
    by (rule split_first_dot_total)
  ultimately obtain w' latency where "on_process d bytes w = Ok (reply_value response, w')"
    "metrics w' = account s m (err_code response) latency (metrics w)"
    using on_process_decoded [OF _ _ assms(3)] by blast
  moreover have "reply_value response = Some (frame response)" "TinyPbCodec.decode (frame response) d0 = Ok (None, response)"
    using assms(4) by (simp_all add: reply_value_frame decode_frame)
  moreover have "msg_req response = msg_req request \<and> service_full_name response = service_full_name request"
    using dispatch_echo [OF assms(3)] by simp
  ultimately show ?thesis by auto
qed

text \<open>A call of a service in a package.\<close>

definition sample_request :: TinyPbStruct where
  "sample_request = \<lparr>msg_req = ''7'', service_full_name = ''pkg.Rev.run'', err_code = 0, err_info = [], pb_data = ''abc''\<rparr>"

definition sample_dispatcher :: "string TinyPbRpcDispatcher" where
  "sample_dispatcher = registerService reverse_service new_TinyPbRpcDispatcher"

lemma sample_call:
  "TinyPbCodec.encode sample_request = Inr (frame sample_request)" "length (frame sample_request) < 2 ^ 32"
  "dispatch sample_dispatcher sample_request new_TinyPbStruct = Ok (sample_request\<lparr>pb_data := ''cba''\<rparr>)"
  "payload_size (sample_request\<lparr>pb_data := ''cba''\<rparr>) < 2 ^ 32 - 26"
proof -
  show "TinyPbCodec.encode sample_request = Inr (frame sample_request)"
    by (rule encode_eq_frame) (simp add: payload_size_def sample_request_def)
  show "length (frame sample_request) < 2 ^ 32" "payload_size (sample_request\<lparr>pb_data := ''cba''\<rparr>) < 2 ^ 32 - 26"
    by (simp_all add: length_frame payload_size_def sample_request_def)
  show "dispatch sample_dispatcher sample_request new_TinyPbStruct = Ok (sample_request\<lparr>pb_data := ''cba''\<rparr>)"
    by (subst dispatch_dot [of "''run''" _ "''pkg.Rev''"])
      (simp_all add: sample_request_def sample_dispatcher_def getService_def registerService_def
        reverse_service_def new_TinyPbStruct_def)
qed

theorem server_answers_request_witness:
  "\<exists>reply w'. on_process sample_dispatcher (frame sample_request) (start_world (\<lambda>_. 0) (\<lambda>_. 0) (\<lambda>_. [])) = Ok (Some reply, w')
     \<and> TinyPbCodec.decode reply new_TinyPbStruct = Ok (None, sample_request\<lparr>pb_data := ''cba''\<rparr>)"
  using server_answers_request [OF sample_call, of "start_world (\<lambda>_. 0) (\<lambda>_. 0) (\<lambda>_. [])" new_TinyPbStruct]
  by blast

text \<open>A value that does not decode is answered with status 400, request number \<open>unknown\<close>, which
  every receiver decodes, counted as a failure of \<open>unknown\<close> and never given to a service.\<close>

theorem server_rejects_undecodable:
  assumes "TinyPbCodec.decode bytes new_TinyPbStruct = Ok (Some e, junk)"
  shows "\<exists>reply w'. on_process d bytes w = Ok (Some reply, w')
     \<and> TinyPbCodec.decode reply d0 = Ok (None, \<lparr>msg_req = ''unknown'', service_full_name = [], err_code = 400,
         err_info = ''invalid request'', pb_data = []\<rparr>)
     \<and> metrics w' = metrics_failure ''unknown'' ''unknown'' (metrics w)"
proof -
  let ?r = "\<lparr>msg_req = ''unknown'', service_full_name = [], err_code = 400, err_info = ''invalid request'', pb_data = []\<rparr>"
  obtain t0 w0 where t0: "steady_now w = (t0, w0)" by (cases "steady_now w")
  have "payload_size ?r < 2 ^ 32 - 26" by (simp add: payload_size_def)
  then have "reply_value ?r = Some (frame ?r)" "TinyPbCodec.decode (frame ?r) d0 = Ok (None, ?r)"
    by (rule reply_value_frame, rule decode_frame)
  moreover have "on_process d bytes w = Ok (process_undecodable w0)"
    using assms by (simp add: on_process_def t0)
  moreover have "metrics w0 = metrics w" using t0 by (rule clock_simps)
  ultimately show ?thesis
    by (simp add: process_undecodable_def new_TinyPbStruct_def Let_def)
qed

theorem server_rejects_undecodable_witness:
  "\<exists>reply w'. on_process sample_dispatcher ''short'' (start_world (\<lambda>_. 0) (\<lambda>_. 0) (\<lambda>_. [])) = Ok (Some reply, w')
     \<and> metrics w' = metrics_failure ''unknown'' ''unknown'' instance_RpcMetrics"
  using server_rejects_undecodable [of "''short''" EINVAL new_TinyPbStruct sample_dispatcher
      "start_world (\<lambda>_. 0) (\<lambda>_. 0) (\<lambda>_. [])" new_TinyPbStruct]
  by (auto simp: decode_short start_world_def)

text \<open>A remote peer can make the server read outside a buffer: on this 26-byte value the handler's
  behaviour is undefined, whatever services are registered.\<close>

theorem server_remote_overread: "on_process d overread_frame w = Undefined"
  by (cases "steady_now w") (simp add: on_process_def decode_overread_frame)

text \<open>The handler cuts the name at its first dot and the dispatcher at its last: a call of a
  service in a package is served as the package's service but counted as method
  \<open>Service.Method\<close> of the package.\<close>

theorem server_counts_at_first_dot:
  assumes "TinyPbCodec.encode request = Inr bytes" and "length bytes < 2 ^ 32"
    and "service_full_name request = pkg @ ''.'' @ rest" and "CHR ''.'' \<notin> set pkg"
    and "dispatch d request new_TinyPbStruct = Ok response"
  shows "\<exists>reply w' latency. on_process d bytes w = Ok (reply, w')
     \<and> metrics w' = account pkg rest (err_code response) latency (metrics w)"
proof -
  have "TinyPbCodec.decode bytes new_TinyPbStruct = Ok (None, request)"
    using assms(1,2) decode_iff_encode by blast
  moreover have "split_first_dot (service_full_name request) = Ok (pkg, rest)"
    using split_first_dot_name [OF assms(4), of rest] by (simp add: assms(3))
  ultimately show ?thesis using on_process_decoded [OF _ _ assms(5)] by blast
qed

theorem server_counts_at_first_dot_witness:
  "\<exists>reply w' latency. on_process sample_dispatcher (frame sample_request) (start_world (\<lambda>_. 0) (\<lambda>_. 0) (\<lambda>_. [])) = Ok (reply, w')
     \<and> metrics w' = account ''pkg'' ''Rev.run'' 0 latency instance_RpcMetrics"
  using server_counts_at_first_dot [OF sample_call(1,2) _ _ sample_call(3), of "''pkg''" "''Rev.run''"
      "start_world (\<lambda>_. 0) (\<lambda>_. 0) (\<lambda>_. [])"]
  by (simp add: sample_request_def start_world_def)

end
