(* ===== verification/Channel.thy ===== *)
theory Channel
  imports World Dispatcher
begin

text \<open>
  The client's channels: \<open>TinyPbRpcChannel\<close> (\<open>rpc/src/tinypb_rpc_channel.h\<close>, \<open>.cc\<close>) and
  \<open>TinyPbRpcAsyncChannel\<close> (\<open>rpc/src/tinypb_rpc_async_channel.h\<close>, \<open>.cc\<close>). \<open>CallMethod\<close> checks the
  breaker and the limiter of the service, encodes the request and starts a network task; the task's
  callback decodes the reply, accounts for it and runs the caller's closure. Both share the steps;
  they differ in the texts they log, in what they require of the controller and in how they parse
  the answer.
\<close>

section \<open>A call\<close>

text \<open>What \<open>dynamic_cast\<close> tells of the controller: none, one of another class (the model keeps the
  reason of its last \<open>SetFailed\<close>), or a \<open>TinyPbRpcController\<close>.\<close>

datatype controller = No_controller | Other_controller "string option" | TinyPb TinyPbRpcController

fun on_tinypb :: "(TinyPbRpcController \<Rightarrow> TinyPbRpcController) \<Rightarrow> controller \<Rightarrow> controller" where
  "on_tinypb f (TinyPb c) = TinyPb (f c)"
| "on_tinypb f c = c"

text \<open>
  The arguments of \<open>CallMethod\<close>, and what becomes of them: the names of the method's descriptor,
  what \<open>SerializeToString\<close> answers for the request, what \<open>ParseFromString\<close> answers for given bytes
  and leaves in the message, the controller, the response, whether there is a closure, and how
  often it has run.
\<close>

record 'msg call =
  call_service :: string
  call_method_name :: string
  serialized_request :: "bool \<times> string"
  parse_response :: "string \<Rightarrow> bool \<times> 'msg"
  call_controller :: controller
  call_response :: 'msg
  has_done :: bool
  done_runs :: nat

definition run_done :: "'msg call \<Rightarrow> 'msg call" where
  "run_done c = (if has_done c then c\<lparr>done_runs := Suc (done_runs c)\<rparr> else c)"

definition upd_controller :: "(TinyPbRpcController \<Rightarrow> TinyPbRpcController) \<Rightarrow> 'msg call \<Rightarrow> 'msg call" where
  "upd_controller f c = c\<lparr>call_controller := on_tinypb f (call_controller c)\<rparr>"

definition RPC_CIRCUIT_BREAKER_OPEN :: int where "RPC_CIRCUIT_BREAKER_OPEN = 504"
definition RPC_RATE_LIMITED :: int where "RPC_RATE_LIMITED = 505"

section \<open>Where requests are sent\<close>

datatype target = Url_target string | Host_target string nat | Address_target "u32 option" nat

record client_task =
  task_target :: target
  task_tls :: bool
  task_retry_max :: nat
  task_value :: string
  task_keep_alive :: int
  task_receive_timeout :: "int option"
  task_breaker :: "nat option"
  task_start_time :: int

record TinyPbRpcChannel =
  ch_host :: string
  ch_port :: nat
  ch_url :: string
  ch_use_upstream :: bool
  ch_use_tls :: bool
  ch_cert_file :: string
  ch_key_file :: string
  ch_ssl_ctx :: bool

text \<open>\<open>init_ssl_ctx\<close> has a context unless OpenSSL cannot create one; a certificate that cannot be
  loaded only gives a warning, and peers are never verified.\<close>

definition init_ssl_ctx :: "bool \<Rightarrow> TinyPbRpcChannel \<Rightarrow> TinyPbRpcChannel" where
  "init_ssl_ctx ctx_created ch = (if \<not> ctx_created then ch else ch\<lparr>ch_ssl_ctx := True\<rparr>)"

definition host_TinyPbRpcChannel :: "string \<Rightarrow> nat \<Rightarrow> TinyPbRpcChannel" where
  "host_TinyPbRpcChannel host port = \<lparr>ch_host = host, ch_port = port, ch_url = [], ch_use_upstream = False,
     ch_use_tls = False, ch_cert_file = [], ch_key_file = [], ch_ssl_ctx = False\<rparr>"

definition url_TinyPbRpcChannel :: "string \<Rightarrow> TinyPbRpcChannel" where
  "url_TinyPbRpcChannel url = \<lparr>ch_host = [], ch_port = 0, ch_url = url, ch_use_upstream = True,
     ch_use_tls = False, ch_cert_file = [], ch_key_file = [], ch_ssl_ctx = False\<rparr>"

definition tls_TinyPbRpcChannel :: "bool \<Rightarrow> string \<Rightarrow> nat \<Rightarrow> string \<Rightarrow> string \<Rightarrow> TinyPbRpcChannel" where
  "tls_TinyPbRpcChannel ctx_created host port cert_file key_file = init_ssl_ctx ctx_created
     \<lparr>ch_host = host, ch_port = port, ch_url = [], ch_use_upstream = False, ch_use_tls = True,
      ch_cert_file = cert_file, ch_key_file = key_file, ch_ssl_ctx = False\<rparr>"

section \<open>Steps of a call\<close>

text \<open>The breaker, when the call has one, is told the outcome.\<close>

definition tell_failure :: "nat option \<Rightarrow> World \<Rightarrow> World cxx" where
  "tell_failure breaker w = (case breaker of
     None \<Rightarrow> Ok w
   | Some p \<Rightarrow> let (now, w) = system_now w
       in cbind (breaker_record_failure p now (governance w)) (\<lambda>g. Ok (w\<lparr>governance := g\<rparr>)))"

definition tell_success :: "nat option \<Rightarrow> World \<Rightarrow> World cxx" where
  "tell_success breaker w = (case breaker of
     None \<Rightarrow> Ok w
   | Some p \<Rightarrow> cbind (breaker_record_success p (governance w)) (\<lambda>g. Ok (w\<lparr>governance := g\<rparr>)))"

definition names :: "'msg call \<Rightarrow> fmt_arg list" where
  "names c = [Str_arg (call_service c), Str_arg (call_method_name c)]"

definition call_failure :: "'msg call \<Rightarrow> World \<Rightarrow> World" where
  "call_failure c = upd_metrics (metrics_failure (call_service c) (call_method_name c))"

text \<open>A call refused before it is sent: \<open>Inl\<close> has the refused call, \<open>Inr\<close> the breaker.\<close>

definition refuse :: "string \<Rightarrow> int \<Rightarrow> string \<Rightarrow> 'msg call \<Rightarrow> World \<Rightarrow> 'msg call \<times> World" where
  "refuse text code reason c w =
     (let w = rpc_logf LOG_LEVEL_WARN text (names c) w;
          w = call_failure c w;
          c = upd_controller (\<lambda>ctl. SetFailed reason (SetErrorCode code ctl)) c
      in (run_done c, w))"

definition guard_breaker :: "string \<Rightarrow> 'msg call \<Rightarrow> World \<Rightarrow> (('msg call + nat option) \<times> World) cxx" where
  "guard_breaker text c w =
     (if is_circuit_breaker_enabled (call_service c) (governance w) then
        let (p, g) = get_circuit_breaker (call_service c) 50 5 30000 (governance w);
            (now, w) = system_now (w\<lparr>governance := g\<rparr>)
        in cbind (breaker_allow_request p now g) (\<lambda>(allowed, g).
           let w = w\<lparr>governance := g\<rparr>
           in if \<not> allowed then
                let (c, w) = refuse text RPC_CIRCUIT_BREAKER_OPEN ''circuit breaker open'' c w in Ok (Inl c, w)
              else Ok (Inr (Some p), w))
      else Ok (Inr None, w))"

text \<open>A limiter that is created here reads the clock once more than one that exists.\<close>

definition guard_limiter :: "string \<Rightarrow> 'msg call \<Rightarrow> World \<Rightarrow> (('msg call + unit) \<times> World) cxx" where
  "guard_limiter text c w =
     (if is_rate_limiter_enabled (call_service c) (governance w) then
        let (created, w) = system_now w;
            (p, g) = get_rate_limiter (call_service c) 1000 created (governance w);
            (now, w) = system_now (w\<lparr>governance := g\<rparr>)
        in cbind (limiter_try_acquire p 1 now g) (\<lambda>(acquired, g).
           let w = w\<lparr>governance := g\<rparr>
           in if \<not> acquired then
                let (c, w) = refuse text RPC_RATE_LIMITED ''rate limited'' c w in Ok (Inl c, w)
              else Ok (Inr (), w))
      else Ok (Inr (), w))"

text \<open>A failure before the task is created.\<close>

definition fail_local :: "string \<Rightarrow> string \<Rightarrow> nat option \<Rightarrow> 'msg call \<Rightarrow> World \<Rightarrow> ('msg call \<times> World) cxx" where
  "fail_local text reason breaker c w =
     (let w = rpc_logf LOG_LEVEL_ERROR text (names c) w;
          w = call_failure c w
      in cbind (tell_failure breaker w) (\<lambda>w. Ok (run_done (upd_controller (SetFailed reason) c), w)))"

definition generate_msg_req :: "World \<Rightarrow> string \<times> World" where
  "generate_msg_req w = (dec_nat (unat (msg_req_seq w)), w\<lparr>msg_req_seq := msg_req_seq w + 1\<rparr>)"

definition generate_async_msg_req :: "World \<Rightarrow> string \<times> World" where
  "generate_async_msg_req w =
     (''async_'' @ dec_nat (unat (async_msg_req_seq w)), w\<lparr>async_msg_req_seq := async_msg_req_seq w + 1\<rparr>)"

text \<open>The name under which the server knows the method.\<close>

definition full_name :: "'msg call \<Rightarrow> string" where
  "full_name c = call_service c @ ''.'' @ call_method_name c"

text \<open>A controller's time limit applies when it is positive.\<close>

definition receive_timeout :: "controller \<Rightarrow> int option" where
  "receive_timeout ctl = (case ctl of
     TinyPb t \<Rightarrow> if ctl_timeout_ms t > 0 then Some (ctl_timeout_ms t) else None | _ \<Rightarrow> None)"

section \<open>The synchronous channel\<close>

text \<open>
  The destination: \<open>inet_pton\<close>, the parameter, gives the address of a dotted IPv4 text and nothing
  for any other; then the address is left as the stack had it (\<open>None\<close>).
\<close>

definition channel_target :: "(string \<Rightarrow> u32 option) \<Rightarrow> TinyPbRpcChannel \<Rightarrow> target" where
  "channel_target inet_pton ch =
     (if ch_use_upstream ch then Url_target (ch_url ch)
      else if ch_use_tls ch \<and> ch_ssl_ctx ch then Address_target (inet_pton (ch_host ch)) (ch_port ch)
      else Host_target (ch_host ch) (ch_port ch))"

text \<open>After the guards: count, serialise, number, encode, start the task.\<close>

definition send_request ::
  "(string \<Rightarrow> u32 option) \<Rightarrow> TinyPbRpcChannel \<Rightarrow> nat option \<Rightarrow> 'msg call \<Rightarrow> World
     \<Rightarrow> ('msg call \<times> client_task option \<times> World) cxx" where
  "send_request inet_pton ch breaker c w =
     (let w = rpc_logf LOG_LEVEL_INFO ''Sending request: service=%s, method=%s'' (names c) w;
          w = upd_metrics (metrics_request (call_service c) (call_method_name c)) w;
          (ok, bytes) = serialized_request c
      in if \<not> ok then
           cbind (fail_local ''Failed to serialize request: service=%s, method=%s''
             ''failed to serialize request'' breaker c w) (\<lambda>(c, w). Ok (c, None, w))
         else
           let (r, w) = generate_msg_req w;
               c = upd_controller (SetMsgReq r) c;
               request = \<lparr>msg_req = r, service_full_name = full_name c, err_code = 0, err_info = [], pb_data = bytes\<rparr>
           in case TinyPbCodec.encode request of
                Inl e \<Rightarrow> cbind (fail_local ''Failed to encode request: service=%s, method=%s''
                  ''failed to encode request'' breaker c w) (\<lambda>(c, w). Ok (c, None, w))
              | Inr encoded \<Rightarrow>
                  let (start, w) = steady_now w
                  in Ok (c, Some \<lparr>task_target = channel_target inet_pton ch, task_tls = ch_use_tls ch,
                       task_retry_max = 1, task_value = encoded, task_keep_alive = 30 * 1000,
                       task_receive_timeout = receive_timeout (call_controller c),
                       task_breaker = breaker, task_start_time = start\<rparr>, w))"

definition CallMethod ::
  "(string \<Rightarrow> u32 option) \<Rightarrow> TinyPbRpcChannel \<Rightarrow> 'msg call \<Rightarrow> World
     \<Rightarrow> ('msg call \<times> client_task option \<times> World) cxx" where
  "CallMethod inet_pton ch c w = (case call_controller c of
     No_controller \<Rightarrow> Ok (run_done c, None, w)
   | Other_controller r \<Rightarrow>
       Ok (run_done (c\<lparr>call_controller := Other_controller (Some ''invalid controller type'')\<rparr>), None, w)
   | TinyPb t \<Rightarrow>
       cbind (guard_breaker ''Circuit breaker open: service=%s, method=%s'' c w) (\<lambda>(b, w). case b of
         Inl c \<Rightarrow> Ok (c, None, w)
       | Inr breaker \<Rightarrow>
           cbind (guard_limiter ''Rate limited: service=%s, method=%s'' c w) (\<lambda>(l, w). case l of
             Inl c \<Rightarrow> Ok (c, None, w)
           | Inr u \<Rightarrow> send_request inet_pton ch breaker c w)))"

text \<open>What the network made of a task: an error (\<open>get_state\<close>, \<open>get_error\<close>) or a reply's value.\<close>

datatype task_result = Network_error int int | Replied string

text \<open>A call that failed after it was sent.\<close>

definition fail_sent :: "string \<Rightarrow> fmt_arg list \<Rightarrow> (TinyPbRpcController \<Rightarrow> TinyPbRpcController) \<Rightarrow> client_task
     \<Rightarrow> int \<Rightarrow> 'msg call \<Rightarrow> World \<Rightarrow> ('msg call \<times> World) cxx" where
  "fail_sent text args f task latency c w =
     (let w = rpc_logf LOG_LEVEL_ERROR text args w;
          w = call_failure c w;
          w = upd_metrics (metrics_latency (call_service c) (call_method_name c) latency) w
      in cbind (tell_failure (task_breaker task) w) (\<lambda>w. Ok (run_done (upd_controller f c), w)))"

definition complete_sent :: "string \<Rightarrow> client_task \<Rightarrow> int \<Rightarrow> 'msg call \<Rightarrow> World \<Rightarrow> ('msg call \<times> World) cxx" where
  "complete_sent text task latency c w =
     (let w = rpc_logf LOG_LEVEL_INFO text (names c @ [Int_arg latency]) w;
          w = upd_metrics (metrics_success (call_service c) (call_method_name c)) w;
          w = upd_metrics (metrics_latency (call_service c) (call_method_name c) latency) w
      in cbind (tell_success (task_breaker task) w) (\<lambda>w. Ok (run_done c, w)))"

definition channel_callback :: "client_task \<Rightarrow> task_result \<Rightarrow> 'msg call \<Rightarrow> World \<Rightarrow> ('msg call \<times> World) cxx" where
  "channel_callback task result c w =
     (let (end_time, w) = steady_now w;
          latency = elapsed_ms (task_start_time task) end_time
      in case result of
        Network_error state error \<Rightarrow>
          fail_sent ''Network error: service=%s, method=%s, state=%d, error=%d, latency=%ldms''
            (names c @ [Int_arg state, Int_arg error, Int_arg latency])
            (SetFailed (''network error: '' @ dec_int error)) task latency c w
      | Replied resp_value \<Rightarrow>
          cbind (TinyPbCodec.decode resp_value new_TinyPbStruct) (\<lambda>(err, response).
          if err \<noteq> None then
            fail_sent ''Failed to decode response: service=%s, method=%s, latency=%ldms''
              (names c @ [Int_arg latency]) (SetFailed ''failed to decode response'') task latency c w
          else if err_code response \<noteq> 0 then
            fail_sent ''RPC error: service=%s, method=%s, err_code=%d, err_info=%s, latency=%ldms''
              (names c @ [Int_arg (sint (err_code response)), Str_arg (err_info response), Int_arg latency])
              (\<lambda>ctl. SetFailed (err_info response) (SetErrorCode (sint (err_code response)) ctl)) task latency c w
          else
            let (ok, m) = parse_response c (pb_data response);
                c = c\<lparr>call_response := m\<rparr>
            in if \<not> ok then
                 fail_sent ''Failed to parse response: service=%s, method=%s, latency=%ldms''
                   (names c @ [Int_arg latency]) (SetFailed ''failed to parse response'') task latency c w
               else complete_sent ''RPC success: service=%s, method=%s, latency=%ldms'' task latency c w))"

section \<open>The asynchronous channel\<close>

record TinyPbRpcAsyncChannel =
  ach_host :: string
  ach_port :: nat
  ach_url :: string
  ach_use_upstream :: bool

definition host_TinyPbRpcAsyncChannel :: "string \<Rightarrow> nat \<Rightarrow> TinyPbRpcAsyncChannel" where
  "host_TinyPbRpcAsyncChannel host port = \<lparr>ach_host = host, ach_port = port, ach_url = [], ach_use_upstream = False\<rparr>"
definition url_TinyPbRpcAsyncChannel :: "string \<Rightarrow> TinyPbRpcAsyncChannel" where
  "url_TinyPbRpcAsyncChannel url = \<lparr>ach_host = [], ach_port = 0, ach_url = url, ach_use_upstream = True\<rparr>"

definition async_send_request ::
  "TinyPbRpcAsyncChannel \<Rightarrow> nat option \<Rightarrow> 'msg call \<Rightarrow> World \<Rightarrow> ('msg call \<times> client_task option \<times> World) cxx" where
  "async_send_request ch breaker c w =
     (let w = rpc_logf LOG_LEVEL_INFO ''Sending async request: service=%s, method=%s'' (names c) w;
          w = upd_metrics (metrics_request (call_service c) (call_method_name c)) w;
          (ok, bytes) = serialized_request c
      in if \<not> ok then
           cbind (fail_local ''Async failed to serialize request: service=%s, method=%s''
             ''failed to serialize request'' breaker c w) (\<lambda>(c, w). Ok (c, None, w))
         else
           let (r, w) = generate_async_msg_req w;
               c = upd_controller (SetMsgReq r) c;
               request = \<lparr>msg_req = r, service_full_name = full_name c, err_code = 0, err_info = [], pb_data = bytes\<rparr>
           in case TinyPbCodec.encode request of
                Inl e \<Rightarrow> cbind (fail_local ''Async failed to encode request: service=%s, method=%s''
                  ''failed to encode request'' breaker c w) (\<lambda>(c, w). Ok (c, None, w))
              | Inr encoded \<Rightarrow>
                  let (start, w) = steady_now w
                  in Ok (c, Some \<lparr>
                       task_target = (if ach_use_upstream ch then Url_target (ach_url ch)
                         else Host_target (ach_host ch) (ach_port ch)),
                       task_tls = False, task_retry_max = 1, task_value = encoded, task_keep_alive = 30 * 1000,
                       task_receive_timeout = receive_timeout (call_controller c),
                       task_breaker = breaker, task_start_time = start\<rparr>, w))"

definition async_CallMethod ::
  "TinyPbRpcAsyncChannel \<Rightarrow> 'msg call \<Rightarrow> World \<Rightarrow> ('msg call \<times> client_task option \<times> World) cxx" where
  "async_CallMethod ch c w =
     cbind (guard_breaker ''Async circuit breaker open: service=%s, method=%s'' c w) (\<lambda>(b, w). case b of
       Inl c \<Rightarrow> Ok (c, None, w)
     | Inr breaker \<Rightarrow>
         cbind (guard_limiter ''Async rate limited: service=%s, method=%s'' c w) (\<lambda>(l, w). case l of
           Inl c \<Rightarrow> Ok (c, None, w)
         | Inr u \<Rightarrow> async_send_request ch breaker c w))"

text \<open>The answer is parsed into a message of its own, which is copied to the caller's when it parses.\<close>

definition async_channel_callback :: "client_task \<Rightarrow> task_result \<Rightarrow> 'msg call \<Rightarrow> World \<Rightarrow> ('msg call \<times> World) cxx" where
  "async_channel_callback task result c w =
     (let (end_time, w) = steady_now w;
          latency = elapsed_ms (task_start_time task) end_time
      in case result of
        Network_error state error \<Rightarrow>
          fail_sent ''Async network error: service=%s, method=%s, state=%d, error=%d, latency=%ldms''
            (names c @ [Int_arg state, Int_arg error, Int_arg latency])
            (SetFailed (''network error: '' @ dec_int error)) task latency c w
      | Replied resp_value \<Rightarrow>
          cbind (TinyPbCodec.decode resp_value new_TinyPbStruct) (\<lambda>(err, response).
          if err \<noteq> None then
            fail_sent ''Async failed to decode response: service=%s, method=%s, latency=%ldms''
              (names c @ [Int_arg latency]) (SetFailed ''failed to decode response'') task latency c w
          else if err_code response \<noteq> 0 then
            fail_sent ''Async RPC error: service=%s, method=%s, err_code=%d, err_info=%s, latency=%ldms''
              (names c @ [Int_arg (sint (err_code response)), Str_arg (err_info response), Int_arg latency])
              (\<lambda>ctl. SetFailed (err_info response) (SetErrorCode (sint (err_code response)) ctl)) task latency c w
          else
            let (ok, m) = parse_response c (pb_data response)
            in if \<not> ok then
                 fail_sent ''Async failed to parse response: service=%s, method=%s, latency=%ldms''
                   (names c @ [Int_arg latency]) (SetFailed ''failed to parse response'') task latency c w
               else complete_sent ''Async RPC success: service=%s, method=%s, latency=%ldms'' task latency
                      (c\<lparr>call_response := m\<rparr>) w))"

section \<open>What a step does to a call and to the metrics\<close>

definition n_requests :: "metrics_event list \<Rightarrow> nat" where
  "n_requests es = length (concat (map request_keys es))"
definition n_successes :: "metrics_event list \<Rightarrow> nat" where
  "n_successes es = length (concat (map success_keys es))"
definition n_failures :: "metrics_event list \<Rightarrow> nat" where
  "n_failures es = length (concat (map failure_keys es))"

lemmas n_defs = n_requests_def n_successes_def n_failures_def

text \<open>\<open>recorded w w' r s f\<close>: between two worlds \<open>r\<close> requests, \<open>s\<close> successes and \<open>f\<close> failures were
  recorded.\<close>

definition recorded :: "World \<Rightarrow> World \<Rightarrow> nat \<Rightarrow> nat \<Rightarrow> nat \<Rightarrow> bool" where
  "recorded w w' r s f \<longleftrightarrow> (\<exists>es. metrics w' = fold metrics_step es (metrics w)
     \<and> n_requests es = r \<and> n_successes es = s \<and> n_failures es = f)"

lemma recorded_same: "metrics w' = metrics w \<Longrightarrow> recorded w w' 0 0 0"
  by (auto simp: recorded_def n_defs intro: exI [of _ "[]"])

lemma recorded_event: "metrics w' = metrics_step e (metrics w)
    \<Longrightarrow> recorded w w' (length (request_keys e)) (length (success_keys e)) (length (failure_keys e))"
  by (auto simp: recorded_def n_defs intro!: exI [of _ "[e]"])

lemma recorded_trans:
  "recorded w w' r s f \<Longrightarrow> recorded w' w'' r' s' f' \<Longrightarrow> recorded w w'' (r + r') (s + s') (f + f')"
proof -
  assume "recorded w w' r s f" "recorded w' w'' r' s' f'"
  then obtain es es' where "metrics w' = fold metrics_step es (metrics w)" "n_requests es = r"
    "n_successes es = s" "n_failures es = f" "metrics w'' = fold metrics_step es' (metrics w')"
    "n_requests es' = r'" "n_successes es' = s'" "n_failures es' = f'"
    by (auto simp: recorded_def)
  then show ?thesis
    unfolding recorded_def by (intro exI [of _ "es @ es'"]) (simp add: n_defs)
qed

text \<open>\<open>same_call\<close>: only the controller, the response and the number of runs may differ.\<close>

definition same_call :: "'msg call \<Rightarrow> 'msg call \<Rightarrow> nat \<Rightarrow> bool" where
  "same_call c c' n \<longleftrightarrow> call_service c' = call_service c \<and> call_method_name c' = call_method_name c
     \<and> has_done c' = has_done c \<and> parse_response c' = parse_response c
     \<and> done_runs c' = done_runs c + (if has_done c then n else 0)"

lemma same_call_simps [simp]:
  "same_call c (run_done c) (Suc 0)" "same_call c (upd_controller f c) 0" "same_call c c 0"
  "same_call c (c\<lparr>call_response := m\<rparr>) 0" "same_call c (c\<lparr>call_controller := ctl\<rparr>) 0"
  by (simp_all add: same_call_def run_done_def upd_controller_def)

lemma same_call_run_done: "same_call c c' 0 \<Longrightarrow> same_call c (run_done c') (Suc 0)"
  by (simp add: same_call_def run_done_def)

lemma tell_metrics:
  "tell_failure b w = Ok w' \<Longrightarrow> metrics w' = metrics w" "tell_success b w = Ok w' \<Longrightarrow> metrics w' = metrics w"
  by (auto simp: tell_failure_def tell_success_def cxx_simps system_now_def split: option.splits)

lemma call_failure_metrics [simp]:
  "metrics (call_failure c w) = metrics_failure (call_service c) (call_method_name c) (metrics w)"
  "governance (call_failure c w) = governance w"
  by (simp_all add: call_failure_def)

lemma refuse_effect:
  "refuse text code reason c w = (c', w') \<Longrightarrow> same_call c c' (Suc 0) \<and> governance w' = governance w
     \<and> metrics w' = metrics_failure (call_service c) (call_method_name c) (metrics w)"
  by (auto simp: refuse_def Let_def same_call_run_done)

lemma guard_breaker_effect:
  assumes "guard_breaker text c w = Ok (r, w')"
  shows "case r of Inl c' \<Rightarrow> same_call c c' (Suc 0) \<and> recorded w w' 0 0 (Suc 0)
       | Inr b \<Rightarrow> metrics w' = metrics w"
  using assms
  by (fastforce simp: guard_breaker_def Let_def cxx_simps system_now_def split: if_splits prod.splits
      dest: refuse_effect intro: recorded_event [where e = "Failure_ev (call_service c) (call_method_name c)", simplified])

lemma guard_limiter_effect:
  assumes "guard_limiter text c w = Ok (r, w')"
  shows "case r of Inl c' \<Rightarrow> same_call c c' (Suc 0) \<and> recorded w w' 0 0 (Suc 0)
       | Inr b \<Rightarrow> metrics w' = metrics w"
  using assms
  by (fastforce simp: guard_limiter_def Let_def cxx_simps system_now_def split: if_splits prod.splits
      dest: refuse_effect intro: recorded_event [where e = "Failure_ev (call_service c) (call_method_name c)", simplified])

lemma fail_local_effect:
  assumes "fail_local text reason b c w = Ok (c', w')"
  shows "same_call c c' (Suc 0) \<and> metrics w' = metrics_failure (call_service c) (call_method_name c) (metrics w)"
  using assms by (auto simp: fail_local_def Let_def cxx_simps same_call_run_done dest: tell_metrics)

lemma fail_sent_effect:
  assumes "fail_sent text args f t l c w = Ok (c', w')"
  shows "same_call c c' (Suc 0) \<and> metrics w' = metrics_latency (call_service c) (call_method_name c) l
     (metrics_failure (call_service c) (call_method_name c) (metrics w))"
  using assms by (auto simp: fail_sent_def Let_def cxx_simps same_call_run_done dest: tell_metrics)

lemma complete_sent_effect:
  assumes "complete_sent text t l c w = Ok (c', w')"
  shows "same_call c c' (Suc 0) \<and> metrics w' = metrics_latency (call_service c) (call_method_name c) l
     (metrics_success (call_service c) (call_method_name c) (metrics w))"
  using assms by (auto simp: complete_sent_def Let_def cxx_simps dest: tell_metrics)

lemma recorded_metrics:
  "metrics w' = metrics_failure s m (metrics w) \<Longrightarrow> recorded w w' 0 0 (Suc 0)"
  "metrics w' = metrics_request s m (metrics w) \<Longrightarrow> recorded w w' (Suc 0) 0 0"
  "metrics w' = metrics_failure s m (metrics_request s m (metrics w)) \<Longrightarrow> recorded w w' (Suc 0) 0 (Suc 0)"
  "metrics w' = metrics_latency s m l (metrics_failure s m (metrics w)) \<Longrightarrow> recorded w w' 0 0 (Suc 0)"
  "metrics w' = metrics_latency s m l (metrics_success s m (metrics w)) \<Longrightarrow> recorded w w' 0 (Suc 0) 0"
proof -
  have r: "metrics w' = fold metrics_step es (metrics w)
    \<Longrightarrow> recorded w w' (n_requests es) (n_successes es) (n_failures es)" for es
    by (auto simp: recorded_def)
  show "metrics w' = metrics_failure s m (metrics w) \<Longrightarrow> recorded w w' 0 0 (Suc 0)"
    using r [of "[Failure_ev s m]"] by (simp add: n_defs)
  show "metrics w' = metrics_request s m (metrics w) \<Longrightarrow> recorded w w' (Suc 0) 0 0"
    using r [of "[Request_ev s m]"] by (simp add: n_defs)
  show "metrics w' = metrics_failure s m (metrics_request s m (metrics w)) \<Longrightarrow> recorded w w' (Suc 0) 0 (Suc 0)"
    using r [of "[Request_ev s m, Failure_ev s m]"] by (simp add: n_defs)
  show "metrics w' = metrics_latency s m l (metrics_failure s m (metrics w)) \<Longrightarrow> recorded w w' 0 0 (Suc 0)"
    using r [of "[Failure_ev s m, Latency_ev s m l]"] by (simp add: n_defs)
  show "metrics w' = metrics_latency s m l (metrics_success s m (metrics w)) \<Longrightarrow> recorded w w' 0 (Suc 0) 0"
    using r [of "[Success_ev s m, Latency_ev s m l]"] by (simp add: n_defs)
qed

text \<open>What a start of a call does: it ends the call, refused or failed, or starts one task.\<close>

definition started_ok :: "'msg call \<Rightarrow> World \<Rightarrow> 'msg call \<times> client_task option \<times> World \<Rightarrow> bool" where
  "started_ok c w = (\<lambda>(c', t, w'). case t of
     None \<Rightarrow> same_call c c' (Suc 0) \<and> (recorded w w' 0 0 0 \<or> recorded w w' 0 0 (Suc 0) \<or> recorded w w' (Suc 0) 0 (Suc 0))
   | Some task \<Rightarrow> same_call c c' 0 \<and> recorded w w' (Suc 0) 0 0)"

lemma recorded_cong: "metrics w = metrics w1 \<Longrightarrow> recorded w = recorded w1"
  by (simp add: recorded_def fun_eq_iff)

lemma started_ok_cong: "metrics w = metrics w1 \<Longrightarrow> started_ok c w r = started_ok c w1 r"
  using recorded_cong [of w w1] by (simp add: started_ok_def split: prod.split option.split)

lemma send_request_effect:
  assumes "send_request ip ch b c w = Ok r"
  shows "started_ok c w r"
proof -
  let ?w = "upd_metrics (metrics_request (call_service c) (call_method_name c))
    (rpc_logf LOG_LEVEL_INFO ''Sending request: service=%s, method=%s'' (names c) w)"
  obtain ok bytes where sr: "serialized_request c = (ok, bytes)" by (cases "serialized_request c")
  show ?thesis
  proof (cases ok)
    case False
    with assms sr obtain c' w' where "fail_local ''Failed to serialize request: service=%s, method=%s''
        ''failed to serialize request'' b c ?w = Ok (c', w')" and r: "r = (c', None, w')"
      by (auto simp: send_request_def Let_def cxx_simps)
    from fail_local_effect [OF this(1)] show ?thesis
      by (auto simp: r started_ok_def dest: recorded_metrics(3))
  next
    case True
    with assms sr show ?thesis
      by (fastforce simp: send_request_def generate_msg_req_def steady_now_def Let_def cxx_simps started_ok_def
          same_call_def upd_controller_def split: sum.splits prod.splits dest!: fail_local_effect
          intro: recorded_metrics)
  qed
qed

lemma async_send_request_effect:
  assumes "async_send_request ch b c w = Ok r"
  shows "started_ok c w r"
proof -
  let ?w = "upd_metrics (metrics_request (call_service c) (call_method_name c))
    (rpc_logf LOG_LEVEL_INFO ''Sending async request: service=%s, method=%s'' (names c) w)"
  obtain ok bytes where sr: "serialized_request c = (ok, bytes)" by (cases "serialized_request c")
  show ?thesis
  proof (cases ok)
    case False
    with assms sr obtain c' w' where "fail_local ''Async failed to serialize request: service=%s, method=%s''
        ''failed to serialize request'' b c ?w = Ok (c', w')" and r: "r = (c', None, w')"
      by (auto simp: async_send_request_def Let_def cxx_simps)
    from fail_local_effect [OF this(1)] show ?thesis
      by (auto simp: r started_ok_def dest: recorded_metrics(3))
  next
    case True
    with assms sr show ?thesis
      by (fastforce simp: async_send_request_def generate_async_msg_req_def steady_now_def Let_def cxx_simps started_ok_def
          same_call_def upd_controller_def split: sum.splits prod.splits dest!: fail_local_effect
          intro: recorded_metrics)
  qed
qed

text \<open>The guards and the sending, for either channel.\<close>

lemma guarded_effect:
  assumes "cbind (guard_breaker text c w) (\<lambda>(b, w). case b of
       Inl c' \<Rightarrow> Ok (c', None, w)
     | Inr breaker \<Rightarrow> cbind (guard_limiter text' c w) (\<lambda>(l, w). case l of
         Inl c' \<Rightarrow> Ok (c', None, w) | Inr u \<Rightarrow> send breaker c w)) = Ok r"
    and send: "\<And>b w r. send b c w = Ok r \<Longrightarrow> started_ok c w r"
  shows "started_ok c w r"
proof -
  obtain rb w1 where b: "guard_breaker text c w = Ok (rb, w1)"
    and rest: "(case rb of Inl c' \<Rightarrow> Ok (c', None, w1) | Inr breaker \<Rightarrow>
      cbind (guard_limiter text' c w1) (\<lambda>(l, w2). case l of
        Inl c' \<Rightarrow> Ok (c', None, w2) | Inr u \<Rightarrow> send breaker c w2)) = Ok r"
    using assms(1) by (auto simp: cxx_simps)
  show ?thesis
  proof (cases rb)
    case (Inl c')
    with rest guard_breaker_effect [OF b] show ?thesis by (auto simp: started_ok_def)
  next
    case (Inr breaker)
    with guard_breaker_effect [OF b] have m1: "metrics w1 = metrics w" by simp
    from Inr rest obtain rl w2 where l: "guard_limiter text' c w1 = Ok (rl, w2)"
      and rest': "(case rl of Inl c' \<Rightarrow> Ok (c', None, w2) | Inr u \<Rightarrow> send breaker c w2) = Ok r"
      by (auto simp: cxx_simps)
    have "started_ok c w1 r"
    proof (cases rl)
      case (Inl c')
      with rest' guard_limiter_effect [OF l] show ?thesis by (auto simp: started_ok_def)
    next
      case (Inr u)
      with rest' send have "started_ok c w2 r" by simp
      moreover have "metrics w2 = metrics w1" using guard_limiter_effect [OF l] Inr by simp
      ultimately show ?thesis using started_ok_cong by metis
    qed
    with m1 show ?thesis using started_ok_cong by metis
  qed
qed

lemma CallMethod_effect:
  assumes "CallMethod ip ch c w = Ok r"
  shows "started_ok c w r"
proof (cases "call_controller c")
  case (TinyPb t)
  show ?thesis
    using guarded_effect [where send = "\<lambda>b c. send_request ip ch b c",
        OF assms [unfolded CallMethod_def TinyPb controller.case]] send_request_effect by blast
qed (use assms in \<open>auto simp: CallMethod_def started_ok_def recorded_same same_call_run_done\<close>)

lemma async_CallMethod_effect:
  assumes "async_CallMethod ch c w = Ok r"
  shows "started_ok c w r"
  using assms unfolding async_CallMethod_def
  by (rule guarded_effect) (rule async_send_request_effect)

definition finished_ok :: "'msg call \<Rightarrow> World \<Rightarrow> 'msg call \<times> World \<Rightarrow> bool" where
  "finished_ok c w = (\<lambda>(c', w'). same_call c c' (Suc 0) \<and> (recorded w w' 0 (Suc 0) 0 \<or> recorded w w' 0 0 (Suc 0)))"

lemma same_call_response [simp]: "same_call (c\<lparr>call_response := m\<rparr>) c' n = same_call c c' n"
  by (simp add: same_call_def)

lemma channel_callback_effect:
  assumes "channel_callback t res c w = Ok r"
  shows "finished_ok c w r"
proof -
  obtain t1 w1 where t1: "steady_now w = (t1, w1)" by (cases "steady_now w")
  have m1: "metrics w1 = metrics w" using t1 by (rule clock_simps)
  have "finished_ok c w1 r"
    using assms
    by (auto simp: channel_callback_def t1 Let_def cxx_simps finished_ok_def split: task_result.splits
        if_splits prod.splits dest!: fail_sent_effect complete_sent_effect
        dest: recorded_metrics(4,5))
  with m1 show ?thesis by (simp add: finished_ok_def recorded_def split_beta)
qed

lemma async_channel_callback_effect:
  assumes "async_channel_callback t res c w = Ok r"
  shows "finished_ok c w r"
proof -
  obtain t1 w1 where t1: "steady_now w = (t1, w1)" by (cases "steady_now w")
  have m1: "metrics w1 = metrics w" using t1 by (rule clock_simps)
  have "finished_ok c w1 r"
    using assms
    by (auto simp: async_channel_callback_def t1 Let_def cxx_simps finished_ok_def split: task_result.splits
        if_splits prod.splits dest!: fail_sent_effect complete_sent_effect
        dest: recorded_metrics(4,5))
  with m1 show ?thesis by (simp add: finished_ok_def recorded_def split_beta)
qed

end
