(* ===== verification/Client_System.thy ===== *)
theory Client_System
  imports Channel
begin

text \<open>
  A client with any number of calls in flight: calls are started, replies and errors arrive in any
  order, and the governance configuration changes at any time. What holds of every such run is
  proved once for the interface a channel provides, and then for both channels.
\<close>

section \<open>The interface of a channel\<close>

locale rpc_channel =
  fixes start :: "'msg call \<Rightarrow> World \<Rightarrow> ('msg call \<times> client_task option \<times> World) cxx"
    and finish :: "client_task \<Rightarrow> task_result \<Rightarrow> 'msg call \<Rightarrow> World \<Rightarrow> ('msg call \<times> World) cxx"
  assumes start_ok: "start c w = Ok r \<Longrightarrow> started_ok c w r"
    and finish_ok: "finish t res c w = Ok r' \<Longrightarrow> finished_ok c w r'"

section \<open>Runs of a client\<close>

record 'msg client_system =
  sys_world :: World
  in_flight :: "nat \<Rightarrow> ('msg call \<times> client_task) option"
  ended :: "nat \<Rightarrow> 'msg call option"

definition idle_client :: "World \<Rightarrow> 'msg client_system" where
  "idle_client w = \<lparr>sys_world = w, in_flight = Map.empty, ended = Map.empty\<rparr>"

inductive client_step ::
  "('msg call \<Rightarrow> World \<Rightarrow> ('msg call \<times> client_task option \<times> World) cxx)
   \<Rightarrow> (client_task \<Rightarrow> task_result \<Rightarrow> 'msg call \<Rightarrow> World \<Rightarrow> ('msg call \<times> World) cxx)
   \<Rightarrow> 'msg client_system \<Rightarrow> 'msg client_system \<Rightarrow> bool" for start finish where
  not_sent: "in_flight s i = None \<Longrightarrow> ended s i = None \<Longrightarrow> done_runs c = 0
    \<Longrightarrow> start c (sys_world s) = Ok (c', None, w')
    \<Longrightarrow> client_step start finish s (s\<lparr>sys_world := w', ended := (ended s)(i \<mapsto> c')\<rparr>)"
| sent: "in_flight s i = None \<Longrightarrow> ended s i = None \<Longrightarrow> done_runs c = 0
    \<Longrightarrow> start c (sys_world s) = Ok (c', Some t, w')
    \<Longrightarrow> client_step start finish s (s\<lparr>sys_world := w', in_flight := (in_flight s)(i \<mapsto> (c', t))\<rparr>)"
| answered: "in_flight s i = Some (c, t) \<Longrightarrow> finish t res c (sys_world s) = Ok (c', w')
    \<Longrightarrow> client_step start finish s (s\<lparr>sys_world := w', in_flight := (in_flight s)(i := None),
          ended := (ended s)(i \<mapsto> c')\<rparr>)"
| configured: "client_step start finish s (s\<lparr>sys_world := (sys_world s)\<lparr>governance := g\<rparr>\<rparr>)"

definition client_inv :: "World \<Rightarrow> 'msg client_system \<Rightarrow> bool" where
  "client_inv w0 s \<longleftrightarrow> finite (dom (in_flight s)) \<and> finite (dom (ended s))
     \<and> (\<forall>i c t. in_flight s i = Some (c, t) \<longrightarrow> ended s i = None \<and> done_runs c = 0)
     \<and> (\<forall>i c. ended s i = Some c \<longrightarrow> done_runs c = (if has_done c then 1 else 0))
     \<and> (\<exists>r sc f refused. recorded w0 (sys_world s) r sc f
          \<and> r + refused = sc + f + card (dom (in_flight s)) \<and> sc + f \<le> card (dom (ended s)))"

context rpc_channel
begin

lemma client_inv_init: "client_inv w (idle_client w)"
  by (auto simp: client_inv_def idle_client_def intro!: exI [of _ "0 :: nat"] recorded_same)

lemma client_inv_step:
  assumes "client_inv w0 s" and "client_step start finish s s'"
  shows "client_inv w0 s'"
proof -
  from assms(1) obtain r sc f x where fin: "finite (dom (in_flight s))" "finite (dom (ended s))"
    and fl: "\<forall>i c t. in_flight s i = Some (c, t) \<longrightarrow> ended s i = None \<and> done_runs c = 0"
    and en: "\<forall>i c. ended s i = Some c \<longrightarrow> done_runs c = (if has_done c then 1 else 0)"
    and rec: "recorded w0 (sys_world s) r sc f"
    and bal: "r + x = sc + f + card (dom (in_flight s))" "sc + f \<le> card (dom (ended s))"
    unfolding client_inv_def by blast
  note more = recorded_trans [OF rec]
  from assms(2) show ?thesis
  proof (cases rule: client_step.cases)
    case (not_sent i c c' w')
    with start_ok have st: "started_ok c (sys_world s) (c', None, w')" by blast
    then consider "recorded (sys_world s) w' 0 0 0" | "recorded (sys_world s) w' 0 0 (Suc 0)"
      | "recorded (sys_world s) w' (Suc 0) 0 (Suc 0)" by (auto simp: started_ok_def)
    then have "\<exists>r sc f x. recorded w0 w' r sc f \<and> r + x = sc + f + card (dom (in_flight s))
        \<and> sc + f \<le> Suc (card (dom (ended s)))"
    proof cases
      case 1
      from more [OF this] bal show ?thesis by (metis add.right_neutral le_Suc_eq)
    next
      case 2
      have "r + Suc x = sc + Suc f + card (dom (in_flight s))" "sc + Suc f \<le> Suc (card (dom (ended s)))"
        using bal by simp_all
      with more [OF 2] show ?thesis by (metis add.right_neutral add_Suc_right)
    next
      case 3
      have "Suc r + x = sc + Suc f + card (dom (in_flight s))" "sc + Suc f \<le> Suc (card (dom (ended s)))"
        using bal by simp_all
      with more [OF 3] show ?thesis by (metis add.right_neutral add_Suc_right)
    qed
    moreover have "done_runs c' = (if has_done c' then 1 else 0)"
      using st not_sent by (simp add: started_ok_def same_call_def)
    moreover have "card (dom ((ended s)(i \<mapsto> c'))) = Suc (card (dom (ended s)))"
      using fin not_sent by (simp add: domIff)
    ultimately show ?thesis using not_sent fin fl en by (auto simp: client_inv_def)
  next
    case (sent i c c' t w')
    with start_ok have st: "started_ok c (sys_world s) (c', Some t, w')" by blast
    then have "recorded w0 w' (Suc r) sc f" using more [of w' "Suc 0" 0 0] by (simp add: started_ok_def)
    moreover have "card (dom ((in_flight s)(i \<mapsto> (c', t)))) = Suc (card (dom (in_flight s)))"
      using fin sent by (simp add: domIff)
    then have "Suc r + x = sc + f + card (dom ((in_flight s)(i \<mapsto> (c', t))))" using bal by simp
    moreover have "done_runs c' = 0"
      using st sent by (simp add: started_ok_def same_call_def)
    ultimately show ?thesis
      using sent fin fl en bal(2) unfolding client_inv_def
      by (intro conjI exI [of _ "Suc r"] exI [of _ sc] exI [of _ f] exI [of _ x]) auto
  next
    case (answered i c t res c' w')
    with finish_ok have st: "finished_ok c (sys_world s) (c', w')" by blast
    have "Suc (card (dom ((in_flight s)(i := None)))) = card (dom (in_flight s))"
      unfolding dom_fun_upd using card_Suc_Diff1 [OF fin(1), of i] answered(2) by (auto simp only: domI if_True refl)
    moreover have "card (dom ((ended s)(i \<mapsto> c'))) = Suc (card (dom (ended s)))"
      using fin fl answered by (simp add: domIff)
    moreover have "\<exists>sc' f'. recorded w0 w' r sc' f' \<and> sc' + f' = Suc (sc + f)"
      using st more [of w' 0 "Suc 0" 0] more [of w' 0 0 "Suc 0"] unfolding finished_ok_def by fastforce
    ultimately obtain sc' f' where "recorded w0 w' r sc' f'"
      "r + x = sc' + f' + card (dom ((in_flight s)(i := None)))" "sc' + f' \<le> card (dom ((ended s)(i \<mapsto> c')))"
      using bal by auto
    moreover have "done_runs c' = (if has_done c' then 1 else 0)"
      using st answered fl by (auto simp: finished_ok_def same_call_def)
    ultimately show ?thesis
      using answered fin fl en unfolding client_inv_def
      by (intro conjI exI [of _ r] exI [of _ sc'] exI [of _ f'] exI [of _ x]) auto
  next
    case (configured g)
    have "recorded w0 (sys_world s\<lparr>governance := g\<rparr>) r sc f" using rec by (simp add: recorded_def)
    with configured fin fl en bal show ?thesis by (auto simp: client_inv_def)
  qed
qed

lemma client_inv_run: "(client_step start finish)\<^sup>*\<^sup>* (idle_client w) s \<Longrightarrow> client_inv w s"
  by (induction rule: rtranclp_induct) (auto intro: client_inv_init client_inv_step)

end

interpretation sync: rpc_channel "CallMethod inet_pton ch" channel_callback
  by unfold_locales (rule CallMethod_effect channel_callback_effect, assumption)+

interpretation async: rpc_channel "async_CallMethod ch" async_channel_callback
  by unfold_locales (rule async_CallMethod_effect async_channel_callback_effect, assumption)+

section \<open>Properties\<close>


text \<open>The same of the asynchronous channel.\<close>

theorem async_calls_end_once:
  assumes "(client_step (async_CallMethod ch) async_channel_callback)\<^sup>*\<^sup>* (idle_client w) s"
  shows "(\<forall>i c t. in_flight s i = Some (c, t) \<longrightarrow> done_runs c = 0)
    \<and> (\<forall>i c. ended s i = Some c \<longrightarrow> done_runs c = (if has_done c then 1 else 0))
    \<and> (\<exists>r sc f refused. recorded w (sys_world s) r sc f \<and> r + refused = sc + f + card (dom (in_flight s)))"
  using async.client_inv_run [OF assms] unfolding client_inv_def by blast

section \<open>What is sent\<close>

lemma upd_controller_simps [simp]:
  "full_name (upd_controller f c) = full_name c" "serialized_request (upd_controller f c) = serialized_request c"
  "call_controller (upd_controller f c) = on_tinypb f (call_controller c)"
  "parse_response (upd_controller f c) = parse_response c" "call_response (upd_controller f c) = call_response c"
  "call_service (upd_controller f c) = call_service c" "call_method_name (upd_controller f c) = call_method_name c"
  "has_done (upd_controller f c) = has_done c" "done_runs (upd_controller f c) = done_runs c"
  by (simp_all add: full_name_def upd_controller_def)

lemma send_request_sent:
  assumes "send_request inet_pton ch b c w = Ok (c', Some t, w')"
  shows "fst (serialized_request c) \<and> task_breaker t = b \<and> task_target t = channel_target inet_pton ch
     \<and> (\<exists>r. c' = upd_controller (SetMsgReq r) c \<and>
       TinyPbCodec.encode \<lparr>msg_req = r, service_full_name = full_name c, err_code = 0, err_info = [],
         pb_data = snd (serialized_request c)\<rparr> = Inr (task_value t))"
  using assms
  by (cases "serialized_request c") (auto simp: send_request_def generate_msg_req_def steady_now_def
      Let_def cxx_simps split: if_splits prod.splits sum.splits intro!: exI conjI refl)

lemma CallMethod_sent:
  assumes "CallMethod inet_pton ch c w = Ok (c', Some t, w')"
  shows "fst (serialized_request c) \<and> task_target t = channel_target inet_pton ch
     \<and> (\<exists>ctl. call_controller c = TinyPb ctl) \<and> (\<exists>r. c' = upd_controller (SetMsgReq r) c \<and>
       TinyPbCodec.encode \<lparr>msg_req = r, service_full_name = full_name c, err_code = 0, err_info = [],
         pb_data = snd (serialized_request c)\<rparr> = Inr (task_value t))"
proof (cases "call_controller c")
  case (TinyPb ctl)
  with assms obtain rb w1 where rest: "(case rb of Inl c \<Rightarrow> Ok (c, None, w1) | Inr breaker \<Rightarrow>
      cbind (guard_limiter ''Rate limited: service=%s, method=%s'' c w1) (\<lambda>(l, w). case l of
        Inl c \<Rightarrow> Ok (c, None, w) | Inr u \<Rightarrow> send_request inet_pton ch breaker c w)) = Ok (c', Some t, w')"
    by (auto simp: CallMethod_def cxx_simps)
  then obtain b where "rb = Inr b" by (cases rb) auto
  with rest obtain rl w2 where "guard_limiter ''Rate limited: service=%s, method=%s'' c w1 = Ok (rl, w2)"
    and "(case rl of Inl c \<Rightarrow> Ok (c, None, w2)
      | Inr u \<Rightarrow> send_request inet_pton ch b c w2) = Ok (c', Some t, w')"
    by (auto simp: cxx_simps)
  then have "send_request inet_pton ch b c w2 = Ok (c', Some t, w')" by (cases rl) auto
  from send_request_sent [OF this] TinyPb show ?thesis by simp
qed (use assms in \<open>auto simp: CallMethod_def\<close>)

text \<open>A call of a service without governance is sent.\<close>

lemma CallMethod_plain:
  assumes "\<not> is_circuit_breaker_enabled (call_service c) (governance w)"
    and "\<not> is_rate_limiter_enabled (call_service c) (governance w)"
    and "call_controller c = TinyPb ctl" and "serialized_request c = (True, bytes)"
    and "length (full_name c) + length bytes < 2 ^ 31"
  shows "\<exists>c' t w'. CallMethod inet_pton ch c w = Ok (c', Some t, w') \<and> task_breaker t = None
    \<and> length (task_value t) < 2 ^ 32"
proof -
  let ?w = "upd_metrics (metrics_request (call_service c) (call_method_name c))
    (rpc_logf LOG_LEVEL_INFO ''Sending request: service=%s, method=%s'' (names c) w)"
  let ?r = "dec_nat (unat (msg_req_seq ?w))"
  let ?q = "\<lparr>msg_req = ?r, service_full_name = full_name c, err_code = 0, err_info = [], pb_data = bytes\<rparr>"
  have "unat (msg_req_seq ?w) < 10 ^ Suc 19"
    by (rule order.strict_trans2 [OF unsigned_less]) simp
  from length_dec_nat [OF this] assms(5) have q: "payload_size ?q < 2 ^ 32 - 26"
    by (simp add: payload_size_def)
  then have enc: "TinyPbCodec.encode ?q = Inr (frame ?q)" by (intro encode_eq_frame) simp
  moreover have "length (frame ?q) < 2 ^ 32" using q by (simp only: length_frame)
  ultimately show ?thesis using assms(1-4)
    by (simp add: CallMethod_def guard_breaker_def guard_limiter_def send_request_def generate_msg_req_def
        Let_def steady_now_def)
qed

lemma async_CallMethod_plain:
  assumes "\<not> is_circuit_breaker_enabled (call_service c) (governance w)"
    and "\<not> is_rate_limiter_enabled (call_service c) (governance w)"
    and "serialized_request c = (True, bytes)"
    and "length (full_name c) + length bytes < 2 ^ 31"
  shows "\<exists>c' t w'. async_CallMethod ch c w = Ok (c', Some t, w') \<and> task_breaker t = None"
proof -
  let ?w = "upd_metrics (metrics_request (call_service c) (call_method_name c))
    (rpc_logf LOG_LEVEL_INFO ''Sending async request: service=%s, method=%s'' (names c) w)"
  let ?r = "''async_'' @ dec_nat (unat (async_msg_req_seq ?w))"
  let ?q = "\<lparr>msg_req = ?r, service_full_name = full_name c, err_code = 0, err_info = [], pb_data = bytes\<rparr>"
  have "unat (async_msg_req_seq ?w) < 10 ^ Suc 19"
    by (rule order.strict_trans2 [OF unsigned_less]) simp
  from length_dec_nat [OF this] assms(4) have "payload_size ?q < 2 ^ 64 - 26"
    by (simp add: payload_size_def)
  then have enc: "TinyPbCodec.encode ?q = Inr (frame ?q)" by (rule encode_eq_frame)
  with assms(1-3) show ?thesis
    by (simp add: async_CallMethod_def guard_breaker_def guard_limiter_def async_send_request_def generate_async_msg_req_def
        Let_def steady_now_def)
qed

text \<open>A call of a service that has no governance.\<close>

definition sample_client_call :: "string call" where
  "sample_client_call = \<lparr>call_service = ''pkg.Rev'', call_method_name = ''run'', serialized_request = (True, ''abc''),
     parse_response = (\<lambda>s. (True, s)), call_controller = TinyPb new_TinyPbRpcController,
     call_response = [], has_done = True, done_runs = 0\<rparr>"

lemma sample_not_governed:
  "\<not> is_circuit_breaker_enabled s (governance quiet_world)" "\<not> is_rate_limiter_enabled s (governance quiet_world)"
  by (simp_all add: start_world_def is_circuit_breaker_enabled_def is_rate_limiter_enabled_def new_governance_def)

lemma sample_sent:
  "\<exists>c' t w'. CallMethod inet_pton ch sample_client_call quiet_world = Ok (c', Some t, w')"
  "\<exists>c' t w'. async_CallMethod ach sample_client_call quiet_world = Ok (c', Some t, w')"
proof -
  show "\<exists>c' t w'. CallMethod inet_pton ch sample_client_call quiet_world = Ok (c', Some t, w')"
    using CallMethod_plain [OF sample_not_governed, of sample_client_call new_TinyPbRpcController "''abc''"]
    by (simp add: sample_client_call_def full_name_def) blast
  show "\<exists>c' t w'. async_CallMethod ach sample_client_call quiet_world = Ok (c', Some t, w')"
    using async_CallMethod_plain [OF sample_not_governed, of sample_client_call "''abc''"]
    by (simp add: sample_client_call_def full_name_def) blast
qed

lemma sample_in_flight:
  assumes "start sample_client_call quiet_world = Ok (c', Some t, w')"
  shows "(client_step start finish)\<^sup>*\<^sup>* (idle_client quiet_world)
    (\<lparr>sys_world = w', in_flight = [0 \<mapsto> (c', t)], ended = Map.empty\<rparr>)"
proof -
  have "client_step start finish (idle_client quiet_world)
    (idle_client quiet_world\<lparr>sys_world := w', in_flight := (in_flight (idle_client quiet_world))(0 \<mapsto> (c', t))\<rparr>)"
    using assms by (intro client_step.sent) (simp_all add: idle_client_def sample_client_call_def)
  then show ?thesis by (simp add: idle_client_def)
qed

section \<open>What the callback decides\<close>

lemma callback_finishes:
  "fail_sent text args f t l c w = Ok (c', w') \<Longrightarrow> c' = run_done (upd_controller f c)"
  "complete_sent text t l c w = Ok (c', w') \<Longrightarrow> c' = run_done c"
  by (auto simp: fail_sent_def complete_sent_def Let_def cxx_simps)

lemma callback_verdict:
  assumes "channel_callback t res c w = Ok (c', w')"
  shows "c' = run_done (case res of
     Network_error st e \<Rightarrow> upd_controller (SetFailed (''network error: '' @ dec_int e)) c
   | Replied v \<Rightarrow> (case TinyPbCodec.decode v new_TinyPbStruct of
       Ok (None, r) \<Rightarrow>
         if err_code r \<noteq> 0
         then upd_controller (\<lambda>ctl. ctl\<lparr>error_code := sint (err_code r), ctl_failed := True, error_text := err_info r\<rparr>) c
         else (case parse_response c (pb_data r) of
           (True, m) \<Rightarrow> c\<lparr>call_response := m\<rparr>
         | (False, m) \<Rightarrow> upd_controller (SetFailed ''failed to parse response'') (c\<lparr>call_response := m\<rparr>))
     | _ \<Rightarrow> upd_controller (SetFailed ''failed to decode response'') c))"
proof -
  obtain t1 w1 where t1: "steady_now w = (t1, w1)" by (cases "steady_now w")
  show ?thesis
    using assms
    by (auto simp: channel_callback_def t1 Let_def cxx_simps SetFailed_def SetErrorCode_def
        split: task_result.splits if_splits prod.splits option.splits dest!: callback_finishes)
qed

text \<open>The outcome a caller of the synchronous channel sees: a network error or a reply that does
  not decode fails the controller with that reason and leaves its error code alone; an error reply
  fails it with the server's code and text; a good reply leaves it alone and gives the response the
  parsed message. In every case the closure runs once more.\<close>

theorem sync_callback_verdict:
  assumes "channel_callback t res c w = Ok (c', w')"
  shows "c' = run_done (case res of
     Network_error st e \<Rightarrow> upd_controller (SetFailed (''network error: '' @ dec_int e)) c
   | Replied v \<Rightarrow> (case TinyPbCodec.decode v new_TinyPbStruct of
       Ok (None, r) \<Rightarrow>
         if err_code r \<noteq> 0
         then upd_controller (\<lambda>ctl. ctl\<lparr>error_code := sint (err_code r), ctl_failed := True, error_text := err_info r\<rparr>) c
         else (case parse_response c (pb_data r) of
           (True, m) \<Rightarrow> c\<lparr>call_response := m\<rparr>
         | (False, m) \<Rightarrow> upd_controller (SetFailed ''failed to parse response'') (c\<lparr>call_response := m\<rparr>))
     | _ \<Rightarrow> upd_controller (SetFailed ''failed to decode response'') c))"
  using assms by (rule callback_verdict)

text \<open>The asynchronous channel gives the caller's message an answer only when the whole answer
  parses: after any other outcome the message is as it was before.\<close>

theorem async_response_untouched:
  assumes "async_channel_callback t res c w = Ok (c', w')"
  shows "call_response c' = call_response c \<or> (\<exists>v r m. res = Replied v
     \<and> TinyPbCodec.decode v new_TinyPbStruct = Ok (None, r) \<and> err_code r = 0
     \<and> parse_response c (pb_data r) = (True, m) \<and> call_response c' = m)"
proof -
  obtain t1 w1 where t1: "steady_now w = (t1, w1)" by (cases "steady_now w")
  have run: "call_response (run_done x) = call_response x" for x :: "'a call" by (simp add: run_done_def)
  show ?thesis
  proof (cases res)
    case (Network_error s e)
    with assms show ?thesis
      by (auto simp: async_channel_callback_def t1 Let_def run dest!: callback_finishes)
  next
    case (Replied v)
    with assms obtain err r where d: "TinyPbCodec.decode v new_TinyPbStruct = Ok (err, r)"
      by (auto simp: async_channel_callback_def t1 Let_def cxx_simps)
    show ?thesis
    proof (cases "err = None \<and> err_code r = 0 \<and> fst (parse_response c (pb_data r))")
      case True
      with assms Replied d show ?thesis
        by (auto simp: async_channel_callback_def t1 Let_def run split_beta prod_eq_iff dest!: callback_finishes)
    next
      case False
      with assms Replied d show ?thesis
        by (auto simp: async_channel_callback_def t1 Let_def run split: if_splits prod.splits dest!: callback_finishes)
    qed
  qed
qed

text \<open>Setting the parameters of a service's breaker while one of its calls is in flight makes the
  end of that call undefined, on either channel, whatever the outcome (the task's reply may decode or
  not) and whatever happened in between.\<close>

theorem inflight_call_after_params:
  assumes "gov_inv (governance w)" and "circuit_breakers (governance w) (call_service c) = Some p"
    and "task_breaker t = Some p"
    and "gov_run es (set_circuit_breaker_params (call_service c) ft st tmo (governance w)) = Ok (governance w')"
  shows "channel_callback t (Network_error s e) c w' = Undefined
     \<and> async_channel_callback t (Network_error s e) c w' = Undefined"
proof -
  have "p < next_address (governance w)"
    using assms(1,2) by (auto simp: gov_inv_def owns_def not_less [symmetric])
  with assms(2) have "breaker_heap (set_circuit_breaker_params (call_service c) ft st tmo (governance w)) p = None
      \<and> p < next_address (set_circuit_breaker_params (call_service c) ft st tmo (governance w))"
    by (simp add: set_circuit_breaker_params_def new_breaker_at_def Let_def)
  from handle_dead_run [OF this assms(4)] have dead: "breaker_heap (governance w') p = None" .
  obtain t1 w1 where t1: "steady_now w' = (t1, w1)" by (cases "steady_now w'")
  from clock_simps(2) [OF t1] dead assms(3) show ?thesis
    by (simp_all add: channel_callback_def async_channel_callback_def t1 Let_def fail_sent_def
        tell_failure_def system_now_def breaker_record_failure_def)
qed

text \<open>While a service's breaker is open and its timeout has not passed, a call is refused without
  any network task: the controller has failed with code 504, the closure has run, the failure is
  counted, and the breaker is unchanged.\<close>

theorem open_breaker_refuses:
  assumes "is_circuit_breaker_enabled (call_service c) (governance w)"
    and "circuit_breakers (governance w) (call_service c) = Some p"
    and "breaker_heap (governance w) p = Some cb" and "cb_state cb = STATE_OPEN"
    and "wall_clock w (ticks w) < last_failure_time cb + timeout_ms cb"
    and "call_controller c = TinyPb ctl"
  shows "\<exists>w'. CallMethod inet_pton ch c w = Ok (run_done (c\<lparr>call_controller := TinyPb
       (ctl\<lparr>error_code := 504, ctl_failed := True, error_text := ''circuit breaker open''\<rparr>)\<rparr>), None, w')
     \<and> metrics w' = metrics_failure (call_service c) (call_method_name c) (metrics w)
     \<and> breaker_heap (governance w') p = Some cb"
  using assms
  by (simp add: CallMethod_def guard_breaker_def get_circuit_breaker_def system_now_def Let_def
      breaker_allow_request_def allow_request_def should_attempt_reset_def refuse_def upd_controller_def
      SetFailed_def SetErrorCode_def RPC_CIRCUIT_BREAKER_OPEN_def)

text \<open>A channel with TLS takes its host for a dotted IPv4 address: for a host name the task is
  created with whatever address the stack held.\<close>

theorem tls_host_name_lost:
  assumes "inet_pton host = None"
    and "CallMethod inet_pton (tls_TinyPbRpcChannel True host port cert key) c w = Ok (c', Some t, w')"
  shows "task_target t = Address_target None port"
  using CallMethod_sent [OF assms(2)] assms(1)
  by (simp add: channel_target_def tls_TinyPbRpcChannel_def init_ssl_ctx_def)


theorem async_calls_end_once_witness:
  "\<exists>s c t. (client_step (async_CallMethod (host_TinyPbRpcAsyncChannel ''h'' 80)) async_channel_callback)\<^sup>*\<^sup>* (idle_client quiet_world) s
     \<and> in_flight s 0 = Some (c, t) \<and> done_runs (c :: string call) = 0"
proof -
  obtain c t w where "async_CallMethod (host_TinyPbRpcAsyncChannel ''h'' 80) sample_client_call quiet_world = Ok (c, Some t, w)"
    using sample_sent(2) by blast
  note run = sample_in_flight [of "async_CallMethod (host_TinyPbRpcAsyncChannel ''h'' 80)", OF this, of async_channel_callback]
  with async_calls_end_once [OF run] show ?thesis by auto
qed

definition sample_task :: "nat option \<Rightarrow> client_task" where
  "sample_task b = \<lparr>task_target = Host_target ''h'' 80, task_tls = False, task_retry_max = 1, task_value = [],
     task_keep_alive = 30000, task_receive_timeout = None, task_breaker = b, task_start_time = 0\<rparr>"

lemma sample_callback:
  "\<exists>c' w'. channel_callback (sample_task None) (Network_error 1 2) sample_client_call quiet_world = Ok (c', w')"
  "\<exists>c' w'. async_channel_callback (sample_task None) (Network_error 1 2) sample_client_call quiet_world = Ok (c', w')"
  by (simp_all add: channel_callback_def async_channel_callback_def fail_sent_def tell_failure_def
      sample_task_def Let_def split_beta)

theorem sync_callback_verdict_witness:
  "\<exists>c' w'. channel_callback (sample_task None) (Network_error 1 2) sample_client_call quiet_world = Ok (c', w')
     \<and> c' = run_done (upd_controller (SetFailed (''network error: '' @ dec_int 2)) sample_client_call)"
proof -
  obtain c' w' where r: "channel_callback (sample_task None) (Network_error 1 2) sample_client_call quiet_world = Ok (c', w')"
    using sample_callback(1) by blast
  from sync_callback_verdict [OF r] r show ?thesis by auto
qed

theorem async_response_untouched_witness:
  "\<exists>c' w'. async_channel_callback (sample_task None) (Network_error 1 2) sample_client_call quiet_world = Ok (c', w')
     \<and> call_response c' = []"
proof -
  obtain c' w' where r: "async_channel_callback (sample_task None) (Network_error 1 2) sample_client_call quiet_world = Ok (c', w')"
    using sample_callback(2) by blast
  from async_response_untouched [OF r] r show ?thesis by (auto simp: sample_client_call_def)
qed

definition governed_world :: World where
  "governed_world = quiet_world\<lparr>governance := snd (get_circuit_breaker ''pkg.Rev'' 2 1 30 new_governance)\<rparr>"

lemma governed_world_simps:
  "gov_inv (governance governed_world)" "circuit_breakers (governance governed_world) ''pkg.Rev'' = Some 1"
  "breaker_heap (governance governed_world) 1 = Some (new_CircuitBreaker ''pkg.Rev'' 2 1 30)"
  "is_circuit_breaker_enabled ''pkg.Rev'' (governance governed_world)"
proof -
  show "gov_inv (governance governed_world)"
    using gov_inv_step [OF gov_inv_new, of "Get_breaker ''pkg.Rev'' 2 1 30"] by (simp add: governed_world_def)
qed (simp_all add: governed_world_def get_circuit_breaker_def new_breaker_at_def new_governance_def
    is_circuit_breaker_enabled_def Let_def)

theorem inflight_call_after_params_witness:
  "channel_callback (sample_task (Some 1)) (Network_error 1 2) sample_client_call
     (governed_world\<lparr>governance := set_circuit_breaker_params ''pkg.Rev'' 3 1 30 (governance governed_world)\<rparr>) = Undefined"
proof -
  have "call_service sample_client_call = ''pkg.Rev''" "task_breaker (sample_task (Some 1)) = Some 1"
    by (simp_all add: sample_client_call_def sample_task_def)
  then show ?thesis
    using inflight_call_after_params [of governed_world sample_client_call 1 "sample_task (Some 1)" "[]" 3 1 30
      "governed_world\<lparr>governance := set_circuit_breaker_params ''pkg.Rev'' 3 1 30 (governance governed_world)\<rparr>" 1 2]
    by (simp add: governed_world_simps)
qed

theorem open_breaker_refuses_witness:
  "\<exists>c' w'. CallMethod (\<lambda>_. None) (host_TinyPbRpcChannel ''h'' 80) sample_client_call
     (governed_world\<lparr>governance := (governance governed_world)\<lparr>breaker_heap :=
        [1 \<mapsto> (new_CircuitBreaker ''pkg.Rev'' 2 1 30)\<lparr>cb_state := STATE_OPEN\<rparr>]\<rparr>\<rparr>) = Ok (c', None, w')
     \<and> done_runs c' = 1"
proof -
  let ?w = "governed_world\<lparr>governance := (governance governed_world)\<lparr>breaker_heap :=
        [1 \<mapsto> (new_CircuitBreaker ''pkg.Rev'' 2 1 30)\<lparr>cb_state := STATE_OPEN\<rparr>]\<rparr>\<rparr>"
  have "call_service sample_client_call = ''pkg.Rev''" "call_controller sample_client_call = TinyPb new_TinyPbRpcController"
    "has_done sample_client_call" "done_runs sample_client_call = 0"
    by (simp_all add: sample_client_call_def)
  moreover have "wall_clock governed_world (ticks governed_world) = 0"
    by (simp add: governed_world_def start_world_def)
  ultimately show ?thesis
    using open_breaker_refuses [of sample_client_call ?w 1 "(new_CircuitBreaker ''pkg.Rev'' 2 1 30)\<lparr>cb_state := STATE_OPEN\<rparr>"
        new_TinyPbRpcController "\<lambda>_. None" "host_TinyPbRpcChannel ''h'' 80"]
      governed_world_simps(2,4)
    by (auto simp: is_circuit_breaker_enabled_def new_CircuitBreaker_def run_done_def)
qed

theorem tls_host_name_lost_witness:
  "\<exists>c' t w'. CallMethod (\<lambda>_. None) (tls_TinyPbRpcChannel True ''example.org'' 443 [] []) sample_client_call quiet_world = Ok (c', Some t, w')
     \<and> task_target t = Address_target None 443"
proof -
  obtain c' t w' where r: "CallMethod (\<lambda>_. None) (tls_TinyPbRpcChannel True ''example.org'' 443 [] []) sample_client_call quiet_world = Ok (c', Some t, w')"
    using sample_sent(1) by blast
  from tls_host_name_lost [OF _ r] r show ?thesis by auto
qed

end
