(* ===== verification/TLVMessage.thy ===== *)
theory TLVMessage
  imports Stream_Parser
begin

text \<open>
  The type-length-value message of the transport library (\<open>workflow/src/protocol/TLVMessage.h\<close>,
  \<open>workflow/src/protocol/TLVMessage.cc\<close>) that carries one encoded \<open>TinyPB\<close> frame per message:
  4 bytes of type and 4 bytes of length in network order, then the value. The second provider of
  the interface of \<open>Stream_Parser\<close>.
\<close>

section \<open>State\<close>

text \<open>The two words \<open>head[0]\<close>, \<open>head[1]\<close> are the 8 bytes of \<open>head\<close>; \<open>type\<close> is an \<open>int\<close>, kept
  as its 32 bits.\<close>

record TLVMessage = ProtocolMessage +
  tlv_type :: u32
  tlv_value :: string
  head :: string
  head_received :: nat

definition head0 :: "TLVMessage \<Rightarrow> u32" where "head0 m = load32 (segment 0 4 (head m))"
definition head1 :: "TLVMessage \<Rightarrow> u32" where "head1 m = load32 (segment 4 4 (head m))"

definition new_TLVMessage :: "string \<Rightarrow> TLVMessage" where
  "new_TLVMessage raw_head = \<lparr>size_limit = size_limit new_ProtocolMessage, tlv_type = 0,
     tlv_value = [], head = raw_head, head_received = 0\<rparr>"

definition set_type :: "u32 \<Rightarrow> TLVMessage \<Rightarrow> TLVMessage" where
  "set_type t m = m\<lparr>tlv_type := t\<rparr>"
definition set_value :: "string \<Rightarrow> TLVMessage \<Rightarrow> TLVMessage" where
  "set_value v m = m\<lparr>tlv_value := v\<rparr>"

section \<open>Sending\<close>

definition tlv_encode :: "TLVMessage \<Rightarrow> string list \<times> TLVMessage" where
  "tlv_encode m =
     (let m = m\<lparr>head := overwrite (head m) 0 (store32 (htonl (tlv_type m)))\<rparr>;
          m = m\<lparr>head := overwrite (head m) 4 (store32 (htonl (of_nat (length (tlv_value m)))))\<rparr>
      in ([head m, tlv_value m], m))"

section \<open>Receiving\<close>

text \<open>
  The last part of \<open>append\<close>: \<open>p\<close> are the bytes behind the header, \<open>sz\<close> the bytes of the whole
  chunk. A value already longer than announced would make \<open>n\<close> wrap, and \<open>std::string::append\<close>
  refuses such a length.
\<close>

definition append_value :: "TLVMessage \<Rightarrow> string \<Rightarrow> nat \<Rightarrow> nat \<Rightarrow> TLVMessage append_result" where
  "append_value m p head_left sz =
     (let n = length p; over = unat (head0 m) < length (tlv_value m) + n;
          k = (if over then sz_sub (unat (head0 m)) (length (tlv_value m)) else n);
          sz = (if over then k + head_left else sz)
      in if n < k then Throws Length_error
         else let m = m\<lparr>tlv_value := tlv_value m @ take k p\<rparr>
              in Ok (if length (tlv_value m) = unat (head0 m) then Done else More, sz, m))"

definition tlv_append :: "TLVMessage \<Rightarrow> string \<Rightarrow> TLVMessage append_result" where
  "tlv_append m buf =
     (let n = length buf; head_left = sz_sub 8 (head_received m)
      in if 0 < head_left then
           if n < head_left then
             cbind (write_buf (head m) (head_received m) buf) (\<lambda>h.
               Ok (More, n, m\<lparr>head := h, head_received := head_received m + n\<rparr>))
           else
             cbind (write_buf (head m) (head_received m) (take head_left buf)) (\<lambda>h.
               let m = m\<lparr>head := h, head_received := 8\<rparr>;
                   m = m\<lparr>tlv_type := ntohl (head0 m)\<rparr>;
                   m = m\<lparr>head := overwrite (head m) 0 (store32 (ntohl (head1 m)))\<rparr>
               in if size_limit m < unat (head0 m) then Ok (Append_error EMSGSIZE, n, m)
                  else append_value m (drop head_left buf) head_left n)
         else append_value m buf head_left n)"

section \<open>The parser in closed form\<close>

definition tlv_ready :: "TLVMessage \<Rightarrow> bool" where
  "tlv_ready m \<longleftrightarrow> length (head m) = 8 \<and> head_received m \<le> 8
     \<and> (if head_received m < 8 then tlv_value m = [] else length (tlv_value m) < unat (head0 m))"

definition tlv_body :: "TLVMessage \<Rightarrow> string \<Rightarrow> nat \<Rightarrow> append_ret \<times> nat \<times> TLVMessage" where
  "tlv_body m p used =
     (let left = unat (head0 m) - length (tlv_value m)
      in (if length p < left then More else Done, used + min left (length p),
          m\<lparr>tlv_value := tlv_value m @ take left p\<rparr>))"

definition take_head :: "TLVMessage \<Rightarrow> string \<Rightarrow> TLVMessage" where
  "take_head m h = m\<lparr>head := rev (segment 4 4 h) @ segment 4 4 h, head_received := 8,
     tlv_type := load32 (rev (segment 0 4 h))\<rparr>"

definition with_head :: "TLVMessage \<Rightarrow> string \<Rightarrow> TLVMessage" where
  "with_head m s = m\<lparr>head := overwrite (head m) (head_received m) s,
     head_received := head_received m + length s\<rparr>"

definition tlv_headed :: "TLVMessage \<Rightarrow> string \<Rightarrow> nat \<Rightarrow> append_ret \<times> nat \<times> TLVMessage" where
  "tlv_headed m p k =
     (if size_limit m < unat (head0 m) then (Append_error EMSGSIZE, k + length p, m) else tlv_body m p k)"

definition tlv_parse :: "TLVMessage \<Rightarrow> string \<Rightarrow> append_ret \<times> nat \<times> TLVMessage" where
  "tlv_parse m buf =
     (let k = 8 - head_received m
      in if head_received m = 8 then tlv_body m buf 0
         else if length buf < k then (More, length buf, with_head m buf)
         else tlv_headed (take_head m (head (with_head m (take k buf)))) (drop k buf) k)"

lemma tlv_parse_body: "head_received m = 8 \<Longrightarrow> tlv_parse m buf = tlv_body m buf 0"
  by (simp add: tlv_parse_def)

lemma tlv_parse_short: "length buf < 8 - head_received m \<Longrightarrow> tlv_parse m buf = (More, length buf, with_head m buf)"
  by (auto simp: tlv_parse_def Let_def)

lemma tlv_parse_head: "head_received m < 8 \<Longrightarrow> 8 - head_received m \<le> length buf \<Longrightarrow>
  tlv_parse m buf = tlv_headed (take_head m (head (with_head m (take (8 - head_received m) buf))))
    (drop (8 - head_received m) buf) (8 - head_received m)"
  by (simp add: tlv_parse_def Let_def)

lemma with_head_simps [simp]:
  "head_received (with_head m s) = head_received m + length s" "tlv_value (with_head m s) = tlv_value m"
  "size_limit (with_head m s) = size_limit m" "take_head (with_head m s) h = take_head m h"
  by (simp_all add: with_head_def take_head_def)

lemma take_head_simps [simp]:
  "size_limit (take_head m h) = size_limit m" "tlv_value (take_head m h) = tlv_value m"
  "head_received (take_head m h) = 8"
  by (simp_all add: take_head_def)

lemma length_with_head [simp]:
  "length (head m) = 8 \<Longrightarrow> head_received m + length s \<le> 8 \<Longrightarrow> length (head (with_head m s)) = 8"
  by (simp add: with_head_def)

lemma with_head_append:
  "length (head m) = 8 \<Longrightarrow> head_received m + length s + length t \<le> 8
    \<Longrightarrow> with_head (with_head m s) t = with_head m (s @ t)"
  by (simp add: with_head_def overwrite_adjacent)

lemma head0_take_head: "length h = 8 \<Longrightarrow> head0 (take_head m h) = load32 (rev (segment 4 4 h))"
  by (simp add: head0_def take_head_def bytes_simps)

lemma take_head_eq:
  fixes m :: TLVMessage
  assumes "length h = 8"
  defines "m' \<equiv> m\<lparr>head := h, head_received := 8\<rparr>"
  defines "m'' \<equiv> m'\<lparr>tlv_type := ntohl (head0 m')\<rparr>"
  shows "m''\<lparr>head := overwrite (head m'') 0 (store32 (ntohl (head1 m'')))\<rparr> = take_head m h"
proof -
  have "overwrite h 0 s = s @ segment 4 4 h" if "length s = 4" for s
    using assms(1) that by (simp add: overwrite_def segment_def)
  then show ?thesis
    using assms(1) by (simp add: m'_def m''_def take_head_def head0_def head1_def ntohl_load32
        length_segment store_load32)
qed

lemma append_value_body:
  assumes "length (tlv_value m) \<le> unat (head0 m)" and "sz = k + length p"
  shows "append_value m p k sz = Ok (tlv_body m p k)"
  using assms by (auto simp: append_value_def tlv_body_def Let_def min_def head0_def)

lemma tlv_append_parse:
  assumes "tlv_ready m"
  shows "tlv_append m buf = Ok (tlv_parse m buf)"
proof (cases "head_received m = 8")
  case True
  with assms show ?thesis
    by (simp add: tlv_append_def tlv_parse_def tlv_ready_def append_value_body)
next
  case False
  let ?k = "8 - head_received m"
  let ?h = "overwrite (head m) (head_received m) (take ?k buf)"
  from False assms have lt: "head_received m < 8" and v: "tlv_value m = []" and l: "length (head m) = 8"
    by (auto simp: tlv_ready_def split: if_splits)
  show ?thesis
  proof (cases "length buf < ?k")
    case True
    with lt l show ?thesis by (simp add: tlv_append_def tlv_parse_def Let_def with_head_def)
  next
    case False
    with lt l have lh: "length ?h = 8" by simp
    let ?m = "m\<lparr>head := ?h, head_received := 8\<rparr>"
    let ?n = "?m\<lparr>tlv_type := ntohl (head0 ?m)\<rparr>"
    have eq: "?n\<lparr>head := overwrite (head ?n) 0 (store32 (ntohl (head1 ?n)))\<rparr> = take_head m ?h"
      using lh by (rule take_head_eq)
    have facts: "sz_sub 8 (head_received m) = ?k" "(0 < ?k) = True" "(length buf < ?k) = False"
      "write_buf (head m) (head_received m) (take ?k buf) = Ok ?h"
      using False lt l by simp_all
    have "tlv_append m buf = (if size_limit (take_head m ?h) < unat (head0 (take_head m ?h))
        then Ok (Append_error EMSGSIZE, length buf, take_head m ?h)
        else append_value (take_head m ?h) (drop ?k buf) ?k (length buf))"
      by (simp only: tlv_append_def Let_def facts cbind.simps eq if_True if_False)
    also have "\<dots> = Ok (tlv_headed (take_head m ?h) (drop ?k buf) ?k)"
    proof -
      have "append_value (take_head m ?h) (drop ?k buf) ?k (length buf) = Ok (tlv_body (take_head m ?h) (drop ?k buf) ?k)"
        using False v by (intro append_value_body) simp_all
      moreover have "length buf = ?k + length (drop ?k buf)" using False by simp
      ultimately show ?thesis by (simp only: tlv_headed_def if_distrib [of Ok])
    qed
    also have "\<dots> = Ok (tlv_parse m buf)"
      using False lt by (simp add: tlv_parse_head with_head_def)
    finally show ?thesis .
  qed
qed

section \<open>Chunks\<close>

fun shift_parse :: "nat \<Rightarrow> append_ret \<times> nat \<times> TLVMessage \<Rightarrow> append_ret \<times> nat \<times> TLVMessage" where
  "shift_parse k (r, n, m) = (r, k + n, m)"

lemma tlv_body_more:
  assumes "length p < unat (head0 m) - length (tlv_value m)"
  shows "tlv_body m (p @ q) k = shift_parse (k + length p) (tlv_body (m\<lparr>tlv_value := tlv_value m @ p\<rparr>) q 0)"
  using assms by (auto simp: tlv_body_def Let_def head0_def min_def)

lemma tlv_body_done:
  assumes "unat (head0 m) - length (tlv_value m) \<le> length p"
  shows "tlv_body m (p @ q) k = tlv_body m p k"
  using assms by (auto simp: tlv_body_def Let_def)

lemma tlv_body_cases:
  obtains (More) "length p < unat (head0 m) - length (tlv_value m)"
      "tlv_body m p k = (More, k + length p, m\<lparr>tlv_value := tlv_value m @ p\<rparr>)"
  | (Done) m' where "unat (head0 m) - length (tlv_value m) \<le> length p"
      "tlv_body m p k = (Done, k + (unat (head0 m) - length (tlv_value m)), m')"
  by (cases "length p < unat (head0 m) - length (tlv_value m)") (auto simp: tlv_body_def Let_def)

lemma tlv_headed_shift:
  "length s \<le> k \<Longrightarrow> tlv_headed m p k = shift_parse (length s) (tlv_headed m p (k - length s))"
  by (simp add: tlv_headed_def tlv_body_def Let_def)

lemma tlv_parse_cases:
  assumes "tlv_ready m"
  obtains (Short) "length c < 8 - head_received m" "tlv_value m = []" "length (head m) = 8"
    | (Head) "head_received m < 8" "8 - head_received m \<le> length c" "tlv_value m = []" "length (head m) = 8"
    | (Body) "head_received m = 8"
  using assms by (fastforce simp: tlv_ready_def split: if_splits)

lemma with_head_ready: "tlv_value m = [] \<Longrightarrow> length (head m) = 8 \<Longrightarrow> length c < 8 - head_received m
    \<Longrightarrow> tlv_ready (with_head m c)"
  by (auto simp: tlv_ready_def)

lemma short_then:
  assumes "length c < 8 - head_received m" "length (head m) = 8"
  shows "tlv_parse m (c @ q) = shift_parse (length c) (tlv_parse (with_head m c) q)"
proof (cases "length (c @ q) < 8 - head_received m")
  case True
  with assms show ?thesis by (simp add: tlv_parse_short with_head_append)
next
  case False
  have k: "8 - head_received (with_head m c) = 8 - head_received m - length c" by simp
  from False assms have "tlv_parse m (c @ q)
      = tlv_headed (take_head m (head (with_head m (c @ take (8 - head_received m - length c) q))))
          (drop (8 - head_received m - length c) q) (8 - head_received m)"
    by (simp add: tlv_parse_head)
  also have "with_head m (c @ take (8 - head_received m - length c) q)
      = with_head (with_head m c) (take (8 - head_received m - length c) q)"
    using assms by (simp add: with_head_append)
  finally show ?thesis
    using False assms by (simp add: tlv_parse_head k tlv_headed_shift [of c "8 - head_received m"])
qed

lemma tlv_more:
  assumes "tlv_ready m" and "tlv_parse m c = (More, n, m')"
  shows "tlv_ready m' \<and> n = length c \<and> tlv_parse m (c @ q) = shift_parse n (tlv_parse m' q)"
proof (cases rule: tlv_parse_cases [OF assms(1), of c, case_names Short Head Body])
  case Short
  with assms(2) short_then [of c m q] with_head_ready [of m c] show ?thesis
    by (auto simp: tlv_parse_short)
next
  case Head
  let ?k = "8 - head_received m"
  let ?t = "take_head m (head (with_head m (take ?k c)))"
  have lt: "length (head ?t) = 8" using Head by (simp add: take_head_def length_segment)
  from Head assms(2) have le: "\<not> size_limit m < unat (head0 ?t)"
    and b: "tlv_body ?t (drop ?k c) ?k = (More, n, m')"
    by (auto simp: tlv_parse_head tlv_headed_def split: if_splits)
  have p: "tlv_parse m (c @ q) = tlv_body ?t (drop ?k c @ q) ?k"
    using le Head by (simp add: tlv_parse_head tlv_headed_def)
  show ?thesis
  proof (cases rule: tlv_body_cases [of "drop ?k c" ?t ?k, case_names More Done])
    case More
    with b Head have m': "m' = ?t\<lparr>tlv_value := tlv_value ?t @ drop ?k c\<rparr>" "n = length c" by auto
    with More lt tlv_body_more [OF More(1), of q ?k] Head show ?thesis
      by (simp add: p tlv_parse_body tlv_ready_def head0_def)
  qed (use b in simp)
next
  case Body
  from Body assms(2) have b: "tlv_body m c 0 = (More, n, m')" by (simp add: tlv_parse_body)
  show ?thesis
  proof (cases rule: tlv_body_cases [of c m 0, case_names More Done])
    case More
    with b have m': "m' = m\<lparr>tlv_value := tlv_value m @ c\<rparr>" "n = length c" by auto
    with More Body assms(1) tlv_body_more [OF More(1), of q 0] show ?thesis
      by (simp add: tlv_parse_body tlv_ready_def head0_def)
  qed (use b in simp)
qed

lemma tlv_nil: "tlv_ready m \<Longrightarrow> tlv_parse m [] = (More, 0, m)"
  by (cases rule: tlv_parse_cases [of m "[]", case_names Short Head Body])
    (auto simp: tlv_parse_short tlv_parse_body tlv_body_def tlv_ready_def with_head_def overwrite_def)

lemma tlv_headed_done:
  "tlv_headed m p k = (Done, n, m') \<Longrightarrow> n \<le> k + length p \<and> tlv_headed m (p @ q) k = (Done, n, m')"
  by (auto simp: tlv_headed_def tlv_body_def Let_def split: if_splits)

lemma tlv_headed_error:
  "tlv_headed m p k = (Append_error e, n, m') \<Longrightarrow> \<exists>n' m''. tlv_headed m (p @ q) k = (Append_error e, n', m'')"
  by (auto simp: tlv_headed_def tlv_body_def Let_def split: if_splits)

lemma tlv_done:
  assumes "tlv_ready m" and "tlv_parse m c = (Done, n, m')"
  shows "n \<le> length c \<and> tlv_parse m (c @ q) = (Done, n, m')"
proof (cases rule: tlv_parse_cases [OF assms(1), of c, case_names Short Head Body])
  case Short
  with assms(2) show ?thesis by (simp add: tlv_parse_short)
next
  case Head
  with assms(2) show ?thesis
    using tlv_headed_done [of _ "drop (8 - head_received m) c" "8 - head_received m"]
    by (fastforce simp: tlv_parse_head)
next
  case Body
  with assms(2) show ?thesis
    by (auto simp: tlv_parse_body tlv_body_def Let_def split: if_splits)
qed

lemma tlv_error:
  assumes "tlv_ready m" and "tlv_parse m c = (Append_error e, n, m')"
  shows "\<exists>n' m''. tlv_parse m (c @ q) = (Append_error e, n', m'')"
proof (cases rule: tlv_parse_cases [OF assms(1), of c, case_names Short Head Body])
  case Short
  with assms(2) show ?thesis by (simp add: tlv_parse_short)
next
  case Head
  with assms(2) show ?thesis
    using tlv_headed_error [of _ "drop (8 - head_received m) c" "8 - head_received m"]
    by (fastforce simp: tlv_parse_head)
next
  case Body
  with assms(2) show ?thesis
    by (auto simp: tlv_parse_body tlv_body_def Let_def split: if_splits)
qed

lemma shift_used_parse: "shift_used k t = Ok (shift_parse k t)"
  by (cases t) simp

text \<open>What is sent, and the message a fresh receiver holds.\<close>

definition tlv_wire :: "u32 \<times> string \<Rightarrow> string" where
  "tlv_wire = (\<lambda>(t, v). rev (store32 t) @ rev (store32 (of_nat (length v))) @ v)"

definition tlv_fits :: "TLVMessage \<Rightarrow> u32 \<times> string \<Rightarrow> bool" where
  "tlv_fits s = (\<lambda>(t, v). tlv_ready s \<and> head_received s = 0 \<and> length v < 2 ^ 32 \<and> length v \<le> size_limit s)"

definition tlv_holds :: "TLVMessage \<Rightarrow> u32 \<times> string \<Rightarrow> bool" where
  "tlv_holds s = (\<lambda>(t, v). tlv_type s = t \<and> tlv_value s = v)"

lemma tlv_wire_received:
  assumes "tlv_fits s m"
  shows "\<exists>s'. tlv_append s (tlv_wire m) = Ok (Done, length (tlv_wire m), s') \<and> tlv_holds s' m"
proof -
  obtain t v where m: "m = (t, v)" by (cases m)
  let ?h = "rev (store32 t) @ rev (store32 (of_nat (length v)))"
  from assms have rdy: "tlv_ready s" and s: "head_received s = 0" "tlv_value s = []" "length (head s) = 8"
    and v: "length v < 2 ^ 32" "length v \<le> size_limit s"
    by (auto simp: m tlv_fits_def tlv_ready_def)
  have h: "head (with_head s ?h) = ?h" using s by (simp add: with_head_def overwrite_def)
  have h0: "head0 (take_head s ?h) = of_nat (length v)"
    by (simp add: head0_take_head segment_def)
  have u: "unat (of_nat (length v) :: u32) = length v" using v by (simp add: unat_of_nat)
  have ty: "tlv_type (take_head s ?h) = t" by (simp add: take_head_def segment_def)
  have "tlv_parse s (tlv_wire m) = tlv_headed (take_head s ?h) v 8"
    using s h by (simp add: tlv_parse_head m tlv_wire_def)
  then show ?thesis
    using v s ty by (simp add: tlv_append_parse rdy m tlv_headed_def tlv_body_def Let_def h0 u tlv_holds_def tlv_wire_def)
qed

interpretation tlv: wire_protocol tlv_append tlv_ready tlv_wire tlv_fits tlv_holds
proof unfold_locales
  show "tlv_append s [] = Ok (More, 0, s)" if "tlv_ready s" for s
    using that by (simp add: tlv_append_parse tlv_nil)
  show "returns (tlv_append s c)" if "tlv_ready s" for s c
    using that by (simp add: tlv_append_parse)
  show "tlv_ready s' \<and> n = length c" if "tlv_ready s" "tlv_append s c = Ok (More, n, s')" for s c n s'
    using that tlv_more by (simp add: tlv_append_parse)
  show "tlv_append s (c @ c') = cbind (tlv_append s' c') (shift_used n)"
    if "tlv_ready s" "tlv_append s c = Ok (More, n, s')" for s c n s' c'
    using that tlv_more [of s c n s' c'] by (simp add: tlv_append_parse shift_used_parse)
  show "n \<le> length c \<and> tlv_append s (c @ c') = Ok (Done, n, s')"
    if "tlv_ready s" "tlv_append s c = Ok (Done, n, s')" for s c n s' c'
    using that tlv_done [of s c n s' c'] by (simp add: tlv_append_parse)
  show "\<exists>n' s''. tlv_append s (c @ c') = Ok (Append_error e, n', s'')"
    if "tlv_ready s" "tlv_append s c = Ok (Append_error e, n, s')" for s c e n s' c'
    using that tlv_error [of s c e n s' c'] by (simp add: tlv_append_parse)
  show "tlv_ready s" if "tlv_fits s m" for s m
    using that by (auto simp: tlv_fits_def)
  show "\<exists>s'. tlv_append s (tlv_wire m) = Ok (Done, length (tlv_wire m), s') \<and> tlv_holds s' m"
    if "tlv_fits s m" for s m
    using that by (rule tlv_wire_received)
qed

lemma tlv_encode_wire:
  "length (head m) = 8 \<Longrightarrow> concat (fst (tlv_encode m)) = tlv_wire (tlv_type m, tlv_value m)"
  by (simp add: tlv_encode_def Let_def tlv_wire_def overwrite_def store32_htonl)

lemma new_tlv_fits:
  "length raw = 8 \<Longrightarrow> length v < 2 ^ 32 \<Longrightarrow> length v \<le> lim
    \<Longrightarrow> tlv_fits (set_size_limit lim (new_TLVMessage raw)) (t, v)"
  by (simp add: tlv_fits_def tlv_ready_def set_size_limit_def new_TLVMessage_def)

section \<open>Properties\<close>

text \<open>C23: A value of less than 4 GB that the receiver's limit allows arrives unchanged, with its
  type, whatever the chunks the transport delivers and whatever follows; the receiver uses exactly
  the bytes of the message.\<close>

theorem tlv_message_delivered:
  assumes "length (head m) = 8" and "length raw = 8"
    and "length (tlv_value m) < 2 ^ 32" and "length (tlv_value m) \<le> lim"
    and "concat cs = concat (fst (tlv_encode m)) @ rest"
  shows "\<exists>s'. feed_chunks tlv_append (set_size_limit lim (new_TLVMessage raw)) cs
      = Ok (Done, 8 + length (tlv_value m), s')
    \<and> tlv_type s' = tlv_type m \<and> tlv_value s' = tlv_value m"
  using tlv.delivered [OF new_tlv_fits [OF assms(2-4)], of cs "tlv_type m" rest] assms(1,5)
  by (simp add: tlv_encode_wire tlv_holds_def tlv_wire_def)

definition sample_tlv :: TLVMessage where
  "sample_tlv = set_value ''hi'' (set_type 1 (new_TLVMessage (replicate 8 NUL)))"

lemma sample_wire: "concat (fst (tlv_encode sample_tlv)) = [NUL, NUL, NUL, CHR 0x01, NUL, NUL, NUL, CHR 0x02] @ ''hi''"
proof -
  have "rev (store32 1) = [NUL, NUL, NUL, CHR 0x01]" "rev (store32 2) = [NUL, NUL, NUL, CHR 0x02]"
    using rev_store32_eq [of "[NUL, NUL, NUL, CHR 0x01]"] rev_store32_eq [of "[NUL, NUL, NUL, CHR 0x02]"]
    by (simp_all add: load32_def NUL_def)
  then show ?thesis
    by (simp add: tlv_encode_wire sample_tlv_def set_value_def set_type_def new_TLVMessage_def tlv_wire_def)
qed

theorem tlv_message_delivered_witness:
  "\<exists>s'. feed_chunks tlv_append (set_size_limit 9 (new_TLVMessage (replicate 8 NUL)))
      [[NUL, NUL, NUL], [CHR 0x01, NUL, NUL, NUL, CHR 0x02, CHR ''h''], ''ixyz'']
    = Ok (Done, 10, s') \<and> tlv_type s' = 1 \<and> tlv_value s' = ''hi''"
proof -
  have "tlv_value sample_tlv = ''hi''" "tlv_type sample_tlv = 1" "length (head sample_tlv) = 8"
    by (simp_all add: sample_tlv_def set_value_def set_type_def new_TLVMessage_def)
  with tlv_message_delivered [of sample_tlv "replicate 8 NUL" 9
      "[[NUL, NUL, NUL], [CHR 0x01, NUL, NUL, NUL, CHR 0x02, CHR ''h''], ''ixyz'']" "''xyz''"]
  show ?thesis by (simp add: sample_wire)
qed

text \<open>The invariant of a receiver with limit \<open>lim\<close>.\<close>

definition tlv_bounded :: "nat \<Rightarrow> TLVMessage \<Rightarrow> bool" where
  "tlv_bounded lim m \<longleftrightarrow> tlv_ready m \<and> size_limit m = lim
     \<and> (head_received m = 8 \<longrightarrow> unat (head0 m) \<le> lim)"

lemma tlv_body_bounded:
  "unat (head0 m) \<le> lim \<Longrightarrow> length (tlv_value m) \<le> unat (head0 m) \<Longrightarrow> tlv_body m p k = (r, n, m')
    \<Longrightarrow> length (tlv_value m') \<le> lim \<and> size_limit m' = size_limit m \<and> head0 m' = head0 m"
  by (auto simp: tlv_body_def Let_def head0_def split: if_splits)

lemma tlv_parse_bounded:
  assumes "tlv_bounded lim m" and "tlv_parse m c = (r, n, m')"
  shows "length (tlv_value m') \<le> lim \<and> (r = More \<longrightarrow> tlv_bounded lim m')"
proof -
  have rdy: "tlv_ready m" and lim: "size_limit m = lim" using assms(1) by (simp_all add: tlv_bounded_def)
  have more: "tlv_ready m'" if "r = More" using that tlv_more [OF rdy] assms(2) by blast
  show ?thesis
  proof (cases rule: tlv_parse_cases [OF rdy, of c, case_names Short Head Body])
    case Short
    with assms(2) lim more show ?thesis by (auto simp: tlv_parse_short tlv_bounded_def)
  next
    case Head
    let ?k = "8 - head_received m"
    let ?t = "take_head m (head (with_head m (take ?k c)))"
    from Head assms(2) have h: "tlv_headed ?t (drop ?k c) ?k = (r, n, m')" by (simp add: tlv_parse_head)
    show ?thesis
    proof (cases "lim < unat (head0 ?t)")
      case True
      with h lim Head show ?thesis by (auto simp: tlv_headed_def)
    next
      case False
      with h lim have b: "tlv_body ?t (drop ?k c) ?k = (r, n, m')" by (simp add: tlv_headed_def)
      from tlv_body_bounded [OF _ _ b, of lim] False Head lim more show ?thesis
        by (auto simp: tlv_bounded_def)
    qed
  next
    case Body
    with assms lim more tlv_body_bounded [of m lim c 0 r n m'] show ?thesis
      by (auto simp: tlv_parse_body tlv_bounded_def tlv_ready_def)
  qed
qed

lemma tlv_feed_bounded:
  "tlv_bounded lim m \<Longrightarrow> length (tlv_value m) \<le> lim
    \<Longrightarrow> \<exists>r n m'. feed_chunks tlv_append m cs = Ok (r, n, m') \<and> length (tlv_value m') \<le> lim"
proof (induction cs arbitrary: m)
  case Nil
  then show ?case by simp
next
  case (Cons c cs)
  obtain r n m' where p: "tlv_parse m c = (r, n, m')" by (cases "tlv_parse m c")
  have rdy: "tlv_ready m" using Cons.prems(1) by (simp add: tlv_bounded_def)
  from tlv_parse_bounded [OF Cons.prems(1) p] Cons.IH [of m'] p show ?case
    by (auto simp: tlv_append_parse [OF rdy])
qed

text \<open>On any bytes in any chunks the receiver returns without an access outside its header or
  its value, and never keeps more bytes of value than its limit, whatever length is announced.\<close>

theorem tlv_receiver_safe:
  assumes "length raw = 8"
  shows "\<exists>r n s'. feed_chunks tlv_append (set_size_limit lim (new_TLVMessage raw)) cs = Ok (r, n, s')
    \<and> length (tlv_value s') \<le> lim"
  by (rule tlv_feed_bounded) (use assms in \<open>simp_all add: tlv_bounded_def tlv_ready_def set_size_limit_def new_TLVMessage_def\<close>)

theorem tlv_receiver_safe_witness:
  "\<exists>r n s'. feed_chunks tlv_append (set_size_limit 1000 (new_TLVMessage (replicate 8 NUL)))
     [replicate 5 (CHR 0xff), replicate 5 (CHR 0xff)] = Ok (r, n, s') \<and> length (tlv_value s') \<le> 1000"
  by (rule tlv_receiver_safe) simp

end
