(* ===== verification/Base64.thy ===== *)
theory Base64
  imports Cxx_Strings
begin

text \<open>
  The base64 coding of keys and values in the JSON the registry exchanges with etcd
  (\<open>base64_encode\<close>, \<open>base64_decode\<close> in \<open>rpc/src/rpc_service_registry.cc\<close>). The two loops collect
  bytes in a small array and flush it when it is full; the array is the list of the bytes collected
  so far and \<open>i\<close> its length.
\<close>

definition base64_chars :: string where
  "base64_chars = ''ABCDEFGHIJKLMNOPQRSTUVWXYZabcdefghijklmnopqrstuvwxyz0123456789+/''"

definition byte_of :: "char \<Rightarrow> u8" where "byte_of c = of_nat (of_char c)"
definition char_of_byte :: "u8 \<Rightarrow> char" where "char_of_byte b = char_of (unat b)"

section \<open>Encoding\<close>

text \<open>\<open>char_array_4\<close> from the three bytes\<close>

definition sextets :: "u8 \<Rightarrow> u8 \<Rightarrow> u8 \<Rightarrow> u8 list" where
  "sextets a b c =
     [drop_bit 2 (a AND 0xfc),
      push_bit 4 (a AND 0x03) + drop_bit 4 (b AND 0xf0),
      push_bit 2 (b AND 0x0f) + drop_bit 6 (c AND 0xc0),
      c AND 0x3f]"

definition b64_char :: "u8 \<Rightarrow> char" where
  "b64_char x = base64_chars ! unat x"

fun encode_loop :: "u8 list \<Rightarrow> u8 list \<Rightarrow> string \<Rightarrow> u8 list \<times> string" where
  "encode_loop [] arr ret = (arr, ret)"
| "encode_loop (b # bs) arr ret =
     (let arr = arr @ [b]
      in if length arr = 3
         then encode_loop bs [] (ret @ map b64_char (sextets (arr ! 0) (arr ! 1) (arr ! 2)))
         else encode_loop bs arr ret)"

text \<open>The bytes left over are padded with zeros, and \<open>=\<close> fills the last group of four.\<close>

definition encode_rest :: "u8 list \<Rightarrow> string" where
  "encode_rest arr =
     (if arr = [] then []
      else let i = length arr; a = arr @ replicate (3 - i) 0
           in map b64_char (take (i + 1) (sextets (a ! 0) (a ! 1) (a ! 2))) @ replicate (3 - i) (CHR ''=''))"

text \<open>\<open>in_len\<close> is an \<open>int\<close>: a size of 2 GB or more is cut to 32 bits, and a negative one makes the
  loop run past the end of the input.\<close>

definition base64_encode :: "string \<Rightarrow> string cxx" where
  "base64_encode input =
     (let in_len = cut32 (int (length input))
      in if in_len < 0 then Undefined
         else let (arr, ret) = encode_loop (map byte_of (take (nat in_len) input)) [] []
              in Ok (ret @ encode_rest arr))"

section \<open>Decoding\<close>

text \<open>
  \<open>strchr(base64_chars, c) - base64_chars\<close>: the terminating NUL counts as a character, and the
  difference is undefined for a character that is not there.
\<close>

definition sextet_of :: "char \<Rightarrow> u8 cxx" where
  "sextet_of c = (case find_ch c (base64_chars @ [NUL]) of Some i \<Rightarrow> Ok (of_nat i) | None \<Rightarrow> Undefined)"

fun sextets_of :: "string \<Rightarrow> u8 list cxx" where
  "sextets_of [] = Ok []"
| "sextets_of (c # s) = cbind (sextet_of c) (\<lambda>x. cbind (sextets_of s) (\<lambda>xs. Ok (x # xs)))"

definition triple :: "u8 \<Rightarrow> u8 \<Rightarrow> u8 \<Rightarrow> u8 \<Rightarrow> u8 list" where
  "triple w x y z =
     [push_bit 2 w + drop_bit 4 (x AND 0x30),
      push_bit 4 (x AND 0xf) + drop_bit 2 (y AND 0x3c),
      push_bit 6 (y AND 0x3) + z]"

fun decode_loop :: "string \<Rightarrow> string \<Rightarrow> string \<Rightarrow> (string \<times> string) cxx" where
  "decode_loop [] arr ret = Ok (arr, ret)"
| "decode_loop (c # cs) arr ret =
     (let arr = arr @ [c]
      in if length arr = 4
         then cbind (sextets_of arr) (\<lambda>a.
           decode_loop cs [] (ret @ map char_of_byte (triple (a ! 0) (a ! 1) (a ! 2) (a ! 3))))
         else decode_loop cs arr ret)"

text \<open>
  The last group: \<open>char_array_4\<close> holds \<open>i\<close> new values; of the values of the group before, or of
  uninitialised memory, only places that do not reach the \<open>i - 1\<close> bytes appended are read, so
  they are zeros here.
\<close>

definition decode_rest :: "string \<Rightarrow> string cxx" where
  "decode_rest arr =
     (if arr = [] then Ok []
      else let i = length arr
           in cbind (sextets_of arr) (\<lambda>a.
             let a = a @ replicate (4 - i) 0
             in Ok (map char_of_byte (take (i - 1) (triple (a ! 0) (a ! 1) (a ! 2) (a ! 3))))))"

definition base64_decode :: "string \<Rightarrow> string cxx" where
  "base64_decode input =
     (let v = takeWhile (\<lambda>c. c \<noteq> CHR ''='') input; in_len = cut32 (int (length v))
      in if in_len < 0 then Undefined
         else cbind (decode_loop (take (nat in_len) v) [] []) (\<lambda>(arr, ret).
           cbind (decode_rest arr) (\<lambda>s. Ok (ret @ s))))"

section \<open>Round trip\<close>

lemma byte_of_inverse [simp]: "char_of_byte (byte_of c) = c"
proof -
  have "(of_char c :: nat) < 256" by (rule of_char_less_256)
  then show ?thesis by (simp add: char_of_byte_def byte_of_def unat_of_nat)
qed

lemma distinct_base64_chars: "distinct (base64_chars @ [NUL])"
  by (simp add: base64_chars_def NUL_def)

lemma length_base64_chars: "length base64_chars = 64"
  by (simp add: base64_chars_def)

lemma find_ch_nth: "distinct s \<Longrightarrow> i < length s \<Longrightarrow> find_ch (s ! i) s = Some i"
proof (induction s arbitrary: i)
  case Nil
  then show ?case by simp
next
  case (Cons c s)
  then show ?case by (cases i) (auto simp: nth_mem)
qed

lemma sextet_of_b64_char [simp]: "x < 64 \<Longrightarrow> sextet_of (b64_char x) = Ok x"
proof -
  assume "x < 64"
  then have x: "unat x < 64" by (simp add: word_less_nat_alt)
  then have "b64_char x = (base64_chars @ [NUL]) ! unat x"
    by (simp add: b64_char_def nth_append length_base64_chars)
  with x distinct_base64_chars show ?thesis
    by (simp add: sextet_of_def find_ch_nth length_base64_chars)
qed

text \<open>The masks of the code, by their bits.\<close>

lemma byte_masks:
  "(0xfc :: u8) = push_bit 2 (mask 6)" "(0x03 :: u8) = mask 2" "(0xf0 :: u8) = push_bit 4 (mask 4)"
  "(0x0f :: u8) = mask 4" "(0xc0 :: u8) = push_bit 6 (mask 2)" "(0x3f :: u8) = mask 6"
  "(0x30 :: u8) = push_bit 4 (mask 2)" "(0x3c :: u8) = push_bit 2 (mask 4)"
  by (simp_all add: mask_eq_exp_minus_1 push_bit_eq_mult)

lemma u8_bit_less: "bit (x :: u8) n \<Longrightarrow> n < 8"
  using bit_imp_le_length [of x n] by simp

lemma sextet_less: "(\<And>n. bit x n \<Longrightarrow> n < 6) \<Longrightarrow> (x :: u8) < 64"
proof -
  assume "\<And>n. bit x n \<Longrightarrow> n < 6"
  then have "take_bit 6 x = x" by (auto intro!: bit_word_eqI simp: bit_simps)
  then have "unat x = take_bit 6 (unat x)" by (metis unsigned_take_bit_eq)
  also have "\<dots> < 64" by (simp add: take_bit_eq_mod)
  finally show ?thesis by (simp add: word_less_nat_alt)
qed

lemma sextet_bits: "(x :: u8) < 64 \<Longrightarrow> bit x n \<Longrightarrow> n < 6"
proof -
  assume x: "x < 64" and b: "bit x n"
  have "take_bit 6 (unat x) = unat x" using x by (simp add: word_less_nat_alt take_bit_eq_mod)
  then have "take_bit 6 x = x" by (metis unsigned_take_bit_eq unsigned_word_eqI)
  with b show ?thesis by (metis bit_take_bit_iff)
qed

lemma back2: "Suc (Suc (n - 2)) = (if n < 2 then 2 else n)"
  by arith

lemma back4: "4 + (n - 4) = (if n < 4 then 4 else (n :: nat))"
  by arith

text \<open>The sums of the code add values with no bit in common.\<close>

lemma sextets_or: "sextets a b c =
    [drop_bit 2 (a AND 0xfc), push_bit 4 (a AND 0x03) OR drop_bit 4 (b AND 0xf0),
     push_bit 2 (b AND 0x0f) OR drop_bit 6 (c AND 0xc0), c AND 0x3f]"
proof -
  have "push_bit 4 (a AND 0x03) AND drop_bit 4 (b AND 0xf0) = (0 :: u8)"
    unfolding byte_masks by (rule bit_word_eqI) (auto simp: bit_simps)
  moreover have "push_bit 2 (b AND 0x0f) AND drop_bit 6 (c AND 0xc0) = (0 :: u8)"
    unfolding byte_masks by (rule bit_word_eqI) (auto simp: bit_simps)
  ultimately show ?thesis by (simp add: sextets_def disjunctive_add_eq_or)
qed

lemma triple_or:
  assumes "z < 64"
  shows "triple w x y z = [push_bit 2 w OR drop_bit 4 (x AND 0x30),
     push_bit 4 (x AND 0xf) OR drop_bit 2 (y AND 0x3c), push_bit 6 (y AND 0x3) OR z]"
proof -
  have "push_bit 2 w AND drop_bit 4 (x AND 0x30) = (0 :: u8)"
    unfolding byte_masks by (rule bit_word_eqI) (auto simp: bit_simps)
  moreover have "push_bit 4 (x AND 0xf) AND drop_bit 2 (y AND 0x3c) = (0 :: u8)"
    unfolding byte_masks by (rule bit_word_eqI) (auto simp: bit_simps)
  moreover have "push_bit 6 (y AND 0x3) AND z = (0 :: u8)"
    unfolding byte_masks using sextet_bits [OF assms] by (intro bit_word_eqI) (fastforce simp: bit_simps)
  ultimately show ?thesis by (simp add: triple_def disjunctive_add_eq_or)
qed

lemma sextets_less: "x \<in> set (sextets a b c) \<Longrightarrow> x < 64"
  unfolding sextets_or byte_masks
  by (rule sextet_less) (auto simp: bit_simps dest: u8_bit_less)

lemma triple_sextets:
  "triple (sextets a b c ! 0) (sextets a b c ! 1) (sextets a b c ! 2) (sextets a b c ! 3) = [a, b, c]"
proof -
  have z: "sextets a b c ! 3 < 64" by (rule sextets_less [of _ a b c]) (simp add: sextets_def)
  have "push_bit 2 (drop_bit 2 (a AND 0xfc)) OR
      drop_bit 4 ((push_bit 4 (a AND 0x03) OR drop_bit 4 (b AND 0xf0)) AND 0x30) = a"
    unfolding byte_masks by (rule bit_word_eqI) (auto simp: bit_simps back2)
  moreover have "push_bit 4 ((push_bit 4 (a AND 0x03) OR drop_bit 4 (b AND 0xf0)) AND 0xf) OR
      drop_bit 2 ((push_bit 2 (b AND 0x0f) OR drop_bit 6 (c AND 0xc0)) AND 0x3c) = b"
    unfolding byte_masks by (rule bit_word_eqI) (auto simp: bit_simps back4)
  moreover have "push_bit 6 ((push_bit 2 (b AND 0x0f) OR drop_bit 6 (c AND 0xc0)) AND 0x3) OR (c AND 0x3f) = c"
    unfolding byte_masks by (rule bit_word_eqI) (auto simp: bit_simps)
  ultimately show ?thesis
    unfolding triple_or [OF z] by (simp add: sextets_or)
qed

text \<open>The reference: three bytes at a time.\<close>

fun b64 :: "u8 list \<Rightarrow> string" where
  "b64 [] = []"
| "b64 [a] = map b64_char (take 2 (sextets a 0 0)) @ ''==''"
| "b64 [a, b] = map b64_char (take 3 (sextets a b 0)) @ ''=''"
| "b64 (a # b # c # bs) = map b64_char (sextets a b c) @ b64 bs"

lemma length_sextets [simp]: "length (sextets a b c) = 4"
  by (simp add: sextets_def)

lemma length_b64: "length (b64 bs) = 4 * ((length bs + 2) div 3)"
proof (induction bs rule: b64.induct)
  case (4 a b c bs)
  have "(length (a # b # c # bs) + 2) div 3 = Suc ((length bs + 2) div 3)"
    using div_add_self2 [of 3 "length bs + 2"] by simp
  with 4 show ?case by simp
qed (simp_all add: min_def)

lemma encode_loop_b64:
  "(case encode_loop bs [] ret of (arr, r) \<Rightarrow> r @ encode_rest arr) = ret @ b64 bs"
  by (induction bs arbitrary: ret rule: b64.induct)
    (auto simp: encode_rest_def Let_def numeral_eq_Suc)

lemma cut32_small: "0 \<le> x \<Longrightarrow> x < 2 ^ 31 \<Longrightarrow> cut32 x = x"
  by (simp add: cut32_def)

lemma base64_encode_b64: "length s < 2 ^ 31 \<Longrightarrow> base64_encode s = Ok (b64 (map byte_of s))"
  using encode_loop_b64 [of "map byte_of s" "[]"]
  by (auto simp: base64_encode_def cut32_small Let_def split: prod.splits)

lemma b64_char_noteq: "x < 64 \<Longrightarrow> b64_char x \<noteq> CHR ''='' \<and> b64_char x \<noteq> CHR 0x22"
proof -
  assume "x < 64"
  then have "unat x < length base64_chars" by (simp add: word_less_nat_alt length_base64_chars)
  then have "b64_char x \<in> set base64_chars" by (simp add: b64_char_def)
  then show ?thesis by (auto simp: base64_chars_def)
qed

lemma takeWhile_sextets:
  "takeWhile (\<lambda>c. c \<noteq> CHR ''='') (map b64_char (take n (sextets a b c)) @ s)
    = map b64_char (take n (sextets a b c)) @ takeWhile (\<lambda>c. c \<noteq> CHR ''='') s"
  by (rule takeWhile_append2) (auto dest!: in_set_takeD sextets_less b64_char_noteq)

lemma sextets_of_map: "(\<And>x. x \<in> set xs \<Longrightarrow> x < 64) \<Longrightarrow> sextets_of (map b64_char xs) = Ok xs"
  by (induction xs) auto

lemma sextets_of_take: "sextets_of (map b64_char (take n (sextets a b c))) = Ok (take n (sextets a b c))"
  by (rule sextets_of_map) (auto dest: in_set_takeD sextets_less)

lemma sextets_not_Nil [simp]: "sextets a b c \<noteq> []"
  by (simp add: sextets_def)

lemma list4: "length xs = 4 \<Longrightarrow> xs = [xs ! 0, xs ! 1, xs ! 2, xs ! 3]"
  by (auto simp: list_eq_iff_nth_eq less_Suc_eq numeral_eq_Suc)

lemma decode_group:
  assumes "length g = 4" and "sextets_of g = Ok a"
  shows "decode_loop (g @ cs) [] ret
    = decode_loop cs [] (ret @ map char_of_byte (triple (a ! 0) (a ! 1) (a ! 2) (a ! 3)))"
proof -
  obtain w x y z where g: "g = [w, x, y, z]" using list4 [OF assms(1)] by blast
  show ?thesis using assms(2) by (simp add: g)
qed

lemma decode_b64:
  "cbind (decode_loop (takeWhile (\<lambda>c. c \<noteq> CHR ''='') (b64 bs)) [] ret)
     (\<lambda>(arr, r). cbind (decode_rest arr) (\<lambda>s. Ok (r @ s))) = Ok (ret @ map char_of_byte bs)"
proof (induction bs arbitrary: ret rule: b64.induct)
  case 1
  then show ?case by (simp add: decode_rest_def)
next
  case (2 a)
  let ?g = "map b64_char (take 2 (sextets a 0 0))"
  have "decode_loop ?g [] ret = Ok (?g, ret)" by (simp add: sextets_def numeral_eq_Suc)
  moreover have "triple (sextets a 0 0 ! 0) (sextets a 0 0 ! 1) y z ! 0 = a" for y z
    using triple_sextets [of a 0 0] by (simp add: triple_def)
  ultimately show ?case
    using sextets_of_take [of 2 a 0 0]
    by (simp add: takeWhile_sextets decode_rest_def Let_def nth_append triple_def)
next
  case (3 a b)
  let ?g = "map b64_char (take 3 (sextets a b 0))"
  have "decode_loop ?g [] ret = Ok (?g, ret)" by (simp add: sextets_def numeral_eq_Suc)
  moreover have "triple (sextets a b 0 ! 0) (sextets a b 0 ! 1) (sextets a b 0 ! 2) z ! 0 = a"
    "triple (sextets a b 0 ! 0) (sextets a b 0 ! 1) (sextets a b 0 ! 2) z ! 1 = b" for z
    using triple_sextets [of a b 0] by (simp_all add: triple_def)
  ultimately show ?case
    using sextets_of_take [of 3 a b 0]
    by (simp add: takeWhile_sextets decode_rest_def Let_def nth_append triple_def numeral_eq_Suc)
next
  case (4 a b c bs)
  have t: "takeWhile (\<lambda>c. c \<noteq> CHR ''='') (b64 (a # b # c # bs))
      = map b64_char (sextets a b c) @ takeWhile (\<lambda>c. c \<noteq> CHR ''='') (b64 bs)"
    using takeWhile_sextets [of 4 a b c] by simp
  have g: "sextets_of (map b64_char (sextets a b c)) = Ok (sextets a b c)"
    using sextets_of_take [of 4 a b c] by simp
  have d: "decode_loop (map b64_char (sextets a b c) @ cs) [] ret
      = decode_loop cs [] (ret @ map char_of_byte [a, b, c])" for cs
    by (subst decode_group [OF _ g]) (simp_all only: triple_sextets length_map length_sextets)
  have "ret @ map char_of_byte (a # b # c # bs) = (ret @ map char_of_byte [a, b, c]) @ map char_of_byte bs"
    by simp
  then show ?case
    unfolding t d by (simp only: 4)
qed

lemma base64_decode_encode:
  assumes "4 * ((length s + 2) div 3) < 2 ^ 31"
  shows "cbind (base64_encode s) base64_decode = Ok s"
proof -
  have "length s < 2 ^ 31" using assms by linarith
  moreover have "length (takeWhile (\<lambda>c. c \<noteq> CHR ''='') (b64 (map byte_of s))) < 2 ^ 31"
    using assms length_takeWhile_le [of "\<lambda>c. c \<noteq> CHR ''=''" "b64 (map byte_of s)"]
    by (simp add: length_b64)
  moreover have "map char_of_byte (map byte_of s) = s" by (simp add: comp_def)
  ultimately show ?thesis
    using decode_b64 [of "map byte_of s" "[]"]
    by (simp add: base64_encode_b64 base64_decode_def cut32_small)
qed

section \<open>Properties\<close>

text \<open>Any key or value whose base64 text is shorter than 2 GB is read back unchanged from it; the
  text is three bytes in four characters, padded to a multiple of four.\<close>

theorem base64_roundtrip:
  assumes "4 * ((length s + 2) div 3) < 2 ^ 31"
  shows "\<exists>t. base64_encode s = Ok t \<and> length t = 4 * ((length s + 2) div 3) \<and> base64_decode t = Ok s"
proof -
  have "length s < 2 ^ 31" using assms by linarith
  then have "base64_encode s = Ok (b64 (map byte_of s))" by (rule base64_encode_b64)
  with base64_decode_encode [OF assms] show ?thesis by (simp add: length_b64)
qed

theorem base64_roundtrip_witness:
  "\<exists>t. base64_encode ''10.0.0.1:80'' = Ok t \<and> length t = 16 \<and> base64_decode t = Ok ''10.0.0.1:80''"
  using base64_roundtrip [of "''10.0.0.1:80''"] by simp

end
