(* ===== verification/Registry.thy ===== *)
theory Registry
  imports Base64 "HOL-Library.AList" "HOL-Library.Char_ord" "HOL-Library.List_Lexorder"
begin

text \<open>
  The client of the service registry (\<open>rpc/src/rpc_service_registry.h\<close>,
  \<open>rpc/src/rpc_service_registry.cc\<close>): it registers, finds and removes endpoints of services in
  etcd, over HTTP requests it builds and parses itself. etcd and the socket calls of the operating
  system are a parameter; what the client does with its sockets is recorded in \<open>net_log\<close>.
\<close>

section \<open>Sockets\<close>

datatype net_event = Opened int | Connected int string u16 | Sent int string | Closed int

record 'e net =
  net_log :: "net_event list"
  peer :: 'e

text \<open>
  The calls the client makes of the operating system, on the state \<open>'e\<close> of everything outside the
  program. \<open>os_recv\<close> returns the bytes received, at most as many as asked for, and none at the end
  of the stream or on an error; \<open>os_reads\<close> bounds the number of reads of one answer (fuel).
\<close>

record 'e os =
  os_socket :: "'e \<Rightarrow> int \<times> 'e"
  os_resolve :: "string \<Rightarrow> 'e \<Rightarrow> string option \<times> 'e"
  os_connect :: "int \<Rightarrow> string \<Rightarrow> u16 \<Rightarrow> 'e \<Rightarrow> bool \<times> 'e"
  os_send :: "int \<Rightarrow> string \<Rightarrow> 'e \<Rightarrow> int \<times> 'e"
  os_reads :: nat
  os_recv :: "int \<Rightarrow> nat \<Rightarrow> 'e \<Rightarrow> string \<times> 'e"

definition record_event :: "net_event \<Rightarrow> 'e net \<Rightarrow> 'e net" where
  "record_event ev n = n\<lparr>net_log := net_log n @ [ev]\<rparr>"

definition create_tcp_socket :: "'e os \<Rightarrow> string \<Rightarrow> int \<Rightarrow> 'e net \<Rightarrow> int \<times> 'e net" where
  "create_tcp_socket os host port n =
     (let (sock, e) = os_socket os (peer n); n = n\<lparr>peer := e\<rparr>
      in if sock < 0 then (-1, n)
         else
           let n = record_event (Opened sock) n;
               (server, e) = os_resolve os (c_str host) (peer n); n = n\<lparr>peer := e\<rparr>
           in case server of
                None \<Rightarrow> (-1, record_event (Closed sock) n)
              | Some addr \<Rightarrow>
                  let sin_port = htons (word_of_int port);
                      (ok, e) = os_connect os sock addr sin_port (peer n);
                      n = record_event (Connected sock addr sin_port) (n\<lparr>peer := e\<rparr>)
                  in if \<not> ok then (-1, record_event (Closed sock) n) else (sock, n))"

section \<open>Endpoints and URLs\<close>

definition starts_with :: "string \<Rightarrow> string \<Rightarrow> bool" where
  "starts_with pat s \<longleftrightarrow> find_str s pat 0 = Some 0"

definition build_etcd_url :: "string \<Rightarrow> string \<Rightarrow> string" where
  "build_etcd_url endpoint path =
     (if starts_with ''http://'' endpoint then endpoint @ path
      else if starts_with ''https://'' endpoint then endpoint @ path
      else ''http://'' @ endpoint @ path)"

definition parse_endpoint :: "string \<Rightarrow> (string \<times> int) cxx" where
  "parse_endpoint endpoint =
     cbind (if starts_with ''http://'' endpoint then substr_from endpoint 7
            else if starts_with ''https://'' endpoint then substr_from endpoint 8
            else Ok endpoint) (\<lambda>addr.
       case find_ch (CHR '':'') addr of
         Some pos \<Rightarrow> cbind (substr addr 0 pos) (\<lambda>host.
           cbind (substr_from addr (pos + 1)) (\<lambda>p. Ok (host, atoi p)))
       | None \<Rightarrow> Ok (addr, 2379))"

section \<open>HTTP\<close>

definition CRLF :: string where "CRLF = [CHR 0x0D, CHR 0x0A]"

definition http_request :: "string \<Rightarrow> int \<Rightarrow> string \<Rightarrow> string \<Rightarrow> string" where
  "http_request host port path body =
     ''POST '' @ path @ '' HTTP/1.1'' @ CRLF
     @ ''Host: '' @ host @ '':'' @ dec_int port @ CRLF
     @ ''Content-Type: application/json'' @ CRLF
     @ ''Content-Length: '' @ dec_nat (length body) @ CRLF
     @ ''Connection: close'' @ CRLF
     @ CRLF
     @ body"

text \<open>
  The receive loop ends when nothing more comes; the fuel bounds the number of reads. Each chunk
  goes through a C string: it is cut at its first NUL byte.
\<close>

fun recv_loop :: "nat \<Rightarrow> 'e os \<Rightarrow> int \<Rightarrow> string \<Rightarrow> 'e net \<Rightarrow> (string \<times> 'e net) cxx" where
  "recv_loop 0 os sock resp n = Out_of_fuel"
| "recv_loop (Suc fuel) os sock resp n =
     (let (d, e) = os_recv os sock 8191 (peer n); n = n\<lparr>peer := e\<rparr>
      in if d = [] then Ok (resp, n)
         else if 8191 < length d then Undefined
         else recv_loop fuel os sock (resp @ c_str d) n)"

text \<open>The body of the answer up to its first line end; none when the header does not end.\<close>

definition http_body :: "string \<Rightarrow> string option cxx" where
  "http_body resp =
     (case find_str resp (CRLF @ CRLF) 0 of
        None \<Rightarrow> Ok None
      | Some header_end \<Rightarrow>
          cbind (substr_from resp (header_end + 4)) (\<lambda>response.
            case find_str response CRLF 0 of
              Some pos \<Rightarrow> cbind (substr response 0 pos) (\<lambda>s. Ok (Some s))
            | None \<Rightarrow> Ok (Some response)))"

definition send_http_request :: "'e os \<Rightarrow> string \<Rightarrow> string \<Rightarrow> string \<Rightarrow> 'e net
    \<Rightarrow> (string option \<times> 'e net) cxx" where
  "send_http_request os endpoint path body n =
     cbind (parse_endpoint endpoint) (\<lambda>(host, port).
       let (sock, n) = create_tcp_socket os host port n
       in if sock < 0 then Ok (None, n)
          else
            let request = http_request host port path body;
                (sent, e) = os_send os sock request (peer n);
                n = record_event (Sent sock request) (n\<lparr>peer := e\<rparr>)
            in if sent \<noteq> int (length request) then Ok (None, record_event (Closed sock) n)
               else cbind (recv_loop (os_reads os) os sock [] n) (\<lambda>(resp, n).
                 let n = record_event (Closed sock) n
                 in cbind (http_body resp) (\<lambda>response. Ok (response, n))))"

section \<open>The JSON requests\<close>

definition quoted :: "string \<Rightarrow> string" where
  "quoted s = [CHR 0x22] @ s @ [CHR 0x22]"

definition etcd_v3_lease_grant_json :: "int \<Rightarrow> string" where
  "etcd_v3_lease_grant_json ttl = ''{'' @ quoted ''ID'' @ '':0,'' @ quoted ''TTL'' @ '':'' @ dec_int ttl @ ''}''"

definition etcd_v3_lease_keepalive_json :: "int \<Rightarrow> string" where
  "etcd_v3_lease_keepalive_json lease_id = ''{'' @ quoted ''ID'' @ '':'' @ dec_int lease_id @ ''}''"

definition etcd_v3_lease_revoke_json :: "int \<Rightarrow> string" where
  "etcd_v3_lease_revoke_json lease_id = ''{'' @ quoted ''ID'' @ '':'' @ dec_int lease_id @ ''}''"

definition etcd_v3_put_json :: "string \<Rightarrow> string \<Rightarrow> int \<Rightarrow> string cxx" where
  "etcd_v3_put_json key val lease_id =
     cbind (base64_encode key) (\<lambda>encoded_key. cbind (base64_encode val) (\<lambda>encoded_value.
       Ok (''{'' @ quoted ''key'' @ '':'' @ quoted encoded_key
         @ '','' @ quoted ''value'' @ '':'' @ quoted encoded_value
         @ (if 0 < lease_id then '','' @ quoted ''lease'' @ '':'' @ quoted (dec_int lease_id) else [])
         @ ''}'')))"

text \<open>The loop over the key from its last byte to the first one that is not 0xFF.\<close>

fun increment_last :: "string \<Rightarrow> nat \<Rightarrow> string option" where
  "increment_last s 0 = None"
| "increment_last s (Suc i) =
     (if (of_char (s ! i) :: nat) < 255 then Some (take i s @ [char_of (Suc (of_char (s ! i)))])
      else increment_last s i)"

text \<open>The literal assigned for an empty prefix ends at its NUL byte: the string stays empty.\<close>

definition range_end :: "string \<Rightarrow> string" where
  "range_end key_prefix =
     (if key_prefix \<noteq> [] then
        case increment_last key_prefix (nat (cut32 (int (length key_prefix) - 1) + 1)) of
          Some s \<Rightarrow> s
        | None \<Rightarrow> key_prefix @ [CHR 0x01]
      else [])"

definition etcd_v3_range_json :: "string \<Rightarrow> string cxx" where
  "etcd_v3_range_json key_prefix =
     cbind (base64_encode key_prefix) (\<lambda>encoded_key. cbind (base64_encode (range_end key_prefix)) (\<lambda>encoded_range_end.
       Ok (''{'' @ quoted ''key'' @ '':'' @ quoted encoded_key
         @ '','' @ quoted ''range_end'' @ '':'' @ quoted encoded_range_end @ ''}'')))"

definition etcd_v3_delete_json :: "string \<Rightarrow> string cxx" where
  "etcd_v3_delete_json key =
     cbind (base64_encode key) (\<lambda>encoded_key. Ok (''{'' @ quoted ''key'' @ '':'' @ quoted encoded_key @ ''}''))"

section \<open>The client\<close>

record ServiceEndpoint =
  ep_ip :: string
  ep_port :: int
  ep_lease_id :: int

definition endpoint_to_string :: "ServiceEndpoint \<Rightarrow> string" where
  "endpoint_to_string ep = ep_ip ep @ '':'' @ dec_int (ep_port ep)"

text \<open>
  The threads the client has started: the heartbeat, and one per \<open>watch\<close> with the prefix it
  watches. A callback is a number standing for the function object; the hash map of the registered
  services is an association list without duplicate keys, in the order of insertion.
\<close>

datatype registry_thread = Heartbeat_thread | Watch_thread string

record EtcdRegistryClient =
  etcd_endpoint :: string
  running :: bool
  auto_heartbeat :: bool
  heartbeat_interval :: int
  current_lease_id :: int
  registered_services :: "(string \<times> ServiceEndpoint) list"
  watch_callback :: "nat option"
  watch_service_name :: string
  registry_threads :: "registry_thread list"

definition new_EtcdRegistryClient :: EtcdRegistryClient where
  "new_EtcdRegistryClient = \<lparr>etcd_endpoint = ''127.0.0.1:2379'', running = False, auto_heartbeat = True,
     heartbeat_interval = 10, current_lease_id = 0, registered_services = [],
     watch_callback = None, watch_service_name = [], registry_threads = []\<rparr>"

definition set_endpoint :: "string \<Rightarrow> EtcdRegistryClient \<Rightarrow> EtcdRegistryClient" where
  "set_endpoint endpoint c = c\<lparr>etcd_endpoint := endpoint\<rparr>"
definition enable_auto_heartbeat :: "bool \<Rightarrow> EtcdRegistryClient \<Rightarrow> EtcdRegistryClient" where
  "enable_auto_heartbeat enable c = c\<lparr>auto_heartbeat := enable\<rparr>"
definition set_heartbeat_interval :: "int \<Rightarrow> EtcdRegistryClient \<Rightarrow> EtcdRegistryClient" where
  "set_heartbeat_interval seconds c = c\<lparr>heartbeat_interval := seconds\<rparr>"

definition get_prefix :: "string \<Rightarrow> string" where
  "get_prefix service_name = ''/wf_rpc/services/'' @ service_name @ ''/''"

definition get_service_key :: "string \<Rightarrow> string \<Rightarrow> int \<Rightarrow> string" where
  "get_service_key service_name host p =
     ''/wf_rpc/services/'' @ service_name @ ''/'' @ host @ '':'' @ dec_int p"

subsection \<open>Requests to etcd\<close>

text \<open>The lease ID is the run of at most 30 digits behind \<open>"ID":"\<close>; \<open>stoll\<close> refuses more than 63 bits.\<close>

definition lease_id_of :: "string \<Rightarrow> int option cxx" where
  "lease_id_of response =
     (case find_str response (quoted ''ID'' @ '':'' @ [CHR 0x22]) 0 of
        None \<Rightarrow> Ok None
      | Some id_pos \<Rightarrow>
          let num_str = takeWhile is_digit (take 30 (drop (id_pos + 6) response))
          in if num_str = [] then Ok None
             else if digits_val num_str < 2 ^ 63 then Ok (Some (int (digits_val num_str)))
             else Throws Out_of_range)"

definition create_lease :: "'e os \<Rightarrow> int \<Rightarrow> EtcdRegistryClient \<Rightarrow> 'e net
    \<Rightarrow> (int \<times> EtcdRegistryClient \<times> 'e net) cxx" where
  "create_lease os ttl c n =
     cbind (send_http_request os (etcd_endpoint c) ''/v3/lease/grant'' (etcd_v3_lease_grant_json ttl) n)
       (\<lambda>(response, n). case response of
          None \<Rightarrow> Ok (-1, c, n)
        | Some resp \<Rightarrow> cbind (lease_id_of resp) (\<lambda>lease. case lease of
            None \<Rightarrow> Ok (-1, c, n)
          | Some i \<Rightarrow> Ok (i, c\<lparr>current_lease_id := i\<rparr>, n)))"

text \<open>Any HTTP answer counts as success, whatever its status.\<close>

definition keep_alive :: "'e os \<Rightarrow> int \<Rightarrow> EtcdRegistryClient \<Rightarrow> 'e net \<Rightarrow> (bool \<times> 'e net) cxx" where
  "keep_alive os lease_id c n =
     cbind (send_http_request os (etcd_endpoint c) ''/v3/lease/keepalive'' (etcd_v3_lease_keepalive_json lease_id) n)
       (\<lambda>(response, n). Ok (response \<noteq> None, n))"

definition revoke_lease :: "'e os \<Rightarrow> int \<Rightarrow> EtcdRegistryClient \<Rightarrow> 'e net \<Rightarrow> (bool \<times> 'e net) cxx" where
  "revoke_lease os lease_id c n =
     cbind (send_http_request os (etcd_endpoint c) ''/v3/lease/revoke'' (etcd_v3_lease_revoke_json lease_id) n)
       (\<lambda>(response, n). Ok (response \<noteq> None, n))"

definition put_key :: "'e os \<Rightarrow> string \<Rightarrow> string \<Rightarrow> int \<Rightarrow> EtcdRegistryClient \<Rightarrow> 'e net \<Rightarrow> (bool \<times> 'e net) cxx" where
  "put_key os key val lease_id c n =
     cbind (etcd_v3_put_json key val lease_id) (\<lambda>body.
     cbind (send_http_request os (etcd_endpoint c) ''/v3/kv/put'' body n) (\<lambda>(response, n).
       case response of
         None \<Rightarrow> Ok (False, n)
       | Some resp \<Rightarrow> Ok (find_str resp (quoted ''error'') 0 = None, n)))"

definition delete_key :: "'e os \<Rightarrow> string \<Rightarrow> EtcdRegistryClient \<Rightarrow> 'e net \<Rightarrow> (bool \<times> 'e net) cxx" where
  "delete_key os key c n =
     cbind (etcd_v3_delete_json key) (\<lambda>body.
     cbind (send_http_request os (etcd_endpoint c) ''/v3/kv/deleterange'' body n) (\<lambda>(response, n).
       Ok (response \<noteq> None, n)))"

text \<open>The loop over the occurrences of \<open>"value":"\<close>; the positions found increase, so the length of
  the answer bounds the number of turns.\<close>

definition value_mark :: string where "value_mark = quoted ''value'' @ '':'' @ [CHR 0x22]"

definition endpoint_of :: "string \<Rightarrow> ServiceEndpoint option cxx" where
  "endpoint_of decoded_value =
     (case find_ch (CHR '':'') decoded_value of
        None \<Rightarrow> Ok None
      | Some colon_pos \<Rightarrow>
          cbind (substr decoded_value 0 colon_pos) (\<lambda>host.
          cbind (substr_from decoded_value (colon_pos + 1)) (\<lambda>p.
            Ok (Some \<lparr>ep_ip = host, ep_port = atoi p, ep_lease_id = 0\<rparr>))))"

definition endpoint_at :: "string \<Rightarrow> nat \<Rightarrow> ServiceEndpoint option cxx" where
  "endpoint_at response value_pos =
     (let value_start = value_pos + 9
      in case find_str response [CHR 0x22] value_start of
           None \<Rightarrow> Ok None
         | Some value_end \<Rightarrow>
             cbind (substr response value_start (value_end - value_start)) (\<lambda>encoded_value.
             cbind (base64_decode encoded_value) endpoint_of))"

fun values_loop :: "nat \<Rightarrow> string \<Rightarrow> nat option \<Rightarrow> ServiceEndpoint list \<Rightarrow> ServiceEndpoint list cxx" where
  "values_loop fuel response None endpoints = Ok endpoints"
| "values_loop 0 response (Some value_pos) endpoints = Out_of_fuel"
| "values_loop (Suc fuel) response (Some value_pos) endpoints =
     cbind (endpoint_at response value_pos) (\<lambda>ep.
       values_loop fuel response (find_str response value_mark (value_pos + 1))
         (case ep of Some ep \<Rightarrow> endpoints @ [ep] | None \<Rightarrow> endpoints))"

definition parse_kvs :: "string \<Rightarrow> ServiceEndpoint list cxx" where
  "parse_kvs response =
     (case find_str response (quoted ''kvs'') 0 of
        None \<Rightarrow> Ok []
      | Some kvs_pos \<Rightarrow> values_loop (Suc (length response)) response (find_str response value_mark kvs_pos) [])"

definition get_keys :: "'e os \<Rightarrow> string \<Rightarrow> EtcdRegistryClient \<Rightarrow> 'e net \<Rightarrow> (ServiceEndpoint list \<times> 'e net) cxx" where
  "get_keys os key_prefix c n =
     cbind (etcd_v3_range_json key_prefix) (\<lambda>body.
     cbind (send_http_request os (etcd_endpoint c) ''/v3/kv/range'' body n) (\<lambda>(response, n).
       case response of
         None \<Rightarrow> Ok ([], n)
       | Some resp \<Rightarrow> cbind (parse_kvs resp) (\<lambda>endpoints. Ok (endpoints, n))))"

subsection \<open>Operations\<close>

definition register_service :: "'e os \<Rightarrow> string \<Rightarrow> string \<Rightarrow> int \<Rightarrow> int \<Rightarrow> EtcdRegistryClient \<Rightarrow> 'e net
    \<Rightarrow> (bool \<times> EtcdRegistryClient \<times> 'e net) cxx" where
  "register_service os service_name host p ttl c n =
     cbind (create_lease os ttl c n) (\<lambda>(lease_id, c, n).
       if lease_id \<le> 0 then Ok (False, c, n)
       else
         let key = get_service_key service_name host p; val = host @ '':'' @ dec_int p
         in cbind (put_key os key val lease_id c n) (\<lambda>(ok, n).
           if \<not> ok then cbind (revoke_lease os lease_id c n) (\<lambda>(_, n). Ok (False, c, n))
           else
             let endpoint = \<lparr>ep_ip = host, ep_port = p, ep_lease_id = lease_id\<rparr>
             in Ok (True, c\<lparr>registered_services := AList.update key endpoint (registered_services c)\<rparr>, n)))"

fun unregister_loop :: "'e os \<Rightarrow> string \<Rightarrow> ServiceEndpoint list \<Rightarrow> EtcdRegistryClient \<Rightarrow> 'e net
    \<Rightarrow> (EtcdRegistryClient \<times> 'e net) cxx" where
  "unregister_loop os service_name [] c n = Ok (c, n)"
| "unregister_loop os service_name (ep # eps) c n =
     (let key = get_service_key service_name (ep_ip ep) (ep_port ep)
      in cbind (delete_key os key c n) (\<lambda>(_, n).
        unregister_loop os service_name eps
          (c\<lparr>registered_services := AList.delete key (registered_services c)\<rparr>) n))"

definition unregister_service :: "'e os \<Rightarrow> string \<Rightarrow> EtcdRegistryClient \<Rightarrow> 'e net
    \<Rightarrow> (bool \<times> EtcdRegistryClient \<times> 'e net) cxx" where
  "unregister_service os service_name c n =
     cbind (get_keys os (get_prefix service_name) c n) (\<lambda>(endpoints, n).
     cbind (unregister_loop os service_name endpoints c n) (\<lambda>(c, n). Ok (True, c, n)))"

definition discover :: "'e os \<Rightarrow> string \<Rightarrow> EtcdRegistryClient \<Rightarrow> 'e net \<Rightarrow> (ServiceEndpoint list \<times> 'e net) cxx" where
  "discover os service_name c n = get_keys os (get_prefix service_name) c n"

definition watch_keys :: "string \<Rightarrow> EtcdRegistryClient \<Rightarrow> bool \<times> EtcdRegistryClient" where
  "watch_keys key_prefix c =
     (if watch_callback c = None then (False, c)
      else (True, c\<lparr>registry_threads := registry_threads c @ [Watch_thread key_prefix]\<rparr>))"

definition watch :: "string \<Rightarrow> nat option \<Rightarrow> EtcdRegistryClient \<Rightarrow> EtcdRegistryClient" where
  "watch service_name callback c =
     snd (watch_keys (get_prefix service_name)
       (c\<lparr>watch_service_name := service_name, watch_callback := callback\<rparr>))"

text \<open>One turn of the loop of a watch thread, up to its sleep: the endpoints are given to the
  callback the client holds at that time.\<close>

definition watch_turn :: "'e os \<Rightarrow> string \<Rightarrow> EtcdRegistryClient \<Rightarrow> 'e net
    \<Rightarrow> ((nat option \<times> ServiceEndpoint list) option \<times> 'e net) cxx" where
  "watch_turn os key_prefix c n =
     (if running c then
        cbind (get_keys os key_prefix c n) (\<lambda>(endpoints, n). Ok (Some (watch_callback c, endpoints), n))
      else Ok (None, n))"

definition start :: "EtcdRegistryClient \<Rightarrow> EtcdRegistryClient" where
  "start c =
     (if running c then c
      else
        let c = c\<lparr>running := True\<rparr>
        in if auto_heartbeat c then c\<lparr>registry_threads := registry_threads c @ [Heartbeat_thread]\<rparr> else c)"

text \<open>The leases, in the order the hash map is iterated.\<close>

definition lease_ids :: "EtcdRegistryClient \<Rightarrow> int list" where
  "lease_ids c = map (ep_lease_id \<circ> snd) (registered_services c)"

fun revoke_loop :: "'e os \<Rightarrow> int list \<Rightarrow> EtcdRegistryClient \<Rightarrow> 'e net \<Rightarrow> 'e net cxx" where
  "revoke_loop os [] c n = Ok n"
| "revoke_loop os (i # is) c n = cbind (revoke_lease os i c n) (\<lambda>(_, n). revoke_loop os is c n)"

definition stop :: "'e os \<Rightarrow> EtcdRegistryClient \<Rightarrow> 'e net \<Rightarrow> (EtcdRegistryClient \<times> 'e net) cxx" where
  "stop os c n =
     (if \<not> running c then Ok (c, n)
      else
        let ids = lease_ids c; c = c\<lparr>running := False, registered_services := []\<rparr>
        in cbind (revoke_loop os ids c n) (\<lambda>n. Ok (c, n)))"

text \<open>One turn of the heartbeat thread after its sleep; nothing else runs during it.\<close>

fun keep_alive_loop :: "'e os \<Rightarrow> int list \<Rightarrow> EtcdRegistryClient \<Rightarrow> 'e net \<Rightarrow> 'e net cxx" where
  "keep_alive_loop os [] c n = Ok n"
| "keep_alive_loop os (i # is) c n =
     (if \<not> running c then Ok n
      else cbind (keep_alive os i c n) (\<lambda>(_, n). keep_alive_loop os is c n))"

definition heartbeat_turn :: "'e os \<Rightarrow> EtcdRegistryClient \<Rightarrow> 'e net \<Rightarrow> 'e net cxx" where
  "heartbeat_turn os c n = (if \<not> running c then Ok n else keep_alive_loop os (lease_ids c) c n)"

section \<open>Histories of a client\<close>

datatype registry_op =
  Register string string int int | Unregister string | Discover string
  | Watch string "nat option" | Watch_turn string | Start | Stop | Heartbeat_turn
  | Set_endpoint string | Enable_auto_heartbeat bool | Set_heartbeat_interval int

fun registry_step :: "'e os \<Rightarrow> registry_op \<Rightarrow> EtcdRegistryClient \<times> 'e net \<Rightarrow> (EtcdRegistryClient \<times> 'e net) cxx" where
  "registry_step os (Register service host p ttl) (c, n) =
     cbind (register_service os service host p ttl c n) (\<lambda>(_, s). Ok s)"
| "registry_step os (Unregister service) (c, n) = cbind (unregister_service os service c n) (\<lambda>(_, s). Ok s)"
| "registry_step os (Discover service) (c, n) = cbind (discover os service c n) (\<lambda>(_, n). Ok (c, n))"
| "registry_step os (Watch service callback) (c, n) = Ok (watch service callback c, n)"
| "registry_step os (Watch_turn key_prefix) (c, n) = cbind (watch_turn os key_prefix c n) (\<lambda>(_, n). Ok (c, n))"
| "registry_step os Start (c, n) = Ok (start c, n)"
| "registry_step os Stop (c, n) = stop os c n"
| "registry_step os Heartbeat_turn (c, n) = cbind (heartbeat_turn os c n) (\<lambda>n. Ok (c, n))"
| "registry_step os (Set_endpoint endpoint) (c, n) = Ok (set_endpoint endpoint c, n)"
| "registry_step os (Enable_auto_heartbeat e) (c, n) = Ok (enable_auto_heartbeat e c, n)"
| "registry_step os (Set_heartbeat_interval i) (c, n) = Ok (set_heartbeat_interval i c, n)"

fun registry_run :: "'e os \<Rightarrow> registry_op list \<Rightarrow> EtcdRegistryClient \<times> 'e net \<Rightarrow> (EtcdRegistryClient \<times> 'e net) cxx" where
  "registry_run os [] s = Ok s"
| "registry_run os (op # ops) s = cbind (registry_step os op s) (registry_run os ops)"

section \<open>Sockets are closed\<close>

fun socks_after :: "net_event \<Rightarrow> int list \<Rightarrow> int list" where
  "socks_after (Opened s) open = s # open"
| "socks_after (Closed s) open = remove1 s open"
| "socks_after (Connected s addr p) open = open"
| "socks_after (Sent s bytes) open = open"

definition open_socks :: "'e net \<Rightarrow> int list" where
  "open_socks n = fold socks_after (net_log n) []"

named_theorems socket_rules \<open>what a call leaves of the open sockets\<close>

lemma open_socks_simps [simp]:
  "open_socks (record_event (Opened s) n) = s # open_socks n"
  "open_socks (record_event (Closed s) n) = remove1 s (open_socks n)"
  "open_socks (record_event (Connected s addr p) n) = open_socks n"
  "open_socks (record_event (Sent s bytes) n) = open_socks n"
  "open_socks (n\<lparr>peer := e\<rparr>) = open_socks n"
  by (simp_all add: open_socks_def record_event_def)

lemma create_tcp_socket_socks:
  "create_tcp_socket os host p n = (sock, n') \<Longrightarrow>
     open_socks n' = (if sock < 0 then open_socks n else sock # open_socks n)"
  by (auto simp: create_tcp_socket_def Let_def split: prod.splits option.splits if_splits)

lemma recv_loop_socks:
  "recv_loop fuel os sock resp n = Ok (r, n') \<Longrightarrow> open_socks n' = open_socks n"
proof (induction fuel arbitrary: resp n)
  case (Suc fuel)
  from Suc.prems Suc.IH show ?case
    by (fastforce simp: Let_def split: prod.splits if_splits)
qed simp

lemma send_http_request_socks [socket_rules]:
  assumes "send_http_request os endpoint path body n = Ok (r, n')"
  shows "open_socks n' = open_socks n"
proof -
  from assms obtain host p where h: "parse_endpoint endpoint = Ok (host, p)"
    by (auto simp: send_http_request_def cxx_simps)
  obtain sock n1 where c: "create_tcp_socket os host p n = (sock, n1)"
    by (cases "create_tcp_socket os host p n")
  note socks = create_tcp_socket_socks [OF c]
  show ?thesis
  proof (cases "sock < 0")
    case True
    with assms socks show ?thesis by (simp add: send_http_request_def h c)
  next
    case False
    with assms socks show ?thesis
      by (auto simp: send_http_request_def h c Let_def cxx_simps split: prod.splits if_splits
          dest!: recv_loop_socks)
  qed
qed

lemma create_lease_socks [socket_rules]:
  "create_lease os ttl c n = Ok (i, c', n') \<Longrightarrow> open_socks n' = open_socks n"
  by (auto simp: create_lease_def cxx_simps split: option.splits dest!: socket_rules)

lemma lease_calls_socks [socket_rules]:
  "keep_alive os i c n = Ok (r, n') \<Longrightarrow> open_socks n' = open_socks n"
  "revoke_lease os i c n = Ok (r, n') \<Longrightarrow> open_socks n' = open_socks n"
  by (auto simp: keep_alive_def revoke_lease_def cxx_simps dest!: socket_rules)

lemma key_calls_socks [socket_rules]:
  "put_key os key val i c n = Ok (r, n') \<Longrightarrow> open_socks n' = open_socks n"
  "delete_key os key c n = Ok (r, n') \<Longrightarrow> open_socks n' = open_socks n"
  "get_keys os key c n = Ok (eps, n') \<Longrightarrow> open_socks n' = open_socks n"
  by (auto simp: put_key_def delete_key_def get_keys_def cxx_simps split: option.splits
      dest!: socket_rules)

lemma unregister_loop_socks [socket_rules]:
  "unregister_loop os service eps c n = Ok (c', n') \<Longrightarrow> open_socks n' = open_socks n"
  by (induction eps arbitrary: c n) (fastforce simp: cxx_simps Let_def dest!: socket_rules)+

lemma lease_loops_socks [socket_rules]:
  "revoke_loop os is c n = Ok n' \<Longrightarrow> open_socks n' = open_socks n"
  "keep_alive_loop os is c n = Ok n' \<Longrightarrow> open_socks n' = open_socks n"
  by (induction "is" arbitrary: n) (fastforce simp: cxx_simps split: if_splits dest!: socket_rules)+

lemma register_service_socks [socket_rules]:
  "register_service os service host p ttl c n = Ok (r, c', n') \<Longrightarrow> open_socks n' = open_socks n"
  by (auto simp: register_service_def cxx_simps Let_def split: if_splits dest!: socket_rules)

lemma registry_step_socks:
  "registry_step os op (c, n) = Ok (c', n') \<Longrightarrow> open_socks n' = open_socks n"
  by (cases op)
    (auto simp: cxx_simps unregister_service_def discover_def watch_turn_def stop_def heartbeat_turn_def Let_def
      split: if_splits dest!: socket_rules)

section \<open>Reading the endpoints\<close>

text \<open>An occurrence found in \<open>g @ pat\<close> no earlier than at its end is the first one in any text that
  goes on from there.\<close>

lemma find_sub_first:
  "find_sub pat (g @ pat) = Some (length g) \<Longrightarrow> find_sub pat (g @ pat @ r) = Some (length g)"
proof (induction g)
  case Nil
  then show ?case by (simp add: find_sub_prefix)
next
  case (Cons c g)
  from Cons.prems have np: "\<not> prefix pat (c # g @ pat)" and f: "find_sub pat (g @ pat) = Some (length g)"
    by (auto split: if_splits)
  have "\<not> prefix pat (c # g @ pat @ r)"
  proof
    assume "prefix pat (c # g @ pat @ r)"
    moreover have "prefix (c # g @ pat) (c # g @ pat @ r)" by simp
    ultimately have "prefix pat (c # g @ pat) \<or> prefix (c # g @ pat) pat" by (rule prefix_same_cases)
    with np have "prefix (c # g @ pat) pat" by blast
    then have "length (c # g @ pat) \<le> length pat" by (rule prefix_length_le)
    then show False by simp
  qed
  with Cons.IH [OF f] show ?case by simp
qed

lemma value_mark_eq: "value_mark = CHR 0x22 # ''value'' @ [CHR 0x22, CHR '':'', CHR 0x22]"
  by (simp add: value_mark_def quoted_def)

lemma length_value_mark [simp]: "length value_mark = 9"
  by (simp add: value_mark_eq)

text \<open>No mark begins inside a mark or inside the value that follows it.\<close>

lemma find_mark_after:
  assumes "CHR 0x22 \<notin> set enc" and "length enc \<noteq> 5"
  shows "find_sub value_mark (tl value_mark @ enc @ CHR 0x22 # r)
    = map_option ((+) (8 + length enc)) (find_sub value_mark (CHR 0x22 # r))"
proof -
  let ?m = value_mark
  let ?q = "CHR 0x22"
  have h: "hd ?m = ?q" "?m \<noteq> []" by (simp_all add: value_mark_eq)
  have skip: "find_sub ?m (xs @ s) = map_option ((+) (length xs)) (find_sub ?m s)" if "?q \<notin> set xs" for xs s
    using that h by (intro find_sub_skip) simp_all
  have t: "tl ?m @ enc @ ?q # r = ''value'' @ ?q # '':'' @ ?q # enc @ ?q # r"
    by (simp add: value_mark_eq)
  have "\<not> prefix ?m (?q # enc @ ?q # r)"
  proof
    assume "prefix ?m (?q # enc @ ?q # r)"
    then have p: "prefix (''value'' @ [?q, CHR '':'', ?q]) (enc @ ?q # r)" by (simp add: value_mark_eq)
    then obtain z where z: "enc @ ?q # r = (''value'' @ [?q, CHR '':'', ?q]) @ z" by (auto simp: prefix_def)
    have "takeWhile (\<lambda>c. c \<noteq> ?q) (enc @ ?q # r) = enc"
      using assms(1) by (subst takeWhile_append2) auto
    moreover have "takeWhile (\<lambda>c. c \<noteq> ?q) (enc @ ?q # r) = ''value''" by (simp add: z)
    ultimately have "enc = ''value''" by simp
    with assms(2) show False by simp
  qed
  then have a: "find_sub ?m (?q # enc @ ?q # r) = map_option Suc (find_sub ?m (enc @ ?q # r))" by simp
  have b: "find_sub ?m (?q # '':'' @ s) = map_option Suc (find_sub ?m ('':'' @ s))" for s
    by (simp add: value_mark_eq)
  show ?thesis
    unfolding t using assms(1)
    by (subst skip, simp, subst b, subst skip, simp, subst a, subst skip, simp)
      (simp add: option.map_comp comp_def eval_nat_numeral)
qed

lemma find_mark_first:
  "find_sub value_mark (g @ value_mark) = Some (length g) \<Longrightarrow> find_sub value_mark (g @ value_mark @ r) = Some (length g)"
  by (rule find_sub_first)


text \<open>The body of a range answer: some text with \<open>"kvs"\<close>, then the values, each in its quotes and
  followed by text that does not look like the start of a value.\<close>

definition no_mark :: "string \<Rightarrow> bool" where
  "no_mark g \<longleftrightarrow> find_sub value_mark (g @ value_mark) = Some (length g) \<and> find_sub value_mark g = None"

fun kv_text :: "(string \<times> string) list \<Rightarrow> string" where
  "kv_text [] = []"
| "kv_text ((v, g) # kvs) = value_mark @ b64 (map byte_of v) @ CHR 0x22 # g @ kv_text kvs"

definition kv_values :: "(string \<times> string) list \<Rightarrow> bool" where
  "kv_values kvs \<longleftrightarrow> (\<forall>(v, g) \<in> set kvs. no_mark (CHR 0x22 # g) \<and> 4 * ((length v + 2) div 3) < 2 ^ 31)"

lemma b64_no_quote: "CHR 0x22 \<notin> set (b64 bs)"
  by (induction bs rule: b64.induct) (auto dest!: in_set_takeD sextets_less b64_char_noteq)

lemma length_b64_noteq: "length (b64 bs) \<noteq> 5"
proof -
  have "4 dvd length (b64 bs)" by (simp add: length_b64)
  moreover have "\<not> 4 dvd (5::nat)" by presburger
  ultimately show ?thesis by metis
qed

lemma endpoint_at_value:
  assumes "4 * ((length v + 2) div 3) < 2 ^ 31"
  shows "endpoint_at (A @ value_mark @ b64 (map byte_of v) @ CHR 0x22 # r) (length A) = endpoint_of v"
proof -
  let ?e = "b64 (map byte_of v)"
  have q: "find_sub [CHR 0x22] (?e @ CHR 0x22 # r) = Some (length ?e)"
    using b64_no_quote by (rule find_ch_append)
  have f: "find_str (A @ value_mark @ ?e @ CHR 0x22 # r) [CHR 0x22] (length A + 9) = Some (length A + 9 + length ?e)"
    by (simp add: find_str_at_add q)
  have g: "segment (length A + 9) (length ?e) (A @ value_mark @ ?e @ CHR 0x22 # r) = ?e"
    by (simp add: segment_def)
  have d: "base64_decode ?e = Ok v"
    using base64_decode_encode [OF assms] assms base64_encode_b64 [of v] by simp
  show ?thesis
    by (simp add: endpoint_at_def Let_def f g d)
qed

lemma values_loop_kv:
  assumes "kv_values kvs" and "kvs \<noteq> []" and "length kvs \<le> fuel"
    and "\<And>v g. (v, g) \<in> set kvs \<Longrightarrow> endpoint_of v = Ok (Some (f v))"
  shows "values_loop fuel (A @ kv_text kvs) (Some (length A)) eps = Ok (eps @ map (f \<circ> fst) kvs)"
  using assms
proof (induction kvs arbitrary: A eps fuel)
  case Nil
  then show ?case by simp
next
  case (Cons vg kvs)
  obtain v g where vg: "vg = (v, g)" by (cases vg)
  obtain fuel' where fuel: "fuel = Suc fuel'" using Cons.prems(3) by (cases fuel) auto
  let ?e = "b64 (map byte_of v)"
  let ?s = "A @ kv_text (vg # kvs)"
  let ?B = "A @ value_mark @ ?e @ CHR 0x22 # g"
  from Cons.prems(1) have nm: "no_mark (CHR 0x22 # g)" and len: "4 * ((length v + 2) div 3) < 2 ^ 31"
    by (simp_all add: kv_values_def vg)
  have ep: "endpoint_at ?s (length A) = Ok (Some (f v))"
    using endpoint_at_value [OF len, of A "g @ kv_text kvs"] Cons.prems(4) [of v g] by (simp add: vg)
  have "drop 1 (kv_text (vg # kvs)) = tl value_mark @ ?e @ CHR 0x22 # g @ kv_text kvs"
    by (simp add: vg value_mark_eq)
  then have nxt: "find_str ?s value_mark (length A + 1) =
      map_option ((+) (length A + 9 + length ?e)) (find_sub value_mark (CHR 0x22 # g @ kv_text kvs))"
    using find_str_at_add [of 1 "kv_text (vg # kvs)" A value_mark] find_mark_after [OF b64_no_quote length_b64_noteq, of "map byte_of v" "g @ kv_text kvs"]
    by (simp add: vg option.map_comp comp_def add.assoc)
  show ?case
  proof (cases kvs)
    case Nil
    with nxt nm have "find_str ?s value_mark (length A + 1) = None" by (simp add: no_mark_def)
    with ep Nil show ?thesis by (simp add: fuel vg)
  next
    case (Cons vg' kvs')
    then obtain r where r: "kv_text kvs = value_mark @ r" by (cases vg') auto
    have "find_sub value_mark ((CHR 0x22 # g) @ value_mark @ r) = Some (length (CHR 0x22 # g))"
      using nm by (intro find_sub_first) (simp add: no_mark_def)
    then have "find_str ?s value_mark (length A + 1) = Some (length ?B)"
      using nxt by (simp add: r)
    moreover have "?s = ?B @ kv_text kvs" by (simp add: vg)
    moreover have "values_loop fuel' (?B @ kv_text kvs) (Some (length ?B)) (eps @ [f v])
        = Ok ((eps @ [f v]) @ map (f \<circ> fst) kvs)"
      using Cons.prems Cons by (intro Cons.IH) (auto simp: kv_values_def fuel)
    ultimately show ?thesis using ep by (simp add: fuel vg)
  qed
qed


lemma endpoint_of_text:
  assumes "CHR '':'' \<notin> set host" and "0 \<le> p" and "p < 2 ^ 31"
  shows "endpoint_of (host @ '':'' @ dec_int p) = Ok (Some \<lparr>ep_ip = host, ep_port = p, ep_lease_id = 0\<rparr>)"
proof -
  have "atoi (dec_int p) = p" using assms(2,3) atoi_dec_nat [of "nat p"] by (simp add: dec_int_def)
  with find_ch_append [OF assms(1), of "dec_int p"] show ?thesis
    by (simp add: endpoint_of_def segment_def)
qed

lemma length_kv_text: "length kvs \<le> length (kv_text kvs)"
  by (induction kvs) auto

text \<open>The text before the values: the last \<open>"kvs"\<close> tag is found and nothing after it looks like a value.\<close>

definition kv_head :: "string \<Rightarrow> bool" where
  "kv_head h \<longleftrightarrow> (\<exists>i. find_sub (quoted ''kvs'') h = Some i \<and> no_mark (drop i h))"

lemma find_sub_append: "find_sub pat s = Some i \<Longrightarrow> find_sub pat (s @ t) = Some i"
proof -
  assume "find_sub pat s = Some i"
  then show ?thesis
  proof (induction s arbitrary: i)
    case (Cons c s)
    show ?case
    proof (cases "prefix pat (c # s)")
      case True
      then have "prefix pat (c # s @ t)" using prefix_prefix [of pat "c # s" t] by simp
      with Cons.prems True show ?thesis by simp
    next
      case False
      with Cons.prems obtain j where j: "find_sub pat s = Some j" "i = Suc j" by auto
      then have "\<not> prefix pat (c # s @ t)"
      proof -
        from find_sub_Some_D [OF j(1)] have "length pat \<le> length (c # s)" by simp
        moreover have "prefix (c # s) (c # s @ t)" by simp
        ultimately show ?thesis
          using False prefix_length_prefix [of pat "c # s @ t" "c # s"] by blast
      qed
      with Cons.IH j show ?thesis by simp
    qed
  next
    case Nil
    then show ?case by (cases t) (auto split: if_splits)
  qed
qed

lemma parse_kvs_kv:
  assumes "kv_head h" and "kv_values kvs" and "kvs \<noteq> []"
    and "\<And>v g. (v, g) \<in> set kvs \<Longrightarrow> endpoint_of v = Ok (Some (f v))"
  shows "parse_kvs (h @ kv_text kvs) = Ok (map (f \<circ> fst) kvs)"
proof -
  from assms(1) obtain i where i: "find_sub (quoted ''kvs'') h = Some i" and nm: "no_mark (drop i h)"
    by (auto simp: kv_head_def)
  have il: "i \<le> length h" using find_sub_Some_D [OF i] by simp
  have k: "find_str (h @ kv_text kvs) (quoted ''kvs'') 0 = Some i"
    using find_sub_append [OF i] by (simp add: find_str_def)
  obtain r where r: "kv_text kvs = value_mark @ r" using assms(3) by (cases kvs rule: kv_text.cases) auto
  have "find_str (h @ kv_text kvs) value_mark i = Some (length h)"
    using find_sub_first [of value_mark "drop i h" r] nm il by (simp add: find_str_def no_mark_def r)
  moreover have "length kvs \<le> Suc (length (h @ kv_text kvs))" using length_kv_text [of kvs] by simp
  ultimately show ?thesis
    using values_loop_kv [OF assms(2,3) _ assms(4), where A = h and eps = "[]" and fuel = "Suc (length (h @ kv_text kvs))"]
    by (simp add: parse_kvs_def k)
qed

lemma parse_kvs_none: "find_sub (quoted ''kvs'') s = None \<Longrightarrow> parse_kvs s = Ok []"
  by (simp add: parse_kvs_def find_str_def)

section \<open>The range of a prefix\<close>

text \<open>etcd compares keys byte by byte: the order of \<open>List_Lexorder\<close> on characters.\<close>

lemma char_of_Suc_less: "(of_char c :: nat) < 255 \<Longrightarrow> c < char_of (Suc (of_char c))"
  by (simp add: less_char_def)

lemma increment_last_Some:
  "increment_last s i = Some t \<Longrightarrow> i \<le> length s \<Longrightarrow>
    \<exists>j<i. (of_char (s ! j) :: nat) < 255 \<and> t = take j s @ [char_of (Suc (of_char (s ! j)))]
      \<and> (\<forall>k. j < k \<and> k < i \<longrightarrow> (of_char (s ! k) :: nat) = 255)"
proof (induction i)
  case (Suc i)
  show ?case
  proof (cases "(of_char (s ! i) :: nat) < 255")
    case True
    with Suc.prems show ?thesis by (intro exI [of _ i]) auto
  next
    case False
    then have "(of_char (s ! i) :: nat) = 255" using of_char_less_256 [of "s ! i"] by linarith
    with False Suc show ?thesis by (fastforce simp: less_Suc_eq)
  qed
qed simp


lemma next_char:
  assumes "(of_char c :: nat) < 255"
  shows "d < char_of (Suc (of_char c)) \<longleftrightarrow> d \<le> c"
  using assms by (auto simp: less_char_def less_eq_char_def)

lemma top_chars_le:
  "(\<And>c. c \<in> set r \<Longrightarrow> (of_char c :: nat) = 255) \<Longrightarrow> r \<le> k \<longleftrightarrow> prefix r k"
proof (induction r arbitrary: k)
  case (Cons c r)
  have top: "\<not> c < d" for d
  proof -
    have "(of_char c :: nat) = 255" using Cons.prems [of c] by simp
    moreover have "(of_char d :: nat) < 256" by (rule of_char_less_256)
    ultimately show ?thesis unfolding less_char_def by linarith
  qed
  show ?case
  proof (cases k)
    case (Cons d k')
    with Cons.prems Cons.IH [of k'] top show ?thesis by auto
  qed simp
qed simp

lemma range_of_prefix:
  assumes "(of_char c :: nat) < 255" and "\<And>c. c \<in> set r \<Longrightarrow> (of_char c :: nat) = 255"
  shows "a @ c # r \<le> k \<and> k < a @ [char_of (Suc (of_char c))] \<longleftrightarrow> prefix (a @ c # r) k"
proof (induction a arbitrary: k)
  case Nil
  show ?case
  proof (cases k)
    case (Cons d k')
    with next_char [OF assms(1), of d] top_chars_le [of r k'] assms(2) show ?thesis by auto
  qed simp
next
  case (Cons x a)
  show ?case
  proof (cases k)
    case (Cons d k')
    with Cons.IH [of k'] show ?thesis by auto
  qed simp
qed

lemma range_end_exact:
  assumes "p \<noteq> []" and "length p < 2 ^ 31" and "\<exists>c\<in>set p. (of_char c :: nat) < 255"
  shows "p \<le> k \<and> k < range_end p \<longleftrightarrow> prefix p k"
proof -
  have n: "nat (cut32 (int (length p) - 1) + 1) = length p"
    using assms(1,2) by (subst cut32_small) (auto simp: Suc_le_eq)
  have "increment_last p (length p) \<noteq> None"
  proof
    assume none: "increment_last p (length p) = None"
    have "increment_last p i = None \<Longrightarrow> j < i \<Longrightarrow> \<not> (of_char (p ! j) :: nat) < 255" for i j
      by (induction i) (auto split: if_splits simp: less_Suc_eq)
    with none assms(3) show False by (auto simp: in_set_conv_nth)
  qed
  then obtain t where t: "increment_last p (length p) = Some t" by auto
  from increment_last_Some [OF this] obtain j where j: "j < length p" "(of_char (p ! j) :: nat) < 255"
    "t = take j p @ [char_of (Suc (of_char (p ! j)))]"
    "\<And>k. j < k \<Longrightarrow> k < length p \<Longrightarrow> (of_char (p ! k) :: nat) = 255"
    by auto
  have top: "(of_char c :: nat) = 255" if "c \<in> set (drop (Suc j) p)" for c
    using that j(4) by (auto simp: in_set_conv_nth)
  have "take j p @ p ! j # drop (Suc j) p = p" using j(1) by (rule id_take_nth_drop [symmetric])
  with range_of_prefix [OF j(2), of "drop (Suc j) p" "take j p" k] top show ?thesis
    using j(3) assms(1) by (simp add: range_end_def n t)
qed

section \<open>The registered services\<close>

text \<open>No key twice, and every entry is under the key of its own endpoint with the lease etcd granted.\<close>

definition services_inv :: "(string \<times> ServiceEndpoint) list \<Rightarrow> bool" where
  "services_inv xs \<longleftrightarrow> distinct (map fst xs)
     \<and> (\<forall>(key, ep) \<in> set xs. 0 < ep_lease_id ep
          \<and> (\<exists>service. key = get_service_key service (ep_ip ep) (ep_port ep)))"

abbreviation registry_inv :: "EtcdRegistryClient \<Rightarrow> bool" where
  "registry_inv c \<equiv> services_inv (registered_services c)"

lemma set_update: "x \<in> set (AList.update k v al) \<Longrightarrow> x = (k, v) \<or> x \<in> set al"
  by (induction al) (auto split: if_splits)

lemma services_inv_update:
  "services_inv xs \<Longrightarrow> 0 < ep_lease_id ep \<Longrightarrow> key = get_service_key service (ep_ip ep) (ep_port ep)
    \<Longrightarrow> services_inv (AList.update key ep xs)"
  by (auto simp: services_inv_def distinct_update dest!: set_update)

lemma create_lease_services:
  "create_lease os ttl c n = Ok (i, c', n') \<Longrightarrow> registered_services c' = registered_services c
    \<and> (0 < i \<longrightarrow> current_lease_id c' = i)"
  by (auto simp: create_lease_def cxx_simps split: option.splits)

lemma register_service_services:
  assumes "register_service os service host p ttl c n = Ok (r, c', n')"
  shows "if r then 0 < current_lease_id c' \<and> registered_services c' =
      AList.update (get_service_key service host p)
        \<lparr>ep_ip = host, ep_port = p, ep_lease_id = current_lease_id c'\<rparr> (registered_services c)
    else registered_services c' = registered_services c"
  using assms
  by (auto simp: register_service_def cxx_simps Let_def split: if_splits dest!: create_lease_services)

lemma unregister_loop_services:
  "unregister_loop os service eps c n = Ok (c', n') \<Longrightarrow>
     registered_services c' = fold (\<lambda>ep. AList.delete (get_service_key service (ep_ip ep) (ep_port ep))) eps (registered_services c)"
  by (induction eps arbitrary: c n) (auto simp: cxx_simps Let_def)

lemma fold_delete_set:
  "x \<in> set (fold (\<lambda>ep. AList.delete (key ep)) eps al) \<longleftrightarrow> x \<in> set al \<and> fst x \<notin> key ` set eps"
  by (induction eps arbitrary: al) (auto simp: AList.delete_eq)

lemma fold_delete_distinct:
  "distinct (map fst al) \<Longrightarrow> distinct (map fst (fold (\<lambda>ep. AList.delete (key ep)) eps al))"
  by (induction eps arbitrary: al) (auto simp: distinct_delete)

lemma registry_step_inv:
  assumes "registry_step os op (c, n) = Ok (c', n')" and "registry_inv c"
  shows "registry_inv c'"
proof (cases op)
  case (Register service host p ttl)
  with assms(1) obtain r where "register_service os service host p ttl c n = Ok (r, c', n')"
    by (auto simp: cxx_simps)
  from register_service_services [OF this] assms(2) show ?thesis
    by (auto intro!: services_inv_update split: if_splits)
next
  case (Unregister service)
  with assms(1) obtain eps n1 where "unregister_loop os service eps c n1 = Ok (c', n')"
    by (auto simp: cxx_simps unregister_service_def)
  from unregister_loop_services [OF this] assms(2) show ?thesis
    by (auto simp: services_inv_def fold_delete_distinct fold_delete_set)
qed (use assms in \<open>auto simp: cxx_simps services_inv_def watch_def watch_keys_def start_def stop_def set_endpoint_def
      enable_auto_heartbeat_def set_heartbeat_interval_def Let_def split: if_splits\<close>)

lemma registry_run_inv:
  "registry_run os ops s = Ok s' \<Longrightarrow> registry_inv (fst s) \<Longrightarrow> registry_inv (fst s') \<and> open_socks (snd s') = open_socks (snd s)"
proof (induction ops arbitrary: s)
  case (Cons op ops)
  obtain c n where s: "s = (c, n)" by (cases s)
  from Cons.prems obtain c' n' where st: "registry_step os op (c, n) = Ok (c', n')"
    and r: "registry_run os ops (c', n') = Ok s'"
    by (auto simp: s cxx_simps)
  have "registry_inv c'" using registry_step_inv [OF st] Cons.prems(2) by (simp add: s)
  with Cons.IH [OF r] registry_step_socks [OF st] show ?case by (simp add: s)
qed simp

text \<open>An operating system for the examples: every call succeeds, and each connection reads the next
  of a list of prepared answers.\<close>

definition prepared :: "string list os" where
  "prepared = \<lparr>os_socket = \<lambda>e. (3, e), os_resolve = \<lambda>host e. (Some ''host'', e),
     os_connect = \<lambda>sock addr p e. (True, e), os_send = \<lambda>sock bytes e. (int (length bytes), e),
     os_reads = 2,
     os_recv = \<lambda>sock k e. case e of [] \<Rightarrow> ([], []) | a # e \<Rightarrow> (a, e)\<rparr>"

definition answer :: "string \<Rightarrow> string list" where
  "answer body = [''HTTP/1.1 200 OK'' @ CRLF @ CRLF @ body, []]"

definition idle_net :: "'e \<Rightarrow> 'e net" where
  "idle_net e = \<lparr>net_log = [], peer = e\<rparr>"

lemma answer_body:
  "find_sub CRLF body = None \<Longrightarrow> http_body (hd (answer body)) = Ok (Some body)"
  by (simp add: http_body_def answer_def CRLF_def find_str_def)

lemma recv_prepared:
  assumes "NUL \<notin> set body" and "length body < 8000"
    and "peer n = answer body @ e"
  shows "recv_loop 2 prepared sock [] n = Ok (hd (answer body), n\<lparr>peer := e\<rparr>)"
proof -
  have "c_str (hd (answer body)) = hd (answer body)"
    using assms(1) by (intro c_str_id) (auto simp: answer_def CRLF_def NUL_def)
  then show ?thesis
    using assms(2,3) by (simp add: prepared_def answer_def CRLF_def numeral_2_eq_2)
qed

lemma prepared_request:
  assumes "NUL \<notin> set body" and "find_sub CRLF body = None" and "length body < 8000"
    and "peer n = answer body @ e"
  shows "\<exists>n'. send_http_request prepared ''127.0.0.1:2379'' path req n = Ok (Some body, n') \<and> peer n' = e"
proof -
  have "parse_endpoint ''127.0.0.1:2379'' = Ok (''127.0.0.1'', 2379)"
    by (simp add: parse_endpoint_def starts_with_def find_str_def segment_def atoi_def c_str_def strtol_prefix_def
        is_space_def is_digit_def digits_val_def digit_val_def clamp64_def cut32_def NUL_def)
  moreover have "os_reads prepared = 2" by (simp add: prepared_def)
  moreover have "peer n = answer body @ e" by (rule assms)
  ultimately show ?thesis
    using recv_prepared [OF assms(1,3), where sock = 3 and e = e, unfolded prepared_def] answer_body [OF assms(2)]
    by (simp add: send_http_request_def create_tcp_socket_def prepared_def record_event_def)
qed

section \<open>The scan of an answer ends\<close>

definition settled :: "'a cxx \<Rightarrow> bool" where
  "settled m \<longleftrightarrow> returns m \<or> m = Undefined"

lemma settled_simps [simp]: "settled (Ok x)" "settled Undefined" "\<not> settled (Throws e)" "\<not> settled Out_of_fuel"
  by (simp_all add: settled_def)

lemma settled_cbind [intro]: "settled m \<Longrightarrow> (\<And>x. m = Ok x \<Longrightarrow> settled (f x)) \<Longrightarrow> settled (cbind m f)"
  by (cases m) auto

lemma settled_sextets: "settled (sextets_of s)"
  by (induction s) (auto simp: sextet_of_def split: option.splits)

lemma settled_decode_loop: "settled (decode_loop s arr ret)"
  by (induction s arr ret rule: decode_loop.induct) (auto simp: Let_def settled_sextets)

lemma settled_base64_decode: "settled (base64_decode s)"
proof -
  have "settled (decode_rest arr)" for arr
    by (auto simp: decode_rest_def Let_def settled_sextets)
  then show ?thesis
    by (auto simp: base64_decode_def Let_def intro!: settled_cbind settled_decode_loop)
qed

lemma settled_endpoint_at: "settled (endpoint_at s pos)"
proof (cases "find_str s [CHR 0x22] (pos + 9)")
  case (Some e)
  have "settled (endpoint_of d)" for d
    by (auto simp: endpoint_of_def split: option.splits dest!: find_sub_Some_D)
  with Some find_str_bounds [OF Some] show ?thesis
    by (auto simp: endpoint_at_def Let_def settled_base64_decode)
qed (simp add: endpoint_at_def)

lemma settled_values_loop:
  "(\<forall>i. pos = Some i \<longrightarrow> i < length s \<and> length s - i < fuel) \<Longrightarrow> settled (values_loop fuel s pos eps)"
proof (induction fuel s pos eps rule: values_loop.induct)
  case (3 fuel s i eps)
  show ?case
  proof (simp, rule settled_cbind)
    show "settled (endpoint_at s i)" by (rule settled_endpoint_at)
    fix ep
    assume ep: "endpoint_at s i = Ok ep"
    have "i < j \<and> j < length s" if "find_str s value_mark (Suc i) = Some j" for j
      using find_str_bounds [OF that] by simp
    with 3 ep show "settled (values_loop fuel s (find_str s value_mark (Suc i))
        (case ep of None \<Rightarrow> eps | Some ep \<Rightarrow> eps @ [ep]))"
      by fastforce
  qed
qed simp_all

lemma settled_parse_kvs: "settled (parse_kvs s)"
proof (cases "find_str s (quoted ''kvs'') 0")
  case (Some k)
  have "settled (values_loop (Suc (length s)) s (find_str s value_mark k) [])"
    by (rule settled_values_loop) (auto dest: find_str_bounds)
  with Some show ?thesis by (simp add: parse_kvs_def)
qed (simp add: parse_kvs_def)

section \<open>Properties\<close>


definition grant_answer :: string where
  "grant_answer = ''{'' @ quoted ''ID'' @ '':'' @ quoted ''77'' @ ''}''"

definition sample_peer :: "string list" where
  "sample_peer = answer grant_answer @ answer ''{}''"

lemma sample_register:
  "\<exists>c n. register_service prepared ''Echo'' ''10.0.0.1'' 80 30 new_EtcdRegistryClient (idle_net sample_peer) = Ok (True, c, n)"
proof -
  let ?c = new_EtcdRegistryClient
  have e: "etcd_endpoint ?c = ''127.0.0.1:2379''" by (simp add: new_EtcdRegistryClient_def)
  have g: "NUL \<notin> set grant_answer" "find_sub CRLF grant_answer = None" "length grant_answer < 8000"
    by (simp_all add: grant_answer_def quoted_def CRLF_def NUL_def)
  obtain n1 where "send_http_request prepared (etcd_endpoint ?c) ''/v3/lease/grant'' (etcd_v3_lease_grant_json 30)
      (idle_net sample_peer) = Ok (Some grant_answer, n1)" and n1: "peer n1 = answer ''{}''"
    using prepared_request [OF g, of "idle_net sample_peer" "answer ''{}''"]
    by (auto simp: e idle_net_def sample_peer_def)
  moreover have "lease_id_of grant_answer = Ok (Some 77)"
    by (simp add: lease_id_of_def grant_answer_def quoted_def find_str_def is_digit_def digits_val_def digit_val_def Let_def)
  ultimately have l: "create_lease prepared 30 ?c (idle_net sample_peer) = Ok (77, ?c\<lparr>current_lease_id := 77\<rparr>, n1)"
    by (simp add: create_lease_def)
  have "\<exists>body. etcd_v3_put_json (get_service_key ''Echo'' ''10.0.0.1'' 80) (''10.0.0.1'' @ '':'' @ dec_int 80) 77 = Ok body"
  proof -
    have "length (dec_int 80) \<le> 2" using length_dec_nat [of 80 1] by (simp add: dec_int_def)
    then show ?thesis by (simp add: etcd_v3_put_json_def get_service_key_def base64_encode_b64)
  qed
  then obtain body where b: "etcd_v3_put_json (get_service_key ''Echo'' ''10.0.0.1'' 80) (''10.0.0.1'' @ '':'' @ dec_int 80) 77 = Ok body"
    by blast
  obtain n2 where "send_http_request prepared (etcd_endpoint ?c) ''/v3/kv/put'' body n1 = Ok (Some ''{}'', n2)"
    using prepared_request [of "''{}''" n1 "[]" "''/v3/kv/put''" body] n1 by (auto simp: e CRLF_def NUL_def)
  then have "put_key prepared (get_service_key ''Echo'' ''10.0.0.1'' 80) (''10.0.0.1'' @ '':'' @ dec_int 80) 77
      (?c\<lparr>current_lease_id := 77\<rparr>) n1 = Ok (True, n2)"
    using b by (simp add: put_key_def quoted_def find_str_def)
  with l show ?thesis by (simp add: register_service_def Let_def del: append.simps)
qed


text \<open>\<open>register_service\<close> that returns true has recorded the endpoint under its key with the lease
  just granted, over any earlier entry of that key and leaving the others; one that returns false
  has recorded nothing.\<close>

theorem register_service_outcome:
  assumes "register_service os service host p ttl c n = Ok (r, c', n')"
  shows "map_of (registered_services c') =
    (if r then (map_of (registered_services c))(get_service_key service host p
        \<mapsto> \<lparr>ep_ip = host, ep_port = p, ep_lease_id = current_lease_id c'\<rparr>)
     else map_of (registered_services c))"
  using register_service_services [OF assms] by (auto simp: update_conv split: if_splits)

theorem register_service_outcome_witness:
  "\<exists>c n. register_service prepared ''Echo'' ''10.0.0.1'' 80 30 new_EtcdRegistryClient (idle_net sample_peer) = Ok (True, c, n)
    \<and> map_of (registered_services c) = [get_service_key ''Echo'' ''10.0.0.1'' 80
        \<mapsto> \<lparr>ep_ip = ''10.0.0.1'', ep_port = 80, ep_lease_id = current_lease_id c\<rparr>]"
proof -
  obtain c n where r: "register_service prepared ''Echo'' ''10.0.0.1'' 80 30 new_EtcdRegistryClient
      (idle_net sample_peer) = Ok (True, c, n)"
    using sample_register by blast
  have "registered_services new_EtcdRegistryClient = []" by (simp add: new_EtcdRegistryClient_def)
  with register_service_outcome [OF r] r show ?thesis by auto
qed

text \<open>What etcd lists for endpoints that were registered, with the text that follows each value.\<close>

definition listed :: "((string \<times> int) \<times> string) list \<Rightarrow> (string \<times> string) list" where
  "listed = map (\<lambda>((host, p), g). (host @ '':'' @ dec_int p, g))"

text \<open>\<open>discover\<close> finds what was registered: when the answer of etcd lists values that
  \<open>register_service\<close> wrote (an address, a colon, a port), whatever else it says between them, the
  result is exactly those addresses and ports, in the order of the answer.\<close>

theorem discover_finds_registered:
  assumes "etcd_v3_range_json (get_prefix service) = Ok body"
    and "send_http_request os (etcd_endpoint c) ''/v3/kv/range'' body n = Ok (Some (h @ kv_text (listed eps)), n')"
    and "kv_head h" and "kv_values (listed eps)" and "eps \<noteq> []"
    and "\<forall>((host, p), g) \<in> set eps. CHR '':'' \<notin> set host \<and> 0 \<le> p \<and> p < 2 ^ 31"
  shows "discover os service c n
    = Ok (map (\<lambda>((host, p), g). \<lparr>ep_ip = host, ep_port = p, ep_lease_id = 0\<rparr>) eps, n')"
proof -
  let ?f = "\<lambda>v. case endpoint_of v of Ok (Some ep) \<Rightarrow> ep"
  have ep: "endpoint_of (host @ '':'' @ dec_int p) = Ok (Some \<lparr>ep_ip = host, ep_port = p, ep_lease_id = 0\<rparr>)"
    if "((host, p), g) \<in> set eps" for host p g
    using assms(6) that by (intro endpoint_of_text) auto
  have "endpoint_of v = Ok (Some (?f v))" if "(v, g) \<in> set (listed eps)" for v g
    using that ep by (auto simp: listed_def)
  then have "parse_kvs (h @ kv_text (listed eps)) = Ok (map (?f \<circ> fst) (listed eps))"
    using assms(5) by (intro parse_kvs_kv [OF assms(3,4)]) (auto simp: listed_def)
  also have "map (?f \<circ> fst) (listed eps) = map (\<lambda>((host, p), g). \<lparr>ep_ip = host, ep_port = p, ep_lease_id = 0\<rparr>) eps"
    using ep by (auto simp: listed_def)
  finally show ?thesis by (simp add: discover_def get_keys_def assms(1,2))
qed

lemma char_of_eq: "of_char c = n \<Longrightarrow> char_of (n :: nat) = c"
  by (metis char_of_char)

lemma dec_sample: "dec_int 80 = ''80''" "dec_int 81 = ''81''"
  using char_of_eq [of "CHR ''8''" 56] char_of_eq [of "CHR ''0''" 48] char_of_eq [of "CHR ''1''" 49]
  by (simp_all add: dec_int_def dec_nat.simps digit_def)

lemma set_b64: "c \<in> set (b64 bs) \<Longrightarrow> c \<in> set base64_chars \<or> c = CHR ''=''"
proof -
  have "b64_char x \<in> set base64_chars" if "x < 64" for x
    using that by (simp add: b64_char_def word_less_nat_alt length_base64_chars)
  then show "c \<in> set (b64 bs) \<Longrightarrow> ?thesis"
    by (induction bs rule: b64.induct) (auto dest!: in_set_takeD sextets_less)
qed

lemma no_CR: "CHR 0x0D \<notin> set s \<Longrightarrow> find_sub CRLF s = None"
  by (induction s) (auto simp: CRLF_def)

lemma length_increment_last: "increment_last s i = Some t \<Longrightarrow> length t \<le> i"
  by (induction i) (auto split: if_splits)

lemma range_json_ok:
  assumes "Suc (length p) < 2 ^ 31"
  shows "\<exists>body. etcd_v3_range_json p = Ok body"
proof -
  have n: "nat (cut32 (int (length p) - 1) + 1) = length p" if "p \<noteq> []"
    using that assms by (subst cut32_small) (auto simp: Suc_le_eq)
  have "length (range_end p) \<le> Suc (length p)"
    by (auto simp: range_end_def n dest: length_increment_last split: option.split)
  then show ?thesis
    using assms by (simp add: etcd_v3_range_json_def base64_encode_b64)
qed

definition sample_listing :: "((string \<times> int) \<times> string) list" where
  "sample_listing = [((''10.0.0.1'', 80), ''},{'' @ quoted ''key'' @ '':'' @ quoted ''L3dm'' @ '',''), ((''10.0.0.2'', 81), ''}]}'')]"

definition sample_head :: string where
  "sample_head = ''{'' @ quoted ''kvs'' @ '':[{''"

lemma sample_listing_facts:
  "kv_head sample_head" "kv_values (listed sample_listing)"
proof -
  show "kv_head sample_head"
    by (simp add: kv_head_def sample_head_def no_mark_def value_mark_def quoted_def)
  show "kv_values (listed sample_listing)"
    by (simp add: kv_values_def listed_def sample_listing_def no_mark_def value_mark_def quoted_def dec_sample)
qed

theorem discover_finds_registered_witness:
  "\<exists>n'. discover prepared ''Echo'' new_EtcdRegistryClient (idle_net (answer (sample_head @ kv_text (listed sample_listing))))
    = Ok ([\<lparr>ep_ip = ''10.0.0.1'', ep_port = 80, ep_lease_id = 0\<rparr>, \<lparr>ep_ip = ''10.0.0.2'', ep_port = 81, ep_lease_id = 0\<rparr>], n')"
proof -
  let ?b = "sample_head @ kv_text (listed sample_listing)"
  obtain body where body: "etcd_v3_range_json (get_prefix ''Echo'') = Ok body"
    using range_json_ok [of "get_prefix ''Echo''"] by (auto simp: get_prefix_def)
  have "CHR 0x0D \<notin> set (b64 bs)" "NUL \<notin> set (b64 bs)" for bs
    using set_b64 by (fastforce simp: base64_chars_def NUL_def)+
  then have b: "NUL \<notin> set ?b" "CHR 0x0D \<notin> set ?b"
    by (simp_all add: sample_head_def sample_listing_def listed_def quoted_def value_mark_def NUL_def del: b64.simps)
  have l: "length ?b < 8000"
    by (simp add: sample_head_def sample_listing_def listed_def quoted_def length_b64 dec_sample del: b64.simps)
  obtain n' where "send_http_request prepared (etcd_endpoint new_EtcdRegistryClient) ''/v3/kv/range'' body (idle_net (answer ?b)) = Ok (Some ?b, n')"
    using prepared_request [OF b(1) no_CR [OF b(2)] l, of "idle_net (answer ?b)" "[]"] by (auto simp: new_EtcdRegistryClient_def idle_net_def)
  from discover_finds_registered [OF body this sample_listing_facts] show ?thesis
    by (auto simp: sample_listing_def)
qed

text \<open>The range requested for a prefix covers the keys with that prefix and no other: the upper
  bound the client computes is the least key above all of them, also when trailing bytes are 0xFF,
  as long as not every byte is.\<close>

theorem range_is_prefix:
  assumes "p \<noteq> []" and "length p < 2 ^ 31" and "\<exists>c\<in>set p. (of_char c :: nat) < 255"
  shows "p \<le> key \<and> key < range_end p \<longleftrightarrow> prefix p key"
  by (rule range_end_exact [OF assms])

theorem range_is_prefix_witness:
  "get_prefix ''Echo'' \<le> get_service_key ''Echo'' ''10.0.0.1'' 80
    \<and> get_service_key ''Echo'' ''10.0.0.1'' 80 < range_end (get_prefix ''Echo'')"
  using range_is_prefix [of "get_prefix ''Echo''" "get_service_key ''Echo'' ''10.0.0.1'' 80"]
  by (simp add: get_prefix_def get_service_key_def)

text \<open>\<open>unregister_service\<close> always reports success. It drops from the record exactly the endpoints
  that etcd listed for the service: when etcd is out of reach, nothing, and the heartbeat goes on;
  and it asks etcd to delete every endpoint listed, those of other hosts included.\<close>

theorem unregister_service_outcome:
  assumes "get_keys os (get_prefix service) c n = Ok (eps, n1)"
    and "unregister_service os service c n = Ok (r, c', n')"
  shows "r \<and> set (registered_services c') = {(key, ep). (key, ep) \<in> set (registered_services c)
       \<and> key \<notin> (\<lambda>ep. get_service_key service (ep_ip ep) (ep_port ep)) ` set eps}
    \<and> (eps = [] \<longrightarrow> c' = c)"
proof -
  from assms have r: "r" and l: "unregister_loop os service eps c n1 = Ok (c', n')"
    by (auto simp: unregister_service_def cxx_simps)
  have "eps = [] \<Longrightarrow> c' = c" using l by simp
  with r unregister_loop_services [OF l] show ?thesis
    by (auto simp: fold_delete_set)
qed

definition unreachable :: "unit os" where
  "unreachable = \<lparr>os_socket = \<lambda>e. (-1, e), os_resolve = \<lambda>host e. (None, e),
     os_connect = \<lambda>sock addr p e. (False, e), os_send = \<lambda>sock bytes e. (-1, e),
     os_reads = 1, os_recv = \<lambda>sock k e. ([], e)\<rparr>"

definition client_with_service :: EtcdRegistryClient where
  "client_with_service = new_EtcdRegistryClient\<lparr>running := True, registered_services :=
     [(get_service_key ''Echo'' ''h'' 1, \<lparr>ep_ip = ''h'', ep_port = 1, ep_lease_id = 5\<rparr>)]\<rparr>"

lemma unreachable_keys:
  assumes "Suc (length (get_prefix service)) < 2 ^ 31" and "parse_endpoint (etcd_endpoint c) = Ok hp"
  shows "get_keys unreachable (get_prefix service) c n = Ok ([], n)"
proof -
  obtain body where "etcd_v3_range_json (get_prefix service) = Ok body"
    using range_json_ok [OF assms(1)] by blast
  moreover obtain host p where "hp = (host, p)" by (cases hp)
  ultimately show ?thesis
    using assms(2) by (simp add: get_keys_def send_http_request_def create_tcp_socket_def unreachable_def Let_def)
qed

theorem unregister_service_outcome_witness:
  "unregister_service unreachable ''Echo'' client_with_service (idle_net ()) = Ok (True, client_with_service, idle_net ())
    \<and> set (registered_services client_with_service)
        = {(get_service_key ''Echo'' ''h'' 1, \<lparr>ep_ip = ''h'', ep_port = 1, ep_lease_id = 5\<rparr>)}"
proof -
  have p: "\<exists>hp. parse_endpoint (etcd_endpoint client_with_service) = Ok hp"
    by (simp add: client_with_service_def new_EtcdRegistryClient_def parse_endpoint_def starts_with_def find_str_def)
  then have k: "get_keys unreachable (get_prefix ''Echo'') client_with_service (idle_net ()) = Ok ([], idle_net ())"
    using unreachable_keys [of "''Echo''" client_with_service] by (auto simp: get_prefix_def)
  then have u: "unregister_service unreachable ''Echo'' client_with_service (idle_net ()) = Ok (True, client_with_service, idle_net ())"
    by (simp add: unregister_service_def)
  from unregister_service_outcome [OF k u] u show ?thesis by (simp add: client_with_service_def)
qed

text \<open>The scan of an answer always ends, whatever the answer, with a list of endpoints or on a
  value that is not base64 text; it never reads outside the answer.\<close>

theorem parse_kvs_ends:
  "(\<exists>eps. parse_kvs response = Ok eps) \<or> parse_kvs response = Undefined"
  using settled_parse_kvs [of response] by (simp add: settled_def returns_def)

text \<open>A second \<open>watch\<close> takes over the callback: the thread of the first goes on watching its
  service, and hands that service's endpoints to the callback of the second.\<close>

theorem watch_callback_replaced:
  "let c' = watch b (Some cb2) (watch a (Some cb1) c)
   in registry_threads c' = registry_threads c @ [Watch_thread (get_prefix a), Watch_thread (get_prefix b)]
    \<and> watch_turn os (get_prefix a) c' n =
       (if running c then cbind (get_keys os (get_prefix a) c' n) (\<lambda>(eps, n). Ok (Some (Some cb2, eps), n))
        else Ok (None, n))"
  by (simp add: watch_def watch_keys_def watch_turn_def)

end
