(* ===== verification/Upstreams.thy ===== *)
theory Upstreams
  imports Cxx_Strings Name_Table
begin

text \<open>
  The name service of the transport library (\<open>workflow/src/nameservice/WFNameService.cc\<close>) and the
  upstream manager on top of it (\<open>workflow/src/manager/UpstreamManager.cc\<close>), as far as the RPC
  program uses them: which upstreams exist and which servers each one has. How a policy chooses a
  server is not modelled. Every operation holds the lock of the object it works on, so it is one
  step.
\<close>

section \<open>Policies\<close>

record AddressParams =
  dns_ttl_default :: nat
  dns_ttl_min :: nat
  max_fails :: nat
  weight :: nat
  server_type :: int
  group_id :: int

definition ADDRESS_PARAMS_DEFAULT :: AddressParams where
  "ADDRESS_PARAMS_DEFAULT = \<lparr>dns_ttl_default = 12 * 3600, dns_ttl_min = 180, max_fails = 200,
     weight = 1, server_type = 0, group_id = -1\<rparr>"

text \<open>What a policy keeps of the parameters of a server (\<open>UPSAddrParams\<close>, whose type is a \<open>short\<close>, and \<open>max_fails\<close> as the
  constructor of \<open>EndpointAddress\<close> leaves it).\<close>

definition UPSAddrParams :: "AddressParams \<Rightarrow> AddressParams" where
  "UPSAddrParams p =
     (let p = p\<lparr>server_type := sint (word_of_int (server_type p) :: 16 word)\<rparr>;
          p = (if group_id p < 0 then p\<lparr>group_id := -1\<rparr> else p);
          p = (if weight p = 0 then p\<lparr>weight := 1\<rparr> else p)
      in if max_fails p = 0 then p\<lparr>max_fails := 1\<rparr> else p)"

datatype policy_kind = Round_robin | Weighted_random | Consistent_hash | VNSWRR | Manual

record UPSGroupPolicy =
  kind :: policy_kind
  try_another :: bool
  ups_servers :: "(string \<times> AddressParams) list"

definition new_policy :: "policy_kind \<Rightarrow> bool \<Rightarrow> UPSGroupPolicy" where
  "new_policy k another = \<lparr>kind = k, try_another = another, ups_servers = []\<rparr>"

definition policy_add_server :: "string \<Rightarrow> AddressParams \<Rightarrow> UPSGroupPolicy \<Rightarrow> UPSGroupPolicy" where
  "policy_add_server address params p = p\<lparr>ups_servers := ups_servers p @ [(address, UPSAddrParams params)]\<rparr>"

text \<open>All servers of the address go; the result is their number.\<close>

definition policy_remove_server :: "string \<Rightarrow> UPSGroupPolicy \<Rightarrow> int \<times> UPSGroupPolicy" where
  "policy_remove_server address p =
     (int (length (filter (\<lambda>(a, _). a = address) (ups_servers p))),
      p\<lparr>ups_servers := filter (\<lambda>(a, _). a \<noteq> address) (ups_servers p)\<rparr>)"

definition policy_replace_server :: "string \<Rightarrow> AddressParams \<Rightarrow> UPSGroupPolicy \<Rightarrow> int \<times> UPSGroupPolicy" where
  "policy_replace_server address params p =
     (let (ret, p) = policy_remove_server address p in (ret, policy_add_server address params p))"

definition get_main_address :: "UPSGroupPolicy \<Rightarrow> string list" where
  "get_main_address p = map fst (filter (\<lambda>(a, q). server_type q = 0) (ups_servers p))"

section \<open>The name service\<close>

text \<open>
  \<open>strcasecmp\<close> compares C strings with ASCII letters in lower case; a difference of 0 is equality
  of the folded names. The search tree holds one policy per folded name.
\<close>

definition tolower :: "char \<Rightarrow> char" where
  "tolower c = (if 65 \<le> (of_char c :: nat) \<and> (of_char c :: nat) \<le> 90 then char_of ((of_char c :: nat) + 32) else c)"

definition fold_name :: "string \<Rightarrow> string" where
  "fold_name name = map tolower (c_str name)"

type_synonym WFNameService = "string \<Rightarrow> UPSGroupPolicy option"

definition add_policy :: "string \<Rightarrow> UPSGroupPolicy \<Rightarrow> WFNameService \<Rightarrow> (errno + unit) \<times> WFNameService" where
  "add_policy name p ns =
     (case ns (fold_name name) of
        None \<Rightarrow> (Inr (), ns(fold_name name \<mapsto> p))
      | Some _ \<Rightarrow> (Inl EEXIST, ns))"

definition get_policy :: "string \<Rightarrow> WFNameService \<Rightarrow> UPSGroupPolicy option" where
  "get_policy name ns = ns (fold_name name)"

definition del_policy :: "string \<Rightarrow> WFNameService \<Rightarrow> UPSGroupPolicy option \<times> WFNameService" where
  "del_policy name ns = (ns (fold_name name), ns(fold_name name := None))"

section \<open>The upstream manager\<close>

text \<open>\<open>Inl e\<close> is -1 with \<open>errno\<close>; a name without an entry gets the default policy, which is not a
  group of servers.\<close>

definition upstream_create :: "policy_kind \<Rightarrow> bool \<Rightarrow> string \<Rightarrow> WFNameService \<Rightarrow> (errno + unit) \<times> WFNameService" where
  "upstream_create k another name ns = add_policy name (new_policy k another) ns"

definition upstream_create_round_robin :: "string \<Rightarrow> bool \<Rightarrow> WFNameService \<Rightarrow> (errno + unit) \<times> WFNameService" where
  "upstream_create_round_robin name another ns = upstream_create Round_robin another name ns"
definition upstream_create_consistent_hash :: "string \<Rightarrow> WFNameService \<Rightarrow> (errno + unit) \<times> WFNameService" where
  "upstream_create_consistent_hash name ns = upstream_create Consistent_hash False name ns"
definition upstream_create_weighted_random :: "string \<Rightarrow> bool \<Rightarrow> WFNameService \<Rightarrow> (errno + unit) \<times> WFNameService" where
  "upstream_create_weighted_random name another ns = upstream_create Weighted_random another name ns"
definition upstream_create_vnswrr :: "string \<Rightarrow> WFNameService \<Rightarrow> (errno + unit) \<times> WFNameService" where
  "upstream_create_vnswrr name ns = upstream_create VNSWRR False name ns"
definition upstream_create_manual :: "string \<Rightarrow> bool \<Rightarrow> WFNameService \<Rightarrow> (errno + unit) \<times> WFNameService" where
  "upstream_create_manual name another ns = upstream_create Manual another name ns"

definition on_policy :: "(UPSGroupPolicy \<Rightarrow> 'a \<times> UPSGroupPolicy) \<Rightarrow> string \<Rightarrow> WFNameService \<Rightarrow> (errno + 'a) \<times> WFNameService" where
  "on_policy f name ns =
     (case get_policy name ns of
        None \<Rightarrow> (Inl ENOENT, ns)
      | Some p \<Rightarrow> let (r, p) = f p in (Inr r, ns(fold_name name \<mapsto> p)))"

definition upstream_add_server :: "string \<Rightarrow> string \<Rightarrow> AddressParams \<Rightarrow> WFNameService \<Rightarrow> (errno + unit) \<times> WFNameService" where
  "upstream_add_server name address params = on_policy (\<lambda>p. ((), policy_add_server address params p)) name"

definition upstream_remove_server :: "string \<Rightarrow> string \<Rightarrow> WFNameService \<Rightarrow> (errno + int) \<times> WFNameService" where
  "upstream_remove_server name address = on_policy (policy_remove_server address) name"

definition upstream_replace_server :: "string \<Rightarrow> string \<Rightarrow> AddressParams \<Rightarrow> WFNameService \<Rightarrow> (errno + unit) \<times> WFNameService" where
  "upstream_replace_server name address params =
     on_policy (\<lambda>p. ((), snd (policy_replace_server address params p))) name"

definition upstream_delete :: "string \<Rightarrow> WFNameService \<Rightarrow> (errno + unit) \<times> WFNameService" where
  "upstream_delete name ns =
     (let (policy, ns) = del_policy name ns in (if policy \<noteq> None then Inr () else Inl ENOENT, ns))"

definition upstream_main_address_list :: "string \<Rightarrow> WFNameService \<Rightarrow> string list" where
  "upstream_main_address_list name ns =
     (case get_policy name ns of None \<Rightarrow> [] | Some p \<Rightarrow> get_main_address p)"

section \<open>Configuring an upstream\<close>

text \<open>
  \<open>RpcClient::configure_weighted_upstream\<close> (\<open>rpc/src/rpc_framework.cc\<close>), for servers with a weight
  and for servers with parameters: create the upstream, add the servers in order, and delete it
  again when one cannot be added.
\<close>

fun add_servers :: "string \<Rightarrow> (string \<times> AddressParams) list \<Rightarrow> WFNameService \<Rightarrow> (errno + unit) \<times> WFNameService" where
  "add_servers name [] ns = (Inr (), ns)"
| "add_servers name ((address, params) # servers) ns =
     (case upstream_add_server name address params ns of
        (Inl e, ns) \<Rightarrow> (Inl e, snd (upstream_delete name ns))
      | (Inr _, ns) \<Rightarrow> add_servers name servers ns)"

definition configure_weighted_upstream_params ::
  "string \<Rightarrow> (string \<times> AddressParams) list \<Rightarrow> bool \<Rightarrow> WFNameService \<Rightarrow> (errno + unit) \<times> WFNameService" where
  "configure_weighted_upstream_params name servers another ns =
     (if servers = [] then (Inl EINVAL, ns)
      else case upstream_create_weighted_random name another ns of
             (Inl e, ns) \<Rightarrow> (Inl e, ns)
           | (Inr _, ns) \<Rightarrow> add_servers name servers ns)"

definition weighted :: "string \<times> nat \<Rightarrow> string \<times> AddressParams" where
  "weighted = (\<lambda>(address, w). (address, ADDRESS_PARAMS_DEFAULT\<lparr>weight := if w \<noteq> 0 then w else 1\<rparr>))"

definition configure_weighted_upstream ::
  "string \<Rightarrow> (string \<times> nat) list \<Rightarrow> bool \<Rightarrow> WFNameService \<Rightarrow> (errno + unit) \<times> WFNameService" where
  "configure_weighted_upstream name servers another ns =
     (if servers = [] then (Inl EINVAL, ns)
      else case upstream_create_weighted_random name another ns of
             (Inl e, ns) \<Rightarrow> (Inl e, ns)
           | (Inr _, ns) \<Rightarrow> add_servers name (map weighted servers) ns)"

section \<open>Lemmas\<close>

text \<open>The tree from names to policies, as a table: entering puts a policy in place.\<close>

definition put_policy :: "string \<times> UPSGroupPolicy \<Rightarrow> WFNameService \<Rightarrow> WFNameService" where
  "put_policy = (\<lambda>(name, p) ns. ns(fold_name name \<mapsto> p))"

interpretation policies: name_table "\<lambda>ns k. ns k" put_policy "\<lambda>(name, p). fold_name name" snd
  by unfold_locales (auto simp: put_policy_def)

lemma add_server_present:
  "ns (fold_name name) = Some p \<Longrightarrow> upstream_add_server name address params ns
     = (Inr (), put_policy (name, policy_add_server address params p) ns)"
  by (simp add: upstream_add_server_def on_policy_def get_policy_def put_policy_def)

lemma add_servers_present:
  "ns (fold_name name) = Some p \<Longrightarrow> add_servers name servers ns
     = (Inr (), ns(fold_name name \<mapsto> fold (\<lambda>(address, params). policy_add_server address params) servers p))"
proof (induction servers arbitrary: ns p)
  case (Cons s servers)
  obtain address params where s: "s = (address, params)" by (cases s)
  let ?q = "policy_add_server address params p"
  let ?ns = "put_policy (name, ?q) ns"
  have "?ns (fold_name name) = Some ?q" by (simp add: put_policy_def)
  from Cons.IH [of ?ns ?q, OF this] add_server_present [of ns name p address params] Cons.prems
  have "add_servers name (s # servers) ns
      = (Inr (), ?ns(fold_name name \<mapsto> fold (\<lambda>(address, params). policy_add_server address params) servers ?q))"
    by (simp only: s add_servers.simps prod.case sum.case)
  then show ?case by (simp only: s put_policy_def prod.case fun_upd_upd fold_simps)
qed (auto simp: fun_upd_idem)

lemma fold_add_server:
  "fold (\<lambda>(address, params). policy_add_server address params) servers p
     = p\<lparr>ups_servers := ups_servers p @ map (\<lambda>(address, params). (address, UPSAddrParams params)) servers\<rparr>"
  by (induction servers arbitrary: p) (auto simp: policy_add_server_def)

lemma configure_params_eq:
  "configure_weighted_upstream_params name servers another ns =
     (if servers = [] then (Inl EINVAL, ns)
      else if ns (fold_name name) \<noteq> None then (Inl EEXIST, ns)
      else (Inr (), ns(fold_name name \<mapsto> \<lparr>kind = Weighted_random, try_another = another,
             ups_servers = map (\<lambda>(address, params). (address, UPSAddrParams params)) servers\<rparr>)))"
  by (auto simp: configure_weighted_upstream_params_def upstream_create_weighted_random_def upstream_create_def
      add_policy_def add_servers_present fold_add_server new_policy_def split: option.splits)

lemma configure_weighted_params:
  "configure_weighted_upstream name servers another = configure_weighted_upstream_params name (map weighted servers) another"
  by (rule ext) (simp add: configure_weighted_upstream_def configure_weighted_upstream_params_def)

section \<open>Properties\<close>

text \<open>Configuring a weighted upstream is all or nothing: it succeeds exactly when servers are given
  and no upstream has the name, in whatever case it is written; then the upstream has exactly these
  servers in their order, a weight of zero made one, and no other upstream has changed; otherwise
  nothing has changed.\<close>

theorem configure_upstream_atomic:
  "configure_weighted_upstream name servers another ns =
     (if servers = [] then (Inl EINVAL, ns)
      else if get_policy name ns \<noteq> None then (Inl EEXIST, ns)
      else (Inr (), ns(fold_name name \<mapsto> \<lparr>kind = Weighted_random, try_another = another,
             ups_servers = map (\<lambda>(address, w). (address, ADDRESS_PARAMS_DEFAULT\<lparr>weight := max 1 w\<rparr>)) servers\<rparr>)))"
proof -
  have "UPSAddrParams (ADDRESS_PARAMS_DEFAULT\<lparr>weight := if w \<noteq> 0 then w else 1\<rparr>) = ADDRESS_PARAMS_DEFAULT\<lparr>weight := max 1 w\<rparr>" for w
    by (simp add: UPSAddrParams_def ADDRESS_PARAMS_DEFAULT_def max_def)
  then have "map (\<lambda>(address, params). (address, UPSAddrParams params)) (map weighted servers)
      = map (\<lambda>(address, w). (address, ADDRESS_PARAMS_DEFAULT\<lparr>weight := max 1 w\<rparr>)) servers"
    by (auto simp: weighted_def)
  then show ?thesis
    by (simp only: configure_weighted_params configure_params_eq get_policy_def map_is_Nil_conv)
qed

end
