(* ===== verification/RpcFramework.thy ===== *)
theory RpcFramework
  imports RpcMessage Name_Table
begin

text \<open>
  The server and the client of the Simple RPC protocol (\<open>rpc/src/rpc_framework.h\<close>,
  \<open>rpc/src/rpc_framework.cc\<close>) and the blocking call on top of them (\<open>SimpleRpcClient\<close> in
  \<open>rpc/src/rpc_easy.h\<close>). The messages of the user are protobuf messages: how they are parsed and
  serialised is an argument, as is what the transport delivers for a request.
\<close>

section \<open>Status codes\<close>

definition RPC_OK :: u32 where "RPC_OK = 0"
definition RPC_BAD_REQUEST :: u32 where "RPC_BAD_REQUEST = 400"
definition RPC_NOT_FOUND :: u32 where "RPC_NOT_FOUND = 404"
definition RPC_PROTO_PARSE_ERROR :: u32 where "RPC_PROTO_PARSE_ERROR = 422"
definition RPC_PROTO_SERIALIZE_ERROR :: u32 where "RPC_PROTO_SERIALIZE_ERROR = 423"
definition RPC_NETWORK_ERROR :: u32 where "RPC_NETWORK_ERROR = 503"

section \<open>Server\<close>

text \<open>A handler answers the bytes of a request with a status and the bytes of a response.\<close>

type_synonym binary_handler = "string \<Rightarrow> u32 \<times> string"

record RpcServer =
  handlers :: "string \<Rightarrow> binary_handler option"

definition new_RpcServer :: RpcServer where
  "new_RpcServer = \<lparr>handlers = Map.empty\<rparr>"

definition key_of :: "string \<Rightarrow> string \<Rightarrow> string" where
  "key_of service method = service @ ''#'' @ method"

definition register_binary_method :: "string \<Rightarrow> string \<Rightarrow> binary_handler \<Rightarrow> RpcServer \<Rightarrow> RpcServer" where
  "register_binary_method service method h srv = srv\<lparr>handlers := (handlers srv)(key_of service method \<mapsto> h)\<rparr>"

text \<open>
  \<open>parse\<close> and \<open>ser\<close> are \<open>ParseFromString\<close> and \<open>SerializeToString\<close>: whether they succeeded, and what
  they left in the object they fill.
\<close>

definition pb_handler :: "(string \<Rightarrow> bool \<times> 'req) \<Rightarrow> ('req \<Rightarrow> 'resp) \<Rightarrow> ('resp \<Rightarrow> bool \<times> string) \<Rightarrow> binary_handler" where
  "pb_handler parse h ser = (\<lambda>request_bin.
     let (ok, req) = parse request_bin
     in if \<not> ok then (RPC_PROTO_PARSE_ERROR, [])
        else
          let (ok, response_bin) = ser (h req)
          in if \<not> ok then (RPC_PROTO_SERIALIZE_ERROR, response_bin) else (RPC_OK, response_bin))"

definition register_pb_method :: "string \<Rightarrow> string \<Rightarrow> (string \<Rightarrow> bool \<times> 'req) \<Rightarrow> ('req \<Rightarrow> 'resp)
    \<Rightarrow> ('resp \<Rightarrow> bool \<times> string) \<Rightarrow> RpcServer \<Rightarrow> RpcServer" where
  "register_pb_method service method parse h ser = register_binary_method service method (pb_handler parse h ser)"

definition on_process :: "RpcServer \<Rightarrow> RpcMessage \<Rightarrow> RpcMessage \<Rightarrow> RpcMessage" where
  "on_process srv req resp =
     (let resp = set_sequence (sequence_no req) resp; resp = set_flags 0 resp
      in case get_service_method req of
           None \<Rightarrow> set_payload ''invalid rpc meta'' (set_status RPC_BAD_REQUEST resp)
         | Some (service, method) \<Rightarrow>
             case handlers srv (key_of service method) of
               None \<Rightarrow> set_payload ''service or method not found'' (set_status RPC_NOT_FOUND resp)
             | Some h \<Rightarrow>
                 let (st, out) = h (payload req); resp = set_status st resp
                 in if st = RPC_OK then set_payload out resp else resp)"

section \<open>Client\<close>

text \<open>The counter of the sequence numbers, shared by all clients.\<close>

definition next_sequence :: "u64 \<Rightarrow> u64 \<times> u64" where
  "next_sequence seq = (seq, seq + 1)"

text \<open>
  \<open>create_pb_task\<close> and \<open>create_pb_task_by_url\<close> differ in the address only: the request of the task
  they return, if they return one, and the counter. The factory always gives a task, with a fresh
  request.
\<close>

definition create_pb_task :: "RpcMessage \<Rightarrow> ('req \<Rightarrow> bool \<times> string) \<Rightarrow> string \<Rightarrow> string \<Rightarrow> 'req \<Rightarrow> u64
    \<Rightarrow> RpcMessage option \<times> u64" where
  "create_pb_task fresh ser service method request seq =
     (let (ok, body) = ser request
      in if \<not> ok then (None, seq)
         else
           let (s, seq) = next_sequence seq; req = set_sequence s fresh
           in case set_service_method service method req of
                Inl e \<Rightarrow> (None, seq)
              | Inr req \<Rightarrow> (Some (set_payload body req), seq))"

text \<open>The callback of the task: what is passed on to the callback of the user.\<close>

definition WFT_STATE_SUCCESS :: int where "WFT_STATE_SUCCESS = 0"

definition pb_callback :: "(string \<Rightarrow> bool \<times> 'resp) \<Rightarrow> 'resp \<Rightarrow> int \<Rightarrow> int \<Rightarrow> RpcMessage
    \<Rightarrow> u32 \<times> 'resp \<times> int \<times> int" where
  "pb_callback parse fresh_resp state error msg =
     (if state = WFT_STATE_SUCCESS then
        if status msg = RPC_OK then
          let (ok, resp) = parse (payload msg)
          in (if ok then status msg else RPC_PROTO_PARSE_ERROR, resp, state, error)
        else (status msg, fresh_resp, state, error)
      else (RPC_NETWORK_ERROR, fresh_resp, state, error))"

section \<open>The blocking call\<close>

record SimpleRpcResult =
  res_status :: u32
  res_state :: int
  res_error :: int

definition new_SimpleRpcResult :: SimpleRpcResult where
  "new_SimpleRpcResult = \<lparr>res_status = RPC_NETWORK_ERROR, res_state = -1, res_error = 0\<rparr>"

text \<open>
  \<open>exchange\<close> is the transport: the state and the error of the finished task and its response. The
  caller may pass no response object.
\<close>

definition call :: "(RpcMessage \<Rightarrow> int \<times> int \<times> RpcMessage) \<Rightarrow> RpcMessage \<Rightarrow> ('req \<Rightarrow> bool \<times> string)
    \<Rightarrow> (string \<Rightarrow> bool \<times> 'resp) \<Rightarrow> 'resp \<Rightarrow> string \<Rightarrow> string \<Rightarrow> 'req \<Rightarrow> 'resp option \<Rightarrow> u64
    \<Rightarrow> SimpleRpcResult \<times> 'resp option \<times> u64" where
  "call exchange fresh ser parse fresh_resp service method request response seq =
     (let result = new_SimpleRpcResult; (task, seq) = create_pb_task fresh ser service method request seq
      in case task of
           None \<Rightarrow> (result\<lparr>res_error := -1\<rparr>, response, seq)
         | Some req \<Rightarrow>
             let (state, error, msg) = exchange req;
                 (st, resp, state, error) = pb_callback parse fresh_resp state error msg;
                 result = result\<lparr>res_status := st, res_state := state, res_error := error\<rparr>;
                 response = (if response \<noteq> None \<and> state = WFT_STATE_SUCCESS \<and> st = RPC_OK then Some resp else response)
             in (result, response, seq))"

section \<open>Lemmas\<close>

definition method_key :: "string \<times> string \<times> binary_handler \<Rightarrow> string" where
  "method_key = (\<lambda>(service, method, h). key_of service method)"
definition method_handler :: "string \<times> string \<times> binary_handler \<Rightarrow> binary_handler" where
  "method_handler = (\<lambda>(service, method, h). h)"
definition enter_method :: "string \<times> string \<times> binary_handler \<Rightarrow> RpcServer \<Rightarrow> RpcServer" where
  "enter_method = (\<lambda>(service, method, h). register_binary_method service method h)"

interpretation methods: name_table handlers enter_method method_key method_handler
  by unfold_locales
    (auto simp: enter_method_def method_key_def method_handler_def register_binary_method_def)

lemma set_fields [simp]:
  "sequence_no (set_sequence s m) = s" "sequence_no (set_flags f m) = sequence_no m"
  "sequence_no (set_status st m) = sequence_no m" "sequence_no (set_payload p m) = sequence_no m"
  "status (set_status st m) = st" "status (set_payload p m) = status m"
  "payload (set_payload p m) = p" "payload (set_status st m) = payload m"
  "payload (set_sequence s m) = payload m" "payload (set_flags f m) = payload m"
  "meta (set_sequence s m) = meta m" "meta (set_flags f m) = meta m"
  "meta (set_status st m) = meta m" "meta (set_payload p m) = meta m"
  "send_header (set_sequence s m) = send_header m" "send_header (set_flags f m) = send_header m"
  "send_header (set_status st m) = send_header m" "send_header (set_payload p m) = send_header m"
  by (simp_all add: set_sequence_def set_flags_def set_status_def set_payload_def)

lemma on_process_frame [simp]:
  "sequence_no (on_process srv req resp) = sequence_no req"
  "send_header (on_process srv req resp) = send_header resp"
  "meta (on_process srv req resp) = meta resp"
  by (auto simp: on_process_def Let_def split: option.split prod.split)

text \<open>What the server answers for a method.\<close>

definition method_answer :: "RpcServer \<Rightarrow> string \<Rightarrow> string \<Rightarrow> string \<Rightarrow> u32 \<times> string" where
  "method_answer srv service method bytes =
     (case handlers srv (key_of service method) of
        None \<Rightarrow> (RPC_NOT_FOUND, ''service or method not found'')
      | Some h \<Rightarrow> let (st, out) = h bytes in (st, if st = RPC_OK then out else []))"

lemma on_process_answer:
  assumes "get_service_method req = Some (service, method)" and "payload resp = []"
  shows "(status (on_process srv req resp), payload (on_process srv req resp))
    = method_answer srv service method (payload req)"
  using assms
  by (auto simp: on_process_def method_answer_def Let_def RPC_NOT_FOUND_def RPC_OK_def split: option.split prod.split)

text \<open>The receiver of a message: the bytes \<open>encode\<close> produces arrive in some chunks at a fresh
  message with a size limit.\<close>

definition received_by :: "nat \<Rightarrow> RpcMessage \<Rightarrow> RpcMessage \<Rightarrow> bool" where
  "received_by lim m s \<longleftrightarrow> (\<exists>vectors m' raw_send raw cs rest used.
     encode m 3 = (Inr vectors, m') \<and> length raw = 32 \<and> concat cs = concat vectors @ rest
     \<and> feed_chunks append (set_size_limit lim (new_RpcMessage raw_send raw)) cs = Ok (Done, used, s))"

lemma received_content:
  assumes "received_by lim m s" and "length (send_header m) = 32" and "sendable m"
    and "length (meta m) + length (payload m) \<le> lim"
  shows "same_content s m"
proof -
  from assms(1) obtain vectors m' raw_send raw cs rest used where r: "encode m 3 = (Inr vectors, m')"
    "length raw = 32" "concat cs = concat vectors @ rest"
    and f: "feed_chunks append (set_size_limit lim (new_RpcMessage raw_send raw)) cs = Ok (Done, used, s)"
    by (auto simp: received_by_def)
  from encode_eq [OF assms(2), of 3] r(1) have v: "concat vectors = rpc_frame m" by auto
  have "rpc_fits (set_size_limit lim (new_RpcMessage raw_send raw)) m"
    using assms(3,4) r(2) by (simp add: rpc_fits_def set_size_limit_def new_RpcMessage_def)
  from rpc_msg.delivered [OF this] r(3) f show ?thesis by (fastforce simp: v)
qed

lemma get_service_method_meta:
  assumes "meta m = meta m'"
  shows "get_service_method m = get_service_method m'"
  unfolding get_service_method_def assms by (rule refl)

lemma create_pb_task_Some:
  assumes "create_pb_task fresh ser service method request seq = (Some req, seq')"
  shows "fst (ser request) \<and> sequence_no req = seq \<and> seq' = seq + 1
    \<and> payload req = snd (ser request) \<and> get_service_method req = Some (service, method)
    \<and> send_header req = send_header fresh"
proof -
  obtain ok body where ser: "ser request = (ok, body)" by (cases "ser request")
  have ok: "ok" using assms by (cases ok) (simp_all add: create_pb_task_def ser)
  obtain m' where m': "set_service_method service method (set_sequence seq fresh) = Inr m'"
    using assms ok by (cases "set_service_method service method (set_sequence seq fresh)")
      (simp_all add: create_pb_task_def next_sequence_def ser)
  then have "req = set_payload body m'" "seq' = seq + 1"
    using assms ok by (simp_all add: create_pb_task_def next_sequence_def ser)
  moreover have "get_service_method (set_payload body m') = Some (service, method)"
    using service_method_inverse [OF m'] get_service_method_meta [of "set_payload body m'" m'] by simp
  moreover have "send_header m' = send_header fresh \<and> sequence_no m' = seq"
    using m' by (auto simp: set_service_method_def Let_def split: if_splits)
  ultimately show ?thesis using ok by (simp add: ser)
qed

lemma received_exists:
  assumes "length (send_header m) = 32" and "sendable m" and "length (meta m) + length (payload m) \<le> lim"
  shows "\<exists>s. received_by lim m s"
proof -
  let ?raw = "replicate 32 NUL"
  from encode_eq [OF assms(1), of 3] obtain v m' where e: "encode m 3 = (Inr v, m')" "concat v = rpc_frame m"
    by auto
  have "rpc_fits (set_size_limit lim (new_RpcMessage ?raw ?raw)) m"
    using assms by (simp add: rpc_fits_def set_size_limit_def new_RpcMessage_def)
  from rpc_msg.delivered [OF this, of "[rpc_frame m]" "[]"] obtain s
    where "feed_chunks append (set_size_limit lim (new_RpcMessage ?raw ?raw)) [rpc_frame m] = Ok (Done, length (rpc_frame m), s)"
    by auto
  with e have "encode m 3 = (Inr v, m') \<and> length ?raw = 32 \<and> concat [rpc_frame m] = concat v @ []
      \<and> feed_chunks append (set_size_limit lim (new_RpcMessage ?raw ?raw)) [rpc_frame m] = Ok (Done, length (rpc_frame m), s)"
    by simp
  then show ?thesis unfolding received_by_def by blast
qed

text \<open>The size of the meta part of a request.\<close>

lemma create_pb_task_meta:
  "create_pb_task fresh ser service method request seq = (Some req, seq')
    \<Longrightarrow> length (meta req) = 4 + length service + length method"
  by (auto simp: create_pb_task_def next_sequence_def Let_def set_service_method_def split: prod.splits if_splits)

section \<open>Properties\<close>


definition echo_server :: RpcServer where
  "echo_server = register_pb_method ''Echo'' ''say'' (\<lambda>s. (True, s)) (\<lambda>s. s @ ''!'') (\<lambda>s. (True, s)) new_RpcServer"

definition blank_message :: RpcMessage where
  "blank_message = new_RpcMessage (replicate 32 NUL) (replicate 32 NUL)"


end
