(* ===== verification/Server_Lifecycle.thy ===== *)
theory Server_Lifecycle
  imports Registry
begin

text \<open>
  Starting and stopping the TinyPB server (\<open>rpc/src/tinypb_rpc_server.h\<close>, \<open>.cc\<close>), with its
  registration at the service registry. The listening socket belongs to the transport library:
  \<open>listen\<close> is the result of its \<open>start\<close> for a host name or an address family, a port, and the names
  of the certificate and key files of a TLS server.
\<close>

section \<open>State\<close>

record TinyPbRpcServer =
  registry_enabled :: bool
  srv_service_name :: string
  srv_host :: string
  srv_port :: u16
  registered :: bool
  listening :: bool

definition new_TinyPbRpcServer :: "u16 \<Rightarrow> TinyPbRpcServer" where
  "new_TinyPbRpcServer raw_port = \<lparr>registry_enabled = False, srv_service_name = [], srv_host = [],
     srv_port = raw_port, registered = False, listening = False\<rparr>"

definition set_registry_enabled :: "bool \<Rightarrow> TinyPbRpcServer \<Rightarrow> TinyPbRpcServer" where
  "set_registry_enabled enable s = s\<lparr>registry_enabled := enable\<rparr>"

definition set_service_name :: "string \<Rightarrow> TinyPbRpcServer \<Rightarrow> TinyPbRpcServer" where
  "set_service_name n s = s\<lparr>srv_service_name := n\<rparr>"

text \<open>The registry client is the single instance of the program.\<close>

definition set_registry_endpoint :: "string \<Rightarrow> EtcdRegistryClient \<Rightarrow> EtcdRegistryClient" where
  "set_registry_endpoint endpoint c = Registry.start (set_endpoint endpoint c)"

type_synonym 'e registry = "EtcdRegistryClient \<times> 'e net"

type_synonym listen = "string + int \<Rightarrow> u16 \<Rightarrow> (string \<times> string) option \<Rightarrow> int"

section \<open>Operations\<close>

definition register_to_registry :: "'e os \<Rightarrow> string \<Rightarrow> u16 \<Rightarrow> TinyPbRpcServer \<Rightarrow> 'e registry
    \<Rightarrow> (bool \<times> TinyPbRpcServer \<times> 'e registry) cxx" where
  "register_to_registry os host port s r =
     (if srv_service_name s = [] then Ok (False, s, r)
      else cbind (register_service os (srv_service_name s) host (int (unat port)) 30 (fst r) (snd r)) (\<lambda>(success, r).
        Ok (success, if success then s\<lparr>registered := True\<rparr> else s, r)))"

definition unregister_from_registry :: "'e os \<Rightarrow> TinyPbRpcServer \<Rightarrow> 'e registry
    \<Rightarrow> (TinyPbRpcServer \<times> 'e registry) cxx" where
  "unregister_from_registry os s r =
     (if srv_service_name s \<noteq> [] \<and> registered s then
        cbind (unregister_service os (srv_service_name s) (fst r) (snd r)) (\<lambda>(_, r).
          Ok (s\<lparr>registered := False\<rparr>, r))
      else Ok (s, r))"

text \<open>The registration comes first, under the address given or 0.0.0.0, then the server listens.\<close>

definition start_at :: "'e os \<Rightarrow> listen \<Rightarrow> string + int \<Rightarrow> string \<Rightarrow> u16 \<Rightarrow> (string \<times> string) option \<Rightarrow> TinyPbRpcServer
    \<Rightarrow> 'e registry \<Rightarrow> (int \<times> TinyPbRpcServer \<times> 'e registry) cxx" where
  "start_at os listen place host port tls s r =
     cbind (if registry_enabled s \<and> srv_service_name s \<noteq> [] then
              cbind (register_to_registry os host port s r) (\<lambda>(_, s, r). Ok (s, r))
            else Ok (s, r)) (\<lambda>(s, r).
       let s = s\<lparr>srv_host := host, srv_port := port\<rparr>; ret = listen place port tls
       in Ok (ret, if ret = 0 then s\<lparr>listening := True\<rparr> else s, r))"

definition start_host :: "'e os \<Rightarrow> listen \<Rightarrow> string \<Rightarrow> u16 \<Rightarrow> (string \<times> string) option \<Rightarrow> TinyPbRpcServer
    \<Rightarrow> 'e registry \<Rightarrow> (int \<times> TinyPbRpcServer \<times> 'e registry) cxx" where
  "start_host os listen host port tls = start_at os listen (Inl host) host port tls"

definition start_family :: "'e os \<Rightarrow> listen \<Rightarrow> int \<Rightarrow> u16 \<Rightarrow> (string \<times> string) option \<Rightarrow> TinyPbRpcServer
    \<Rightarrow> 'e registry \<Rightarrow> (int \<times> TinyPbRpcServer \<times> 'e registry) cxx" where
  "start_family os listen family port tls = start_at os listen (Inr family) ''0.0.0.0'' port tls"

definition start_port :: "'e os \<Rightarrow> listen \<Rightarrow> u16 \<Rightarrow> (string \<times> string) option \<Rightarrow> TinyPbRpcServer
    \<Rightarrow> 'e registry \<Rightarrow> (int \<times> TinyPbRpcServer \<times> 'e registry) cxx" where
  "start_port os listen port tls = start_host os listen ''0.0.0.0'' port tls"

definition stop_server :: "'e os \<Rightarrow> TinyPbRpcServer \<Rightarrow> 'e registry \<Rightarrow> (TinyPbRpcServer \<times> 'e registry) cxx" where
  "stop_server os s r =
     cbind (if registered s then unregister_from_registry os s r else Ok (s, r)) (\<lambda>(s, r).
       Ok (s\<lparr>listening := False\<rparr>, r))"

text \<open>\<open>GetRpcServer\<close> creates the one server of the program the first time it is called.\<close>

definition GetRpcServer :: "u16 \<Rightarrow> TinyPbRpcServer option \<Rightarrow> TinyPbRpcServer \<times> TinyPbRpcServer option" where
  "GetRpcServer raw_port g =
     (case g of Some s \<Rightarrow> (s, Some s)
      | None \<Rightarrow> let s = new_TinyPbRpcServer raw_port in (s, Some s))"

section \<open>Properties\<close>

text \<open>The registry holds the endpoint of a host and port of the service.\<close>

definition holds_endpoint :: "EtcdRegistryClient \<Rightarrow> string \<Rightarrow> string \<Rightarrow> u16 \<Rightarrow> bool" where
  "holds_endpoint c service host port \<longleftrightarrow>
     map_of (registered_services c) (get_service_key service host (int (unat port)))
       = Some \<lparr>ep_ip = host, ep_port = int (unat port), ep_lease_id = current_lease_id c\<rparr>"

lemma register_to_registry_holds:
  assumes "register_to_registry os host port s r = Ok (b, s', r')"
  shows "s' = (if b then s\<lparr>registered := True\<rparr> else s) \<and> (b \<longrightarrow> holds_endpoint (fst r') (srv_service_name s) host port)"
proof (cases "srv_service_name s = []")
  case False
  obtain c' n' where r': "r' = (c', n')" by (cases r')
  from assms False have "register_service os (srv_service_name s) host (int (unat port)) 30 (fst r) (snd r) = Ok (b, c', n')"
    and s': "s' = (if b then s\<lparr>registered := True\<rparr> else s)"
    by (auto simp: register_to_registry_def cxx_simps r')
  from register_service_services [OF this(1)] have "b \<longrightarrow> holds_endpoint c' (srv_service_name s) host port"
    by (simp add: holds_endpoint_def update_conv')
  with s' r' show ?thesis by simp
qed (use assms in \<open>simp add: register_to_registry_def\<close>)

lemma start_at_registered:
  assumes "start_at os listen place host port tls s r = Ok (ret, s', r')"
  shows "ret = listen place port tls \<and> (listening s' \<longleftrightarrow> listening s \<or> ret = 0)
    \<and> srv_service_name s' = srv_service_name s
    \<and> (registered s' \<longrightarrow> registered s \<or> holds_endpoint (fst r') (srv_service_name s) host port)"
proof -
  let ?t = "\<lambda>s1. s1\<lparr>srv_host := host, srv_port := port\<rparr>"
  from assms obtain s1 where
    g: "(if registry_enabled s \<and> srv_service_name s \<noteq> [] then
           cbind (register_to_registry os host port s r) (\<lambda>(_, s, r). Ok (s, r)) else Ok (s, r)) = Ok (s1, r')"
    and ret: "ret = listen place port tls"
    and s': "s' = (if listen place port tls = 0 then (?t s1)\<lparr>listening := True\<rparr> else ?t s1)"
    by (simp add: start_at_def cxx_simps Let_def del: if_split) blast
  from g have s1: "(\<exists>b. register_to_registry os host port s r = Ok (b, s1, r')) \<or> s1 = s"
    by (auto simp: cxx_simps split: if_splits)
  have "srv_service_name s1 = srv_service_name s \<and> listening s1 = listening s
    \<and> (registered s1 \<longrightarrow> registered s \<or> holds_endpoint (fst r') (srv_service_name s) host port)"
    using s1 by (auto dest!: register_to_registry_holds split: if_splits)
  with s' ret show ?thesis by auto
qed

text \<open>A server that ends up registered is known to the registry under the address and port of its
  start, with a lease; but nothing ties this to listening: the registration happens before the
  socket is opened and stays when that fails, and then the server is registered and not listening.\<close>

theorem start_registers_before_listening:
  assumes "start_at os listen place host port tls s r = Ok (ret, s', r')"
    and "\<not> registered s" and "registered s'" and "listen place port tls \<noteq> 0" and "\<not> listening s"
  shows "ret \<noteq> 0 \<and> \<not> listening s' \<and> holds_endpoint (fst r') (srv_service_name s') host port"
  using start_at_registered [OF assms(1)] assms(2-) by auto

definition named_server :: TinyPbRpcServer where
  "named_server = set_service_name ''Echo'' (set_registry_enabled True (new_TinyPbRpcServer 0))"

theorem start_registers_before_listening_witness:
  "\<exists>s' r'. start_host prepared (\<lambda>_ _ _. -1) ''10.0.0.1'' 80 None named_server (new_EtcdRegistryClient, idle_net sample_peer)
      = Ok (-1, s', r') \<and> registered s' \<and> \<not> listening s' \<and> holds_endpoint (fst r') ''Echo'' ''10.0.0.1'' 80"
proof -
  obtain c n where r: "register_service prepared ''Echo'' ''10.0.0.1'' 80 30 new_EtcdRegistryClient (idle_net sample_peer)
      = Ok (True, c, n)"
    using sample_register by blast
  have e: "registry_enabled named_server" "srv_service_name named_server = ''Echo''" "\<not> registered named_server" "\<not> listening named_server"
    by (simp_all add: named_server_def set_service_name_def set_registry_enabled_def new_TinyPbRpcServer_def)
  let ?s = "named_server\<lparr>registered := True, srv_host := ''10.0.0.1'', srv_port := 80\<rparr>"
  have st: "start_at prepared (\<lambda>_ _ _. -1) (Inl ''10.0.0.1'') ''10.0.0.1'' 80 None named_server
      (new_EtcdRegistryClient, idle_net sample_peer) = Ok (-1, ?s, (c, n))"
    using r by (simp add: start_at_def register_to_registry_def e)
  from start_registers_before_listening [OF st] st e show ?thesis
    by (auto simp: start_host_def)
qed

text \<open>\<open>stop\<close> ends the listening, and a registered server with a name is no longer registered
  afterwards; one whose name was cleared after its start stays registered.\<close>

theorem stop_unregisters:
  assumes "stop_server os s r = Ok (s', r')"
  shows "\<not> listening s' \<and> (registered s' \<longleftrightarrow> registered s \<and> srv_service_name s = [])
    \<and> (srv_service_name s = [] \<longrightarrow> r' = r)"
  using assms
  by (auto simp: stop_server_def unregister_from_registry_def cxx_simps split: if_splits)

theorem stop_unregisters_witness:
  "\<exists>s'. stop_server prepared ((new_TinyPbRpcServer 0)\<lparr>registered := True, listening := True\<rparr>)
      (client_with_service, idle_net []) = Ok (s', (client_with_service, idle_net []))
    \<and> \<not> listening s' \<and> registered s'"
proof -
  let ?s = "(new_TinyPbRpcServer 0)\<lparr>registered := True, listening := True\<rparr>"
  have n: "srv_service_name ?s = []" by (simp add: new_TinyPbRpcServer_def)
  then have st: "stop_server prepared ?s (client_with_service, idle_net [])
      = Ok (?s\<lparr>listening := False\<rparr>, (client_with_service, idle_net []))"
    by (simp add: stop_server_def unregister_from_registry_def)
  from stop_unregisters [OF st] st n show ?thesis by auto
qed

end
