(* ===== verification/Config_Parser.thy ===== *)
theory Config_Parser
  imports Cxx_Strings
begin

text \<open>
  The configuration of the program and the parser of its file (\<open>rpc/src/rpc_config.h\<close>,
  \<open>parse_xml\<close> and its helpers in \<open>rpc/src/rpc_config.cc\<close>). The parser looks for tags by searching
  the text from a position it moves forward; positions are \<open>size_t\<close>, and a search that fails gives
  \<open>npos\<close>, with which the code goes on computing.
\<close>

section \<open>The configuration\<close>

record UpstreamServerConfig =
  us_address :: string
  us_weight :: nat

record UpstreamConfig =
  up_name :: string
  up_type :: string
  up_try_another :: bool
  up_servers :: "UpstreamServerConfig list"

record CircuitBreakerConfig =
  cbc_service_name :: string
  cbc_failure_threshold :: int
  cbc_success_threshold :: int
  cbc_timeout_ms :: int

record RateLimiterConfig =
  rlc_service_name :: string
  rlc_qps :: int

record ServerConfig =
  sc_address :: string
  sc_protocol :: string
  sc_iothread_num :: int
  sc_port :: int

record RpcConfig =
  cfg_server :: ServerConfig
  cfg_upstreams :: "UpstreamConfig list"
  cfg_circuit_breakers :: "CircuitBreakerConfig list"
  cfg_rate_limiters :: "RateLimiterConfig list"
  cfg_log_level :: string
  cfg_log_path :: string

text \<open>The global configuration before a file is read: static storage, zeroed.\<close>

definition new_RpcConfig :: RpcConfig where
  "new_RpcConfig = \<lparr>cfg_server = \<lparr>sc_address = [], sc_protocol = [], sc_iothread_num = 0, sc_port = 0\<rparr>,
     cfg_upstreams = [], cfg_circuit_breakers = [], cfg_rate_limiters = [], cfg_log_level = [], cfg_log_path = []\<rparr>"

section \<open>Tags and attributes\<close>

definition trim :: "string \<Rightarrow> string" where
  "trim s = rev (dropWhile is_space (rev (dropWhile is_space s)))"

text \<open>The content of the next element with the tag, and the position behind it; when there is none,
  nothing, and the position stays.\<close>

definition get_tag_content :: "string \<Rightarrow> string \<Rightarrow> nat \<Rightarrow> (string \<times> nat) cxx" where
  "get_tag_content content tag pos =
     (let start_tag = ''<'' @ tag @ ''>''; end_tag = ''</'' @ tag @ ''>''
      in case find_str content start_tag pos of
           None \<Rightarrow> Ok ([], pos)
         | Some start \<Rightarrow>
             let start = start + length start_tag
             in case find_str content end_tag start of
                  None \<Rightarrow> Ok ([], pos)
                | Some stop \<Rightarrow> cbind (substr content start (stop - start)) (\<lambda>s.
                    Ok (trim s, stop + length end_tag)))"

text \<open>\<open>try { v = stoi(s) } catch (...) { v = d }\<close>\<close>

definition stoi_or :: "int \<Rightarrow> string \<Rightarrow> int" where
  "stoi_or d s = (case stoi s of Ok v \<Rightarrow> v | _ \<Rightarrow> d)"

definition number_or :: "int \<Rightarrow> string \<Rightarrow> int" where
  "number_or d s = (if s \<noteq> [] then stoi_or d s else d)"

text \<open>The value of an attribute searched from a position: up to the next quote, or to the end of the
  text when there is none.\<close>

definition quoted_from :: "string \<Rightarrow> nat \<Rightarrow> string cxx" where
  "quoted_from content start = substr content start (sz_sub (pos_of (find_str content [CHR 0x22] start)) start)"

definition attribute_mark :: "string \<Rightarrow> string" where
  "attribute_mark a = a @ [CHR ''='', CHR 0x22]"

section \<open>The parser\<close>

text \<open>A \<open>server\<close> element of an upstream: the attributes are searched from its start up to the end of
  the upstream, not of the element.\<close>

definition parse_server :: "string \<Rightarrow> nat \<Rightarrow> nat \<Rightarrow> UpstreamServerConfig cxx" where
  "parse_server content upstream_end server_start =
     (let addr_start = pos_of (find_str content (attribute_mark ''address'') server_start);
          weight_start = pos_of (find_str content (attribute_mark ''weight'') server_start)
      in cbind (if addr_start \<noteq> npos \<and> addr_start < upstream_end
                then cbind (quoted_from content (addr_start + 9)) (\<lambda>s. Ok (trim s)) else Ok []) (\<lambda>address.
         cbind (if weight_start \<noteq> npos \<and> weight_start < upstream_end
                then cbind (quoted_from content (weight_start + 8)) (\<lambda>s. Ok (nat (stoi_or 1 s mod 65536)))
                else Ok 1) (\<lambda>w.
         Ok \<lparr>us_address = address, us_weight = w\<rparr>)))"

fun servers_loop :: "nat \<Rightarrow> string \<Rightarrow> nat \<Rightarrow> nat \<Rightarrow> UpstreamServerConfig list \<Rightarrow> UpstreamServerConfig list cxx" where
  "servers_loop 0 content upstream_end server_start servers = Out_of_fuel"
| "servers_loop (Suc fuel) content upstream_end server_start servers =
     (if server_start \<noteq> npos \<and> server_start < upstream_end then
        cbind (parse_server content upstream_end server_start) (\<lambda>server.
          servers_loop fuel content upstream_end (pos_of (find_str content ''<server '' (server_start + 7)))
            (servers @ [server]))
      else Ok servers)"

text \<open>One upstream, and the position of its end tag (\<open>npos\<close> when there is none).\<close>

definition parse_upstream :: "nat \<Rightarrow> string \<Rightarrow> nat \<Rightarrow> (UpstreamConfig \<times> nat) cxx" where
  "parse_upstream fuel content upstream_start =
     cbind (get_tag_content content ''name'' upstream_start) (\<lambda>(n, p).
     cbind (get_tag_content content ''type'' p) (\<lambda>(ty, p).
     cbind (get_tag_content content ''try_another'' p) (\<lambda>(another, p).
       let server_start = pos_of (find_str content ''<server '' p);
           upstream_end = pos_of (find_str content ''</upstream>'' p)
       in cbind (servers_loop fuel content upstream_end server_start []) (\<lambda>servers.
            Ok (\<lparr>up_name = n, up_type = ty, up_try_another = (another = ''true''), up_servers = servers\<rparr>,
                upstream_end)))))"

definition parse_breaker :: "string \<Rightarrow> nat \<Rightarrow> (CircuitBreakerConfig \<times> nat) cxx" where
  "parse_breaker content start =
     cbind (get_tag_content content ''service_name'' start) (\<lambda>(service, p).
     cbind (get_tag_content content ''failure_threshold'' p) (\<lambda>(ft, p).
     cbind (get_tag_content content ''success_threshold'' p) (\<lambda>(st, p).
     cbind (get_tag_content content ''timeout_ms'' p) (\<lambda>(tmo, p).
       Ok (\<lparr>cbc_service_name = service, cbc_failure_threshold = number_or 50 ft,
             cbc_success_threshold = number_or 5 st, cbc_timeout_ms = number_or 30000 tmo\<rparr>,
           pos_of (find_str content ''</circuit_breaker>'' p))))))"

definition parse_limiter :: "string \<Rightarrow> nat \<Rightarrow> (RateLimiterConfig \<times> nat) cxx" where
  "parse_limiter content start =
     cbind (get_tag_content content ''service_name'' start) (\<lambda>(service, p).
     cbind (get_tag_content content ''qps'' p) (\<lambda>(q, p).
       Ok (\<lparr>rlc_service_name = service, rlc_qps = number_or 1000 q\<rparr>,
           pos_of (find_str content ''</rate_limiter>'' p))))"

text \<open>
  The three outer loops are one: find the next block from a position, parse it, go on \<open>skip\<close>
  (the length of the end tag) behind its end, modulo \<open>2 ^ 64\<close>.
\<close>

fun blocks_loop :: "nat \<Rightarrow> string \<Rightarrow> nat \<Rightarrow> (string \<Rightarrow> nat \<Rightarrow> ('b \<times> nat) cxx) \<Rightarrow> string \<Rightarrow> nat \<Rightarrow> 'b list
    \<Rightarrow> ('b list \<times> nat) cxx" where
  "blocks_loop 0 tag skip parse content pos bs = Out_of_fuel"
| "blocks_loop (Suc fuel) tag skip parse content pos bs =
     (case find_str content tag pos of
        None \<Rightarrow> Ok (bs, pos)
      | Some start \<Rightarrow> cbind (parse content start) (\<lambda>(b, block_end).
          blocks_loop fuel tag skip parse content (sz_add block_end skip) (bs @ [b])))"

definition parse_server_section :: "string \<Rightarrow> RpcConfig \<Rightarrow> (RpcConfig \<times> nat) cxx" where
  "parse_server_section content config =
     cbind (get_tag_content content ''address'' 0) (\<lambda>(address, p).
     cbind (get_tag_content content ''protocol'' p) (\<lambda>(protocol, p).
     cbind (get_tag_content content ''iothread_num'' p) (\<lambda>(iothread, p).
     cbind (get_tag_content content ''level'' p) (\<lambda>(level, p).
     cbind (get_tag_content content ''path'' p) (\<lambda>(path, p).
       let sv = cfg_server config;
           sv = sv\<lparr>sc_address := address, sc_protocol := protocol\<rparr>;
           sv = (if iothread \<noteq> [] then sv\<lparr>sc_iothread_num := stoi_or 0 iothread\<rparr> else sv);
           config = config\<lparr>cfg_server := sv\<rparr>;
           config = (if level \<noteq> [] then config\<lparr>cfg_log_level := level\<rparr> else config);
           config = (if path \<noteq> [] then config\<lparr>cfg_log_path := path\<rparr> else config)
       in Ok (config, p))))))"

definition parse_xml :: "nat \<Rightarrow> string \<Rightarrow> RpcConfig \<Rightarrow> RpcConfig cxx" where
  "parse_xml fuel content config =
     cbind (parse_server_section content config) (\<lambda>(config, p).
     cbind (blocks_loop fuel ''<upstream>'' 11 (parse_upstream fuel) content p []) (\<lambda>(us, p).
     cbind (blocks_loop fuel ''<circuit_breaker>'' 18 parse_breaker content p []) (\<lambda>(cbs, p).
     cbind (blocks_loop fuel ''<rate_limiter>'' 15 parse_limiter content p []) (\<lambda>(rls, p).
       Ok (config\<lparr>cfg_upstreams := cfg_upstreams config @ us,
         cfg_circuit_breakers := cfg_circuit_breakers config @ cbs,
         cfg_rate_limiters := cfg_rate_limiters config @ rls\<rparr>)))))"

text \<open>\<open>InitConfig\<close> reads the whole file (\<open>None\<close> when it cannot be opened) and parses it over the
  global configuration.\<close>

definition InitConfig :: "nat \<Rightarrow> string option \<Rightarrow> RpcConfig \<Rightarrow> (int \<times> RpcConfig) cxx" where
  "InitConfig fuel file config =
     (case file of
        None \<Rightarrow> Ok (-1, config)
      | Some content \<Rightarrow> cbind (parse_xml fuel content config) (\<lambda>config. Ok (0, config)))"

section \<open>A block without an end\<close>

lemma pos_of_simps [simp]: "pos_of None = npos" "pos_of (Some i) = i"
  by (simp_all add: pos_of_def)

lemma npos_wraps: "0 < skip \<Longrightarrow> skip < 2 ^ 63 \<Longrightarrow> sz_add npos skip = skip - 1"
proof -
  assume s: "0 < skip" "skip < 2 ^ 63"
  then have "npos + skip = (skip - 1) + 2 ^ 64" by (simp add: npos_def)
  then have "sz_add npos skip = (skip - 1 + 2 ^ 64) mod 2 ^ 64" by (simp only: sz_add_def)
  also have "\<dots> = (skip - 1) mod 2 ^ 64" by (rule mod_add_self2)
  also have "\<dots> = skip - 1" using s by simp
  finally show ?thesis .
qed

text \<open>When the text has no end tag, every block ends at \<open>npos\<close>, and the search starts again near the
  beginning of the text: the loop never ends once a block lies behind that point.\<close>

lemma blocks_loop_hangs:
  assumes "\<And>start b e. parse content start = Ok (b, e) \<Longrightarrow> e = npos"
    and "0 < skip" and "skip < 2 ^ 63" and "find_str content tag (skip - 1) \<noteq> None" and "find_str content tag pos \<noteq> None"
  shows "\<not> returns (blocks_loop fuel tag skip parse content pos bs)"
  using assms(5)
proof (induction fuel arbitrary: pos bs)
  case (Suc fuel)
  then obtain start where st: "find_str content tag pos = Some start" by auto
  show ?case
  proof (cases "parse content start")
    case (Ok be)
    obtain b e where be: "be = (b, e)" by (cases be)
    from assms(1) Ok have "e = npos" by (simp add: be)
    then have "sz_add e skip = skip - 1" using npos_wraps [OF assms(2,3)] by simp
    with Suc.IH [OF assms(4)] show ?thesis by (simp add: st Ok be)
  qed (simp_all add: st)
qed simp

lemma find_sub_None_drop: "find_sub pat s = None \<Longrightarrow> find_sub pat (drop k s) = None"
proof (induction s arbitrary: k)
  case (Cons c s)
  then show ?case by (cases k) (auto split: if_splits)
qed simp

lemma find_str_None: "find_sub pat s = None \<Longrightarrow> find_str s pat k = None"
  by (simp add: find_str_def find_sub_None_drop)

lemma find_sub_drop:
  "find_sub pat (drop k s) \<noteq> None \<Longrightarrow> j \<le> k \<Longrightarrow> find_sub pat (drop j s) \<noteq> None"
proof
  assume "find_sub pat (drop k s) \<noteq> None" "j \<le> k" "find_sub pat (drop j s) = None"
  with find_sub_None_drop [of pat "drop j s" "k - j"] show False by simp
qed

lemma find_str_earlier: "find_str s pat k \<noteq> None \<Longrightarrow> j \<le> k \<Longrightarrow> find_str s pat j \<noteq> None"
  using find_sub_drop [of pat k s j] by (cases "find_sub pat (drop j s)") (auto simp: find_str_def split: if_splits)

lemma parse_upstream_end:
  "find_sub ''</upstream>'' content = None \<Longrightarrow> parse_upstream fuel content start = Ok (b, e) \<Longrightarrow> e = npos"
  by (auto simp: parse_upstream_def cxx_simps Let_def find_str_None)

section \<open>Properties\<close>

text \<open>A text that opens an upstream behind the server section and nowhere has an end tag for one is
  never parsed to the end, however long one waits: the position wraps around to 10, and the same
  block is found again and again.\<close>

theorem parse_xml_hangs:
  assumes "parse_server_section content config = Ok (config', p)" and "10 \<le> p"
    and "find_str content ''<upstream>'' p \<noteq> None" and "find_sub ''</upstream>'' content = None"
  shows "\<not> returns (parse_xml fuel content config)"
proof -
  have "find_str content ''<upstream>'' (11 - 1) \<noteq> None"
    using find_str_earlier [OF assms(3,2)] by simp
  then have "\<not> returns (blocks_loop fuel ''<upstream>'' 11 (parse_upstream fuel) content p [])"
    using blocks_loop_hangs [where parse = "parse_upstream fuel" and content = content and skip = 11
        and tag = "''<upstream>''"] parse_upstream_end [OF assms(4)] assms(3) by simp
  then show ?thesis by (simp add: parse_xml_def assms(1) cxx_simps) (auto simp: returns_def)
qed

theorem parse_xml_hangs_witness:
  "\<not> returns (parse_xml 1000 ''<address>:1</address><upstream>'' new_RpcConfig)"
proof -
  have "parse_server_section ''<address>:1</address><upstream>'' new_RpcConfig
    = Ok (new_RpcConfig\<lparr>cfg_server := (cfg_server new_RpcConfig)\<lparr>sc_address := '':1''\<rparr>\<rparr>, 21)"
    by (simp add: parse_server_section_def get_tag_content_def find_str_def segment_def trim_def is_space_def new_RpcConfig_def)
  from parse_xml_hangs [OF this] show ?thesis by (simp add: find_str_def)
qed

end
