(* ===== verification/Config_Roundtrip.thy ===== *)
theory Config_Roundtrip
  imports Config_Parser
begin

text \<open>
  The parser of the configuration reads back a configuration that is written out in the order it
  searches for (the files the program is used with have this shape). The text between the elements
  is arbitrary but for \<open><\<close>. A search is followed through the text by the predicate \<open>skips\<close>: the
  pattern begins nowhere inside a piece of text, whatever comes after it.
\<close>

section \<open>Texts a search passes over\<close>

definition skips :: "string \<Rightarrow> string \<Rightarrow> bool" where
  "skips pat s \<longleftrightarrow> (\<forall>r. find_sub pat (s @ r) = (case find_sub pat r of None \<Rightarrow> None | Some i \<Rightarrow> Some (length s + i)))"

lemma skips_Nil [simp]: "skips pat []"
  by (simp add: skips_def split: option.split)

lemma skips_append: "skips pat s \<Longrightarrow> skips pat t \<Longrightarrow> skips pat (s @ t)"
  by (simp add: skips_def split: option.split)

lemma skips_concat: "(\<And>s. s \<in> set ss \<Longrightarrow> skips pat s) \<Longrightarrow> skips pat (concat ss)"
  by (induction ss) (auto intro: skips_append)

lemma skips_plain: "pat \<noteq> [] \<Longrightarrow> hd pat \<notin> set s \<Longrightarrow> skips pat s"
  by (simp add: skips_def find_sub_skip split: option.split)

lemma skips_find: "skips pat s \<Longrightarrow> find_sub pat (s @ pat @ r) = Some (length s)"
  by (simp add: skips_def find_sub_prefix)

text \<open>A text that begins like the pattern, differs from it, and does not repeat its first character.\<close>

lemma skips_other:
  assumes "pat = c # p" and "c \<notin> set w" and "\<not> prefix p w" and "\<not> prefix w p"
  shows "skips pat (c # w)"
proof -
  have "\<not> prefix p (w @ r)" for r
  proof
    assume "prefix p (w @ r)"
    moreover have "prefix w (w @ r)" by simp
    ultimately have "prefix p w \<or> prefix w p" by (rule prefix_same_cases)
    with assms(3,4) show False by blast
  qed
  moreover have "find_sub (c # p) (w @ r) = map_option ((+) (length w)) (find_sub (c # p) r)" for r
    using assms(2) by (intro find_sub_skip) auto
  ultimately show ?thesis by (simp add: skips_def assms(1) split: option.split)
qed

section \<open>Writing a configuration\<close>

definition tag :: "string \<Rightarrow> string" where "tag t = ''<'' @ t @ ''>''"

definition element :: "string \<Rightarrow> string \<Rightarrow> string" where
  "element t v = tag t @ v @ tag (''/'' @ t)"

text \<open>The text between the elements, for example a line end and blanks, is a parameter.\<close>

definition render_server :: "string \<Rightarrow> UpstreamServerConfig \<Rightarrow> string" where
  "render_server g s = ''<server '' @ attribute_mark ''address'' @ us_address s @ [CHR 0x22] @ '' ''
     @ attribute_mark ''weight'' @ dec_nat (us_weight s) @ [CHR 0x22] @ ''/>'' @ g"

definition upstream_text :: "string \<Rightarrow> UpstreamConfig \<Rightarrow> string" where
  "upstream_text g u = tag ''upstream'' @ g @ element ''name'' (up_name u) @ g @ element ''type'' (up_type u) @ g
     @ element ''try_another'' (if up_try_another u then ''true'' else ''false'') @ g
     @ concat (map (render_server g) (up_servers u)) @ tag ''/upstream''"

definition breaker_text :: "string \<Rightarrow> CircuitBreakerConfig \<Rightarrow> string" where
  "breaker_text g b = tag ''circuit_breaker'' @ g @ element ''service_name'' (cbc_service_name b) @ g
     @ element ''failure_threshold'' (dec_int (cbc_failure_threshold b)) @ g
     @ element ''success_threshold'' (dec_int (cbc_success_threshold b)) @ g
     @ element ''timeout_ms'' (dec_int (cbc_timeout_ms b)) @ g @ tag ''/circuit_breaker''"

definition limiter_text :: "string \<Rightarrow> RateLimiterConfig \<Rightarrow> string" where
  "limiter_text g l = tag ''rate_limiter'' @ g @ element ''service_name'' (rlc_service_name l) @ g
     @ element ''qps'' (dec_int (rlc_qps l)) @ g @ tag ''/rate_limiter''"

definition blocks_text :: "string \<Rightarrow> ('b \<Rightarrow> string) \<Rightarrow> 'b list \<Rightarrow> string" where
  "blocks_text g R bs = concat (map (\<lambda>b. R b @ g) bs)"

definition render :: "string \<Rightarrow> RpcConfig \<Rightarrow> string" where
  "render g c = g @ element ''address'' (sc_address (cfg_server c)) @ g @ element ''protocol'' (sc_protocol (cfg_server c)) @ g
     @ element ''iothread_num'' (dec_int (sc_iothread_num (cfg_server c))) @ g
     @ element ''level'' (cfg_log_level c) @ g @ element ''path'' (cfg_log_path c) @ g
     @ blocks_text g (upstream_text g) (cfg_upstreams c)
     @ blocks_text g (breaker_text g) (cfg_circuit_breakers c)
     @ blocks_text g (limiter_text g) (cfg_rate_limiters c)"

definition plain :: "string \<Rightarrow> bool" where
  "plain v \<longleftrightarrow> CHR ''<'' \<notin> set v \<and> trim v = v"

definition int32 :: "int \<Rightarrow> bool" where
  "int32 i \<longleftrightarrow> - (2 ^ 31) \<le> i \<and> i < 2 ^ 31"

definition server_ok :: "UpstreamServerConfig \<Rightarrow> bool" where
  "server_ok s \<longleftrightarrow> plain (us_address s) \<and> CHR 0x22 \<notin> set (us_address s) \<and> CHR ''='' \<notin> set (us_address s) \<and> us_weight s < 65536"

definition config_ok :: "RpcConfig \<Rightarrow> bool" where
  "config_ok c \<longleftrightarrow> plain (sc_address (cfg_server c)) \<and> plain (sc_protocol (cfg_server c))
     \<and> int32 (sc_iothread_num (cfg_server c)) \<and> sc_port (cfg_server c) = 0
     \<and> plain (cfg_log_level c) \<and> plain (cfg_log_path c)
     \<and> (\<forall>u \<in> set (cfg_upstreams c). plain (up_name u) \<and> plain (up_type u) \<and> (\<forall>s \<in> set (up_servers u). server_ok s))
     \<and> (\<forall>b \<in> set (cfg_circuit_breakers c). plain (cbc_service_name b) \<and> int32 (cbc_failure_threshold b)
          \<and> int32 (cbc_success_threshold b) \<and> int32 (cbc_timeout_ms b))
     \<and> (\<forall>l \<in> set (cfg_rate_limiters c). plain (rlc_service_name l) \<and> int32 (rlc_qps l))"

section \<open>Numbers\<close>

lemma strtol_dec_int: "strtol_prefix (dec_int i) = Some (i, [])"
proof (cases "i < 0")
  case True
  obtain c u where d: "dec_nat (nat (- i)) = c # u" by (cases "dec_nat (nat (- i))") auto
  then have c: "is_digit c" using dec_nat_digits [of c "nat (- i)"] by simp
  have t: "takeWhile is_digit (dec_nat n) = dec_nat n" "dropWhile is_digit (dec_nat n) = []" for n
    using dec_nat_digits [of _ n] by (auto simp: takeWhile_eq_all_conv dropWhile_eq_Nil_conv)
  show ?thesis
    using True by (simp add: strtol_prefix_def dec_int_def is_space_def Let_def t)
next
  case False
  then show ?thesis using strtol_dec_nat [of "[]" "nat i"] by (simp add: dec_int_def)
qed

lemma dec_int_chars: "c \<in> set (dec_int i) \<Longrightarrow> is_digit c \<or> c = CHR ''-''"
  by (auto simp: dec_int_def dec_nat_digits split: if_splits)

lemma stoi_dec_int: "int32 i \<Longrightarrow> stoi (dec_int i) = Ok i"
proof -
  have "c_str (dec_int i) = dec_int i"
    by (rule c_str_id) (auto dest!: dec_int_chars simp: NUL_def is_digit_def)
  then show "int32 i \<Longrightarrow> ?thesis" by (simp add: stoi_def strtol_dec_int int32_def)
qed

lemma dec_int_not_Nil [simp]: "dec_int i \<noteq> []"
  by (simp add: dec_int_def)

lemma number_or_dec_int: "int32 i \<Longrightarrow> number_or d (dec_int i) = i \<and> stoi_or d (dec_int i) = i"
  by (simp add: number_or_def stoi_or_def stoi_dec_int)

lemma trim_no_space:
  assumes "\<And>c. c \<in> set s \<Longrightarrow> \<not> is_space c"
  shows "trim s = s"
proof -
  have "dropWhile is_space t = t" if "set t \<subseteq> set s" for t
    using assms that by (cases t) auto
  then show ?thesis by (simp add: trim_def)
qed

lemma plain_dec_int: "plain (dec_int i)"
proof -
  have "\<not> is_space c" if "c \<in> set (dec_int i)" for c
    using dec_int_chars [OF that] by (auto simp: is_digit_def is_space_def)
  then show ?thesis
    using trim_no_space [of "dec_int i"] by (auto simp: plain_def is_digit_def dest: dec_int_chars)
qed

lemma plain_bool: "plain ''true''" "plain ''false''"
  by (simp_all add: plain_def trim_def is_space_def)

section \<open>Finding elements\<close>

lemma length_tag: "length (tag t) = length t + 2"
  by (simp add: tag_def)

lemma skips_tag_plain: "CHR ''<'' \<notin> set s \<Longrightarrow> skips (tag t) s"
  by (rule skips_plain) (simp_all add: tag_def)

lemma skips_tag:
  assumes "CHR ''<'' \<notin> set u" and "\<not> prefix (t @ ''>'') (u @ ''>'')" and "\<not> prefix (u @ ''>'') (t @ ''>'')"
  shows "skips (tag t) (tag u)"
  unfolding tag_def append_Cons append_Nil
  using assms by (intro skips_other) auto

lemma skips_element:
  assumes "skips (tag t) (tag u)" and "skips (tag t) (tag (''/'' @ u))" and "CHR ''<'' \<notin> set v"
  shows "skips (tag t) (element u v)"
  unfolding element_def using assms by (simp add: skips_append skips_tag_plain)

lemma get_tag_content_found:
  assumes "skips (tag t) pre" and "plain v"
  shows "get_tag_content (A @ pre @ element t v @ r) t (length A) = Ok (v, length (A @ pre @ element t v))"
proof -
  let ?c = "A @ pre @ element t v @ r"
  have s: "find_str ?c (tag t) (length A) = Some (length (A @ pre))"
    using skips_find [OF assms(1), of "v @ tag (''/'' @ t) @ r"] by (simp add: find_str_at element_def)
  have "skips (tag (''/'' @ t)) v" using assms(2) by (intro skips_tag_plain) (simp add: plain_def)
  then have "find_sub (tag (''/'' @ t)) (v @ tag (''/'' @ t) @ r) = Some (length v)" by (rule skips_find)
  moreover have "?c = (A @ pre @ tag t) @ v @ tag (''/'' @ t) @ r" by (simp add: element_def)
  ultimately have e: "find_str ?c (tag (''/'' @ t)) (length (A @ pre @ tag t)) = Some (length (A @ pre @ tag t) + length v)"
    using find_str_at [of "A @ pre @ tag t" "v @ tag (''/'' @ t) @ r" "tag (''/'' @ t)"] by simp
  have sub: "segment (length (A @ pre @ tag t)) (length v) ?c = v"
    using segment_mid [of "A @ pre @ tag t" v "tag (''/'' @ t) @ r"] by (simp add: element_def)
  have tags: "''<'' @ t @ ''>'' = tag t" "''</'' @ t @ ''>'' = tag (''/'' @ t)" by (simp_all add: tag_def)
  have l: "length (A @ pre @ tag t) = length (A @ pre) + length (tag t)" by simp
  have le: "length (A @ pre @ tag t) \<le> length ?c" by (simp add: element_def)
  show ?thesis
    unfolding get_tag_content_def Let_def tags s option.case l [symmetric] e
    using assms(2) le sub by (simp add: plain_def element_def)
qed


text \<open>The head of the text: the server section.\<close>

lemma parse_server_section_render:
  assumes "config_ok c" and "CHR ''<'' \<notin> set g"
  shows "parse_server_section (g @ element ''address'' (sc_address (cfg_server c)) @ g @ element ''protocol'' (sc_protocol (cfg_server c)) @ g
     @ element ''iothread_num'' (dec_int (sc_iothread_num (cfg_server c))) @ g
     @ element ''level'' (cfg_log_level c) @ g @ element ''path'' (cfg_log_path c) @ r) new_RpcConfig
   = Ok (new_RpcConfig\<lparr>cfg_server := cfg_server c, cfg_log_level := cfg_log_level c, cfg_log_path := cfg_log_path c\<rparr>,
       length (g @ element ''address'' (sc_address (cfg_server c)) @ g @ element ''protocol'' (sc_protocol (cfg_server c)) @ g
     @ element ''iothread_num'' (dec_int (sc_iothread_num (cfg_server c))) @ g
     @ element ''level'' (cfg_log_level c) @ g @ element ''path'' (cfg_log_path c)))"
proof -
  let ?e1 = "element ''address'' (sc_address (cfg_server c))" and ?e2 = "element ''protocol'' (sc_protocol (cfg_server c))"
    and ?e3 = "element ''iothread_num'' (dec_int (sc_iothread_num (cfg_server c)))"
    and ?e4 = "element ''level'' (cfg_log_level c)" and ?e5 = "element ''path'' (cfg_log_path c)"
  have sk: "skips (tag t) g" for t using assms(2) by (rule skips_tag_plain)
  have p: "plain (sc_address (cfg_server c))" "plain (sc_protocol (cfg_server c))"
    "plain (cfg_log_level c)" "plain (cfg_log_path c)" "int32 (sc_iothread_num (cfg_server c))" "sc_port (cfg_server c) = 0"
    using assms(1) by (simp_all add: config_ok_def)
  have "get_tag_content ([] @ g @ ?e1 @ (g @ ?e2 @ g @ ?e3 @ g @ ?e4 @ g @ ?e5 @ r)) ''address'' (length ([] :: string)) = Ok (sc_address (cfg_server c), length ([] @ g @ ?e1))"
    by (intro get_tag_content_found sk p)
  moreover have "get_tag_content ((g @ ?e1) @ g @ ?e2 @ (g @ ?e3 @ g @ ?e4 @ g @ ?e5 @ r)) ''protocol'' (length (g @ ?e1))
      = Ok (sc_protocol (cfg_server c), length ((g @ ?e1) @ g @ ?e2))"
    by (intro get_tag_content_found sk p)
  moreover have "get_tag_content ((g @ ?e1 @ g @ ?e2) @ g @ ?e3 @ (g @ ?e4 @ g @ ?e5 @ r)) ''iothread_num'' (length (g @ ?e1 @ g @ ?e2))
      = Ok (dec_int (sc_iothread_num (cfg_server c)), length ((g @ ?e1 @ g @ ?e2) @ g @ ?e3))"
    by (intro get_tag_content_found sk plain_dec_int)
  moreover have "get_tag_content ((g @ ?e1 @ g @ ?e2 @ g @ ?e3) @ g @ ?e4 @ (g @ ?e5 @ r)) ''level'' (length (g @ ?e1 @ g @ ?e2 @ g @ ?e3))
      = Ok (cfg_log_level c, length ((g @ ?e1 @ g @ ?e2 @ g @ ?e3) @ g @ ?e4))"
    by (intro get_tag_content_found sk p)
  moreover have "get_tag_content ((g @ ?e1 @ g @ ?e2 @ g @ ?e3 @ g @ ?e4) @ g @ ?e5 @ r) ''path'' (length (g @ ?e1 @ g @ ?e2 @ g @ ?e3 @ g @ ?e4))
      = Ok (cfg_log_path c, length ((g @ ?e1 @ g @ ?e2 @ g @ ?e3 @ g @ ?e4) @ g @ ?e5))"
    by (intro get_tag_content_found sk p)
  moreover have "stoi_or 0 (dec_int (sc_iothread_num (cfg_server c))) = sc_iothread_num (cfg_server c)"
    using number_or_dec_int [OF p(5)] by simp
  ultimately show ?thesis
    using p(6) unfolding parse_server_section_def append_assoc append_Nil list.size
    by (simp only: cbind.simps prod.case Let_def dec_int_not_Nil simp_thms if_True) (simp add: new_RpcConfig_def)
qed

text \<open>A circuit breaker and a rate limiter, up to their end tags.\<close>

lemma find_end_tag:
  assumes "CHR ''<'' \<notin> set g"
  shows "find_str (A @ g @ tag t @ r) (tag t) (length A) = Some (length A + length g)"
  unfolding find_str_at using skips_find [OF skips_tag_plain [OF assms], of t r] by simp

lemma parse_limiter_text:
  assumes "plain (rlc_service_name l)" and "int32 (rlc_qps l)" and "CHR ''<'' \<notin> set g"
  shows "parse_limiter (A @ limiter_text g l @ r) (length A) = Ok (l, length (A @ limiter_text g l) - 15)"
proof -
  let ?t = "tag ''rate_limiter''" and ?e1 = "element ''service_name'' (rlc_service_name l)" and ?e2 = "element ''qps'' (dec_int (rlc_qps l))"
  let ?r = "g @ tag ''/rate_limiter'' @ r"
  have sk: "skips (tag t) g" for t using assms(3) by (rule skips_tag_plain)
  have "get_tag_content (A @ (?t @ g) @ ?e1 @ (g @ ?e2 @ ?r)) ''service_name'' (length A) = Ok (rlc_service_name l, length (A @ (?t @ g) @ ?e1))"
    by (intro get_tag_content_found skips_append sk skips_tag assms) simp_all
  moreover have "get_tag_content ((A @ ?t @ g @ ?e1) @ g @ ?e2 @ ?r) ''qps'' (length (A @ ?t @ g @ ?e1))
      = Ok (dec_int (rlc_qps l), length ((A @ ?t @ g @ ?e1) @ g @ ?e2))"
    by (intro get_tag_content_found sk plain_dec_int)
  moreover have "find_str ((A @ ?t @ g @ ?e1 @ g @ ?e2) @ g @ tag ''/rate_limiter'' @ r) (tag ''/rate_limiter'') (length (A @ ?t @ g @ ?e1 @ g @ ?e2))
      = Some (length (A @ ?t @ g @ ?e1 @ g @ ?e2) + length g)"
    using assms(3) by (rule find_end_tag)
  ultimately show ?thesis
    using number_or_dec_int [OF assms(2)]
    unfolding parse_limiter_def limiter_text_def append_assoc
    by (simp add: tag_def)
qed

lemma parse_breaker_text:
  assumes "plain (cbc_service_name b)" and "int32 (cbc_failure_threshold b)" and "int32 (cbc_success_threshold b)"
    and "int32 (cbc_timeout_ms b)" and "CHR ''<'' \<notin> set g"
  shows "parse_breaker (A @ breaker_text g b @ r) (length A) = Ok (b, length (A @ breaker_text g b) - 18)"
proof -
  let ?t = "tag ''circuit_breaker''" and ?e1 = "element ''service_name'' (cbc_service_name b)"
    and ?e2 = "element ''failure_threshold'' (dec_int (cbc_failure_threshold b))"
    and ?e3 = "element ''success_threshold'' (dec_int (cbc_success_threshold b))"
    and ?e4 = "element ''timeout_ms'' (dec_int (cbc_timeout_ms b))"
  let ?r = "g @ tag ''/circuit_breaker'' @ r"
  have sk: "skips (tag t) g" for t using assms(5) by (rule skips_tag_plain)
  have "get_tag_content (A @ (?t @ g) @ ?e1 @ (g @ ?e2 @ g @ ?e3 @ g @ ?e4 @ ?r)) ''service_name'' (length A)
      = Ok (cbc_service_name b, length (A @ (?t @ g) @ ?e1))"
    by (intro get_tag_content_found skips_append sk skips_tag assms) simp_all
  moreover have "get_tag_content ((A @ ?t @ g @ ?e1) @ g @ ?e2 @ (g @ ?e3 @ g @ ?e4 @ ?r)) ''failure_threshold'' (length (A @ ?t @ g @ ?e1))
      = Ok (dec_int (cbc_failure_threshold b), length ((A @ ?t @ g @ ?e1) @ g @ ?e2))"
    by (intro get_tag_content_found sk plain_dec_int)
  moreover have "get_tag_content ((A @ ?t @ g @ ?e1 @ g @ ?e2) @ g @ ?e3 @ (g @ ?e4 @ ?r)) ''success_threshold'' (length (A @ ?t @ g @ ?e1 @ g @ ?e2))
      = Ok (dec_int (cbc_success_threshold b), length ((A @ ?t @ g @ ?e1 @ g @ ?e2) @ g @ ?e3))"
    by (intro get_tag_content_found sk plain_dec_int)
  moreover have "get_tag_content ((A @ ?t @ g @ ?e1 @ g @ ?e2 @ g @ ?e3) @ g @ ?e4 @ ?r) ''timeout_ms'' (length (A @ ?t @ g @ ?e1 @ g @ ?e2 @ g @ ?e3))
      = Ok (dec_int (cbc_timeout_ms b), length ((A @ ?t @ g @ ?e1 @ g @ ?e2 @ g @ ?e3) @ g @ ?e4))"
    by (intro get_tag_content_found sk plain_dec_int)
  moreover have "find_str ((A @ ?t @ g @ ?e1 @ g @ ?e2 @ g @ ?e3 @ g @ ?e4) @ g @ tag ''/circuit_breaker'' @ r) (tag ''/circuit_breaker'')
        (length (A @ ?t @ g @ ?e1 @ g @ ?e2 @ g @ ?e3 @ g @ ?e4))
      = Some (length (A @ ?t @ g @ ?e1 @ g @ ?e2 @ g @ ?e3 @ g @ ?e4) + length g)"
    using assms(5) by (rule find_end_tag)
  ultimately show ?thesis
    using number_or_dec_int [OF assms(2)] number_or_dec_int [OF assms(3)] number_or_dec_int [OF assms(4)]
    unfolding parse_breaker_def breaker_text_def append_assoc
    by (simp add: tag_def)
qed

section \<open>Runs of blocks\<close>

lemma blocks_loop_text:
  assumes parse: "\<And>b A r. b \<in> set bs \<Longrightarrow> length (A @ R b @ r) < 2 ^ 64 - 1 \<Longrightarrow> parse (A @ R b @ r) (length A) = Ok (b, length (A @ R b) - k)"
    and R: "\<And>b. b \<in> set bs \<Longrightarrow> (\<exists>s. R b = T @ s) \<and> k \<le> length (R b)"
    and "skips T g" and "T \<noteq> []" and "skips T rest" and "length bs < fuel" and "skips T pre"
    and "length (A @ pre @ concat (map (\<lambda>b. R b @ g) bs) @ rest) < 2 ^ 64 - 1"
  shows "\<exists>B pre'. blocks_loop fuel T k parse (A @ pre @ concat (map (\<lambda>b. R b @ g) bs) @ rest) (length A) acc = Ok (acc @ bs, length B)
    \<and> A @ pre @ concat (map (\<lambda>b. R b @ g) bs) @ rest = B @ pre' @ rest \<and> (pre' = g \<or> pre' = pre)"
  using assms
proof (induction bs arbitrary: A pre acc fuel)
  case Nil
  have "find_sub T (pre @ rest) = None"
    using Nil.prems(4,5,7) skips_append [of T pre rest] by (cases T) (auto simp: skips_def dest: spec [of _ "[]"])
  then have "find_str (A @ pre @ rest) T (length A) = None" by (simp add: find_str_at)
  moreover obtain f where "fuel = Suc f" using Nil.prems(6) by (cases fuel) auto
  ultimately show ?case by auto
next
  case (Cons b bs)
  obtain f where f: "fuel = Suc f" "length bs < f" using Cons.prems(6) by (cases fuel) auto
  let ?rs = "concat (map (\<lambda>b. R b @ g) bs) @ rest"
  let ?c = "A @ pre @ concat (map (\<lambda>b. R b @ g) (b # bs)) @ rest"
  have c1: "?c = (A @ pre) @ R b @ g @ ?rs" and c2: "?c = (A @ pre @ R b) @ g @ ?rs" by simp_all
  obtain s where s: "R b = T @ s" and k: "k \<le> length (R b)" using Cons.prems(2) [of b] by auto
  have "find_str ?c T (length A) = Some (length (A @ pre))"
    using skips_find [OF Cons.prems(7), of "s @ g @ ?rs"] by (simp add: find_str_at s)
  moreover have "parse ?c (length (A @ pre)) = Ok (b, length ((A @ pre) @ R b) - k)"
    unfolding c1 using Cons.prems(8) by (intro Cons.prems(1)) simp_all
  moreover have "sz_add (length ((A @ pre) @ R b) - k) k = length (A @ pre @ R b)"
    using Cons.prems(8) k by (simp add: sz_add_def)
  ultimately have "blocks_loop fuel T k parse ?c (length A) acc = blocks_loop f T k parse ?c (length (A @ pre @ R b)) (acc @ [b])"
    by (simp only: f blocks_loop.simps option.case cbind.simps prod.case)
  moreover have "\<exists>B pre'. blocks_loop f T k parse ((A @ pre @ R b) @ g @ ?rs) (length (A @ pre @ R b)) (acc @ [b]) = Ok ((acc @ [b]) @ bs, length B)
    \<and> (A @ pre @ R b) @ g @ ?rs = B @ pre' @ rest \<and> (pre' = g \<or> pre' = g)"
    using Cons.prems f(2) by (intro Cons.IH) (auto simp del: blocks_loop.simps)
  ultimately show ?case unfolding c2 by auto
qed


section \<open>The servers of an upstream\<close>

definition server_head :: string where "server_head = ''<server ''"

text \<open>A mark that ends with a quote is not found across a quoted text without an equals sign.\<close>

lemma skips_attribute:
  assumes "CHR ''='' \<notin> set v" and "CHR 0x22 \<notin> set v"
  shows "skips (attribute_mark ''weight'') (v @ [CHR 0x22])"
proof -
  let ?q = "CHR 0x22"
  have np: "\<not> prefix (attribute_mark ''weight'') (v' @ ?q # r)" if "CHR ''='' \<notin> set v'" "?q \<notin> set v'" for v' r
  proof
    assume "prefix (attribute_mark ''weight'') (v' @ ?q # r)"
    then obtain z where z: "v' @ ?q # r = attribute_mark ''weight'' @ z" by (auto simp: prefix_def)
    have "takeWhile (\<lambda>c. c \<noteq> ?q) (v' @ ?q # r) = v'" using that(2) by (subst takeWhile_append2) auto
    moreover have "takeWhile (\<lambda>c. c \<noteq> ?q) (v' @ ?q # r) = ''weight=''" by (simp add: z attribute_mark_def)
    ultimately have "v' = ''weight=''" by simp
    then have "CHR ''='' \<in> set v'" by simp
    with that(1) show False by blast
  qed
  have "find_sub (attribute_mark ''weight'') (v @ ?q # r)
      = (case find_sub (attribute_mark ''weight'') r of None \<Rightarrow> None | Some i \<Rightarrow> Some (Suc (length v) + i))" for r
    using assms
  proof (induction v)
    case Nil
    from np [of "[]" r] show ?case by (simp split: option.split)
  next
    case (Cons c v)
    from np [of "c # v" r] Cons show ?case by (simp split: option.split)
  qed
  then show ?thesis by (simp add: skips_def split: option.split)
qed

lemma quoted_from_at:
  assumes "CHR 0x22 \<notin> set v"
  shows "quoted_from (A @ v @ CHR 0x22 # r) (length A) = Ok v"
proof -
  have "find_str (A @ v @ CHR 0x22 # r) [CHR 0x22] (length A) = Some (length A + length v)"
    using find_ch_append [OF assms, of r] by (simp add: find_str_at)
  moreover have "segment (length A) (length v) (A @ v @ CHR 0x22 # r) = v" by (rule segment_mid)
  ultimately show ?thesis by (simp add: quoted_from_def)
qed

lemma parse_server_text:
  assumes "server_ok s" and "length (A @ render_server g s) \<le> upstream_end"
    and "length (A @ render_server g s @ r) < 2 ^ 64 - 1"
  shows "parse_server (A @ render_server g s @ r) upstream_end (length A) = Ok s"
proof -
  let ?a = "us_address s" and ?w = "dec_nat (us_weight s)" and ?q = "CHR 0x22"
  let ?ma = "attribute_mark ''address''" and ?mw = "attribute_mark ''weight''"
  let ?t = "?q # ''/>'' @ g @ r"
  let ?c = "A @ render_server g s @ r"
  have c1: "?c = (A @ server_head) @ ?ma @ ?a @ ?q # '' '' @ ?mw @ ?w @ ?t"
    and c2: "?c = (A @ server_head @ ?ma) @ ?a @ ?q # '' '' @ ?mw @ ?w @ ?t"
    and c3: "?c = A @ (server_head @ ?ma @ (?a @ [?q]) @ '' '') @ ?mw @ (?w @ ?t)"
    and c4: "?c = (A @ server_head @ ?ma @ ?a @ [?q] @ '' '' @ ?mw) @ ?w @ ?t"
    by (simp_all add: render_server_def server_head_def)
  have ok: "plain ?a" "?q \<notin> set ?a" "CHR ''='' \<notin> set ?a" "us_weight s < 65536"
    using assms(1) by (simp_all add: server_ok_def)
  have "skips ?ma server_head" by (rule skips_plain) (simp_all add: attribute_mark_def server_head_def)
  from skips_find [OF this] have fa: "find_str ?c ?ma (length A) = Some (length (A @ server_head))"
    unfolding c1 append_assoc find_str_at by simp
  have "skips ?mw (server_head @ ?ma @ (?a @ [?q]) @ '' '')"
    by (intro skips_append skips_attribute ok skips_plain) (simp_all add: attribute_mark_def server_head_def)
  from skips_find [OF this] have fw: "find_str ?c ?mw (length A) = Some (length (A @ server_head @ ?ma @ ?a @ [?q] @ '' ''))"
    unfolding c3 find_str_at by simp
  have qa: "quoted_from ?c (length (A @ server_head @ ?ma)) = Ok ?a"
    unfolding c2 using ok(2) by (rule quoted_from_at)
  have "?q \<notin> set ?w" using dec_nat_digits [of ?q] by (auto simp: is_digit_def)
  then have qw: "quoted_from ?c (length (A @ server_head @ ?ma @ ?a @ [?q] @ '' '' @ ?mw)) = Ok ?w"
    unfolding c4 by (rule quoted_from_at)
  have l: "length ?ma = 9" "length ?mw = 8" "length server_head = 8"
    by (simp_all add: attribute_mark_def server_head_def)
  have w: "nat (stoi_or 1 ?w mod 65536) = us_weight s"
    using number_or_dec_int [of "int (us_weight s)" 1] ok(4) by (simp add: int32_def dec_int_def)
  have tr: "trim ?a = ?a" using ok(1) by (simp add: plain_def)
  have lt: "length (A @ server_head) < upstream_end" "length (A @ server_head @ ?ma @ ?a @ [?q] @ '' '') < upstream_end"
    "length (A @ server_head) \<noteq> npos" "length (A @ server_head @ ?ma @ ?a @ [?q] @ '' '') \<noteq> npos"
    using assms(2,3) by (simp_all add: render_server_def server_head_def attribute_mark_def npos_def)
  have pa: "length (A @ server_head) + 9 = length (A @ server_head @ ?ma)"
    and pw: "length (A @ server_head @ ?ma @ ?a @ [?q] @ '' '') + 8 = length (A @ server_head @ ?ma @ ?a @ [?q] @ '' '' @ ?mw)"
    using l by simp_all
  show ?thesis
    unfolding parse_server_def Let_def fa fw pos_of_simps pa pw qa qw
    using lt w tr by (simp only: cbind.simps simp_thms if_True not_False_eq_True) simp
qed


lemma server_head_eq: "server_head = CHR ''<'' # ''server ''"
  by (simp add: server_head_def)

lemma skips_head_plain: "CHR ''<'' \<notin> set s \<Longrightarrow> skips server_head s"
  by (rule skips_plain) (simp_all add: server_head_def)

lemma servers_loop_text:
  assumes "\<And>s. s \<in> set ss \<Longrightarrow> server_ok s" and "CHR ''<'' \<notin> set g" and "CHR ''<'' \<notin> set pre" and "length ss < fuel"
    and "upstream_end = length (A @ pre @ concat (map (render_server g) ss))"
    and "length (A @ pre @ concat (map (render_server g) ss) @ r) < 2 ^ 64 - 1"
  shows "servers_loop fuel (A @ pre @ concat (map (render_server g) ss) @ r) upstream_end
      (pos_of (find_str (A @ pre @ concat (map (render_server g) ss) @ r) ''<server '' (length A))) acc = Ok (acc @ ss)"
  using assms
proof (induction ss arbitrary: A pre acc fuel)
  case Nil
  obtain f where f: "fuel = Suc f" using Nil.prems(4) by (cases fuel) auto
  have "find_str (A @ pre @ r) ''<server '' (length A)
      = (case find_sub ''<server '' r of None \<Rightarrow> None | Some i \<Rightarrow> Some (length A + (length pre + i)))"
    using skips_head_plain [OF Nil.prems(3)] by (simp add: find_str_at skips_def server_head_def split: option.split)
  then have "pos_of (find_str (A @ pre @ r) ''<server '' (length A)) = npos \<or>
      upstream_end \<le> pos_of (find_str (A @ pre @ r) ''<server '' (length A))"
    using Nil.prems(5) by (auto split: option.split)
  then show ?case by (auto simp: f simp del: pos_of_simps)
next
  case (Cons s ss)
  obtain f where f: "fuel = Suc f" "length ss < f" using Cons.prems(4) by (cases fuel) auto
  let ?c = "A @ pre @ concat (map (render_server g) (s # ss)) @ r"
  let ?rest = "drop 7 (render_server g s)"
  have head: "render_server g s = server_head @ drop 8 (render_server g s)"
    and seven: "render_server g s = ''<server'' @ ?rest"
    by (simp_all add: render_server_def server_head_def)
  have c1: "?c = (A @ pre) @ render_server g s @ concat (map (render_server g) ss) @ r" by simp
  have c2: "?c = (A @ pre @ ''<server'') @ ?rest @ concat (map (render_server g) ss) @ r"
    by (subst c1, subst seven) simp
  have "find_sub server_head (pre @ server_head @ drop 8 (render_server g s) @ concat (map (render_server g) ss) @ r) = Some (length pre)"
    by (rule skips_find [OF skips_head_plain [OF Cons.prems(3)]])
  then have "find_sub server_head (pre @ render_server g s @ concat (map (render_server g) ss) @ r) = Some (length pre)"
    by (subst head) simp
  then have find: "find_str ?c ''<server '' (length A) = Some (length (A @ pre))"
    unfolding server_head_def [symmetric] by (simp add: find_str_at)
  have ok: "server_ok s" using Cons.prems(1) by simp
  have parse: "parse_server ?c upstream_end (length (A @ pre)) = Ok s"
    unfolding c1 using ok Cons.prems(5,6) by (intro parse_server_text) auto
  have pos: "length (A @ pre) \<noteq> npos \<and> length (A @ pre) < upstream_end"
    using Cons.prems(5,6) seven by (auto simp: npos_def render_server_def)
  have seven_pos: "length (A @ pre) + 7 = length (A @ pre @ ''<server'')" by simp
  have rest: "CHR ''<'' \<notin> set ?rest"
    using ok Cons.prems(2) dec_nat_digits [of "CHR ''<''" "us_weight s"]
    by (auto simp: render_server_def server_ok_def plain_def attribute_mark_def is_digit_def)
  have "servers_loop f ((A @ pre @ ''<server'') @ ?rest @ concat (map (render_server g) ss) @ r) upstream_end
      (pos_of (find_str ((A @ pre @ ''<server'') @ ?rest @ concat (map (render_server g) ss) @ r) ''<server '' (length (A @ pre @ ''<server'')))) (acc @ [s])
      = Ok ((acc @ [s]) @ ss)"
  proof (rule Cons.IH [OF _ Cons.prems(2) rest f(2)])
    have len: "7 \<le> length (render_server g s)" by (simp add: render_server_def)
    show "server_ok s'" if "s' \<in> set ss" for s' using that Cons.prems(1) by simp
    show "upstream_end = length ((A @ pre @ ''<server'') @ ?rest @ concat (map (render_server g) ss))"
      using Cons.prems(5) len by simp
    show "length ((A @ pre @ ''<server'') @ ?rest @ concat (map (render_server g) ss) @ r) < 2 ^ 64 - 1"
      using Cons.prems(6) len by simp
  qed
  then have "servers_loop f ?c upstream_end (pos_of (find_str ?c ''<server '' (length (A @ pre @ ''<server'')))) (acc @ [s])
      = Ok ((acc @ [s]) @ ss)"
    unfolding c2 .
  then show ?case
    using pos by (simp only: f find pos_of_simps servers_loop.simps parse cbind.simps seven_pos simp_thms if_True append_assoc append.simps)
qed


lemma parse_upstream_text:
  assumes "plain (up_name u)" and "plain (up_type u)" and "\<And>s. s \<in> set (up_servers u) \<Longrightarrow> server_ok s"
    and "CHR ''<'' \<notin> set g" and "length (up_servers u) < fuel" and "length (A @ upstream_text g u @ r) < 2 ^ 64 - 1"
  shows "parse_upstream fuel (A @ upstream_text g u @ r) (length A) = Ok (u, length (A @ upstream_text g u) - 11)"
proof -
  let ?t = "tag ''upstream''" and ?e1 = "element ''name'' (up_name u)" and ?e2 = "element ''type'' (up_type u)"
  let ?b = "if up_try_another u then ''true'' else ''false''"
  let ?e3 = "element ''try_another'' ?b" and ?ss = "concat (map (render_server g) (up_servers u))"
  let ?stop = "tag ''/upstream''"
  let ?B = "A @ ?t @ g @ ?e1 @ g @ ?e2 @ g @ ?e3"
  have sk: "skips (tag t) g" for t using assms(4) by (rule skips_tag_plain)
  have pb: "plain ?b" using plain_bool by simp
  have "get_tag_content (A @ (?t @ g) @ ?e1 @ (g @ ?e2 @ g @ ?e3 @ g @ ?ss @ ?stop @ r)) ''name'' (length A) = Ok (up_name u, length (A @ (?t @ g) @ ?e1))"
    by (intro get_tag_content_found skips_append sk skips_tag assms) simp_all
  moreover have "get_tag_content ((A @ ?t @ g @ ?e1) @ g @ ?e2 @ (g @ ?e3 @ g @ ?ss @ ?stop @ r)) ''type'' (length (A @ ?t @ g @ ?e1))
      = Ok (up_type u, length ((A @ ?t @ g @ ?e1) @ g @ ?e2))"
    by (intro get_tag_content_found sk assms)
  moreover have "get_tag_content ((A @ ?t @ g @ ?e1 @ g @ ?e2) @ g @ ?e3 @ (g @ ?ss @ ?stop @ r)) ''try_another'' (length (A @ ?t @ g @ ?e1 @ g @ ?e2))
      = Ok (?b, length ((A @ ?t @ g @ ?e1 @ g @ ?e2) @ g @ ?e3))"
    by (intro get_tag_content_found sk pb)
  moreover have e: "find_str (?B @ (g @ ?ss) @ ?stop @ r) ''</upstream>'' (length ?B) = Some (length (?B @ g @ ?ss))"
  proof -
    have "skips ?stop (render_server g s)" if "s \<in> set (up_servers u)" for s
    proof -
      have "render_server g s = ''<server '' @ drop 8 (render_server g s)"
        by (simp add: render_server_def)
      moreover have "skips ?stop ''<server ''" by (rule skips_other [where p = "''/upstream>''"]) (simp_all add: tag_def)
      moreover have "CHR ''<'' \<notin> set (drop 8 (render_server g s))"
        using assms(3) [OF that] assms(4) dec_nat_digits [of "CHR ''<''" "us_weight s"]
        by (auto simp: render_server_def server_ok_def plain_def attribute_mark_def is_digit_def)
      ultimately show ?thesis by (metis skips_append skips_tag_plain)
    qed
    then have "skips ?stop (g @ ?ss)" by (intro skips_append sk skips_concat) auto
    from skips_find [OF this, of r] show ?thesis
      unfolding find_str_at by (simp add: tag_def)
  qed
  moreover have "servers_loop fuel (?B @ g @ ?ss @ ?stop @ r) (length (?B @ g @ ?ss))
      (pos_of (find_str (?B @ g @ ?ss @ ?stop @ r) ''<server '' (length ?B))) [] = Ok ([] @ up_servers u)"
    using assms(3-6) by (intro servers_loop_text) (auto simp: upstream_text_def)
  moreover have "u = \<lparr>up_name = up_name u, up_type = up_type u, up_try_another = (?b = ''true''), up_servers = up_servers u\<rparr>"
    by simp
  moreover have "length (A @ upstream_text g u) - 11 = length (?B @ g @ ?ss)"
    by (simp add: upstream_text_def tag_def)
  ultimately show ?thesis
    unfolding parse_upstream_def upstream_text_def append_assoc Let_def
    by (simp only: cbind.simps prod.case pos_of_simps append_Nil simp_thms)
qed

lemma skips_blocks: "skips T g \<Longrightarrow> (\<And>b. b \<in> set bs \<Longrightarrow> skips T (R b)) \<Longrightarrow> skips T (blocks_text g R bs)"
  unfolding blocks_text_def by (intro skips_concat) (auto intro: skips_append)

lemma breaker_text_skipped:
  assumes "CHR ''<'' \<notin> set (cbc_service_name b)" and "CHR ''<'' \<notin> set g"
  shows "skips (tag ''upstream'') (breaker_text g b)"
proof -
  have d: "CHR ''<'' \<notin> set (dec_int i)" for i using plain_dec_int by (simp add: plain_def)
  note g = skips_tag_plain [OF assms(2)]
  show ?thesis unfolding breaker_text_def
    by (intro skips_append g skips_element skips_tag d assms(1)) simp_all
qed

lemma limiter_text_skipped:
  assumes "CHR ''<'' \<notin> set (rlc_service_name l)" and "CHR ''<'' \<notin> set g"
  shows "skips (tag ''upstream'') (limiter_text g l)" "skips (tag ''circuit_breaker'') (limiter_text g l)"
proof -
  have d: "CHR ''<'' \<notin> set (dec_int i)" for i using plain_dec_int by (simp add: plain_def)
  note g = skips_tag_plain [OF assms(2)]
  show "skips (tag ''upstream'') (limiter_text g l)" unfolding limiter_text_def
    by (intro skips_append g skips_element skips_tag d assms(1)) simp_all
  show "skips (tag ''circuit_breaker'') (limiter_text g l)" unfolding limiter_text_def
    by (intro skips_append g skips_element skips_tag d assms(1)) simp_all
qed

text \<open>All the text of a configuration, and each of its loops.\<close>

lemma length_blocks_text:
  assumes "\<And>b. 0 < length (R b)"
  shows "length bs \<le> length (blocks_text g R bs)"
proof (induction bs)
  case (Cons b bs)
  from assms [of b] have "1 \<le> length (R b)" by linarith
  with Cons show ?case by (simp add: blocks_text_def del: length_greater_0_conv)
qed simp

lemma text_begin:
  "\<exists>s. upstream_text g u = tag ''upstream'' @ s" "\<exists>s. breaker_text g b = tag ''circuit_breaker'' @ s"
  "\<exists>s. limiter_text g l = tag ''rate_limiter'' @ s"
  by (simp_all add: upstream_text_def breaker_text_def limiter_text_def)

lemma text_long:
  "11 \<le> length (upstream_text g u)" "18 \<le> length (breaker_text g b)" "15 \<le> length (limiter_text g l)"
  by (simp_all add: upstream_text_def breaker_text_def limiter_text_def tag_def)

lemma parse_xml_render:
  assumes ok: "config_ok c" and g: "CHR ''<'' \<notin> set g" and len: "length (render g c) < 2 ^ 64 - 1"
    and fuel: "length (cfg_upstreams c) < fuel" "length (cfg_circuit_breakers c) < fuel" "length (cfg_rate_limiters c) < fuel"
      "\<And>u. u \<in> set (cfg_upstreams c) \<Longrightarrow> length (up_servers u) < fuel"
  shows "parse_xml fuel (render g c) new_RpcConfig = Ok c"
proof -
  let ?H = "g @ element ''address'' (sc_address (cfg_server c)) @ g @ element ''protocol'' (sc_protocol (cfg_server c)) @ g
     @ element ''iothread_num'' (dec_int (sc_iothread_num (cfg_server c))) @ g
     @ element ''level'' (cfg_log_level c) @ g @ element ''path'' (cfg_log_path c)"
  let ?U = "blocks_text g (upstream_text g) (cfg_upstreams c)" and ?B = "blocks_text g (breaker_text g) (cfg_circuit_breakers c)"
    and ?L = "blocks_text g (limiter_text g) (cfg_rate_limiters c)"
  have r: "render g c = ?H @ g @ ?U @ ?B @ ?L" by (simp add: render_def)
  have sk: "skips (tag t) g" for t using g by (rule skips_tag_plain)
  have skB: "skips (tag ''upstream'') ?B" "skips (tag ''upstream'') ?L" "skips (tag ''circuit_breaker'') ?L"
    using ok g by (auto intro!: skips_blocks sk breaker_text_skipped limiter_text_skipped simp: config_ok_def plain_def)
  have h: "parse_server_section (render g c) new_RpcConfig
      = Ok (new_RpcConfig\<lparr>cfg_server := cfg_server c, cfg_log_level := cfg_log_level c, cfg_log_path := cfg_log_path c\<rparr>, length ?H)"
    using parse_server_section_render [OF ok g, of "g @ ?U @ ?B @ ?L"] by (simp add: r)
  have T: "tag t \<noteq> []" for t by (simp add: tag_def)
  have l1: "length (?H @ g @ ?U @ ?B @ ?L) < 2 ^ 64 - 1" using len by (simp only: r)
  obtain C1 p1 where b1: "blocks_loop fuel (tag ''upstream'') 11 (parse_upstream fuel) (?H @ g @ ?U @ ?B @ ?L) (length ?H) []
      = Ok ([] @ cfg_upstreams c, length C1)"
    and e1: "?H @ g @ ?U @ ?B @ ?L = C1 @ p1 @ ?B @ ?L" and p1: "p1 = g"
  proof -
    have "\<exists>B pre'. blocks_loop fuel (tag ''upstream'') 11 (parse_upstream fuel) (?H @ g @ ?U @ ?B @ ?L) (length ?H) []
        = Ok ([] @ cfg_upstreams c, length B) \<and> ?H @ g @ ?U @ ?B @ ?L = B @ pre' @ ?B @ ?L \<and> (pre' = g \<or> pre' = g)"
      unfolding blocks_text_def [of g "upstream_text g"]
    proof (rule blocks_loop_text [OF _ _ sk T skips_append [OF skB(1,2)] fuel(1) sk])
      show "parse_upstream fuel (A @ upstream_text g u @ r) (length A) = Ok (u, length (A @ upstream_text g u) - 11)"
        if "u \<in> set (cfg_upstreams c)" "length (A @ upstream_text g u @ r) < 2 ^ 64 - 1" for u A r
        using that ok fuel(4) g by (intro parse_upstream_text) (auto simp: config_ok_def)
    qed (use text_begin text_long l1 in \<open>simp_all only: blocks_text_def simp_thms\<close>)
    with that show thesis by blast
  qed
  obtain C2 p2 where b2: "blocks_loop fuel (tag ''circuit_breaker'') 18 parse_breaker (C1 @ p1 @ ?B @ ?L) (length C1) []
      = Ok ([] @ cfg_circuit_breakers c, length C2)"
    and e2: "C1 @ p1 @ ?B @ ?L = C2 @ p2 @ ?L" and p2: "p2 = g"
  proof -
    have "\<exists>B pre'. blocks_loop fuel (tag ''circuit_breaker'') 18 parse_breaker (C1 @ p1 @ ?B @ ?L) (length C1) []
        = Ok ([] @ cfg_circuit_breakers c, length B) \<and> C1 @ p1 @ ?B @ ?L = B @ pre' @ ?L \<and> (pre' = g \<or> pre' = g)"
      unfolding blocks_text_def [of g "breaker_text g"] p1
    proof (rule blocks_loop_text [OF _ _ sk T skB(3) fuel(2) sk])
      show "parse_breaker (A @ breaker_text g b @ r) (length A) = Ok (b, length (A @ breaker_text g b) - 18)"
        if "b \<in> set (cfg_circuit_breakers c)" for b A r
        using that ok g by (intro parse_breaker_text) (auto simp: config_ok_def)
    qed (use text_begin text_long l1 e1 p1 in \<open>simp_all only: blocks_text_def simp_thms\<close>)
    with that show thesis by blast
  qed
  obtain C3 :: string where b3: "blocks_loop fuel (tag ''rate_limiter'') 15 parse_limiter (C2 @ p2 @ ?L) (length C2) []
      = Ok ([] @ cfg_rate_limiters c, length C3)"
  proof -
    have "\<exists>B pre'. blocks_loop fuel (tag ''rate_limiter'') 15 parse_limiter (C2 @ p2 @ ?L @ []) (length C2) []
        = Ok ([] @ cfg_rate_limiters c, length B) \<and> C2 @ p2 @ ?L @ [] = B @ pre' @ [] \<and> (pre' = g \<or> pre' = g)"
      unfolding blocks_text_def [of g "limiter_text g"] p2
    proof (rule blocks_loop_text [OF _ _ sk T skips_Nil fuel(3) sk])
      show "parse_limiter (A @ limiter_text g l @ r) (length A) = Ok (l, length (A @ limiter_text g l) - 15)"
        if "l \<in> set (cfg_rate_limiters c)" for l A r
        using that ok g by (intro parse_limiter_text) (auto simp: config_ok_def)
    qed (use text_begin text_long l1 e1 e2 p1 p2 in \<open>simp_all only: blocks_text_def simp_thms append_Nil2\<close>)
    with that show thesis unfolding append_Nil2 by blast
  qed
  have tags: "tag ''upstream'' = ''<upstream>''" "tag ''circuit_breaker'' = ''<circuit_breaker>''" "tag ''rate_limiter'' = ''<rate_limiter>''"
    by (simp_all add: tag_def)
  have "c = new_RpcConfig\<lparr>cfg_server := cfg_server c, cfg_log_level := cfg_log_level c, cfg_log_path := cfg_log_path c,
      cfg_upstreams := cfg_upstreams c, cfg_circuit_breakers := cfg_circuit_breakers c, cfg_rate_limiters := cfg_rate_limiters c\<rparr>"
    by simp
  then show ?thesis
    using h b1 b2 b3 unfolding parse_xml_def r e1 e2 tags
    by (simp add: new_RpcConfig_def)
qed


text \<open>As much fuel as the text has characters is enough.\<close>

lemma length_servers: "length ss \<le> length (concat (map (render_server g) ss))"
  by (induction ss) (auto simp: render_server_def)

lemma render_fuel:
  "length (cfg_upstreams c) \<le> length (render g c)" "length (cfg_circuit_breakers c) \<le> length (render g c)"
  "length (cfg_rate_limiters c) \<le> length (render g c)"
  "u \<in> set (cfg_upstreams c) \<Longrightarrow> length (up_servers u) \<le> length (render g c)"
proof -
  have "length (cfg_upstreams c) \<le> length (blocks_text g (upstream_text g) (cfg_upstreams c))"
    "length (cfg_circuit_breakers c) \<le> length (blocks_text g (breaker_text g) (cfg_circuit_breakers c))"
    "length (cfg_rate_limiters c) \<le> length (blocks_text g (limiter_text g) (cfg_rate_limiters c))"
    using text_long by (intro length_blocks_text order.strict_trans2 [OF _ text_long(1)] order.strict_trans2 [OF _ text_long(2)]
        order.strict_trans2 [OF _ text_long(3)]; simp)+
  then show "length (cfg_upstreams c) \<le> length (render g c)" "length (cfg_circuit_breakers c) \<le> length (render g c)"
    "length (cfg_rate_limiters c) \<le> length (render g c)"
    by (simp_all add: render_def)
  show "length (up_servers u) \<le> length (render g c)" if u: "u \<in> set (cfg_upstreams c)"
  proof -
    from u obtain us vs where "cfg_upstreams c = us @ u # vs" by (auto dest: split_list)
    then have "length (upstream_text g u) \<le> length (render g c)" by (simp add: render_def blocks_text_def)
    moreover have "length (up_servers u) \<le> length (upstream_text g u)"
      using length_servers [of "up_servers u" g] by (simp add: upstream_text_def)
    ultimately show ?thesis by linarith
  qed
qed

text \<open>C6: A configuration written out in the layout the parser expects, with any text without tags
  between the elements, is read back unchanged: the server section, every upstream with its servers
  and weights, every circuit breaker and every rate limiter, in their order. The fuel is the length
  of the text.\<close>

theorem parse_xml_roundtrip:
  assumes "config_ok c" and "CHR ''<'' \<notin> set g" and "length (render g c) < 2 ^ 64 - 1"
  shows "parse_xml (Suc (length (render g c))) (render g c) new_RpcConfig = Ok c"
  using assms by (intro parse_xml_render) (simp_all add: less_Suc_eq_le render_fuel)

definition sample_config :: RpcConfig where
  "sample_config = \<lparr>cfg_server = \<lparr>sc_address = ''0.0.0.0:80'', sc_protocol = ''tinypb'', sc_iothread_num = 4, sc_port = 0\<rparr>,
     cfg_upstreams = [\<lparr>up_name = ''echo'', up_type = ''weighted_random'', up_try_another = True,
       up_servers = [\<lparr>us_address = ''h:1'', us_weight = 3\<rparr>, \<lparr>us_address = ''h:2'', us_weight = 5\<rparr>]\<rparr>],
     cfg_circuit_breakers = [\<lparr>cbc_service_name = ''E'', cbc_failure_threshold = 5, cbc_success_threshold = 2, cbc_timeout_ms = 100\<rparr>],
     cfg_rate_limiters = [\<lparr>rlc_service_name = ''E'', rlc_qps = 7\<rparr>], cfg_log_level = ''INFO'', cfg_log_path = []\<rparr>"

theorem parse_xml_roundtrip_witness:
  "parse_xml (Suc (length (render [CHR 0x0A] sample_config))) (render [CHR 0x0A] sample_config) new_RpcConfig = Ok sample_config"
proof (rule parse_xml_roundtrip)
  show "config_ok sample_config"
    by (simp add: config_ok_def sample_config_def plain_def trim_def is_space_def int32_def server_ok_def)
  have n: "length (dec_int 4) \<le> 2" "length (dec_int 5) \<le> 2" "length (dec_int 2) \<le> 2" "length (dec_int 7) \<le> 2"
    "length (dec_int 100) \<le> 4" "length (dec_nat 3) \<le> 2" "length (dec_nat 5) \<le> 2"
    using length_dec_nat [of 4 1] length_dec_nat [of 5 1] length_dec_nat [of 2 1] length_dec_nat [of 7 1]
      length_dec_nat [of 100 3] length_dec_nat [of 3 1] by (simp_all add: dec_int_def)
  then show "length (render [CHR 0x0A] sample_config) < 2 ^ 64 - 1"
    by (simp add: render_def sample_config_def blocks_text_def upstream_text_def breaker_text_def limiter_text_def
        element_def tag_def render_server_def attribute_mark_def)
qed simp

end
