(* ===== verification/Rpc_Config.thy ===== *)
theory Rpc_Config
  imports Config_Parser World Upstreams Server_Lifecycle
begin

text \<open>
  Putting a configuration into effect (\<open>StartRpcServer\<close> and \<open>GetClientUpstreamUrl\<close> in
  \<open>rpc/src/rpc_config.cc\<close>): the log, the service governance, the upstreams, the server. The state is
  all of the program that is concerned; which file names can be opened for the log is an argument.
\<close>

section \<open>State\<close>

record 'e program =
  prog_world :: World
  prog_names :: WFNameService
  prog_server :: "TinyPbRpcServer option"
  prog_registry :: "'e registry"

section \<open>Log and governance\<close>

definition level_of :: "string \<Rightarrow> LogLevel" where
  "level_of s = (if s = ''DEBUG'' then LOG_LEVEL_DEBUG else if s = ''INFO'' then LOG_LEVEL_INFO
     else if s = ''WARN'' then LOG_LEVEL_WARN else if s = ''ERROR'' then LOG_LEVEL_ERROR
     else if s = ''FATAL'' then LOG_LEVEL_FATAL else LOG_LEVEL_INFO)"

definition apply_log :: "(string \<Rightarrow> bool) \<Rightarrow> RpcConfig \<Rightarrow> World \<Rightarrow> World" where
  "apply_log openable c w =
     (let w = (if cfg_log_level c \<noteq> [] then w\<lparr>logger := set_level (level_of (cfg_log_level c)) (logger w)\<rparr> else w)
      in if cfg_log_path c \<noteq> [] then w\<lparr>logger := set_output_file openable (cfg_log_path c) (logger w)\<rparr> else w)"

definition apply_breakers :: "CircuitBreakerConfig list \<Rightarrow> World \<Rightarrow> World" where
  "apply_breakers cbs w = fold (\<lambda>cb w. w\<lparr>governance := snd (get_circuit_breaker (cbc_service_name cb)
     (cbc_failure_threshold cb) (cbc_success_threshold cb) (cbc_timeout_ms cb) (governance w))\<rparr>) cbs w"

text \<open>A limiter that is created reads the clock.\<close>

definition apply_limiter :: "RateLimiterConfig \<Rightarrow> World \<Rightarrow> World" where
  "apply_limiter rl w =
     (let (now, w) = system_now w
      in w\<lparr>governance := snd (get_rate_limiter (rlc_service_name rl) (rlc_qps rl) now (governance w))\<rparr>)"

definition apply_limiters :: "RateLimiterConfig list \<Rightarrow> World \<Rightarrow> World" where
  "apply_limiters rls w = fold apply_limiter rls w"

section \<open>The address of the server\<close>

text \<open>\<open>None\<close> is a port that \<open>stoi\<close> refuses; the exception is caught.\<close>

definition server_address :: "ServerConfig \<Rightarrow> (string \<times> int) option cxx" where
  "server_address sv =
     (case find_ch (CHR '':'') (sc_address sv) of
        Some colon_pos \<Rightarrow>
          cbind (substr (sc_address sv) 0 colon_pos) (\<lambda>host.
          cbind (substr_from (sc_address sv) (colon_pos + 1)) (\<lambda>p.
            case stoi p of
              Ok port \<Rightarrow> Ok (Some (host, port))
            | Throws e \<Rightarrow> Ok None
            | Undefined \<Rightarrow> Undefined
            | Out_of_fuel \<Rightarrow> Out_of_fuel))
      | None \<Rightarrow> Ok (Some (sc_address sv, if 0 < sc_port sv then sc_port sv else 20000)))"

section \<open>Upstreams\<close>

definition cleanup_upstreams :: "string list \<Rightarrow> WFNameService \<Rightarrow> WFNameService" where
  "cleanup_upstreams names ns = fold (\<lambda>n ns. snd (upstream_delete n ns)) names ns"

definition server_params :: "string \<Rightarrow> UpstreamServerConfig \<Rightarrow> AddressParams" where
  "server_params ty s = (if ty = ''weighted_random'' then ADDRESS_PARAMS_DEFAULT\<lparr>weight := us_weight s\<rparr>
     else ADDRESS_PARAMS_DEFAULT)"

definition create_by_type :: "UpstreamConfig \<Rightarrow> WFNameService \<Rightarrow> ((errno + unit) \<times> WFNameService) option" where
  "create_by_type u ns =
     (if up_type u = ''weighted_random'' then Some (upstream_create_weighted_random (up_name u) (up_try_another u) ns)
      else if up_type u = ''consistent_hash'' then Some (upstream_create_consistent_hash (up_name u) ns)
      else if up_type u = ''vnswrr'' then Some (upstream_create_vnswrr (up_name u) ns)
      else None)"

fun add_upstream_servers :: "UpstreamConfig \<Rightarrow> UpstreamServerConfig list \<Rightarrow> WFNameService \<Rightarrow> bool \<times> WFNameService" where
  "add_upstream_servers u [] ns = (True, ns)"
| "add_upstream_servers u (s # ss) ns =
     (case upstream_add_server (up_name u) (us_address s) (server_params (up_type u) s) ns of
        (Inl e, ns) \<Rightarrow> (False, ns)
      | (Inr _, ns) \<Rightarrow> add_upstream_servers u ss ns)"

text \<open>The loop over the upstreams: those created so far are deleted when one fails. One of an unknown
  type is passed over.\<close>

fun create_upstreams :: "UpstreamConfig list \<Rightarrow> string list \<Rightarrow> WFNameService \<Rightarrow> string list option \<times> WFNameService" where
  "create_upstreams [] created ns = (Some created, ns)"
| "create_upstreams (u # us) created ns =
     (case create_by_type u ns of
        None \<Rightarrow> create_upstreams us created ns
      | Some (Inl e, ns) \<Rightarrow> (None, cleanup_upstreams created ns)
      | Some (Inr _, ns) \<Rightarrow>
          let created = created @ [up_name u]; (done, ns) = add_upstream_servers u (up_servers u) ns
          in if \<not> done then (None, cleanup_upstreams created ns) else create_upstreams us created ns)"

section \<open>Starting the server\<close>

text \<open>The port is an \<open>int\<close> passed as an \<open>unsigned short\<close>.\<close>

definition StartRpcServer :: "(string \<Rightarrow> bool) \<Rightarrow> 'e os \<Rightarrow> listen \<Rightarrow> u16 \<Rightarrow> RpcConfig \<Rightarrow> 'e program
    \<Rightarrow> (int \<times> 'e program) cxx" where
  "StartRpcServer openable os listen raw_port config g =
     (let w = apply_log openable config (prog_world g);
          w = apply_breakers (cfg_circuit_breakers config) w;
          w = apply_limiters (cfg_rate_limiters config) w;
          g = g\<lparr>prog_world := w\<rparr>
      in cbind (server_address (cfg_server config)) (\<lambda>address. case address of
        None \<Rightarrow> Ok (-1, g)
      | Some (host, port) \<Rightarrow>
          (case create_upstreams (cfg_upstreams config) [] (prog_names g) of
             (None, ns) \<Rightarrow> Ok (-1, g\<lparr>prog_names := ns\<rparr>)
           | (Some created, ns) \<Rightarrow>
               let (s, server) = GetRpcServer raw_port (prog_server g)
               in cbind (start_host os listen (c_str host) (word_of_int port) None s (prog_registry g)) (\<lambda>(ret, s, r).
                    Ok (ret, g\<lparr>prog_names := (if ret \<noteq> 0 then cleanup_upstreams created ns else ns),
                      prog_server := Some s, prog_registry := r\<rparr>)))))"

section \<open>The client's URL\<close>

definition GetClientUpstreamUrl :: "RpcConfig \<Rightarrow> WFNameService \<Rightarrow> string \<times> WFNameService" where
  "GetClientUpstreamUrl config ns =
     (case cfg_upstreams config of
        u # _ \<Rightarrow>
          let servers = map (\<lambda>s. (us_address s, us_weight s)) (up_servers u)
          in (case configure_weighted_upstream (up_name u) servers (up_try_another u) ns of
                (Inr _, ns) \<Rightarrow> (''tinypb://'' @ up_name u, ns)
              | (Inl e, ns) \<Rightarrow> ([], ns))
      | [] \<Rightarrow> (if sc_address (cfg_server config) \<noteq> [] then sc_address (cfg_server config) else [], ns))"

section \<open>Upstreams come and go together\<close>

text \<open>\<open>ns'\<close> is \<open>ns\<close> with policies under the names created, none of which \<open>ns\<close> had.\<close>

definition adds :: "string list \<Rightarrow> WFNameService \<Rightarrow> WFNameService \<Rightarrow> bool" where
  "adds names ns ns' \<longleftrightarrow> (\<forall>n \<in> set names. ns (fold_name n) = None \<and> ns' (fold_name n) \<noteq> None)
     \<and> (\<forall>k. k \<notin> fold_name ` set names \<longrightarrow> ns' k = ns k)"

lemma upstream_delete_ns: "snd (upstream_delete n ns) = ns(fold_name n := None)"
  by (simp add: upstream_delete_def del_policy_def)

lemma cleanup_eq: "cleanup_upstreams names ns k = (if k \<in> fold_name ` set names then None else ns k)"
  unfolding cleanup_upstreams_def
  by (induction names arbitrary: ns) (auto simp: upstream_delete_ns)

lemma cleanup_adds: "adds names ns ns' \<Longrightarrow> cleanup_upstreams names ns' = ns"
  by (rule ext) (auto simp: cleanup_eq adds_def)

lemma create_by_type_cases:
  assumes "create_by_type u ns = Some (r, ns1)"
  shows "(case r of Inl e \<Rightarrow> ns1 = ns
    | Inr _ \<Rightarrow> ns (fold_name (up_name u)) = None \<and> (\<exists>p. ns1 = ns(fold_name (up_name u) \<mapsto> p)))"
  using assms
  by (auto simp: create_by_type_def upstream_create_weighted_random_def upstream_create_consistent_hash_def
      upstream_create_vnswrr_def upstream_create_def add_policy_def split: if_splits option.splits)

lemma add_upstream_servers_present:
  "ns (fold_name (up_name u)) = Some p \<Longrightarrow>
     \<exists>q. add_upstream_servers u ss ns = (True, ns(fold_name (up_name u) \<mapsto> q))"
proof (induction ss arbitrary: ns p)
  case Nil
  then have "ns = ns(fold_name (up_name u) \<mapsto> p)" by (simp add: fun_upd_idem)
  then show ?case using add_upstream_servers.simps(1) [of u ns] by metis
next
  case (Cons s ss)
  let ?q = "policy_add_server (us_address s) (server_params (up_type u) s) p"
  let ?ns = "put_policy (up_name u, ?q) ns"
  have "?ns (fold_name (up_name u)) = Some ?q" by (simp add: put_policy_def)
  from Cons.IH [of ?ns, OF this] obtain q where "add_upstream_servers u ss ?ns = (True, ?ns(fold_name (up_name u) \<mapsto> q))"
    by blast
  with add_server_present [of ns "up_name u" p "us_address s" "server_params (up_type u) s"] Cons.prems
  show ?case by (intro exI [of _ q]) (simp add: put_policy_def, rule ext, simp)
qed

lemma create_upstreams_adds:
  "adds created ns0 ns \<Longrightarrow> create_upstreams us created ns = (r, ns') \<Longrightarrow>
     (case r of None \<Rightarrow> ns' = ns0 | Some created' \<Rightarrow> adds created' ns0 ns' \<and> (\<forall>k. ns k \<noteq> None \<longrightarrow> ns' k \<noteq> None))"
proof (induction us arbitrary: created ns)
  case Nil
  then show ?case by auto
next
  case (Cons u us)
  show ?case
  proof (cases "create_by_type u ns")
    case None
    with Cons show ?thesis by simp
  next
    case (Some c)
    obtain q ns1 where c: "c = (q, ns1)" by (cases c)
    note t = create_by_type_cases [OF Some [unfolded c]]
    show ?thesis
    proof (cases q)
      case (Inl e)
      with t have "ns1 = ns" by simp
      then have "create_upstreams (u # us) created ns = (None, cleanup_upstreams created ns)"
        using Some Inl by (simp add: c)
      with Cons.prems cleanup_adds show ?thesis by auto
    next
      case (Inr x)
      with t obtain p where new: "ns (fold_name (up_name u)) = None" and ns1: "ns1 = ns(fold_name (up_name u) \<mapsto> p)"
        by auto
      have "ns1 (fold_name (up_name u)) = Some p" by (simp add: ns1)
      from add_upstream_servers_present [of ns1 u p, OF this] obtain q'
        where a: "add_upstream_servers u (up_servers u) ns1 = (True, ns1(fold_name (up_name u) \<mapsto> q'))" by blast
      let ?ns2 = "ns1(fold_name (up_name u) \<mapsto> q')"
      have "fold_name (up_name u) \<notin> fold_name ` set created"
        using Cons.prems(1) new by (auto simp: adds_def)
      then have ad: "adds (created @ [up_name u]) ns0 ?ns2"
        using Cons.prems(1) new by (auto simp: adds_def ns1)
      have "create_upstreams us (created @ [up_name u]) ?ns2 = (r, ns')"
        using Cons.prems(2) Some Inr a by (simp add: c)
      from Cons.IH [OF ad this] show ?thesis
        by (cases r) (auto simp: ns1)
    qed
  qed
qed

lemma adds_Nil [simp]: "adds [] ns ns"
  by (simp add: adds_def)

lemma create_first:
  assumes "create_upstreams (u # us) [] ns = (Some created, ns')" and "create_by_type u ns \<noteq> None"
  shows "ns' (fold_name (up_name u)) \<noteq> None"
proof -
  from assms(2) obtain q ns1 where c: "create_by_type u ns = Some (q, ns1)" by auto
  with assms(1) obtain x where q: "q = Inr x" by (cases q) auto
  with create_by_type_cases [OF c] obtain p where "ns1 = ns(fold_name (up_name u) \<mapsto> p)"
    and new: "ns (fold_name (up_name u)) = None" by auto
  then have "ns1 (fold_name (up_name u)) = Some p" by simp
  from add_upstream_servers_present [of ns1 u p, OF this] obtain q'
    where a: "add_upstream_servers u (up_servers u) ns1 = (True, ns1(fold_name (up_name u) \<mapsto> q'))" by blast
  let ?ns2 = "ns1(fold_name (up_name u) \<mapsto> q')"
  from assms(1) c q a have "create_upstreams us [up_name u] ?ns2 = (Some created, ns')" by simp
  moreover have "adds [up_name u] ns ?ns2" using new \<open>ns1 = _\<close> by (simp add: adds_def)
  ultimately have "\<forall>k. ?ns2 k \<noteq> None \<longrightarrow> ns' k \<noteq> None"
    using create_upstreams_adds [of "[up_name u]" ns ?ns2 us "Some created" ns'] by simp
  then show ?thesis by simp
qed

lemma StartRpcServer_names:
  assumes "StartRpcServer openable os listen raw_port config g = Ok (ret, g')"
  shows "if ret = 0 then \<exists>created. create_upstreams (cfg_upstreams config) [] (prog_names g) = (Some created, prog_names g')
    else prog_names g' = prog_names g"
proof -
  from assms obtain address where address: "server_address (cfg_server config) = Ok address"
    by (auto simp: StartRpcServer_def cxx_simps Let_def)
  show ?thesis
  proof (cases address)
    case None
    with assms address show ?thesis by (auto simp: StartRpcServer_def Let_def)
  next
    case (Some hp)
    obtain host port where hp: "hp = (host, port)" by (cases hp)
    obtain r ns where cu: "create_upstreams (cfg_upstreams config) [] (prog_names g) = (r, ns)"
      by (cases "create_upstreams (cfg_upstreams config) [] (prog_names g)")
    note ad = create_upstreams_adds [OF adds_Nil cu]
    show ?thesis
    proof (cases r)
      case None
      with ad have "ns = prog_names g" by simp
      with assms address Some hp cu None show ?thesis by (auto simp: StartRpcServer_def Let_def)
    next
      case (Some created)
      with ad have "cleanup_upstreams created ns = prog_names g" using cleanup_adds by simp
      with assms address \<open>address = Some hp\<close> hp cu Some show ?thesis
        by (auto simp: StartRpcServer_def Let_def cxx_simps split: prod.splits)
    qed
  qed
qed

section \<open>Properties\<close>

text \<open>C39: A start of the server from a configuration that fails, for whatever reason (a bad port, an
  upstream that exists already, a socket that cannot be opened), leaves every upstream as it was;
  it creates none and deletes none.\<close>

theorem failed_start_keeps_upstreams:
  assumes "StartRpcServer openable os listen raw_port config g = Ok (ret, g')" and "ret \<noteq> 0"
  shows "prog_names g' = prog_names g"
  using StartRpcServer_names [OF assms(1)] assms(2) by simp

text \<open>A process that has started the server from a configuration whose first upstream has a known
  type gets no client URL from the same configuration: the upstream exists already, and the
  function gives the empty string.\<close>

theorem no_client_url_after_start:
  assumes "StartRpcServer openable os listen raw_port config g = Ok (0, g')"
    and "cfg_upstreams config = u # us" and "up_type u \<in> {''weighted_random'', ''consistent_hash'', ''vnswrr''}"
  shows "GetClientUpstreamUrl config (prog_names g') = ([], prog_names g')"
proof -
  have "create_by_type u (prog_names g) \<noteq> None" using assms(3) by (auto simp: create_by_type_def)
  with StartRpcServer_names [OF assms(1)] have "prog_names g' (fold_name (up_name u)) \<noteq> None"
    using create_first [of u us "prog_names g"] assms(2) by auto
  then have "configure_weighted_upstream (up_name u) ss b (prog_names g')
      = (if ss = [] then Inl EINVAL else Inl EEXIST, prog_names g')" for ss b
    by (auto simp: configure_weighted_params configure_params_eq)
  then show ?thesis by (simp add: GetClientUpstreamUrl_def assms(2))
qed

definition start_program :: "unit program" where
  "start_program = \<lparr>prog_world = quiet_world, prog_names = Map.empty, prog_server = None,
     prog_registry = (new_EtcdRegistryClient, idle_net ())\<rparr>"

definition echo_config :: RpcConfig where
  "echo_config = new_RpcConfig\<lparr>cfg_server := (cfg_server new_RpcConfig)\<lparr>sc_address := ''host''\<rparr>,
     cfg_upstreams := [\<lparr>up_name = ''echo'', up_type = ''vnswrr'', up_try_another = False,
       up_servers = [\<lparr>us_address = ''h:1'', us_weight = 3\<rparr>]\<rparr>]\<rparr>"

lemma start_echo:
  "\<exists>g'. StartRpcServer (\<lambda>_. True) unreachable (\<lambda>_ _ _. ret) 0 echo_config start_program = Ok (ret, g')"
proof -
  have "server_address (cfg_server echo_config) = Ok (Some (''host'', 20000))"
    by (simp add: server_address_def echo_config_def new_RpcConfig_def)
  moreover have "\<exists>ns. create_upstreams (cfg_upstreams echo_config) [] (prog_names start_program) = (Some [''echo''], ns)"
    by (simp add: echo_config_def start_program_def create_by_type_def upstream_create_vnswrr_def upstream_create_def
        add_policy_def upstream_add_server_def on_policy_def get_policy_def)
  ultimately show ?thesis
    by (auto simp: StartRpcServer_def Let_def start_program_def GetRpcServer_def start_host_def start_at_def
        new_TinyPbRpcServer_def)
qed

theorem failed_start_keeps_upstreams_witness:
  "\<exists>g'. StartRpcServer (\<lambda>_. True) unreachable (\<lambda>_ _ _. -1) 0 echo_config start_program = Ok (-1, g')
     \<and> prog_names g' = Map.empty"
proof -
  obtain g' where s: "StartRpcServer (\<lambda>_. True) unreachable (\<lambda>_ _ _. -1) 0 echo_config start_program = Ok (-1, g')"
    using start_echo [of "-1"] by blast
  from failed_start_keeps_upstreams [OF s] s show ?thesis by (simp add: start_program_def)
qed

theorem no_client_url_after_start_witness:
  "\<exists>g'. StartRpcServer (\<lambda>_. True) unreachable (\<lambda>_ _ _. 0) 0 echo_config start_program = Ok (0, g')
     \<and> fst (GetClientUpstreamUrl echo_config (prog_names g')) = []"
proof -
  obtain g' where s: "StartRpcServer (\<lambda>_. True) unreachable (\<lambda>_ _ _. 0) 0 echo_config start_program = Ok (0, g')"
    using start_echo [of 0] by blast
  have u: "cfg_upstreams echo_config = \<lparr>up_name = ''echo'', up_type = ''vnswrr'', up_try_another = False,
       up_servers = [\<lparr>us_address = ''h:1'', us_weight = 3\<rparr>]\<rparr> # []"
    by (simp add: echo_config_def)
  from no_client_url_after_start [OF s u] s show ?thesis by simp
qed

end
