(* ===== verification/Rpc_Easy.thy ===== *)
theory Rpc_Easy
  imports RpcFramework Upstreams
begin

text \<open>
  The easy interface (\<open>rpc/src/rpc_easy.h\<close>, \<open>rpc/src/rpc_easy.cc\<close>): servers and clients bound to a
  service name, the upstream calls under other names, and the life of a \<open>SimpleRpcServer\<close> that runs
  until another thread asks it to stop. The last is a transition system over the threads: the
  runner, and the threads that call \<open>request_stop\<close>, interleaved at their locked sections and at
  \<open>notify_all\<close>.
\<close>

section \<open>Servers and clients of one service\<close>

record EasyRpcServer =
  easy_service_name :: string
  easy_server :: RpcServer

definition new_EasyRpcServer :: "string \<Rightarrow> EasyRpcServer" where
  "new_EasyRpcServer service = \<lparr>easy_service_name = service, easy_server = new_RpcServer\<rparr>"

definition register_method :: "string \<Rightarrow> (string \<Rightarrow> bool \<times> 'req) \<Rightarrow> ('req \<Rightarrow> 'resp) \<Rightarrow> ('resp \<Rightarrow> bool \<times> string)
    \<Rightarrow> EasyRpcServer \<Rightarrow> EasyRpcServer" where
  "register_method method parse h ser s =
     s\<lparr>easy_server := register_pb_method (easy_service_name s) method parse h ser (easy_server s)\<rparr>"

record EasyRpcClient =
  client_host :: string
  client_port :: u16
  client_service_name :: string

definition create_easy_task :: "RpcMessage \<Rightarrow> ('req \<Rightarrow> bool \<times> string) \<Rightarrow> string \<Rightarrow> 'req \<Rightarrow> EasyRpcClient \<Rightarrow> u64
    \<Rightarrow> RpcMessage option \<times> u64" where
  "create_easy_task fresh ser method request c seq =
     create_pb_task fresh ser (client_service_name c) method request seq"

section \<open>Upstreams\<close>

definition create_weighted :: "string \<Rightarrow> bool \<Rightarrow> WFNameService \<Rightarrow> (errno + unit) \<times> WFNameService" where
  "create_weighted name another = upstream_create_weighted_random name another"
definition register_server :: "string \<Rightarrow> string \<Rightarrow> WFNameService \<Rightarrow> (errno + unit) \<times> WFNameService" where
  "register_server name address = upstream_add_server name address ADDRESS_PARAMS_DEFAULT"
definition register_server_params :: "string \<Rightarrow> string \<Rightarrow> AddressParams \<Rightarrow> WFNameService \<Rightarrow> (errno + unit) \<times> WFNameService" where
  "register_server_params name address params = upstream_add_server name address params"
definition unregister_server :: "string \<Rightarrow> string \<Rightarrow> WFNameService \<Rightarrow> (errno + int) \<times> WFNameService" where
  "unregister_server name address = upstream_remove_server name address"
definition remove_service :: "string \<Rightarrow> WFNameService \<Rightarrow> (errno + unit) \<times> WFNameService" where
  "remove_service name = upstream_delete name"
definition configure_weighted :: "string \<Rightarrow> (string \<times> nat) list \<Rightarrow> bool \<Rightarrow> WFNameService \<Rightarrow> (errno + unit) \<times> WFNameService" where
  "configure_weighted name servers another = configure_weighted_upstream name servers another"
definition configure_weighted_params :: "string \<Rightarrow> (string \<times> AddressParams) list \<Rightarrow> bool \<Rightarrow> WFNameService
    \<Rightarrow> (errno + unit) \<times> WFNameService" where
  "configure_weighted_params name servers another = configure_weighted_upstream_params name servers another"

section \<open>The life of a simple server\<close>

text \<open>Where \<open>run_until_stopped\<close> is: before \<open>start\<close>, testing the predicate of the wait with the lock
  held, asleep in the wait, before \<open>stop\<close>, or returned.\<close>

datatype runner = At_start | At_test | Asleep | At_stop | Returned int

text \<open>Where a call of \<open>request_stop\<close> is: before the locked section, before \<open>notify_all\<close>, returned.\<close>

datatype requester = At_set | At_notify | Request_done

record simple_server =
  runner :: runner
  requesters :: "requester list"
  stop_requested :: bool
  serving :: bool

definition new_simple_server :: "nat \<Rightarrow> simple_server" where
  "new_simple_server k = \<lparr>runner = At_start, requesters = replicate k At_set, stop_requested = False, serving = False\<rparr>"

text \<open>
  \<open>start\<close> clears the flag and opens the socket in one locked section; a socket that cannot be opened
  ends the run with -1. A sleeper wakes up when it is notified, and may wake up at any time.
\<close>

inductive life_step :: "simple_server \<Rightarrow> simple_server \<Rightarrow> bool" where
  start_ok: "runner s = At_start \<Longrightarrow>
    life_step s (s\<lparr>runner := At_test, stop_requested := False, serving := True\<rparr>)"
| start_failed: "runner s = At_start \<Longrightarrow>
    life_step s (s\<lparr>runner := Returned (-1), stop_requested := False\<rparr>)"
| test_true: "runner s = At_test \<Longrightarrow> stop_requested s \<Longrightarrow> life_step s (s\<lparr>runner := At_stop\<rparr>)"
| test_false: "runner s = At_test \<Longrightarrow> \<not> stop_requested s \<Longrightarrow> life_step s (s\<lparr>runner := Asleep\<rparr>)"
| wake: "runner s = Asleep \<Longrightarrow> life_step s (s\<lparr>runner := At_test\<rparr>)"
| stop: "runner s = At_stop \<Longrightarrow> life_step s (s\<lparr>runner := Returned 0, serving := False\<rparr>)"
| request_set: "i < length (requesters s) \<Longrightarrow> requesters s ! i = At_set \<Longrightarrow>
    life_step s (s\<lparr>requesters := (requesters s)[i := At_notify], stop_requested := True\<rparr>)"
| request_notify: "i < length (requesters s) \<Longrightarrow> requesters s ! i = At_notify \<Longrightarrow>
    life_step s (s\<lparr>requesters := (requesters s)[i := Request_done],
      runner := (if runner s = Asleep then At_test else runner s)\<rparr>)"

inductive_cases life_stepE: "life_step s s'"

inductive life_reach :: "nat \<Rightarrow> simple_server \<Rightarrow> bool" for k where
  init: "life_reach k (new_simple_server k)"
| step: "life_reach k s \<Longrightarrow> life_step s s' \<Longrightarrow> life_reach k s'"

text \<open>
  The invariant: a runner asleep while a stop is requested has a notification coming; it serves
  exactly between start and stop; it stops only on request.
\<close>

definition life_inv :: "simple_server \<Rightarrow> bool" where
  "life_inv s \<longleftrightarrow>
     (runner s = Asleep \<and> stop_requested s \<longrightarrow> At_notify \<in> set (requesters s))
     \<and> (serving s \<longleftrightarrow> runner s \<in> {At_test, Asleep, At_stop})
     \<and> (runner s = At_stop \<longrightarrow> stop_requested s)
     \<and> (runner s = Returned 0 \<longrightarrow> stop_requested s)"

lemma At_notify_update:
  "At_notify \<in> set rs \<Longrightarrow> i < length rs \<Longrightarrow> rs ! i = At_set \<Longrightarrow> At_notify \<in> set (rs[i := x])"
  by (auto simp: in_set_conv_nth nth_list_update) (metis requester.distinct(1))

lemma life_inv_step: "life_step s s' \<Longrightarrow> life_inv s \<Longrightarrow> life_inv s'"
proof (induction rule: life_step.induct)
  case (request_set i s)
  have "At_notify \<in> set ((requesters s)[i := At_notify])" using request_set(1) by (simp add: set_update_memI)
  with request_set show ?case by (auto simp: life_inv_def)
next
  case (request_notify i s)
  then show ?case by (auto simp: life_inv_def)
qed (auto simp: life_inv_def)

lemma life_inv_reach: "life_reach k s \<Longrightarrow> life_inv s"
proof (induction rule: life_reach.induct)
  case init
  then show ?case by (simp add: life_inv_def new_simple_server_def)
next
  case (step s s')
  then show ?case using life_inv_step by blast
qed

section \<open>Properties\<close>

text \<open>C40: No wake-up is lost: whenever the runner sleeps although a stop has been requested, some call
  of \<open>request_stop\<close> has its notification still to come; the server serves exactly while the runner
  is between its start and its stop, and a run that returns 0 was asked to stop.\<close>

theorem no_lost_wakeup:
  assumes "life_reach k s"
  shows "(runner s = Asleep \<and> stop_requested s \<longrightarrow> At_notify \<in> set (requesters s))
    \<and> (serving s \<longleftrightarrow> runner s \<in> {At_test, Asleep, At_stop})
    \<and> (runner s = Returned 0 \<longrightarrow> stop_requested s)"
  using life_inv_reach [OF assms] by (simp add: life_inv_def)

definition asleep_on_request :: simple_server where
  "asleep_on_request = \<lparr>runner = Asleep, requesters = [At_notify], stop_requested = True, serving = True\<rparr>"

lemma asleep_on_request_reached: "life_reach 1 asleep_on_request"
proof -
  let ?s0 = "new_simple_server 1"
  let ?s1 = "?s0\<lparr>runner := At_test, stop_requested := False, serving := True\<rparr>"
  let ?s2 = "?s1\<lparr>runner := Asleep\<rparr>"
  have "life_reach 1 ?s1"
    using life_reach.step [OF life_reach.init life_step.start_ok [of ?s0]] by (simp add: new_simple_server_def)
  then have "life_reach 1 ?s2"
    using life_reach.step [OF _ life_step.test_false [of ?s1]] by (simp add: new_simple_server_def)
  then show ?thesis
    using life_reach.step [OF _ life_step.request_set [of 0 ?s2]]
    by (simp add: new_simple_server_def asleep_on_request_def)
qed

theorem no_lost_wakeup_witness:
  "life_reach 1 asleep_on_request \<and> runner asleep_on_request = Asleep \<and> stop_requested asleep_on_request
   \<and> At_notify \<in> set (requesters asleep_on_request)"
  using asleep_on_request_reached no_lost_wakeup [OF asleep_on_request_reached]
  by (simp add: asleep_on_request_def)

text \<open>A stop that is requested before the server has started is lost: the start clears the flag,
  and with every request returned the runner sleeps with no stop requested; from there it only
  wakes up to fall asleep again.\<close>

theorem early_stop_is_lost:
  "\<exists>s. life_reach 1 s \<and> requesters s = [Request_done] \<and> runner s = Asleep
     \<and> {s'. life_step\<^sup>*\<^sup>* s s'} \<subseteq> {s'. runner s' \<in> {Asleep, At_test} \<and> \<not> stop_requested s'}"
proof -
  let ?s0 = "new_simple_server 1"
  let ?s1 = "?s0\<lparr>requesters := [At_notify], stop_requested := True\<rparr>"
  let ?s2 = "?s0\<lparr>requesters := [Request_done], stop_requested := True\<rparr>"
  let ?s3 = "?s0\<lparr>runner := At_test, requesters := [Request_done], stop_requested := False, serving := True\<rparr>"
  let ?s4 = "?s3\<lparr>runner := Asleep\<rparr>"
  have "life_reach 1 ?s1"
    using life_reach.step [OF life_reach.init life_step.request_set [of 0 ?s0]] by (simp add: new_simple_server_def)
  then have "life_reach 1 ?s2"
    using life_reach.step [OF _ life_step.request_notify [of 0 ?s1]] by (simp add: new_simple_server_def)
  then have "life_reach 1 ?s3"
    using life_reach.step [OF _ life_step.start_ok [of ?s2]] by (simp add: new_simple_server_def)
  then have r: "life_reach 1 ?s4"
    using life_reach.step [OF _ life_step.test_false [of ?s3]] by (simp add: new_simple_server_def)
  have stuck: "runner s' \<in> {Asleep, At_test} \<and> \<not> stop_requested s' \<and> requesters s' = [Request_done]"
    if "life_step\<^sup>*\<^sup>* ?s4 s'" for s'
    using that
  proof (induction rule: rtranclp_induct)
    case base
    then show ?case by simp
  next
    case (step s s')
    from step.hyps(2) step.IH show ?case by (auto elim!: life_stepE)
  qed
  with r show ?thesis by (intro exI [of _ ?s4]) auto
qed

end
