(* ===== verification/Breaker_Threads.thy ===== *)
theory Breaker_Threads
  imports CircuitBreaker
begin

text \<open>
  The circuit breaker under several threads (\<open>rpc/src/rpc_circuit_breaker.cc\<close>). The state of the
  breaker is atomic variables and a mutex that only the transitions take; a turn of a thread is one
  access of an atomic variable, one reading of the clock, or taking the mutex (releasing it goes with
  the last access before). A schedule says which thread has its turn, with the call it makes when it
  is outside and the time its clock shows.
\<close>

section \<open>Threads\<close>

datatype call = Allow_request | Record_success | Record_failure

text \<open>Where a thread is: the next action it will do. \<open>Idle\<close> is before the load of the state that
  every call begins with.\<close>

datatype pc = Idle
  | Reset_load | Reset_now int
  | Half_lock | Half_state | Half_count
  | Clear_failures | Add_success
  | Closed_lock | Closed_state | Closed_failures | Closed_successes
  | Add_failure
  | Open_lock | Open_test | Open_store | Open_now | Open_time int

record threads =
  shared :: CircuitBreaker
  holder :: "nat option"
  pcs :: "pc list"
  answers :: "(nat \<times> bool) list"
  overflowed :: bool

definition new_threads :: "CircuitBreaker \<Rightarrow> nat \<Rightarrow> threads" where
  "new_threads cb n = \<lparr>shared = cb, holder = None, pcs = replicate n Idle, answers = [], overflowed = False\<rparr>"

definition goto :: "nat \<Rightarrow> pc \<Rightarrow> threads \<Rightarrow> threads" where
  "goto i p s = s\<lparr>pcs := (pcs s)[i := p]\<rparr>"

definition upd_shared :: "(CircuitBreaker \<Rightarrow> CircuitBreaker) \<Rightarrow> threads \<Rightarrow> threads" where
  "upd_shared f s = s\<lparr>shared := f (shared s)\<rparr>"

definition answer :: "nat \<Rightarrow> bool \<Rightarrow> threads \<Rightarrow> threads" where
  "answer i b s = goto i Idle (s\<lparr>answers := answers s @ [(i, b)]\<rparr>)"

text \<open>A thread that finds the mutex taken stays where it is.\<close>

definition acquire :: "nat \<Rightarrow> pc \<Rightarrow> threads \<Rightarrow> threads" where
  "acquire i p s = (if holder s = None then goto i p (s\<lparr>holder := Some i\<rparr>) else s)"

definition release :: "threads \<Rightarrow> threads" where
  "release s = s\<lparr>holder := None\<rparr>"

section \<open>Turns\<close>

definition begin_call :: "call \<Rightarrow> nat \<Rightarrow> threads \<Rightarrow> threads" where
  "begin_call c i s = (case (c, cb_state (shared s)) of
     (Allow_request, STATE_OPEN) \<Rightarrow> goto i Reset_load s
   | (Allow_request, _) \<Rightarrow> answer i True s
   | (Record_success, STATE_CLOSED) \<Rightarrow> goto i Clear_failures s
   | (Record_success, STATE_HALF_OPEN) \<Rightarrow> goto i Add_success s
   | (Record_success, STATE_OPEN) \<Rightarrow> s
   | (Record_failure, STATE_CLOSED) \<Rightarrow> goto i Add_failure s
   | (Record_failure, STATE_HALF_OPEN) \<Rightarrow> goto i Open_lock s
   | (Record_failure, STATE_OPEN) \<Rightarrow> s)"

text \<open>\<open>fetch_add\<close> wraps around; adding one to its result overflows at the largest \<open>int\<close>.\<close>

definition add_failure :: "nat \<Rightarrow> threads \<Rightarrow> threads" where
  "add_failure i s =
     (let old = failure_count (shared s);
          s = upd_shared (\<lambda>cb. cb\<lparr>failure_count := wrap32 (old + 1)\<rparr>) s;
          s = s\<lparr>overflowed := overflowed s \<or> old = INT_MAX\<rparr>
      in goto i (if old + 1 \<ge> failure_threshold (shared s) then Open_lock else Idle) s)"

definition add_success :: "nat \<Rightarrow> threads \<Rightarrow> threads" where
  "add_success i s =
     (let old = success_count (shared s);
          s = upd_shared (\<lambda>cb. cb\<lparr>success_count := wrap32 (old + 1)\<rparr>) s;
          s = s\<lparr>overflowed := overflowed s \<or> old = INT_MAX\<rparr>
      in goto i (if old + 1 \<ge> success_threshold (shared s) then Closed_lock else Idle) s)"

definition turn :: "call \<Rightarrow> int \<Rightarrow> nat \<Rightarrow> threads \<Rightarrow> threads" where
  "turn c now i s = (case pcs s ! i of
     Idle \<Rightarrow> begin_call c i s
   | Reset_load \<Rightarrow> goto i (Reset_now (last_failure_time (shared s))) s
   | Reset_now t \<Rightarrow> if now - t \<ge> timeout_ms (shared s) then goto i Half_lock s else answer i False s
   | Half_lock \<Rightarrow> acquire i Half_state s
   | Half_state \<Rightarrow> goto i Half_count (upd_shared (\<lambda>cb. cb\<lparr>cb_state := STATE_HALF_OPEN\<rparr>) s)
   | Half_count \<Rightarrow> answer i True (release (upd_shared (\<lambda>cb. cb\<lparr>success_count := 0\<rparr>) s))
   | Clear_failures \<Rightarrow> goto i Idle (upd_shared (\<lambda>cb. cb\<lparr>failure_count := 0\<rparr>) s)
   | Add_success \<Rightarrow> add_success i s
   | Closed_lock \<Rightarrow> acquire i Closed_state s
   | Closed_state \<Rightarrow> goto i Closed_failures (upd_shared (\<lambda>cb. cb\<lparr>cb_state := STATE_CLOSED\<rparr>) s)
   | Closed_failures \<Rightarrow> goto i Closed_successes (upd_shared (\<lambda>cb. cb\<lparr>failure_count := 0\<rparr>) s)
   | Closed_successes \<Rightarrow> goto i Idle (release (upd_shared (\<lambda>cb. cb\<lparr>success_count := 0\<rparr>) s))
   | Add_failure \<Rightarrow> add_failure i s
   | Open_lock \<Rightarrow> acquire i Open_test s
   | Open_test \<Rightarrow> if cb_state (shared s) \<noteq> STATE_OPEN then goto i Open_store s else goto i Idle (release s)
   | Open_store \<Rightarrow> goto i Open_now (upd_shared (\<lambda>cb. cb\<lparr>cb_state := STATE_OPEN\<rparr>) s)
   | Open_now \<Rightarrow> goto i (Open_time now) s
   | Open_time t \<Rightarrow> goto i Idle (release (upd_shared (\<lambda>cb. cb\<lparr>last_failure_time := t\<rparr>) s)))"

text \<open>A schedule gives turns to threads; a turn of a thread that does not exist is none.\<close>

fun schedule :: "(nat \<times> call \<times> int) list \<Rightarrow> threads \<Rightarrow> threads" where
  "schedule [] s = s"
| "schedule ((i, c, now) # es) s = schedule es (if i < length (pcs s) then turn c now i s else s)"

section \<open>A call that is not interrupted\<close>

text \<open>The turns of one thread until its call has ended; no call has more than six after the first.\<close>

fun finish :: "nat \<Rightarrow> int \<Rightarrow> nat \<Rightarrow> threads \<Rightarrow> threads" where
  "finish 0 now i s = s"
| "finish (Suc n) now i s = (if pcs s ! i = Idle then s else finish n now i (turn Allow_request now i s))"

definition call_alone :: "call \<Rightarrow> int \<Rightarrow> nat \<Rightarrow> threads \<Rightarrow> threads" where
  "call_alone c now i s = finish 6 now i (turn c now i s)"

lemma turn_at:
  "pcs s ! i = Idle \<Longrightarrow> turn c now i s = begin_call c i s"
  "pcs s ! i = Reset_load \<Longrightarrow> turn c now i s = goto i (Reset_now (last_failure_time (shared s))) s"
  "pcs s ! i = Reset_now t \<Longrightarrow> turn c now i s = (if now - t \<ge> timeout_ms (shared s) then goto i Half_lock s else answer i False s)"
  "pcs s ! i = Half_lock \<Longrightarrow> turn c now i s = acquire i Half_state s"
  "pcs s ! i = Half_state \<Longrightarrow> turn c now i s = goto i Half_count (upd_shared (\<lambda>cb. cb\<lparr>cb_state := STATE_HALF_OPEN\<rparr>) s)"
  "pcs s ! i = Half_count \<Longrightarrow> turn c now i s = answer i True (release (upd_shared (\<lambda>cb. cb\<lparr>success_count := 0\<rparr>) s))"
  "pcs s ! i = Clear_failures \<Longrightarrow> turn c now i s = goto i Idle (upd_shared (\<lambda>cb. cb\<lparr>failure_count := 0\<rparr>) s)"
  "pcs s ! i = Add_success \<Longrightarrow> turn c now i s = add_success i s"
  "pcs s ! i = Closed_lock \<Longrightarrow> turn c now i s = acquire i Closed_state s"
  "pcs s ! i = Closed_state \<Longrightarrow> turn c now i s = goto i Closed_failures (upd_shared (\<lambda>cb. cb\<lparr>cb_state := STATE_CLOSED\<rparr>) s)"
  "pcs s ! i = Closed_failures \<Longrightarrow> turn c now i s = goto i Closed_successes (upd_shared (\<lambda>cb. cb\<lparr>failure_count := 0\<rparr>) s)"
  "pcs s ! i = Closed_successes \<Longrightarrow> turn c now i s = goto i Idle (release (upd_shared (\<lambda>cb. cb\<lparr>success_count := 0\<rparr>) s))"
  "pcs s ! i = Add_failure \<Longrightarrow> turn c now i s = add_failure i s"
  "pcs s ! i = Open_lock \<Longrightarrow> turn c now i s = acquire i Open_test s"
  "pcs s ! i = Open_test \<Longrightarrow> turn c now i s = (if cb_state (shared s) \<noteq> STATE_OPEN then goto i Open_store s else goto i Idle (release s))"
  "pcs s ! i = Open_store \<Longrightarrow> turn c now i s = goto i Open_now (upd_shared (\<lambda>cb. cb\<lparr>cb_state := STATE_OPEN\<rparr>) s)"
  "pcs s ! i = Open_now \<Longrightarrow> turn c now i s = goto i (Open_time now) s"
  "pcs s ! i = Open_time t \<Longrightarrow> turn c now i s = goto i Idle (release (upd_shared (\<lambda>cb. cb\<lparr>last_failure_time := t\<rparr>) s))"
  by (simp_all add: turn_def)

lemmas turn_simps = turn_def begin_call_def add_failure_def add_success_def goto_def answer_def acquire_def
  release_def upd_shared_def

lemma idle_again: "xs ! i = Idle \<Longrightarrow> xs[i := Idle] = xs"
  by (metis list_update_id)

lemma finish_6: "finish 6 now i s = finish (Suc (Suc (Suc (Suc (Suc (Suc 0)))))) now i s"
  by (simp add: eval_nat_numeral)

lemma alone_allow:
  assumes "i < length (pcs s)" and "pcs s ! i = Idle" and "holder s = None"
  shows "call_alone Allow_request now i s =
    s\<lparr>shared := snd (allow_request now (shared s)), answers := answers s @ [(i, fst (allow_request now (shared s)))]\<rparr>"
proof (cases s)
  case (fields sh h p a o)
  with assms show ?thesis
    by (cases "cb_state sh"; cases "timeout_ms sh \<le> now - last_failure_time sh")
      (simp_all add: call_alone_def finish_6 turn_simps allow_request_def should_attempt_reset_def
        transition_to_half_open_def idle_again)
qed

lemma alone_success:
  assumes "i < length (pcs s)" and "pcs s ! i = Idle" and "holder s = None" and "success_count (shared s) < INT_MAX"
  shows "record_success (shared s) = Ok (shared (call_alone Record_success now i s))
    \<and> call_alone Record_success now i s = s\<lparr>shared := shared (call_alone Record_success now i s)\<rparr>"
proof (cases s)
  case (fields sh h p a o)
  with assms show ?thesis
    by (cases "cb_state sh"; cases "success_threshold sh \<le> success_count sh + 1")
      (simp_all add: call_alone_def finish_6 turn_simps record_success_def int_plus1_def Let_def
        transition_to_closed_def idle_again)
qed

lemma alone_failure:
  assumes "i < length (pcs s)" and "pcs s ! i = Idle" and "holder s = None" and "failure_count (shared s) < INT_MAX"
  shows "record_failure now (shared s) = Ok (shared (call_alone Record_failure now i s))
    \<and> call_alone Record_failure now i s = s\<lparr>shared := shared (call_alone Record_failure now i s)\<rparr>"
proof (cases s)
  case (fields sh h p a o)
  with assms show ?thesis
    by (cases "cb_state sh"; cases "failure_threshold sh \<le> failure_count sh + 1")
      (simp_all add: call_alone_def finish_6 turn_simps record_failure_def int_plus1_def Let_def
        transition_to_open_def idle_again)
qed

section \<open>The mutex\<close>

definition in_lock :: "pc \<Rightarrow> bool" where
  "in_lock p = (case p of
     Half_state \<Rightarrow> True | Half_count \<Rightarrow> True | Closed_state \<Rightarrow> True | Closed_failures \<Rightarrow> True
   | Closed_successes \<Rightarrow> True | Open_test \<Rightarrow> True | Open_store \<Rightarrow> True | Open_now \<Rightarrow> True
   | Open_time t \<Rightarrow> True | _ \<Rightarrow> False)"

definition locked :: "threads \<Rightarrow> bool" where
  "locked s \<longleftrightarrow> (\<forall>i < length (pcs s). in_lock (pcs s ! i) \<longleftrightarrow> holder s = Some i)"

text \<open>How many threads are at places of a kind.\<close>

definition num :: "(pc \<Rightarrow> bool) \<Rightarrow> threads \<Rightarrow> int" where
  "num P s = int (length (filter P (pcs s)))"

lemma length_filter_update:
  "i < length xs \<Longrightarrow> int (length (filter P (xs[i := x])))
     = int (length (filter P xs)) - of_bool (P (xs ! i)) + of_bool (P x)"
proof (induction xs arbitrary: i)
  case (Cons y xs)
  then show ?case by (cases i) auto
qed simp

lemma num_goto:
  "i < length (pcs s) \<Longrightarrow> num P (goto i p s) = num P s - of_bool (P (pcs s ! i)) + of_bool (P p)"
  by (simp add: num_def goto_def length_filter_update)

lemma num_simps [simp]:
  "num P (upd_shared f s) = num P s" "num P (release s) = num P s"
  "num P (s\<lparr>holder := h\<rparr>) = num P s" "num P (s\<lparr>answers := a\<rparr>) = num P s" "num P (s\<lparr>overflowed := v\<rparr>) = num P s"
  by (simp_all add: num_def upd_shared_def release_def)

lemma threads_simps [simp]:
  "shared (goto i p s) = shared s" "holder (goto i p s) = holder s" "overflowed (goto i p s) = overflowed s"
  "length (pcs (goto i p s)) = length (pcs s)" "pcs (upd_shared f s) = pcs s" "shared (upd_shared f s) = f (shared s)"
  "holder (upd_shared f s) = holder s" "overflowed (upd_shared f s) = overflowed s"
  "pcs (release s) = pcs s" "shared (release s) = shared s" "overflowed (release s) = overflowed s" "holder (release s) = None"
  "pcs (goto i p s) = (pcs s)[i := p]"
  by (simp_all add: goto_def upd_shared_def release_def)

lemma num_nonneg: "0 \<le> num P s"
  by (simp add: num_def)

text \<open>A thread that holds the mutex is alone with it.\<close>

lemma num_in_lock:
  assumes "locked s" and "i < length (pcs s)" and "in_lock (pcs s ! i)" and "\<And>p. P p \<Longrightarrow> in_lock p"
  shows "num P s = of_bool (P (pcs s ! i))"
proof -
  have idle: "\<not> P Idle" using assms(4) [of Idle] by (auto simp: in_lock_def)
  have "\<not> P (pcs s ! j)" if "j < length (pcs s)" "j \<noteq> i" for j
    using assms that unfolding locked_def by auto
  then have "filter P ((pcs s)[i := Idle]) = []"
    using idle assms(2) by (auto simp: filter_empty_conv in_set_conv_nth nth_list_update split: if_splits)
  then have "num P (goto i Idle s) = 0" by (simp add: num_def)
  with num_goto [OF assms(2), of P Idle] idle show ?thesis by simp
qed

lemma num_disjoint: "(\<And>p. \<not> (P p \<and> Q p)) \<Longrightarrow> num P s + num Q s \<le> int (length (pcs s))"
proof -
  assume d: "\<And>p. \<not> (P p \<and> Q p)"
  have "length (filter P xs) + length (filter Q xs) \<le> length xs" for xs
    using d by (induction xs) auto
  then show ?thesis unfolding num_def by (metis of_nat_add of_nat_le_iff)
qed

lemma locked_turn:
  assumes "locked s" and "i < length (pcs s)"
  shows "locked (turn c now i s)"
  using assms
  by (cases "pcs s ! i"; cases c; cases "cb_state (shared s)")
    (auto simp: turn_simps locked_def in_lock_def nth_list_update Let_def)

section \<open>The counters\<close>

text \<open>
  What holds of a counter in every interleaving. It counts while the breaker is in one state; the
  threads that have taken it to its limit are on their way to change that state; and a thread that
  has changed the state back has still to clear it. Outside that state only threads that saw it
  before can add to it.
\<close>

definition counter_inv :: "bool \<Rightarrow> int \<Rightarrow> int \<Rightarrow> int \<Rightarrow> int \<Rightarrow> int \<Rightarrow> int \<Rightarrow> bool" where
  "counter_inv counting clearing limit n c adding leaving \<longleftrightarrow>
     0 \<le> c \<and> (if counting then c \<le> limit - 1 + leaving + (if 0 < clearing then n else 0)
             else c + adding \<le> limit - 1 + n)"

definition to_open :: "pc \<Rightarrow> bool" where
  "to_open p \<longleftrightarrow> p = Open_lock \<or> p = Open_test \<or> p = Open_store"

definition to_close :: "pc \<Rightarrow> bool" where
  "to_close p \<longleftrightarrow> p = Closed_lock \<or> p = Closed_state"

definition counters_inv :: "threads \<Rightarrow> bool" where
  "counters_inv s \<longleftrightarrow>
     counter_inv (cb_state (shared s) = STATE_CLOSED) (num (\<lambda>p. p = Closed_failures) s)
       (max 1 (failure_threshold (shared s))) (int (length (pcs s))) (failure_count (shared s))
       (num (\<lambda>p. p = Add_failure) s) (num to_open s)
     \<and> counter_inv (cb_state (shared s) = STATE_HALF_OPEN) (num (\<lambda>p. p = Half_count) s)
       (max 1 (success_threshold (shared s))) (int (length (pcs s))) (success_count (shared s))
       (num (\<lambda>p. p = Add_success) s) (num to_close s)"

definition roomy :: "CircuitBreaker \<Rightarrow> nat \<Rightarrow> bool" where
  "roomy cb n \<longleftrightarrow> max 1 (failure_threshold cb) + 2 * int n \<le> INT_MAX \<and> max 1 (success_threshold cb) + 2 * int n \<le> INT_MAX"

lemma num_le: "num P s \<le> int (length (pcs s))"
  by (simp add: num_def)

lemma counter_inv_bound:
  assumes "counter_inv b e limit n c a l" and "0 \<le> n" and "0 \<le> a" and "l \<le> n"
  shows "0 \<le> c \<and> c \<le> limit - 1 + 2 * n"
  using assms by (auto simp: counter_inv_def split: if_splits)

lemma counters_bound:
  assumes "counters_inv s"
  shows "0 \<le> failure_count (shared s) \<and> failure_count (shared s) \<le> max 1 (failure_threshold (shared s)) - 1 + 2 * int (length (pcs s))"
    and "0 \<le> success_count (shared s) \<and> success_count (shared s) \<le> max 1 (success_threshold (shared s)) - 1 + 2 * int (length (pcs s))"
  using assms unfolding counters_inv_def
  by (auto dest!: counter_inv_bound [OF _ of_nat_0_le_iff num_nonneg num_le])

lemma turn_keeps:
  assumes "i < length (pcs s)"
  shows "length (pcs (turn c now i s)) = length (pcs s)"
    and "failure_threshold (shared (turn c now i s)) = failure_threshold (shared s)"
    and "success_threshold (shared (turn c now i s)) = success_threshold (shared s)"
    and "timeout_ms (shared (turn c now i s)) = timeout_ms (shared s)"
  by (cases "pcs s ! i"; cases c; cases "cb_state (shared s)"; simp add: turn_simps Let_def)+

lemma counters_turn:
  assumes "locked s" and inv: "counters_inv s" and i: "i < length (pcs s)" and "roomy (shared s) (length (pcs s))"
  shows "counters_inv (turn c now i s) \<and> overflowed (turn c now i s) = overflowed s"
proof -
  note b = counters_bound [OF inv]
  have w: "wrap32 (failure_count (shared s) + 1) = failure_count (shared s) + 1"
      "wrap32 (success_count (shared s) + 1) = success_count (shared s) + 1"
      "failure_count (shared s) \<noteq> INT_MAX" "success_count (shared s) \<noteq> INT_MAX"
    using b assms(4) i by (auto intro!: wrap32_id simp: roomy_def)
  have alone: "num (\<lambda>p. p = Closed_failures) s = of_bool (pcs s ! i = Closed_failures)"
      "num (\<lambda>p. p = Half_count) s = of_bool (pcs s ! i = Half_count)" if "in_lock (pcs s ! i)"
    using num_in_lock [OF assms(1) i that, of "\<lambda>p. p = Closed_failures"]
      num_in_lock [OF assms(1) i that, of "\<lambda>p. p = Half_count"] by (auto simp: in_lock_def)
  have "num to_open s + num (\<lambda>p. p = Add_failure) s \<le> int (length (pcs s))"
      "num to_close s + num (\<lambda>p. p = Add_success) s \<le> int (length (pcs s))"
    by (rule num_disjoint, auto simp: to_open_def to_close_def)+
  then have nn: "0 \<le> num to_open s" "0 \<le> num to_close s" "0 \<le> num (\<lambda>p. p = Add_failure) s"
      "0 \<le> num (\<lambda>p. p = Add_success) s"
      "num to_open s + num (\<lambda>p. p = Add_failure) s \<le> int (length (pcs s))"
      "num to_close s + num (\<lambda>p. p = Add_success) s \<le> int (length (pcs s))"
    by (simp_all add: num_nonneg)
  show ?thesis
  proof (cases "pcs s ! i = Idle")
    case True
    with inv i nn show ?thesis
      by (cases c; cases "cb_state (shared s)")
        (simp_all add: turn_def begin_call_def answer_def counters_inv_def counter_inv_def num_goto to_open_def to_close_def)
  next
    case False
    with inv i b w alone nn show ?thesis
    by (cases "pcs s ! i")
      (simp_all add: turn_def answer_def acquire_def add_failure_def add_success_def
        Let_def in_lock_def counters_inv_def counter_inv_def num_goto to_open_def to_close_def split: if_splits)
  qed
qed

lemma schedule_inv:
  assumes "locked s" and "counters_inv s" and "roomy (shared s) (length (pcs s))" and "\<not> overflowed s"
  shows "counters_inv (schedule es s) \<and> \<not> overflowed (schedule es s) \<and> length (pcs (schedule es s)) = length (pcs s)
    \<and> failure_threshold (shared (schedule es s)) = failure_threshold (shared s)
    \<and> success_threshold (shared (schedule es s)) = success_threshold (shared s)"
  using assms
proof (induction es arbitrary: s)
  case (Cons e es)
  obtain i c now where e: "e = (i, c, now)" by (cases e)
  show ?case
  proof (cases "i < length (pcs s)")
    case True
    note k = turn_keeps [OF True, of c now]
    have "roomy (shared (turn c now i s)) (length (pcs (turn c now i s)))"
      using Cons.prems(3) by (simp add: roomy_def k)
    then show ?thesis
      using Cons.IH [of "turn c now i s"] locked_turn [OF Cons.prems(1) True]
        counters_turn [OF Cons.prems(1,2) True Cons.prems(3)] Cons.prems(4) True by (simp add: e k)
  next
    case False
    with Cons show ?thesis by (simp add: e)
  qed
qed simp

lemma new_threads_inv: "locked (new_threads (new_CircuitBreaker n ft st tmo) k)"
  "counters_inv (new_threads (new_CircuitBreaker n ft st tmo) k)"
  by (auto simp: locked_def new_threads_def in_lock_def counters_inv_def counter_inv_def num_def
      new_CircuitBreaker_def to_open_def)

section \<open>Properties\<close>

fun event_of :: "call \<Rightarrow> int \<Rightarrow> cb_event" where
  "event_of Allow_request now = Allow now"
| "event_of Record_success now = Success"
| "event_of Record_failure now = Failure now"

text \<open>The turns of a call that no other thread interrupts are the operation as one step: the
  breaker changes and answers as the sequential model says, and nothing else changes.\<close>

theorem uninterrupted_call_is_step:
  assumes "i < length (pcs s)" and "pcs s ! i = Idle" and "holder s = None"
    and "failure_count (shared s) < INT_MAX" and "success_count (shared s) < INT_MAX"
  shows "\<exists>bs cb. cb_step (event_of c now) (shared s) = Ok (bs, cb)
    \<and> call_alone c now i s = s\<lparr>shared := cb, answers := answers s @ map (Pair i) bs\<rparr>"
proof (cases c)
  case Allow_request
  with alone_allow [OF assms(1-3), of now] show ?thesis by (simp add: split_beta)
next
  case Record_success
  obtain cb where "record_success (shared s) = Ok cb" "call_alone Record_success now i s = s\<lparr>shared := cb\<rparr>"
    using alone_success [OF assms(1-3,5), of now] by blast
  then show ?thesis by (cases s) (simp add: Record_success)
next
  case Record_failure
  obtain cb where "record_failure now (shared s) = Ok cb" "call_alone Record_failure now i s = s\<lparr>shared := cb\<rparr>"
    using alone_failure [OF assms(1-4), of now] by blast
  then show ?thesis by (cases s) (simp add: Record_failure)
qed

theorem uninterrupted_call_is_step_witness:
  "\<exists>bs cb. cb_step (Failure 7) (new_CircuitBreaker ''s'' 1 1 30) = Ok (bs, cb)
    \<and> call_alone Record_failure 7 1 (new_threads (new_CircuitBreaker ''s'' 1 1 30) 2)
      = (new_threads (new_CircuitBreaker ''s'' 1 1 30) 2)\<lparr>shared := cb, answers := [] @ map (Pair 1) bs\<rparr>"
  using uninterrupted_call_is_step [of 1 "new_threads (new_CircuitBreaker ''s'' 1 1 30) 2" Record_failure 7]
  by (simp add: new_threads_def new_CircuitBreaker_def INT_MAX_def)

text \<open>One failure trips the breaker of the schedule below; a request of the other thread comes between
  the store of the state and the store of the time.\<close>

definition leak :: "int \<Rightarrow> (nat \<times> call \<times> int) list" where
  "leak now = replicate 5 (0, Record_failure, now) @ replicate 3 (1, Allow_request, now)
     @ replicate 2 (0, Record_failure, now) @ replicate 3 (1, Allow_request, now)"

text \<open>C8: However the threads that use a breaker are interleaved, its counters stay non-negative and
  below their threshold plus twice the number of threads; so no counter overflows when that fits an
  \<open>int\<close>.\<close>

theorem breaker_threads_bounded:
  assumes "max 1 ft + 2 * int k \<le> INT_MAX" and "max 1 st + 2 * int k \<le> INT_MAX"
    and "s = schedule es (new_threads (new_CircuitBreaker n ft st tmo) k)"
  shows "\<not> overflowed s \<and> failure_count (shared s) \<in> {0..<max 1 ft + 2 * int k}
    \<and> success_count (shared s) \<in> {0..<max 1 st + 2 * int k}"
proof -
  let ?s = "new_threads (new_CircuitBreaker n ft st tmo) k"
  have "length (pcs ?s) = k" "failure_threshold (shared ?s) = ft" "success_threshold (shared ?s) = st" "\<not> overflowed ?s"
    by (simp_all add: new_threads_def new_CircuitBreaker_def)
  moreover have "roomy (shared ?s) (length (pcs ?s))"
    using assms by (simp add: roomy_def new_threads_def new_CircuitBreaker_def)
  ultimately show ?thesis
    using schedule_inv [OF new_threads_inv, of n ft st tmo k es] counters_bound [of s] by (auto simp: assms(3))
qed

theorem breaker_threads_bounded_witness:
  "failure_count (shared (schedule (leak 100) (new_threads (new_CircuitBreaker ''s'' 1 5 30) 2))) \<in> {0..<5}"
  using breaker_threads_bounded [of 1 2 5 "schedule (leak 100) (new_threads (new_CircuitBreaker ''s'' 1 5 30) 2)"
      "leak 100" "''s''" 30] by (simp add: INT_MAX_def)

text \<open>Two threads can defeat the timeout: when the failure that opens a breaker for the first time
  has stored the state but not yet the time, a request of another thread takes the time of the last
  failure for 0, waits for the mutex, and is admitted at the very moment the breaker has opened;
  alone, after that failure, it would have been refused for any positive timeout.\<close>

theorem breaker_leaks_when_opening:
  assumes "0 < tmo" and "tmo \<le> now"
  shows "(let s = schedule (leak now) (new_threads (new_CircuitBreaker n 1 st tmo) 2)
          in answers s = [(1, True)] \<and> cb_state (shared s) = STATE_HALF_OPEN \<and> last_failure_time (shared s) = now)
    \<and> cb_run [Failure now, Allow now] (new_CircuitBreaker n 1 st tmo)
        = Ok ([False], (new_CircuitBreaker n 1 st tmo)\<lparr>cb_state := STATE_OPEN, failure_count := 1, last_failure_time := now\<rparr>)"
proof -
  have "wrap32 1 = 1" using wrap32_id [of 1] by (simp add: INT_MAX_def)
  then show ?thesis
    using assms
    by (simp add: leak_def new_threads_def new_CircuitBreaker_def turn_simps eval_nat_numeral
        record_failure_def allow_request_def should_attempt_reset_def transition_to_open_def int_plus1_def INT_MAX_def)
qed

theorem breaker_leaks_when_opening_witness:
  "answers (schedule (leak 100) (new_threads (new_CircuitBreaker ''s'' 1 5 30) 2)) = [(1, True)]"
  using breaker_leaks_when_opening [of 30 100 "''s''" 5] by (simp add: Let_def)

text \<open>A success that was counted late closes a breaker that has opened in between: the thread saw the
  breaker probing, another thread reported a failure and opened it, and then the first one reaches
  the success threshold and closes it.\<close>

theorem stale_success_closes:
  "cb_state (shared (schedule ((0, Record_success, t) # replicate 6 (1, Record_failure, t) @ replicate 5 (0, Record_success, t))
     (new_threads ((new_CircuitBreaker n ft 1 tmo)\<lparr>cb_state := STATE_HALF_OPEN\<rparr>) 2))) = STATE_CLOSED"
proof -
  have "wrap32 1 = 1" using wrap32_id [of 1] by (simp add: INT_MAX_def)
  then show ?thesis
    by (simp add: new_threads_def new_CircuitBreaker_def turn_simps eval_nat_numeral)
qed

end
