(* ===== verification/Tinypb_Call.thy ===== *)
theory Tinypb_Call
  imports TinyPbServer Client_System TLVMessage
begin

text \<open>
  A call over the TinyPB protocol from end to end: the client's channel (\<open>Channel\<close>), the transport
  message around the frame (\<open>TLVMessage\<close>), the server's handler (\<open>TinyPbServer\<close>) with its
  dispatcher, and the way back. Nothing new is modelled here; the theories are put together.
\<close>

section \<open>Transport\<close>

text \<open>The value of a message arrives when its bytes are delivered, in some chunks and with anything
  behind them, to a fresh message with a size limit.\<close>

definition carried :: "nat \<Rightarrow> string \<Rightarrow> string \<Rightarrow> bool" where
  "carried lim v v' \<longleftrightarrow> (\<exists>raw raw' cs rest used s.
     length raw = 8 \<and> length raw' = 8 \<and> concat cs = concat (fst (tlv_encode (set_value v (new_TLVMessage raw)))) @ rest
     \<and> feed_chunks tlv_append (set_size_limit lim (new_TLVMessage raw')) cs = Ok (Done, used, s) \<and> tlv_value s = v')"

lemma carried_same:
  assumes "carried lim v v'" and "length v < 2 ^ 32" and "length v \<le> lim"
  shows "v' = v"
proof -
  from assms(1) obtain raw raw' cs rest used s where c: "length raw = 8" "length raw' = 8"
    "concat cs = concat (fst (tlv_encode (set_value v (new_TLVMessage raw)))) @ rest"
    "feed_chunks tlv_append (set_size_limit lim (new_TLVMessage raw')) cs = Ok (Done, used, s)" "tlv_value s = v'"
    unfolding carried_def by blast
  have "length (head (set_value v (new_TLVMessage raw))) = 8" and t: "tlv_value (set_value v (new_TLVMessage raw)) = v"
    using c(1) by (simp_all add: set_value_def new_TLVMessage_def)
  then show ?thesis
    using tlv.delivered [OF new_tlv_fits [OF c(2) assms(2,3)], of cs "tlv_type (set_value v (new_TLVMessage raw))" rest] c(3-5)
    by (auto simp: tlv_encode_wire tlv_holds_def tlv_wire_def)
qed

lemma carried_exists:
  assumes "length v < 2 ^ 32" and "length v \<le> lim"
  shows "carried lim v v"
proof -
  let ?raw = "replicate 8 NUL"
  have "length (head (set_value v (new_TLVMessage ?raw))) = 8" "tlv_value (set_value v (new_TLVMessage ?raw)) = v"
    by (simp_all add: set_value_def new_TLVMessage_def)
  then obtain s where "feed_chunks tlv_append (set_size_limit lim (new_TLVMessage ?raw))
      [concat (fst (tlv_encode (set_value v (new_TLVMessage ?raw))))] = Ok (Done, 8 + length v, s)" "tlv_value s = v"
    using tlv.delivered [OF new_tlv_fits [OF _ assms], of ?raw
        "[concat (fst (tlv_encode (set_value v (new_TLVMessage ?raw))))]" "tlv_type (set_value v (new_TLVMessage ?raw))" "[]"]
    by (auto simp: tlv_encode_wire tlv_holds_def tlv_wire_def)
  then show ?thesis unfolding carried_def
    by (intro exI [of _ ?raw] exI [of _ "[concat (fst (tlv_encode (set_value v (new_TLVMessage ?raw))))]"] exI [of _ "[]"]) auto
qed

section \<open>The server's part\<close>

lemma reply_of_server:
  assumes "TinyPbCodec.encode request = Inr bytes" and "length bytes < 2 ^ 32"
    and "on_process d bytes w = Ok (Some reply, w')" and "length reply < 2 ^ 32"
    and "dispatch d request new_TinyPbStruct = Ok response"
  shows "TinyPbCodec.decode reply d0 = Ok (None, response)"
proof -
  have "TinyPbCodec.decode bytes new_TinyPbStruct = Ok (None, request)"
    using assms(1,2) decode_iff_encode by blast
  moreover obtain s m where "split_first_dot (service_full_name request) = Ok (s, m)"
    by (rule split_first_dot_total)
  ultimately obtain w'' where "on_process d bytes w = Ok (reply_value response, w'')"
    using on_process_decoded [OF _ _ assms(5)] by blast
  with assms(3) have "TinyPbCodec.encode response = Inr reply"
    by (auto simp: reply_value_def split: sum.splits)
  with assms(4) show ?thesis using decode_iff_encode by blast
qed

lemma answer_code: "answer service k bytes = (code, info, out) \<Longrightarrow> code \<in> {0, 422, 500}"
  by (auto simp: answer_def Let_def split: option.splits prod.splits if_splits)

section \<open>Properties\<close>

text \<open>C1: End to end over TinyPB: a call that was sent, whose request and reply get through in whatever
  chunks, to a server with the service registered, ends with what the method answers. When the
  method's answer is good, the caller's response is what the answer parses to; when the request or
  the answer cannot be converted, the controller has the server's status 422 or 500 and its text.
  The closure runs once more.\<close>

theorem tinypb_call_end_to_end:
  assumes "CallMethod inet_pton ch c w = Ok (c1, Some t, w1)"
    and "length (task_value t) < 2 ^ 32" and "length (task_value t) \<le> lim" and "carried lim (task_value t) v"
    and "on_process (fold registerService (vs @ service # ws) new_TinyPbRpcDispatcher) v sw = Ok (Some reply, sw')"
    and "call_service c = service_name service" and "CHR ''.'' \<notin> set (call_method_name c)"
    and "\<forall>s \<in> set ws. service_name s \<noteq> service_name service" and "find_method service (call_method_name c) = Some k"
    and "length reply < 2 ^ 32" and "length reply \<le> lim'" and "carried lim' reply v'"
    and "channel_callback t (Replied v') c1 w2 = Ok (c2, w3)"
    and "answer service k (snd (serialized_request c)) = (code, info, out)"
  shows "c2 = run_done
    (if code \<noteq> 0 then upd_controller (\<lambda>ctl. ctl\<lparr>error_code := code, ctl_failed := True, error_text := info\<rparr>) c1
     else case parse_response c out of
       (True, m) \<Rightarrow> c1\<lparr>call_response := m\<rparr>
     | (False, m) \<Rightarrow> upd_controller (SetFailed ''failed to parse response'') (c1\<lparr>call_response := m\<rparr>))"
proof -
  obtain r where c1: "c1 = upd_controller (SetMsgReq r) c" and enc: "TinyPbCodec.encode \<lparr>msg_req = r,
      service_full_name = full_name c, err_code = 0, err_info = [], pb_data = snd (serialized_request c)\<rparr> = Inr (task_value t)"
    using CallMethod_sent [OF assms(1)] by blast
  let ?req = "\<lparr>msg_req = r, service_full_name = full_name c, err_code = 0, err_info = [], pb_data = snd (serialized_request c)\<rparr>"
  let ?resp = "\<lparr>msg_req = r, service_full_name = full_name c, err_code = of_int code, err_info = info, pb_data = out\<rparr>"
  have "service_full_name ?req = service_name service @ ''.'' @ call_method_name c"
    using assms(6) by (simp add: full_name_def)
  then have "dispatch (fold registerService (vs @ service # ws) new_TinyPbRpcDispatcher) ?req new_TinyPbStruct = Ok ?resp"
    using dispatch_registered [of ?req service "call_method_name c" ws k vs] assms(7-9,14) by simp
  moreover have "v = task_value t" "v' = reply"
    using carried_same [OF assms(4,2,3)] carried_same [OF assms(12,10,11)] by simp_all
  ultimately have "TinyPbCodec.decode v' new_TinyPbStruct = Ok (None, ?resp)"
    using reply_of_server [OF enc assms(2) _ assms(10)] assms(5) by simp
  moreover have "sint (of_int code :: u32) = code" "(of_int code :: u32) = 0 \<longleftrightarrow> code = 0"
    using answer_code [OF assms(14)] by auto
  ultimately show ?thesis
    using callback_verdict [OF assms(13)] by (simp add: c1)
qed

text \<open>A reply with a good answer, to a call without a breaker.\<close>

lemma callback_returns:
  assumes "TinyPbCodec.decode v new_TinyPbStruct = Ok (None, r)" and "err_code r = 0" and "task_breaker t = None"
    and "parse_response c (pb_data r) = (True, m)"
  shows "\<exists>c' w'. channel_callback t (Replied v) c w = Ok (c', w')"
  using assms by (cases "steady_now w") (simp add: channel_callback_def complete_sent_def tell_success_def Let_def)

theorem tinypb_call_end_to_end_witness:
  "\<exists>c1 t w1 reply sw' c2 w3.
     CallMethod (\<lambda>_. None) (host_TinyPbRpcChannel ''h'' 80) sample_client_call quiet_world = Ok (c1, Some t, w1)
     \<and> on_process sample_dispatcher (task_value t) quiet_world = Ok (Some reply, sw')
     \<and> channel_callback t (Replied reply) c1 w1 = Ok (c2, w3) \<and> call_response c2 = ''cba''"
proof -
  let ?c = sample_client_call and ?d = "fold registerService ([] @ reverse_service # []) new_TinyPbRpcDispatcher"
  have c: "call_service ?c = ''pkg.Rev''" "call_method_name ?c = ''run''" "snd (serialized_request ?c) = ''abc''"
    "parse_response ?c ''cba'' = (True, ''cba'')" "full_name ?c = ''pkg.Rev.run''"
    by (simp_all add: sample_client_call_def full_name_def)
  have "\<exists>c' t w'. CallMethod (\<lambda>_. None) (host_TinyPbRpcChannel ''h'' 80) ?c quiet_world = Ok (c', Some t, w')
      \<and> task_breaker t = None \<and> length (task_value t) < 2 ^ 32"
    by (rule CallMethod_plain [OF sample_not_governed, of _ new_TinyPbRpcController "''abc''"])
      (simp_all add: sample_client_call_def full_name_def)
  then obtain c1 t w1 where call: "CallMethod (\<lambda>_. None) (host_TinyPbRpcChannel ''h'' 80) ?c quiet_world = Ok (c1, Some t, w1)"
    and t: "task_breaker t = None" "length (task_value t) < 2 ^ 32" by blast
  obtain r where c1: "c1 = upd_controller (SetMsgReq r) ?c" and enc: "TinyPbCodec.encode \<lparr>msg_req = r,
      service_full_name = ''pkg.Rev.run'', err_code = 0, err_info = [], pb_data = ''abc''\<rparr> = Inr (task_value t)"
    using CallMethod_sent [OF call] c by auto
  let ?req = "\<lparr>msg_req = r, service_full_name = ''pkg.Rev.run'', err_code = 0, err_info = [], pb_data = ''abc''\<rparr>"
  let ?resp = "?req\<lparr>pb_data := ''cba''\<rparr>"
  have dec: "TinyPbCodec.decode (task_value t) new_TinyPbStruct = Ok (None, ?req)"
    using enc t(2) decode_iff_encode by blast
  have a: "answer reverse_service 0 ''abc'' = (0, [], ''cba'')" by (simp add: answer_def reverse_service_def)
  have "dispatch ?d ?req new_TinyPbStruct = Ok ?resp"
    using dispatch_registered [of ?req reverse_service "''run''" "[]" 0 "[]"] a by (simp add: reverse_service_def)
  moreover obtain s m where "split_first_dot (service_full_name ?req) = Ok (s, m)" by (rule split_first_dot_total)
  ultimately obtain sw' where op: "on_process ?d (task_value t) quiet_world = Ok (reply_value ?resp, sw')"
    using on_process_decoded [OF dec] by blast
  have "payload_size ?resp < 2 ^ 32 - 26"
    using encode_small [OF enc t(2)] by (simp add: payload_size_def)
  then have rv: "reply_value ?resp = Some (frame ?resp)" and len: "length (frame ?resp) < 2 ^ 32"
    and dr: "TinyPbCodec.decode (frame ?resp) new_TinyPbStruct = Ok (None, ?resp)"
    by (simp_all add: reply_value_frame length_frame decode_frame)
  have "parse_response c1 (pb_data ?resp) = (True, ''cba'')" using c(4) by (simp add: c1)
  from callback_returns [OF dr _ t(1) this] obtain c2 w3 where cb: "channel_callback t (Replied (frame ?resp)) c1 w1 = Ok (c2, w3)"
    by fastforce
  have "c2 = run_done (c1\<lparr>call_response := ''cba''\<rparr>)"
    using tinypb_call_end_to_end [OF call t(2) order.refl carried_exists [OF t(2) order.refl] op [unfolded rv] _ _ _ _
        len order.refl carried_exists [OF len order.refl] cb] a c by (simp add: reverse_service_def)
  then have "call_response c2 = ''cba''" by (simp add: run_done_def)
  with call op cb rv show ?thesis
    by (auto simp: sample_dispatcher_def)
qed

end
