(* ===== verification/Upstream_Policies.thy ===== *)
theory Upstream_Policies
  imports Upstreams
begin

text \<open>
  How an upstream chooses a server, and what it remembers of the servers' failures
  (\<open>workflow/src/nameservice/WFServiceGovernance.cc\<close> and \<open>UpstreamPolicies.cc\<close>). Every operation
  runs under the lock of its policy and is one step. Servers are objects shared by lists, so they
  are kept in a heap and referred to by number; a server that has been deleted stays in the heap,
  marked, so that a reference to it can be seen. Random numbers, the clock and the shuffling of a
  group are arguments.
\<close>

section \<open>State\<close>

text \<open>\<open>fused\<close> says whether the server's entry is in the list of broken servers.\<close>

record EndpointAddress =
  ep_address :: string
  ep_params :: AddressParams
  fail_count :: nat
  ref_count :: int
  broken_timeout :: int
  fused :: bool
  deleted :: bool

record EndpointGroup =
  mains :: "nat list"
  backups :: "nat list"
  group_nalives :: int
  group_weight :: int

record policy =
  pol_kind :: policy_kind
  pol_try_another :: bool
  heap :: "nat \<Rightarrow> EndpointAddress"
  heap_next :: nat
  servers :: "nat list"
  server_map :: "string \<Rightarrow> nat list"
  groups :: "int \<Rightarrow> EndpointGroup"
  nalives :: int
  breaker_list :: "nat list"
  mttr_seconds :: int
  total_weight :: int
  available_weight :: int
  cur_idx :: nat
  pre_generated :: "nat list"
  addr_hash :: "(nat \<times> nat) list"

text \<open>Groups are created when the first server of their number is added; one without servers is an
  \<open>EndpointGroup\<close> as its constructor leaves it.\<close>

definition new_EndpointGroup :: EndpointGroup where
  "new_EndpointGroup = \<lparr>mains = [], backups = [], group_nalives = 0, group_weight = 0\<rparr>"

definition new_upstream_policy :: "policy_kind \<Rightarrow> bool \<Rightarrow> policy" where
  "new_upstream_policy k another = \<lparr>pol_kind = k, pol_try_another = another,
     heap = (\<lambda>_. \<lparr>ep_address = [], ep_params = ADDRESS_PARAMS_DEFAULT, fail_count = 0, ref_count = 0,
       broken_timeout = 0, fused = False, deleted = True\<rparr>),
     heap_next = 0, servers = [], server_map = (\<lambda>_. []), groups = (\<lambda>_. new_EndpointGroup), nalives = 0,
     breaker_list = [], mttr_seconds = 30, total_weight = 0, available_weight = 0, cur_idx = 0,
     pre_generated = [], addr_hash = []\<rparr>"

definition weighted_kind :: "policy_kind \<Rightarrow> bool" where
  "weighted_kind k \<longleftrightarrow> k = Weighted_random \<or> k = VNSWRR"

abbreviation params_of :: "policy \<Rightarrow> nat \<Rightarrow> AddressParams" where
  "params_of p i \<equiv> ep_params (heap p i)"
abbreviation group_of :: "policy \<Rightarrow> nat \<Rightarrow> EndpointGroup" where
  "group_of p i \<equiv> groups p (group_id (params_of p i))"
abbreviation weight_of :: "policy \<Rightarrow> nat \<Rightarrow> int" where
  "weight_of p i \<equiv> int (weight (params_of p i))"

definition upd_endpoint :: "nat \<Rightarrow> (EndpointAddress \<Rightarrow> EndpointAddress) \<Rightarrow> policy \<Rightarrow> policy" where
  "upd_endpoint i f p = p\<lparr>heap := (heap p)(i := f (heap p i))\<rparr>"

definition upd_group :: "int \<Rightarrow> (EndpointGroup \<Rightarrow> EndpointGroup) \<Rightarrow> policy \<Rightarrow> policy" where
  "upd_group g f p = p\<lparr>groups := (groups p)(g := f (groups p g))\<rparr>"

definition new_endpoint :: "string \<Rightarrow> AddressParams \<Rightarrow> policy \<Rightarrow> nat \<times> policy" where
  "new_endpoint address params p = (heap_next p, p\<lparr>heap_next := Suc (heap_next p),
     heap := (heap p)(heap_next p := \<lparr>ep_address = address, ep_params = UPSAddrParams params, fail_count = 0,
       ref_count = 1, broken_timeout = 0, fused = False, deleted = False\<rparr>)\<rparr>)"

section \<open>Alive and fused servers\<close>

definition recover_one_server :: "nat \<Rightarrow> policy \<Rightarrow> policy" where
  "recover_one_server i p =
     (let q = params_of p i; g = group_of p i;
          p = p\<lparr>nalives := nalives p + 1\<rparr>;
          p = upd_group (group_id q) (\<lambda>g. g\<lparr>group_nalives := group_nalives g + 1\<rparr>) p
      in if \<not> weighted_kind (pol_kind p) then p
         else
           let p = (if group_nalives g = 0 \<and> group_id q > 0
                    then p\<lparr>available_weight := available_weight p + group_weight g\<rparr> else p)
           in if group_id q < 0 \<and> server_type q = 0
              then p\<lparr>available_weight := available_weight p + int (weight q)\<rparr> else p)"

definition fuse_one_server :: "nat \<Rightarrow> policy \<Rightarrow> policy" where
  "fuse_one_server i p =
     (let q = params_of p i; g = group_of p i;
          p = p\<lparr>nalives := nalives p - 1\<rparr>;
          p = upd_group (group_id q) (\<lambda>g. g\<lparr>group_nalives := group_nalives g - 1\<rparr>) p
      in if \<not> weighted_kind (pol_kind p) then p
         else
           let p = (if group_nalives g = 1 \<and> group_id q > 0
                    then p\<lparr>available_weight := available_weight p - group_weight g\<rparr> else p)
           in if group_id q < 0 \<and> server_type q = 0
              then p\<lparr>available_weight := available_weight p - int (weight q)\<rparr> else p)"

definition recover_server_from_breaker :: "nat \<Rightarrow> policy \<Rightarrow> policy" where
  "recover_server_from_breaker i p =
     (let p = upd_endpoint i (\<lambda>e. e\<lparr>fail_count := 0\<rparr>) p
      in if fused (heap p i) then
           recover_one_server i (upd_endpoint i (\<lambda>e. e\<lparr>fused := False\<rparr>)
             (p\<lparr>breaker_list := remove1 i (breaker_list p)\<rparr>))
         else p)"

definition fuse_server_to_breaker :: "int \<Rightarrow> nat \<Rightarrow> policy \<Rightarrow> policy" where
  "fuse_server_to_breaker now i p =
     (if \<not> fused (heap p i) then
        fuse_one_server i (upd_endpoint i (\<lambda>e. e\<lparr>broken_timeout := now + mttr_seconds p, fused := True\<rparr>)
          (p\<lparr>breaker_list := breaker_list p @ [i]\<rparr>))
      else p)"

definition pre_delete_server :: "nat \<Rightarrow> policy \<Rightarrow> policy" where
  "pre_delete_server i p =
     (if fused (heap p i) then
        upd_endpoint i (\<lambda>e. e\<lparr>fused := False\<rparr>) (p\<lparr>breaker_list := remove1 i (breaker_list p)\<rparr>)
      else fuse_one_server i p)"

text \<open>A reference is given up; with the last one the server is deleted.\<close>

definition unref :: "nat \<Rightarrow> policy \<Rightarrow> policy" where
  "unref i p =
     (let p = upd_endpoint i (\<lambda>e. e\<lparr>ref_count := ref_count e - 1\<rparr>) p
      in if ref_count (heap p i) = 0 then upd_endpoint i (\<lambda>e. e\<lparr>deleted := True\<rparr>) (pre_delete_server i p) else p)"

text \<open>The last server of the history of a task succeeded or failed; \<open>fail_count\<close> is 32 bits wide.\<close>

definition success :: "nat \<Rightarrow> policy \<Rightarrow> policy" where
  "success i p =
     (let p = upd_endpoint i (\<lambda>e. e\<lparr>fail_count := 0\<rparr>) p
      in if fused (heap p i) then recover_server_from_breaker i p else p)"

definition failed :: "int \<Rightarrow> nat \<Rightarrow> policy \<Rightarrow> policy" where
  "failed now i p =
     (let p = upd_endpoint i (\<lambda>e. e\<lparr>fail_count := (fail_count e + 1) mod 2 ^ 32\<rparr>) p
      in if fail_count (heap p i) = max_fails (params_of p i) then fuse_server_to_breaker now i p else p)"

text \<open>Servers whose time has come are tried again, from the head of the list, up to the first whose
  time has not come.\<close>

fun check_breaker_loop :: "int \<Rightarrow> nat list \<Rightarrow> policy \<Rightarrow> policy" where
  "check_breaker_loop cur_time [] p = p"
| "check_breaker_loop cur_time (i # is) p =
     (if cur_time \<ge> broken_timeout (heap p i) then
        let p = upd_endpoint i (\<lambda>e. e\<lparr>fail_count := max_fails (ep_params e) - 1\<rparr>) p;
            p = recover_one_server i p;
            p = upd_endpoint i (\<lambda>e. e\<lparr>fused := False\<rparr>) (p\<lparr>breaker_list := remove1 i (breaker_list p)\<rparr>)
        in check_breaker_loop cur_time is p
      else p)"

definition check_breaker :: "int \<Rightarrow> policy \<Rightarrow> policy" where
  "check_breaker now p = check_breaker_loop now (breaker_list p) p"

definition INT64_MAX :: int where "INT64_MAX = 2 ^ 63 - 1"

definition try_clear_breaker :: "int \<Rightarrow> policy \<Rightarrow> policy" where
  "try_clear_breaker now p =
     (case breaker_list p of
        [] \<Rightarrow> p
      | i # _ \<Rightarrow> if now \<ge> broken_timeout (heap p i) then check_breaker_loop INT64_MAX (breaker_list p) p else p)"

definition enable_server :: "string \<Rightarrow> policy \<Rightarrow> policy" where
  "enable_server address p = fold recover_server_from_breaker (server_map p address) p"

definition disable_server :: "int \<Rightarrow> string \<Rightarrow> policy \<Rightarrow> policy" where
  "disable_server now address p = fold (\<lambda>i p. fuse_server_to_breaker now i
     (upd_endpoint i (\<lambda>e. e\<lparr>fail_count := max_fails (ep_params e)\<rparr>) p)) (server_map p address) p"

section \<open>Smooth weighted round robin\<close>

text \<open>
  \<open>init_virtual_nodes\<close>: a turn adds to the current weight of every server its weight, takes the first
  server with the largest sum, and subtracts the total from its sum; the table has one turn for each
  unit of the total.
\<close>

definition index_of_max :: "int list \<Rightarrow> nat" where
  "index_of_max cs = length (takeWhile (\<lambda>c. c \<noteq> Max (set cs)) cs)"

fun virtual_nodes :: "nat \<Rightarrow> int \<Rightarrow> int list \<Rightarrow> int list \<Rightarrow> nat list" where
  "virtual_nodes 0 tw ws cs = []"
| "virtual_nodes (Suc n) tw ws cs =
     (let cs = map2 (+) cs ws; j = index_of_max cs
      in j # virtual_nodes n tw ws (cs[j := cs ! j - tw]))"

definition vnswrr_init :: "nat \<Rightarrow> policy \<Rightarrow> policy" where
  "vnswrr_init rnd p =
     (if total_weight p \<le> 0 then p
      else p\<lparr>cur_idx := nat (int rnd mod total_weight p),
        pre_generated := virtual_nodes (nat (total_weight p)) (total_weight p) (map (weight_of p) (servers p))
          (replicate (length (servers p)) 0)\<rparr>)"

section \<open>Adding and removing servers\<close>

definition group_add :: "nat \<Rightarrow> policy \<Rightarrow> policy" where
  "group_add i p =
     (let q = params_of p i;
          p = p\<lparr>server_map := (server_map p)(ep_address (heap p i) := server_map p (ep_address (heap p i)) @ [i])\<rparr>;
          p = (if server_type q = 0 then p\<lparr>servers := servers p @ [i]\<rparr> else p);
          p = recover_one_server i p
      in upd_group (group_id q) (\<lambda>g. if server_type q = 0
           then g\<lparr>mains := mains g @ [i], group_weight := group_weight g + int (weight q)\<rparr>
           else g\<lparr>backups := backups g @ [i]\<rparr>) p)"

text \<open>
  The hash table of a consistent hash has \<open>16 * weight\<close> entries for a main server, sorted by a hash
  value of 32 bits; a value that is taken is not entered again. \<open>std_hash\<close> is the hash function of
  the standard library.
\<close>

definition VIRTUAL_GROUP_SIZE :: nat where "VIRTUAL_GROUP_SIZE = 16"

fun hash_insert :: "nat \<Rightarrow> nat \<Rightarrow> (nat \<times> nat) list \<Rightarrow> (nat \<times> nat) list" where
  "hash_insert h i [] = [(h, i)]"
| "hash_insert h i ((k, j) # t) =
     (if h < k then (h, i) # (k, j) # t else if h = k then (k, j) # t else (k, j) # hash_insert h i t)"

definition virtual_name :: "string \<Rightarrow> nat \<Rightarrow> nat \<Rightarrow> string" where
  "virtual_name address v n = address @ ''|v'' @ dec_nat v @ ''|n'' @ dec_nat n"

definition hash_map_add_addr :: "(string \<Rightarrow> nat) \<Rightarrow> nat \<Rightarrow> policy \<Rightarrow> policy" where
  "hash_map_add_addr std_hash i p =
     (if server_type (params_of p i) = 0 then
        let address = ep_address (heap p i); ip_count = length (server_map p address)
        in p\<lparr>addr_hash := fold (\<lambda>v. hash_insert (std_hash (virtual_name address v ip_count) mod 2 ^ 32) i)
             [0..<VIRTUAL_GROUP_SIZE * weight (params_of p i)] (addr_hash p)\<rparr>
      else p)"

definition hash_map_remove_addr :: "string \<Rightarrow> policy \<Rightarrow> policy" where
  "hash_map_remove_addr address p = p\<lparr>addr_hash := filter (\<lambda>(h, i). ep_address (heap p i) \<noteq> address) (addr_hash p)\<rparr>"

definition uses_hash :: "policy \<Rightarrow> bool" where
  "uses_hash p \<longleftrightarrow> pol_kind p = Consistent_hash \<or> pol_kind p = Manual \<and> pol_try_another p"

definition add_server_locked :: "(string \<Rightarrow> nat) \<Rightarrow> nat \<Rightarrow> nat \<Rightarrow> policy \<Rightarrow> policy" where
  "add_server_locked std_hash rnd i p =
     (let p = group_add i p;
          p = (if weighted_kind (pol_kind p) \<and> server_type (params_of p i) = 0
               then p\<lparr>total_weight := total_weight p + weight_of p i\<rparr> else p);
          p = (if pol_kind p = VNSWRR then vnswrr_init rnd p else p)
      in if uses_hash p then hash_map_add_addr std_hash i p else p)"

definition add_server :: "(string \<Rightarrow> nat) \<Rightarrow> nat \<Rightarrow> string \<Rightarrow> AddressParams \<Rightarrow> policy \<Rightarrow> policy" where
  "add_server std_hash rnd address params p =
     (let (i, p) = new_endpoint address params p in add_server_locked std_hash rnd i p)"

text \<open>One server of the address leaves its group.\<close>

definition group_remove_one :: "nat \<Rightarrow> policy \<Rightarrow> policy" where
  "group_remove_one i p =
     (let q = params_of p i
      in unref i (upd_group (group_id q) (\<lambda>g. if server_type q = 0
           then g\<lparr>mains := remove1 i (mains g), group_weight := group_weight g - int (weight q)\<rparr>
           else g\<lparr>backups := remove1 i (backups g)\<rparr>) p))"

definition group_remove :: "string \<Rightarrow> policy \<Rightarrow> int \<times> policy" where
  "group_remove address p =
     (let is = server_map p address;
          p = p\<lparr>servers := filter (\<lambda>i. ep_address (heap p i) \<noteq> address) (servers p)\<rparr>;
          p = fold group_remove_one is p
      in (int (length is), p\<lparr>server_map := (server_map p)(address := [])\<rparr>))"

text \<open>Round robin keeps its place: the servers of the address before it no longer count.\<close>

definition round_robin_adjust :: "string \<Rightarrow> policy \<Rightarrow> policy" where
  "round_robin_adjust address p =
     (if servers p \<noteq> [] then
        let before = take (cur_idx p mod length (servers p)) (servers p);
            k = length (filter (\<lambda>i. ep_address (heap p i) = address) before)
        in p\<lparr>cur_idx := nat ((int (cur_idx p) - int k) mod 2 ^ 64)\<rparr>
      else p)"

definition remove_server_locked :: "nat \<Rightarrow> string \<Rightarrow> policy \<Rightarrow> int \<times> policy" where
  "remove_server_locked rnd address p =
     (let p = (if uses_hash p then hash_map_remove_addr address p else p);
          p = (if pol_kind p = Round_robin then round_robin_adjust address p else p);
          p = (if weighted_kind (pol_kind p)
               then p\<lparr>total_weight := total_weight p
                 - sum_list (map (weight_of p) (filter (\<lambda>i. server_type (params_of p i) = 0) (server_map p address)))\<rparr>
               else p);
          (ret, p) = group_remove address p
      in (ret, if pol_kind p = VNSWRR then vnswrr_init rnd p else p))"

definition remove_server :: "nat \<Rightarrow> string \<Rightarrow> policy \<Rightarrow> int \<times> policy" where
  "remove_server rnd address p = remove_server_locked rnd address p"

definition replace_server :: "(string \<Rightarrow> nat) \<Rightarrow> nat \<Rightarrow> string \<Rightarrow> AddressParams \<Rightarrow> policy \<Rightarrow> int \<times> policy" where
  "replace_server std_hash rnd address params p =
     (let (i, p) = new_endpoint address params p; (ret, p) = remove_server_locked rnd address p
      in (ret, add_server_locked std_hash rnd i p))"

section \<open>Choosing a server\<close>

definition is_alive :: "policy \<Rightarrow> nat \<Rightarrow> bool" where
  "is_alive p i \<longleftrightarrow> (group_id (params_of p i) < 0 \<and> fail_count (heap p i) < max_fails (params_of p i))
     \<or> (group_id (params_of p i) \<ge> 0 \<and> group_nalives (group_of p i) > 0)"

definition usable :: "policy \<Rightarrow> nat list \<Rightarrow> nat \<Rightarrow> bool" where
  "usable p history i \<longleftrightarrow> fail_count (heap p i) < max_fails (params_of p i) \<and> i \<notin> set history"

text \<open>\<open>shuffle\<close> rearranges the servers of a group in place.\<close>

definition get_one :: "(nat list \<Rightarrow> nat list) \<Rightarrow> nat list \<Rightarrow> int \<Rightarrow> policy \<Rightarrow> nat option \<times> policy" where
  "get_one shuffle history gid p =
     (if group_nalives (groups p gid) = 0 then (None, p)
      else
        let p = upd_group gid (\<lambda>g. g\<lparr>mains := shuffle (mains g)\<rparr>) p
        in case find (usable p history) (mains (groups p gid)) of
             Some i \<Rightarrow> (Some i, p)
           | None \<Rightarrow>
               let p = upd_group gid (\<lambda>g. g\<lparr>backups := shuffle (backups g)\<rparr>) p
               in (find (usable p history) (backups (groups p gid)), p))"

definition get_one_backup :: "(nat list \<Rightarrow> nat list) \<Rightarrow> nat list \<Rightarrow> int \<Rightarrow> policy \<Rightarrow> nat option \<times> policy" where
  "get_one_backup shuffle history gid p =
     (if group_nalives (groups p gid) = 0 then (None, p)
      else
        let p = upd_group gid (\<lambda>g. g\<lparr>backups := shuffle (backups g)\<rparr>) p
        in (find (usable p history) (backups (groups p gid)), p))"

definition check_and_get :: "(nat list \<Rightarrow> nat list) \<Rightarrow> nat list \<Rightarrow> bool \<Rightarrow> nat \<Rightarrow> policy \<Rightarrow> nat option \<times> policy" where
  "check_and_get shuffle history addr_failed i p =
     (let gid = group_id (params_of p i)
      in if addr_failed then if gid = -1 then (None, p) else get_one shuffle history gid p
         else if fail_count (heap p i) \<ge> max_fails (params_of p i) \<and> gid \<ge> 0 then
           let (tmp, p) = get_one shuffle history gid p in (Some (case tmp of Some j \<Rightarrow> j | None \<Rightarrow> i), p)
         else (Some i, p))"

text \<open>The first server, of those not tried before, at which the sum of the weights passes \<open>x\<close>; the last
  server when there is none.\<close>

fun weighted_loop :: "policy \<Rightarrow> nat list \<Rightarrow> int \<Rightarrow> int \<Rightarrow> nat list \<Rightarrow> nat option" where
  "weighted_loop p history x s [] = None"
| "weighted_loop p history x s (i # is) =
     (if i \<in> set history then weighted_loop p history x s is
      else if s + weight_of p i > x then Some i
      else weighted_loop p history x (s + weight_of p i) is)"

definition select_history_weight :: "policy \<Rightarrow> nat list \<Rightarrow> int" where
  "select_history_weight p history = sum_list (map (weight_of p) history)"

definition weighted_first :: "nat \<Rightarrow> nat list \<Rightarrow> policy \<Rightarrow> nat" where
  "weighted_first rnd history p =
     (let temp_weight = total_weight p - select_history_weight p history;
          x = (if temp_weight > 0 then int rnd mod temp_weight else 0)
      in case weighted_loop p history x 0 (servers p) of Some i \<Rightarrow> i | None \<Rightarrow> last (servers p))"

text \<open>\<open>available_weight\<close> may be negative; the remainder has the sign of the dividend.\<close>

fun alive_loop :: "policy \<Rightarrow> int \<Rightarrow> int \<Rightarrow> nat option \<Rightarrow> nat list \<Rightarrow> nat option" where
  "alive_loop p x s addr [] = addr"
| "alive_loop p x s addr (i # is) =
     (if is_alive p i then
        if s + weight_of p i > x then Some i else alive_loop p x (s + weight_of p i) (Some i) is
      else alive_loop p x s addr is)"

definition weighted_another :: "int \<Rightarrow> nat \<Rightarrow> (nat list \<Rightarrow> nat list) \<Rightarrow> nat list \<Rightarrow> policy \<Rightarrow> nat option \<times> policy" where
  "weighted_another now rnd shuffle history p =
     (let p = (if available_weight p = 0 then try_clear_breaker now p else p)
      in if available_weight p = 0 then (None, p)
         else case alive_loop p (int rnd mod \<bar>available_weight p\<bar>) 0 None (servers p) of
                None \<Rightarrow> (None, p)
              | Some i \<Rightarrow> check_and_get shuffle history False i p)"

text \<open>The counter is a \<open>size_t\<close>, its value here an \<open>int\<close> that is converted back. Where the \<open>int\<close> would overflow
  in the loop, the model goes on counting.\<close>

definition vnswrr_index :: "nat \<Rightarrow> nat \<Rightarrow> policy \<Rightarrow> nat" where
  "vnswrr_index idx k p =
     nat ((sint (of_nat idx :: u32) + int k) mod 2 ^ 64) mod length (pre_generated p)"

fun vnswrr_loop :: "nat \<Rightarrow> nat \<Rightarrow> policy \<Rightarrow> nat list \<Rightarrow> nat \<Rightarrow> nat" where
  "vnswrr_loop 0 k p history pos = pos"
| "vnswrr_loop (Suc n) k p history pos =
     (let pos = pre_generated p ! vnswrr_index (cur_idx p) k p
      in if servers p ! pos \<in> set history then vnswrr_loop n (Suc k) p history pos else pos)"

definition advance :: "policy \<Rightarrow> policy" where
  "advance p = p\<lparr>cur_idx := (cur_idx p + 1) mod 2 ^ 64\<rparr>"

text \<open>From the first entry at or behind the hash value, around the table, to a server that is alive:
  the loop has no other end.\<close>

fun hash_loop :: "nat \<Rightarrow> policy \<Rightarrow> nat \<Rightarrow> nat cxx" where
  "hash_loop 0 p k = Out_of_fuel"
| "hash_loop (Suc fuel) p k =
     (let i = snd (addr_hash p ! k)
      in if is_alive p i then Ok i else hash_loop fuel p (if Suc k = length (addr_hash p) then 0 else Suc k))"

definition lower_bound :: "nat \<Rightarrow> policy \<Rightarrow> nat" where
  "lower_bound h p = length (takeWhile (\<lambda>(k, i). k < h) (addr_hash p))"

definition consistent_hash_with_group ::
  "nat \<Rightarrow> (nat list \<Rightarrow> nat list) \<Rightarrow> nat \<Rightarrow> nat list \<Rightarrow> policy \<Rightarrow> (nat option \<times> policy) cxx" where
  "consistent_hash_with_group fuel shuffle h history p =
     (if nalives p = 0 then Ok (None, p)
      else if addr_hash p = [] then Undefined
      else
        let k = lower_bound h p; k = (if k = length (addr_hash p) then 0 else k)
        in cbind (hash_loop fuel p k) (\<lambda>i. Ok (check_and_get shuffle history False i p)))"

text \<open>What the routes of a request give (\<open>manual_select\<close> and the hash of its path, query and fragment),
  the random numbers, the shuffling and the clock of one selection.\<close>

record request =
  route :: nat
  hash_route :: nat
  rnd_first :: nat
  rnd_another :: nat
  shuffling :: "nat list \<Rightarrow> nat list"
  second :: int

definition first_strategy :: "nat \<Rightarrow> request \<Rightarrow> nat list \<Rightarrow> policy \<Rightarrow> (nat option \<times> policy) cxx" where
  "first_strategy fuel q history p = (case pol_kind p of
     Round_robin \<Rightarrow> Ok (Some (servers p ! (cur_idx p mod length (servers p))), advance p)
   | Weighted_random \<Rightarrow> Ok (Some (weighted_first (rnd_first q) history p), p)
   | VNSWRR \<Rightarrow> Ok (Some (servers p ! vnswrr_loop (nat (total_weight p)) 0 p history 0), advance p)
   | Consistent_hash \<Rightarrow> consistent_hash_with_group fuel (shuffling q) (hash_route q) history p
   | Manual \<Rightarrow> Ok (Some (servers p ! (route q mod length (servers p))), p))"

definition another_strategy :: "nat \<Rightarrow> request \<Rightarrow> nat list \<Rightarrow> policy \<Rightarrow> (nat option \<times> policy) cxx" where
  "another_strategy fuel q history p = (case pol_kind p of
     Round_robin \<Rightarrow> Ok (check_and_get (shuffling q) history False
       (servers p ! (cur_idx p mod length (servers p))) (advance p))
   | Weighted_random \<Rightarrow> Ok (weighted_another (second q) (rnd_another q) (shuffling q) history p)
   | VNSWRR \<Rightarrow> Ok (weighted_another (second q) (rnd_another q) (shuffling q) history p)
   | Consistent_hash \<Rightarrow> Ok (None, p)
   | Manual \<Rightarrow> consistent_hash_with_group fuel (shuffling q) (hash_route q) history p)"

definition broken :: "policy \<Rightarrow> nat \<Rightarrow> bool" where
  "broken p i \<longleftrightarrow> fail_count (heap p i) \<ge> max_fails (params_of p i)"

text \<open>A selected server is given a reference. With no main server nothing is selected.\<close>

definition select :: "nat \<Rightarrow> request \<Rightarrow> nat list \<Rightarrow> policy \<Rightarrow> (nat option \<times> policy) cxx" where
  "select fuel q history p =
     (if servers p = [] then Ok (None, p)
      else
        cbind (first_strategy fuel q history (check_breaker (second q) p)) (\<lambda>(addr, p).
        cbind (if addr = None \<or> broken p (the addr) then
            let (addr, p) = (case addr of Some i \<Rightarrow> check_and_get (shuffling q) history True i p | None \<Rightarrow> (None, p))
            in if addr = None \<and> pol_try_another p then another_strategy fuel q history p else Ok (addr, p)
          else Ok (addr, p)) (\<lambda>(addr, p).
        let (addr, p) = (case addr of Some i \<Rightarrow> (Some i, p) | None \<Rightarrow> get_one_backup (shuffling q) history (-1) p)
        in case addr of
             None \<Rightarrow> Ok (None, p)
           | Some i \<Rightarrow> Ok (Some i, upd_endpoint i (\<lambda>e. e\<lparr>ref_count := ref_count e + 1\<rparr>) p))))"

text \<open>When a task ends, the references of its history are given up.\<close>

definition tracing_deleter :: "nat list \<Rightarrow> policy \<Rightarrow> policy" where
  "tracing_deleter history p = fold unref history p"

end
