(* ===== verification/Upstream_Invariant.thy ===== *)
theory Upstream_Invariant
  imports Upstream_Policies "HOL-Library.Multiset"
begin

text \<open>
  What holds of an upstream's policy in every history of its operations: which servers its lists
  refer to, how many references a server has, and what its counters count. The tasks that have
  selected a server hold references to it; they are a multiset beside the policy. The available
  weight is not part of the invariant: it is wrong for servers with groups, as the last section shows.
\<close>

section \<open>The invariant\<close>

definition alive :: "nat set \<Rightarrow> policy \<Rightarrow> nat \<Rightarrow> bool" where
  "alive X p i \<longleftrightarrow> \<not> deleted (heap p i) \<and> \<not> fused (heap p i) \<and> i \<notin> X"

text \<open>\<open>M\<close> are the servers the upstream has, \<open>H\<close> the references the tasks hold.\<close>

definition refs_ok :: "policy \<Rightarrow> nat multiset \<Rightarrow> nat set \<Rightarrow> bool" where
  "refs_ok p H M \<longleftrightarrow> set_mset H \<union> M \<subseteq> {..<heap_next p}
     \<and> (\<forall>i. ref_count (heap p i) = int (count H i) + of_bool (i \<in> M))
     \<and> (\<forall>i. deleted (heap p i) \<longleftrightarrow> i \<notin># H \<and> i \<notin> M)"

definition breaker_ok :: "policy \<Rightarrow> bool" where
  "breaker_ok p \<longleftrightarrow> distinct (breaker_list p) \<and> set (breaker_list p) = {i. fused (heap p i)}
     \<and> (\<forall>i. fused (heap p i) \<longrightarrow> \<not> deleted (heap p i))"

definition counts_ok :: "nat set \<Rightarrow> policy \<Rightarrow> bool" where
  "counts_ok X p \<longleftrightarrow> (\<forall>i. alive X p i \<longrightarrow> i < heap_next p) \<and> nalives p = int (card {i. alive X p i})
     \<and> (\<forall>g. group_nalives (groups p g) = int (card {i. alive X p i \<and> group_id (params_of p i) = g}))"

definition groups_ok :: "policy \<Rightarrow> nat set \<Rightarrow> bool" where
  "groups_ok p M \<longleftrightarrow> (\<forall>g. distinct (mains (groups p g)) \<and> distinct (backups (groups p g))
     \<and> set (mains (groups p g)) = {i \<in> M. server_type (params_of p i) = 0 \<and> group_id (params_of p i) = g}
     \<and> set (backups (groups p g)) = {i \<in> M. server_type (params_of p i) \<noteq> 0 \<and> group_id (params_of p i) = g}
     \<and> group_weight (groups p g) = sum (weight_of p) (set (mains (groups p g))))"

definition servers_ok :: "policy \<Rightarrow> nat set \<Rightarrow> bool" where
  "servers_ok p M \<longleftrightarrow> distinct (servers p) \<and> set (servers p) = {i \<in> M. server_type (params_of p i) = 0}
     \<and> (\<forall>a. distinct (server_map p a) \<and> set (server_map p a) = {i \<in> M. ep_address (heap p i) = a})
     \<and> (weighted_kind (pol_kind p) \<longrightarrow> total_weight p = sum (weight_of p) (set (servers p)))"

definition shared_ok :: "nat set \<Rightarrow> policy \<Rightarrow> nat multiset \<Rightarrow> nat set \<Rightarrow> bool" where
  "shared_ok X p H M \<longleftrightarrow> refs_ok p H M \<and> breaker_ok p \<and> counts_ok X p \<and> groups_ok p M"

text \<open>The tables the strategies look servers up in: that of the smooth round robin is always made from the
  present servers.\<close>

definition turns :: "policy \<Rightarrow> nat list" where
  "turns p = virtual_nodes (nat (total_weight p)) (total_weight p) (map (weight_of p) (servers p))
     (replicate (length (servers p)) 0)"

definition tables_ok :: "policy \<Rightarrow> nat set \<Rightarrow> bool" where
  "tables_ok p M \<longleftrightarrow> snd ` set (addr_hash p) \<subseteq> M \<and> (\<not> uses_hash p \<longrightarrow> addr_hash p = [])
     \<and> (pol_kind p = VNSWRR \<and> servers p \<noteq> [] \<longrightarrow> pre_generated p = turns p)
     \<and> (\<forall>i\<in>M. 0 < weight (params_of p i))"

definition policy_inv :: "policy \<Rightarrow> nat multiset \<Rightarrow> bool" where
  "policy_inv p H \<longleftrightarrow> (\<exists>M. shared_ok {} p H M \<and> servers_ok p M \<and> tables_ok p M)"

section \<open>Fields\<close>

lemma upd_endpoint_simps [simp]:
  "heap (upd_endpoint i f p) = (heap p)(i := f (heap p i))" "nalives (upd_endpoint i f p) = nalives p"
  "groups (upd_endpoint i f p) = groups p" "breaker_list (upd_endpoint i f p) = breaker_list p"
  "heap_next (upd_endpoint i f p) = heap_next p" "servers (upd_endpoint i f p) = servers p"
  "server_map (upd_endpoint i f p) = server_map p" "pol_kind (upd_endpoint i f p) = pol_kind p"
  "total_weight (upd_endpoint i f p) = total_weight p"
  "addr_hash (upd_endpoint i f p) = addr_hash p" "pre_generated (upd_endpoint i f p) = pre_generated p"
  "pol_try_another (upd_endpoint i f p) = pol_try_another p" "mttr_seconds (upd_endpoint i f p) = mttr_seconds p"
  by (simp_all add: upd_endpoint_def)

lemma upd_group_simps [simp]:
  "heap (upd_group g f p) = heap p" "nalives (upd_group g f p) = nalives p"
  "groups (upd_group g f p) = (groups p)(g := f (groups p g))" "breaker_list (upd_group g f p) = breaker_list p"
  "heap_next (upd_group g f p) = heap_next p" "servers (upd_group g f p) = servers p"
  "server_map (upd_group g f p) = server_map p" "pol_kind (upd_group g f p) = pol_kind p"
  "total_weight (upd_group g f p) = total_weight p"
  "addr_hash (upd_group g f p) = addr_hash p" "pre_generated (upd_group g f p) = pre_generated p"
  "pol_try_another (upd_group g f p) = pol_try_another p" "mttr_seconds (upd_group g f p) = mttr_seconds p"
  by (simp_all add: upd_group_def)

lemma recover_one_simps [simp]:
  "heap (recover_one_server i p) = heap p" "nalives (recover_one_server i p) = nalives p + 1"
  "groups (recover_one_server i p) = (groups p)(group_id (params_of p i) :=
     (group_of p i)\<lparr>group_nalives := group_nalives (group_of p i) + 1\<rparr>)"
  "breaker_list (recover_one_server i p) = breaker_list p" "heap_next (recover_one_server i p) = heap_next p"
  "servers (recover_one_server i p) = servers p" "server_map (recover_one_server i p) = server_map p"
  "pol_kind (recover_one_server i p) = pol_kind p" "total_weight (recover_one_server i p) = total_weight p"
  "addr_hash (recover_one_server i p) = addr_hash p" "pre_generated (recover_one_server i p) = pre_generated p"
  "pol_try_another (recover_one_server i p) = pol_try_another p"
  by (simp_all add: recover_one_server_def Let_def upd_group_def)

lemma fuse_one_simps [simp]:
  "heap (fuse_one_server i p) = heap p" "nalives (fuse_one_server i p) = nalives p - 1"
  "groups (fuse_one_server i p) = (groups p)(group_id (params_of p i) :=
     (group_of p i)\<lparr>group_nalives := group_nalives (group_of p i) - 1\<rparr>)"
  "breaker_list (fuse_one_server i p) = breaker_list p" "heap_next (fuse_one_server i p) = heap_next p"
  "servers (fuse_one_server i p) = servers p" "server_map (fuse_one_server i p) = server_map p"
  "pol_kind (fuse_one_server i p) = pol_kind p" "total_weight (fuse_one_server i p) = total_weight p"
  "addr_hash (fuse_one_server i p) = addr_hash p" "pre_generated (fuse_one_server i p) = pre_generated p"
  "pol_try_another (fuse_one_server i p) = pol_try_another p"
  by (simp_all add: fuse_one_server_def Let_def upd_group_def)

section \<open>Counting\<close>

text \<open>A server comes alive or stops being alive: what happens to the counts.\<close>

lemma alive_finite: "counts_ok X p \<Longrightarrow> finite {j. alive X p j \<and> Q j}"
  by (rule finite_subset [of _ "{..<heap_next p}"]) (auto simp: counts_ok_def)

lemma int_card_remove: "finite A \<Longrightarrow> i \<in> A \<Longrightarrow> int (card (A - {i})) = int (card A) - 1"
  using card_Suc_Diff1 [of A i] by linarith

lemma counts_more:
  assumes c: "counts_ok X p" and i: "\<not> alive X p i" and a: "\<And>j. alive X' p' j \<longleftrightarrow> j = i \<or> alive X p j"
    and n: "heap_next p \<le> heap_next p'" "i < heap_next p'" and l: "nalives p' = nalives p + 1"
    and q: "\<And>j. alive X p j \<Longrightarrow> group_id (params_of p' j) = group_id (params_of p j)"
    and g: "\<And>g. group_nalives (groups p' g) = group_nalives (groups p g) + of_bool (g = group_id (params_of p' i))"
  shows "counts_ok X' p'"
proof -
  have all: "{j. alive X' p' j} = insert i {j. alive X p j}" unfolding a by blast
  have "card (insert i {j. alive X p j}) = Suc (card {j. alive X p j})"
    using i alive_finite [OF c, of "\<lambda>_. True"] by simp
  then have 1: "nalives p' = int (card {j. alive X' p' j})" using c l unfolding all by (simp add: counts_ok_def)
  have "{j. alive X' p' j \<and> group_id (params_of p' j) = k} =
      (if k = group_id (params_of p' i) then insert i else id) {j. alive X p j \<and> group_id (params_of p j) = k}" for k
    unfolding a using i q by auto
  then have 2: "group_nalives (groups p' k) = int (card {j. alive X' p' j \<and> group_id (params_of p' j) = k})" for k
    using i c card_insert_disjoint [OF alive_finite [OF c, of "\<lambda>j. group_id (params_of p j) = k"], of i]
    unfolding g by (cases "k = group_id (params_of p' i)") (simp_all add: counts_ok_def)
  have "j < heap_next p'" if "alive X' p' j" for j
    using that c n unfolding a counts_ok_def by (elim disjE) (auto dest: spec [of _ j])
  with 1 2 show ?thesis unfolding counts_ok_def by blast
qed

lemma counts_less:
  assumes c: "counts_ok X p" and i: "alive X p i" and a: "\<And>j. alive X p' j \<longleftrightarrow> j \<noteq> i \<and> alive X p j"
    and n: "heap_next p' = heap_next p" and l: "nalives p' = nalives p - 1"
    and q: "\<And>j. group_id (params_of p' j) = group_id (params_of p j)"
    and g: "\<And>g. group_nalives (groups p' g) = group_nalives (groups p g) - of_bool (g = group_id (params_of p i))"
  shows "counts_ok X p'"
proof -
  have all: "{j. alive X p' j} = {j. alive X p j} - {i}" unfolding a by blast
  have "int (card ({j. alive X p j} - {i})) = int (card {j. alive X p j}) - 1"
    using i alive_finite [OF c, of "\<lambda>_. True"] by (intro int_card_remove) simp_all
  then have 1: "nalives p' = int (card {j. alive X p' j})" using c l unfolding all by (simp add: counts_ok_def)
  have "{j. alive X p' j \<and> group_id (params_of p' j) = k} = {j. alive X p j \<and> group_id (params_of p j) = k} -
      (if k = group_id (params_of p i) then {i} else {})" for k
    unfolding a q by auto
  moreover have "int (card ({j. alive X p j \<and> group_id (params_of p j) = k} - {i})) =
      int (card {j. alive X p j \<and> group_id (params_of p j) = k}) - 1" if "k = group_id (params_of p i)" for k
    using that i alive_finite [OF c] by (intro int_card_remove) simp_all
  ultimately have 2: "group_nalives (groups p' k) = int (card {j. alive X p' j \<and> group_id (params_of p' j) = k})" for k
    using c unfolding g by (cases "k = group_id (params_of p i)") (simp_all add: counts_ok_def)
  have "j < heap_next p'" if "alive X p' j" for j
    using that c unfolding a n counts_ok_def by blast
  with 1 2 show ?thesis unfolding counts_ok_def by blast
qed

lemma counts_same:
  assumes c: "counts_ok X p" and a: "\<And>j. alive X' p' j \<longleftrightarrow> alive X p j"
    and n: "heap_next p \<le> heap_next p'" and l: "nalives p' = nalives p"
    and q: "\<And>j. alive X p j \<Longrightarrow> group_id (params_of p' j) = group_id (params_of p j)"
    and g: "\<And>g. group_nalives (groups p' g) = group_nalives (groups p g)"
  shows "counts_ok X' p'"
proof -
  have "{j. alive X' p' j \<and> group_id (params_of p' j) = k} = {j. alive X p j \<and> group_id (params_of p j) = k}" for k
    unfolding a using q by auto
  moreover have "j < heap_next p'" if "alive X' p' j" for j
    using that c n unfolding a counts_ok_def by (meson order.strict_trans2)
  ultimately show ?thesis using c unfolding counts_ok_def a l g by simp
qed

section \<open>Steps on one server\<close>

lemmas ok_defs = shared_ok_def refs_ok_def breaker_ok_def

text \<open>A change of a server that keeps what the invariant speaks of.\<close>

definition keeps :: "(EndpointAddress \<Rightarrow> EndpointAddress) \<Rightarrow> bool" where
  "keeps f \<longleftrightarrow> (\<forall>e. ep_address (f e) = ep_address e \<and> ep_params (f e) = ep_params e \<and> ref_count (f e) = ref_count e
     \<and> fused (f e) = fused e \<and> deleted (f e) = deleted e)"

lemma keeps_fail_count [simp]: "keeps (\<lambda>e. e\<lparr>fail_count := h e\<rparr>)"
  by (simp add: keeps_def)

lemma keeps_fields:
  "keeps f \<Longrightarrow> ep_params (heap (upd_endpoint i f p) j) = ep_params (heap p j)"
  "keeps f \<Longrightarrow> ep_address (heap (upd_endpoint i f p) j) = ep_address (heap p j)"
  "keeps f \<Longrightarrow> ref_count (heap (upd_endpoint i f p) j) = ref_count (heap p j)"
  "keeps f \<Longrightarrow> fused (heap (upd_endpoint i f p) j) = fused (heap p j)"
  "keeps f \<Longrightarrow> deleted (heap (upd_endpoint i f p) j) = deleted (heap p j)"
  "keeps f \<Longrightarrow> alive X (upd_endpoint i f p) j = alive X p j"
  by (simp_all add: keeps_def alive_def)

lemma groups_ok_cong:
  assumes "groups_ok p M" and "\<And>j. ep_params (heap p' j) = ep_params (heap p j)"
    and "\<And>g. mains (groups p' g) = mains (groups p g) \<and> backups (groups p' g) = backups (groups p g)
      \<and> group_weight (groups p' g) = group_weight (groups p g)"
  shows "groups_ok p' M"
  using assms by (simp add: groups_ok_def)

lemma servers_ok_cong:
  assumes "servers_ok p M" and "\<And>j. ep_params (heap p' j) = ep_params (heap p j)"
    and "\<And>j. ep_address (heap p' j) = ep_address (heap p j)" and "servers p' = servers p"
    and "server_map p' = server_map p" and "pol_kind p' = pol_kind p" and "total_weight p' = total_weight p"
  shows "servers_ok p' M"
  using assms by (simp add: servers_ok_def)

lemma upd_keeps:
  assumes "keeps f" and "shared_ok X p H M"
  shows "shared_ok X (upd_endpoint i f p) H M"
proof -
  have "counts_ok X (upd_endpoint i f p)"
    by (rule counts_same [where p = p])
      (use assms in \<open>simp_all only: keeps_fields shared_ok_def upd_endpoint_simps(2-5) order.refl\<close>)
  moreover have "groups_ok (upd_endpoint i f p) M"
    by (rule groups_ok_cong [of p])
      (use assms in \<open>simp_all only: keeps_fields shared_ok_def upd_endpoint_simps(2-5)\<close>)
  ultimately show ?thesis
    using assms by (simp only: shared_ok_def refs_ok_def breaker_ok_def keeps_fields upd_endpoint_simps(4,5)) blast
qed

text \<open>What the steps on one server leave alone.\<close>

definition same_frame :: "policy \<Rightarrow> policy \<Rightarrow> bool" where
  "same_frame p p' \<longleftrightarrow> (\<forall>j. ep_params (heap p' j) = ep_params (heap p j) \<and> ep_address (heap p' j) = ep_address (heap p j))
     \<and> servers p' = servers p \<and> server_map p' = server_map p \<and> pol_kind p' = pol_kind p
     \<and> total_weight p' = total_weight p \<and> heap_next p' = heap_next p \<and> addr_hash p' = addr_hash p
     \<and> pre_generated p' = pre_generated p \<and> pol_try_another p' = pol_try_another p"

lemma same_frame_trans [trans]: "same_frame p q \<Longrightarrow> same_frame q r \<Longrightarrow> same_frame p r"
  by (simp add: same_frame_def)

lemma same_frame_servers: "same_frame p p' \<Longrightarrow> servers_ok p M \<Longrightarrow> servers_ok p' M"
  by (erule servers_ok_cong) (simp_all add: same_frame_def)

lemma same_frame_tables: "same_frame p p' \<Longrightarrow> tables_ok p M \<Longrightarrow> tables_ok p' M"
  by (simp add: same_frame_def tables_ok_def uses_hash_def turns_def)

lemma same_frame_steps:
  "same_frame p (recover_server_from_breaker i p)" "same_frame p (fuse_server_to_breaker now i p)"
  "same_frame p (unref i p)" "same_frame p (success i p)" "same_frame p (failed now i p)"
  by (simp_all add: same_frame_def recover_server_from_breaker_def fuse_server_to_breaker_def unref_def
      pre_delete_server_def success_def failed_def Let_def)

lemma present:
  assumes "refs_ok p H M" and "\<not> deleted (heap p i)"
  shows "i < heap_next p"
  using assms by (auto simp: refs_ok_def)

text \<open>A fused server comes back.\<close>

lemma unfuse_ok:
  assumes ok: "shared_ok {} p H M" and i: "fused (heap p i)"
    and p': "p' = recover_one_server i (upd_endpoint i (\<lambda>e. e\<lparr>fused := False\<rparr>) (p\<lparr>breaker_list := remove1 i (breaker_list p)\<rparr>))"
  shows "shared_ok {} p' H M"
proof -
  from ok i have d: "\<not> deleted (heap p i)" by (simp add: shared_ok_def breaker_ok_def)
  have "counts_ok {} p'"
  proof (rule counts_more [where p = p and i = i])
    show "counts_ok {} p" using ok by (simp add: shared_ok_def)
    show "i < heap_next p'" using present [of p H M, OF _ d] ok by (simp add: shared_ok_def p')
  qed (use i d in \<open>auto simp: p' alive_def\<close>)
  moreover have "groups_ok p' M"
    by (rule groups_ok_cong [of p]) (use ok in \<open>simp_all add: p' shared_ok_def\<close>)
  moreover have "breaker_ok p'" using ok by (auto simp: p' shared_ok_def breaker_ok_def)
  moreover have "refs_ok p' H M" using ok by (simp add: p' shared_ok_def refs_ok_def)
  ultimately show ?thesis by (simp add: shared_ok_def)
qed

lemma recover_ok:
  assumes "shared_ok {} p H M"
  shows "shared_ok {} (recover_server_from_breaker i p) H M"
proof -
  have "shared_ok {} (upd_endpoint i (\<lambda>e. e\<lparr>fail_count := 0\<rparr>) p) H M" using assms by (intro upd_keeps) simp_all
  then show ?thesis
    unfolding recover_server_from_breaker_def Let_def by (auto intro: unfuse_ok)
qed

lemma fuse_ok:
  assumes ok: "shared_ok {} p H M" and d: "\<not> deleted (heap p i)"
  shows "shared_ok {} (fuse_server_to_breaker now i p) H M"
proof (cases "fused (heap p i)")
  case True
  with ok show ?thesis by (simp add: fuse_server_to_breaker_def)
next
  case False
  define p' where "p' = fuse_server_to_breaker now i p"
  have p': "p' = fuse_one_server i (upd_endpoint i (\<lambda>e. e\<lparr>broken_timeout := now + mttr_seconds p, fused := True\<rparr>)
      (p\<lparr>breaker_list := breaker_list p @ [i]\<rparr>))" using False by (simp add: p'_def fuse_server_to_breaker_def)
  have "counts_ok {} p'"
  proof (rule counts_less [where p = p and i = i])
    show "counts_ok {} p" using ok by (simp add: shared_ok_def)
  qed (use False d in \<open>auto simp: p' alive_def\<close>)
  moreover have "groups_ok p' M"
    by (rule groups_ok_cong [of p]) (use ok in \<open>simp_all add: p' shared_ok_def\<close>)
  moreover have "breaker_ok p'" using ok d False by (auto simp: p' shared_ok_def breaker_ok_def)
  moreover have "refs_ok p' H M" using ok by (simp add: p' shared_ok_def refs_ok_def)
  ultimately show ?thesis by (simp add: shared_ok_def p'_def)
qed

text \<open>A reference is given up, by a task or by the upstream; with the last one the server goes.\<close>

lemma unref_ok:
  assumes r: "refs_ok p H M" and b: "breaker_ok p" and c: "counts_ok X p"
    and n: "\<And>j. int (count H' j) + of_bool (j \<in> M') = int (count H j) + of_bool (j \<in> M) - of_bool (j = i)"
    and sub: "set_mset H' \<union> M' \<subseteq> set_mset H \<union> M" and x: "i \<notin> X"
  shows "refs_ok (unref i p) H' M' \<and> breaker_ok (unref i p) \<and> counts_ok X (unref i p)"
proof -
  have gone: "j \<notin># H' \<and> j \<notin> M' \<longleftrightarrow> int (count H j) + of_bool (j \<in> M) = of_bool (j = i)" for j
  proof -
    have "j \<notin># H' \<and> j \<notin> M' \<longleftrightarrow> int (count H' j) + of_bool (j \<in> M') = 0" by (auto simp: not_in_iff)
    also have "\<dots> \<longleftrightarrow> int (count H j) + of_bool (j \<in> M) = of_bool (j = i)" using n [of j] by linarith
    finally show ?thesis .
  qed
  have i: "\<not> deleted (heap p i)"
  proof (cases "i \<in> M")
    case False
    have "0 \<le> int (count H' i) + of_bool (i \<in> M')" by simp
    with False n [of i] have "count H i \<noteq> 0" by (auto simp only: of_bool_eq simp_thms)
    then have "i \<in># H" by (simp only: count_eq_zero_iff not_not)
    with r show ?thesis by (simp add: refs_ok_def)
  qed (use r in \<open>simp add: refs_ok_def\<close>)
  then have less: "i < heap_next p" using present [OF r] by blast
  let ?q = "upd_endpoint i (\<lambda>e. e\<lparr>ref_count := ref_count e - 1\<rparr>) p"
  have rc: "ref_count (heap p j) = int (count H j) + of_bool (j \<in> M)" for j using r by (simp add: refs_ok_def)
  have dl: "deleted (heap p j) \<longleftrightarrow> j \<notin># H \<and> j \<notin> M" for j using r by (simp add: refs_ok_def)
  have sub': "set_mset H' \<union> M' \<subseteq> {..<heap_next p}" using sub r by (auto simp: refs_ok_def)
  show ?thesis
  proof (cases "ref_count (heap p i) = 1")
    case False
    then have u: "unref i p = ?q" by (simp add: unref_def)
    have "refs_ok ?q H' M'"
      unfolding refs_ok_def
    proof (intro conjI allI)
      show "deleted (heap ?q j) \<longleftrightarrow> j \<notin># H' \<and> j \<notin> M'" for j
        using False rc [of i] i dl [of j] unfolding gone by (auto simp: not_in_iff)
    qed (use sub' n rc in auto)
    moreover have "counts_ok X ?q"
      by (rule counts_same [OF c]) (simp_all add: alive_def)
    moreover have "breaker_ok ?q" using b by (auto simp: breaker_ok_def)
    ultimately show ?thesis by (simp add: u)
  next
    case True
    define p' where "p' = unref i p"
    then have u: "p' = upd_endpoint i (\<lambda>e. e\<lparr>deleted := True\<rparr>) (pre_delete_server i ?q)"
      using True by (simp add: unref_def)
    have f: "ep_params (heap p' j) = ep_params (heap p j)" "heap_next p' = heap_next p"
      "ref_count (heap p' j) = ref_count (heap p j) - of_bool (j = i)"
      "deleted (heap p' j) \<longleftrightarrow> deleted (heap p j) \<or> j = i" "fused (heap p' j) \<longleftrightarrow> fused (heap p j) \<and> j \<noteq> i" for j
      by (auto simp: u pre_delete_server_def)
    have "refs_ok p' H' M'"
      unfolding refs_ok_def f
    proof (intro conjI allI)
      show "deleted (heap p j) \<or> j = i \<longleftrightarrow> j \<notin># H' \<and> j \<notin> M'" for j
        using True rc [of i] dl [of j] unfolding gone by (auto simp: not_in_iff)
    qed (use sub' n rc in auto)
    moreover have "breaker_ok p'"
      using b i by (auto simp: u pre_delete_server_def breaker_ok_def)
    moreover have "counts_ok X p'"
    proof (cases "fused (heap p i)")
      case True
      then have "p' = upd_endpoint i (\<lambda>e. e\<lparr>deleted := True\<rparr>) (upd_endpoint i (\<lambda>e. e\<lparr>fused := False\<rparr>)
          (?q\<lparr>breaker_list := remove1 i (breaker_list ?q)\<rparr>))"
        by (simp add: u pre_delete_server_def)
      then have g: "groups p' = groups p" "nalives p' = nalives p" by simp_all
      show ?thesis by (rule counts_same [OF c]) (use True in \<open>auto simp: alive_def f g\<close>)
    next
      case False
      then have "p' = upd_endpoint i (\<lambda>e. e\<lparr>deleted := True\<rparr>) (fuse_one_server i ?q)"
        by (simp add: u pre_delete_server_def)
      then have g: "groups p' = groups (fuse_one_server i p)" "nalives p' = nalives p - 1" by simp_all
      show ?thesis
        by (rule counts_less [OF c, of i]) (use False i x in \<open>auto simp: alive_def f g\<close>)
    qed
    ultimately show ?thesis by (simp add: p'_def)
  qed
qed

lemma unref_groups: "groups_ok p M \<Longrightarrow> groups_ok (unref i p) M"
  by (rule groups_ok_cong [of p]) (simp_all add: unref_def pre_delete_server_def Let_def)

lemma task_unref:
  assumes "shared_ok {} p H M" and "i \<in># H"
  shows "shared_ok {} (unref i p) (H - {#i#}) M"
proof -
  have "refs_ok (unref i p) (H - {#i#}) M \<and> breaker_ok (unref i p) \<and> counts_ok {} (unref i p)"
  proof (rule unref_ok)
    show "int (count (H - {#i#}) j) + of_bool (j \<in> M) = int (count H j) + of_bool (j \<in> M) - of_bool (j = i)" for j
      using assms(2) by (auto simp: of_nat_diff Suc_le_eq)
  qed (use assms in \<open>auto simp: shared_ok_def dest: in_diffD\<close>)
  then show ?thesis using assms(1) unref_groups by (simp add: shared_ok_def)
qed

lemma remove_one_ok:
  assumes ok: "shared_ok X p H M" and i: "i \<in> M" "i \<notin> X"
  shows "shared_ok X (group_remove_one i p) H (M - {i})"
proof -
  let ?q = "params_of p i"
  let ?f = "\<lambda>g. if server_type ?q = 0
     then g\<lparr>mains := remove1 i (mains g), group_weight := group_weight g - int (weight ?q)\<rparr>
     else g\<lparr>backups := remove1 i (backups g)\<rparr>"
  let ?p = "upd_group (group_id ?q) ?f p"
  have g: "groups_ok p M" using ok by (simp add: shared_ok_def)
  have "groups_ok ?p (M - {i})"
    unfolding groups_ok_def
  proof (rule allI)
    fix k
    have gk: "distinct (mains (groups p k))" "distinct (backups (groups p k))"
      "set (mains (groups p k)) = {j \<in> M. server_type (params_of p j) = 0 \<and> group_id (params_of p j) = k}"
      "set (backups (groups p k)) = {j \<in> M. server_type (params_of p j) \<noteq> 0 \<and> group_id (params_of p j) = k}"
      "group_weight (groups p k) = sum (weight_of p) (set (mains (groups p k)))"
      using g by (simp_all add: groups_ok_def)
    have w: "sum (weight_of p) (set (mains (groups p k)) - {i})
        = sum (weight_of p) (set (mains (groups p k))) - (if i \<in> set (mains (groups p k)) then weight_of p i else 0)"
      by (simp add: sum_diff1)
    show "distinct (mains (groups ?p k)) \<and> distinct (backups (groups ?p k))
       \<and> set (mains (groups ?p k)) = {j \<in> M - {i}. server_type (params_of ?p j) = 0 \<and> group_id (params_of ?p j) = k}
       \<and> set (backups (groups ?p k)) = {j \<in> M - {i}. server_type (params_of ?p j) \<noteq> 0 \<and> group_id (params_of ?p j) = k}
       \<and> group_weight (groups ?p k) = sum (weight_of ?p) (set (mains (groups ?p k)))"
      using gk i w by (cases "k = group_id ?q"; cases "server_type ?q = 0") auto
  qed
  then have "groups_ok (unref i ?p) (M - {i})" by (rule unref_groups)
  moreover have "counts_ok X ?p"
    by (rule counts_same [where p = p]) (use ok in \<open>auto simp: shared_ok_def alive_def\<close>)
  then have "refs_ok (unref i ?p) H (M - {i}) \<and> breaker_ok (unref i ?p) \<and> counts_ok X (unref i ?p)"
    using ok i by (intro unref_ok [of ?p H M]) (auto simp: shared_ok_def refs_ok_def breaker_ok_def)
  ultimately show ?thesis by (simp add: shared_ok_def group_remove_one_def Let_def)
qed

end
