(* ===== verification/Upstream_Safety.thy ===== *)
theory Upstream_Safety
  imports Upstream_Invariant
begin

text \<open>Every operation of an upstream keeps its invariant.\<close>

section \<open>Breakers\<close>

lemma fold_keeps:
  assumes "\<And>i p. i \<in> set is \<Longrightarrow> P p \<Longrightarrow> P (f i p)" and "P p"
  shows "P (fold f is p)"
  using assms by (induction "is" arbitrary: p) simp_all

lemma same_frame_refl [simp]: "same_frame p p"
  by (simp add: same_frame_def)

lemma keeps_frame: "keeps f \<Longrightarrow> same_frame p (upd_endpoint i f p)"
  by (simp add: same_frame_def keeps_def)

lemma frame_inv: "same_frame p p' \<Longrightarrow> shared_ok {} p' H M \<Longrightarrow> servers_ok p M \<Longrightarrow> tables_ok p M \<Longrightarrow> policy_inv p' H"
  unfolding policy_inv_def by (blast intro: same_frame_servers same_frame_tables)

lemma member_present: "shared_ok X p H M \<Longrightarrow> i \<in> M \<Longrightarrow> \<not> deleted (heap p i)"
  by (simp add: shared_ok_def refs_ok_def)

lemma task_present: "shared_ok X p H M \<Longrightarrow> i \<in># H \<Longrightarrow> \<not> deleted (heap p i)"
  by (simp add: shared_ok_def refs_ok_def)

lemma check_breaker_step:
  "upd_endpoint i (\<lambda>e. e\<lparr>fused := False\<rparr>) ((recover_one_server i p)\<lparr>breaker_list := is\<rparr>)
   = recover_one_server i (upd_endpoint i (\<lambda>e. e\<lparr>fused := False\<rparr>) (p\<lparr>breaker_list := is\<rparr>))"
  by (simp add: recover_one_server_def upd_endpoint_def upd_group_def Let_def)

lemma check_breaker_loop_ok:
  assumes "shared_ok {} p H M" and "distinct is" and "\<forall>i\<in>set is. fused (heap p i)"
  shows "shared_ok {} (check_breaker_loop t is p) H M \<and> same_frame p (check_breaker_loop t is p)"
  using assms
proof (induction "is" arbitrary: p)
  case (Cons i "is")
  let ?q = "upd_endpoint i (\<lambda>e. e\<lparr>fail_count := max_fails (ep_params e) - 1\<rparr>) p"
  let ?p = "recover_one_server i (upd_endpoint i (\<lambda>e. e\<lparr>fused := False\<rparr>) (?q\<lparr>breaker_list := remove1 i (breaker_list ?q)\<rparr>))"
  have "shared_ok {} ?q H M" using Cons.prems by (intro upd_keeps) simp_all
  then have "shared_ok {} ?p H M"
    by (rule unfuse_ok [of _ H M i]) (use Cons.prems in simp_all)
  moreover have "same_frame p ?p" by (simp add: same_frame_def)
  moreover have "\<forall>j\<in>set is. fused (heap ?p j)" using Cons.prems by auto
  ultimately have "shared_ok {} (check_breaker_loop t is ?p) H M \<and> same_frame p (check_breaker_loop t is ?p)"
    using Cons.IH [of ?p] Cons.prems(2) by (auto intro: same_frame_trans)
  with Cons.prems show ?case by (simp add: check_breaker_step Let_def)
qed simp

lemma breaker_loop_ok:
  assumes "shared_ok {} p H M"
  shows "shared_ok {} (check_breaker_loop t (breaker_list p) p) H M"
    and "same_frame p (check_breaker_loop t (breaker_list p) p)"
  using check_breaker_loop_ok [OF assms, of "breaker_list p" t] assms by (simp_all add: shared_ok_def breaker_ok_def)

lemma check_breaker_ok:
  assumes "shared_ok {} p H M"
  shows "shared_ok {} (check_breaker t p) H M" and "same_frame p (check_breaker t p)"
  using breaker_loop_ok [OF assms] by (simp_all add: check_breaker_def)

lemma try_clear_ok:
  assumes "shared_ok {} p H M"
  shows "shared_ok {} (try_clear_breaker t p) H M" and "same_frame p (try_clear_breaker t p)"
  using breaker_loop_ok [OF assms] assms by (auto simp: try_clear_breaker_def split: list.splits)

lemma enable_ok:
  assumes "shared_ok {} p H M"
  shows "shared_ok {} (enable_server a p) H M \<and> same_frame p (enable_server a p)"
  unfolding enable_server_def
  by (rule fold_keeps) (use assms in \<open>auto intro: recover_ok same_frame_trans [OF _ same_frame_steps(1)]\<close>)

lemma disable_ok:
  assumes "shared_ok {} p H M" and "servers_ok p M"
  shows "shared_ok {} (disable_server now a p) H M \<and> same_frame p (disable_server now a p)"
  unfolding disable_server_def
proof (rule fold_keeps, goal_cases)
  case (1 i q)
  let ?q = "upd_endpoint i (\<lambda>e. e\<lparr>fail_count := max_fails (ep_params e)\<rparr>) q"
  have i: "i \<in> M" using 1(1) assms(2) by (simp add: servers_ok_def)
  have k: "shared_ok {} ?q H M" using 1 by (intro upd_keeps) simp_all
  have "same_frame p ?q" using 1 by (intro same_frame_trans [OF _ keeps_frame]) simp_all
  then show ?case
    using fuse_ok [OF k member_present [OF k i]] by (blast intro: same_frame_trans same_frame_steps)
qed (simp add: assms)

lemma success_ok:
  assumes "shared_ok {} p H M"
  shows "shared_ok {} (success i p) H M"
proof -
  have "shared_ok {} (upd_endpoint i (\<lambda>e. e\<lparr>fail_count := 0\<rparr>) p) H M" using assms by (intro upd_keeps) simp_all
  then show ?thesis by (simp add: success_def Let_def recover_ok)
qed

lemma failed_ok:
  assumes "shared_ok {} p H M" and "i \<in># H"
  shows "shared_ok {} (failed now i p) H M"
proof -
  have k: "shared_ok {} (upd_endpoint i (\<lambda>e. e\<lparr>fail_count := (fail_count e + 1) mod 2 ^ 32\<rparr>) p) H M"
    using assms by (intro upd_keeps) simp_all
  then show ?thesis
    using fuse_ok [OF k task_present [OF k assms(2)]] by (simp add: failed_def Let_def)
qed

section \<open>Adding and removing\<close>

text \<open>A new server, not yet in the lists: whoever made it holds the reference to it.\<close>

lemma new_endpoint_fields:
  assumes "new_endpoint a q p = (i, p')"
  shows "i = heap_next p" "heap_next p' = Suc i" "j \<noteq> i \<Longrightarrow> heap p' j = heap p j" "ep_address (heap p' i) = a"
    "ep_params (heap p' i) = UPSAddrParams q" "ref_count (heap p' i) = 1" "\<not> fused (heap p' i)" "\<not> deleted (heap p' i)"
    "groups p' = groups p" "nalives p' = nalives p" "breaker_list p' = breaker_list p" "servers p' = servers p"
    "server_map p' = server_map p" "pol_kind p' = pol_kind p" "total_weight p' = total_weight p"
    "addr_hash p' = addr_hash p" "pre_generated p' = pre_generated p" "pol_try_another p' = pol_try_another p"
  using assms by (auto simp: new_endpoint_def)

lemma new_endpoint_ok:
  assumes ok: "shared_ok {} p H M" "servers_ok p M" "tables_ok p M" and n: "new_endpoint a q p = (i, p')"
  shows "shared_ok {i} p' (add_mset i H) M" and "servers_ok p' M" and "tables_ok p' M" and "i \<notin> M" and "i \<notin># H"
    and "\<not> fused (heap p' i)" and "0 < weight (params_of p' i)"
proof -
  note f = new_endpoint_fields [OF n]
  have b: "set_mset H \<union> M \<subseteq> {..<heap_next p}" using ok(1) by (simp add: shared_ok_def refs_ok_def)
  then show m: "i \<notin> M" and h: "i \<notin># H" using f(1) by auto
  show "\<not> fused (heap p' i)" by (rule f(7))
  show "0 < weight (params_of p' i)" by (simp add: f(5) UPSAddrParams_def Let_def)
  have e: "heap p' j = heap p j" if "j \<in> M" for j using that m f(3) by metis
  have d: "deleted (heap p i)" using ok(1) m h by (simp add: shared_ok_def refs_ok_def)
  then have nf: "\<not> fused (heap p i)" using ok(1) by (auto simp: shared_ok_def breaker_ok_def)
  have "counts_ok {i} p'"
  proof (rule counts_same [where p = p])
    show "counts_ok {} p" using ok(1) by (simp add: shared_ok_def)
    show "alive {i} p' j \<longleftrightarrow> alive {} p j" for j using d f(3) [of j] by (cases "j = i") (simp_all add: alive_def)
    show "group_id (params_of p' j) = group_id (params_of p j)" if "alive {} p j" for j
      using that d f(3) [of j] by (cases "j = i") (simp_all add: alive_def)
  qed (simp_all add: f)
  moreover have "refs_ok p' (add_mset i H) M"
    unfolding refs_ok_def
  proof (intro conjI allI)
    show "ref_count (heap p' j) = int (count (add_mset i H) j) + of_bool (j \<in> M)" for j
      using ok(1) m h f(3) [of j] f(6) by (cases "j = i") (simp_all add: shared_ok_def refs_ok_def not_in_iff)
    show "deleted (heap p' j) \<longleftrightarrow> j \<notin># add_mset i H \<and> j \<notin> M" for j
      using ok(1) f(3) [of j] f(8) by (cases "j = i") (simp_all add: shared_ok_def refs_ok_def)
    show "set_mset (add_mset i H) \<union> M \<subseteq> {..<heap_next p'}" using b f(1,2) by auto
  qed
  moreover have "breaker_ok p'"
  proof -
    have "fused (heap p' j) \<longleftrightarrow> fused (heap p j)" for j using nf f(3) [of j] f(7) by (cases "j = i") simp_all
    moreover have "deleted (heap p' j) \<Longrightarrow> deleted (heap p j)" for j using d f(3) [of j] by (cases "j = i") simp_all
    ultimately show ?thesis using ok(1) by (auto simp: shared_ok_def breaker_ok_def f)
  qed
  moreover have "groups_ok p' M"
  proof -
    have "groups_ok p M" using ok(1) by (simp add: shared_ok_def)
    moreover have "sum (weight_of p') (set (mains (groups p g))) = sum (weight_of p) (set (mains (groups p g)))" for g
      using \<open>groups_ok p M\<close> e by (intro sum.cong) (auto simp: groups_ok_def)
    ultimately show ?thesis using e by (simp add: groups_ok_def f cong: conj_cong)
  qed
  ultimately show "shared_ok {i} p' (add_mset i H) M" by (simp add: shared_ok_def)
  have "sum (weight_of p') (set (servers p)) = sum (weight_of p) (set (servers p))"
    using ok(2) e by (intro sum.cong) (auto simp: servers_ok_def)
  then show "servers_ok p' M" using ok(2) e by (simp add: servers_ok_def f cong: conj_cong)
  have "map (weight_of p') (servers p) = map (weight_of p) (servers p)"
    using ok(2) e by (intro map_cong refl) (simp add: servers_ok_def)
  then have "turns p' = turns p" by (simp only: turns_def f(12,15))
  then show "tables_ok p' M" using ok(3) e by (simp add: tables_ok_def uses_hash_def f)
qed

lemma group_add_fields:
  "heap (group_add i p) = heap p" "heap_next (group_add i p) = heap_next p" "nalives (group_add i p) = nalives p + 1"
  "breaker_list (group_add i p) = breaker_list p" "pol_kind (group_add i p) = pol_kind p"
  "pol_try_another (group_add i p) = pol_try_another p" "addr_hash (group_add i p) = addr_hash p"
  "pre_generated (group_add i p) = pre_generated p" "total_weight (group_add i p) = total_weight p"
  "servers (group_add i p) = servers p @ (if server_type (params_of p i) = 0 then [i] else [])"
  "server_map (group_add i p) = (server_map p)(ep_address (heap p i) := server_map p (ep_address (heap p i)) @ [i])"
  "groups (group_add i p) = (groups p)(group_id (params_of p i) := (let g = group_of p i in
     g\<lparr>group_nalives := group_nalives g + 1,
       mains := mains g @ (if server_type (params_of p i) = 0 then [i] else []),
       group_weight := group_weight g + (if server_type (params_of p i) = 0 then weight_of p i else 0),
       backups := backups g @ (if server_type (params_of p i) = 0 then [] else [i])\<rparr>))"
  by (auto simp: group_add_def Let_def)

lemma group_add_ok:
  assumes ok: "shared_ok {i} p (add_mset i H) M" and i: "i \<notin> M" "i \<notin># H" "\<not> fused (heap p i)"
  shows "shared_ok {} (group_add i p) H (insert i M)"
proof -
  note f = group_add_fields [of i p]
  have r: "refs_ok p (add_mset i H) M" using ok by (simp add: shared_ok_def)
  have d: "\<not> deleted (heap p i)" using r by (simp add: refs_ok_def)
  have "counts_ok {} (group_add i p)"
  proof (rule counts_more [where p = p and i = i])
    show "counts_ok {i} p" using ok by (simp add: shared_ok_def)
    show "i < heap_next (group_add i p)" using present [OF r d] by (simp add: f)
  qed (use d i in \<open>auto simp: alive_def f Let_def\<close>)
  moreover have "refs_ok (group_add i p) H (insert i M)"
    using r i by (auto simp: refs_ok_def f count_eq_zero_iff [THEN iffD2] split: if_splits)
  moreover have "breaker_ok (group_add i p)" using ok by (simp add: shared_ok_def breaker_ok_def f)
  moreover have "groups_ok (group_add i p) (insert i M)"
    unfolding groups_ok_def f(1)
  proof (rule allI)
    fix k
    have gk: "distinct (mains (groups p k))" "distinct (backups (groups p k))"
      "set (mains (groups p k)) = {j \<in> M. server_type (params_of p j) = 0 \<and> group_id (params_of p j) = k}"
      "set (backups (groups p k)) = {j \<in> M. server_type (params_of p j) \<noteq> 0 \<and> group_id (params_of p j) = k}"
      "group_weight (groups p k) = sum (weight_of p) (set (mains (groups p k)))"
      using ok by (simp_all add: shared_ok_def groups_ok_def)
    have n: "i \<notin> set (mains (groups p k))" "i \<notin> set (backups (groups p k))" using gk i by auto
    have w: "sum (weight_of p) (insert i (set (mains (groups p k)))) = weight_of p i + sum (weight_of p) (set (mains (groups p k)))"
      using n by simp
    show "distinct (mains (groups (group_add i p) k)) \<and> distinct (backups (groups (group_add i p) k))
       \<and> set (mains (groups (group_add i p) k)) = {j \<in> insert i M. server_type (params_of p j) = 0 \<and> group_id (params_of p j) = k}
       \<and> set (backups (groups (group_add i p) k)) = {j \<in> insert i M. server_type (params_of p j) \<noteq> 0 \<and> group_id (params_of p j) = k}
       \<and> group_weight (groups (group_add i p) k) = sum (weight_of p) (set (mains (groups (group_add i p) k)))"
      using gk n w by (cases "k = group_id (params_of p i)"; cases "server_type (params_of p i) = 0")
        (auto simp: f(12) Let_def)
  qed
  ultimately show ?thesis by (simp add: shared_ok_def)
qed

text \<open>A table of turns names servers of the list, and has a turn for each unit of the weight.\<close>

lemma index_of_max_less: "cs \<noteq> [] \<Longrightarrow> index_of_max cs < length cs"
proof -
  assume "cs \<noteq> []"
  then have "Max (set cs) \<in> set cs" by simp
  then have "takeWhile (\<lambda>c. c \<noteq> Max (set cs)) cs \<noteq> cs" by (auto simp: takeWhile_eq_all_conv)
  then have "length (takeWhile (\<lambda>c. c \<noteq> Max (set cs)) cs) \<noteq> length cs"
    by (metis takeWhile_eq_take take_all order.refl)
  with length_takeWhile_le [of "\<lambda>c. c \<noteq> Max (set cs)" cs] show ?thesis
    unfolding index_of_max_def by linarith
qed

lemma length_virtual_nodes [simp]: "length (virtual_nodes n tw ws cs) = n"
  by (induction n arbitrary: cs) (simp_all add: Let_def)

lemma virtual_nodes_range:
  assumes "length cs = length ws" and "ws \<noteq> []"
  shows "set (virtual_nodes n tw ws cs) \<subseteq> {..<length ws}"
  using assms(1)
proof (induction n arbitrary: cs)
  case (Suc n)
  have "index_of_max (map2 (+) cs ws) < length (map2 (+) cs ws)"
    using Suc.prems assms(2) by (intro index_of_max_less) auto
  with Suc show ?case by (simp add: Let_def)
qed simp

lemma shared_ok_cong:
  assumes "shared_ok X p H M" and "heap p' = heap p" "heap_next p' = heap_next p" "nalives p' = nalives p"
    "groups p' = groups p" "breaker_list p' = breaker_list p"
  shows "shared_ok X p' H M"
  using assms(1)
  unfolding shared_ok_def refs_ok_def breaker_ok_def counts_ok_def groups_ok_def alive_def assms(2-) .

lemma vnswrr_init_fields [simp]:
  "heap (vnswrr_init r p) = heap p" "heap_next (vnswrr_init r p) = heap_next p" "nalives (vnswrr_init r p) = nalives p"
  "groups (vnswrr_init r p) = groups p" "breaker_list (vnswrr_init r p) = breaker_list p"
  "servers (vnswrr_init r p) = servers p" "server_map (vnswrr_init r p) = server_map p"
  "pol_kind (vnswrr_init r p) = pol_kind p" "total_weight (vnswrr_init r p) = total_weight p"
  "addr_hash (vnswrr_init r p) = addr_hash p" "pol_try_another (vnswrr_init r p) = pol_try_another p"
  by (simp_all add: vnswrr_init_def)

lemma weights_total:
  assumes "servers_ok p M" and "\<forall>i\<in>M. 0 < weight (params_of p i)" and "weighted_kind (pol_kind p)" and "servers p \<noteq> []"
  shows "0 < total_weight p"
proof -
  have "0 < sum (weight_of p) (set (servers p))"
  proof (rule sum_pos)
    show "0 < weight_of p i" if "i \<in> set (servers p)" for i using that assms(1,2) by (simp add: servers_ok_def)
  qed (use assms(4) in simp_all)
  then show ?thesis using assms by (simp add: servers_ok_def)
qed

lemma vnswrr_init_table:
  assumes "servers_ok p M" and "\<forall>i\<in>M. 0 < weight (params_of p i)" and "pol_kind p = VNSWRR" and "servers p \<noteq> []"
  shows "pre_generated (vnswrr_init r p) = turns p"
  using weights_total [OF assms(1,2)] assms(3,4) by (simp add: vnswrr_init_def turns_def weighted_kind_def)

lemma turns_cong:
  "servers p' = servers p \<Longrightarrow> total_weight p' = total_weight p \<Longrightarrow> heap p' = heap p \<Longrightarrow> turns p' = turns p"
  by (simp add: turns_def)

lemma turns_range:
  assumes "servers p \<noteq> []"
  shows "length (turns p) = nat (total_weight p)" and "set (turns p) \<subseteq> {..<length (servers p)}"
  using virtual_nodes_range [of "replicate (length (servers p)) 0" "map (weight_of p) (servers p)"] assms
  by (simp_all add: turns_def)

text \<open>The hash table of the policies that use one.\<close>

lemma hash_insert_servers: "snd ` set (hash_insert h i t) \<subseteq> insert i (snd ` set t)"
  by (induction h i t rule: hash_insert.induct) auto

lemma hash_add_servers: "snd ` set (fold (\<lambda>v. hash_insert (f v) i) vs t) \<subseteq> insert i (snd ` set t)"
proof (induction vs arbitrary: t)
  case (Cons v vs)
  have "snd ` set (fold (\<lambda>v. hash_insert (f v) i) vs (hash_insert (f v) i t)) \<subseteq> insert i (snd ` set (hash_insert (f v) i t))"
    by (rule Cons.IH)
  also have "\<dots> \<subseteq> insert i (snd ` set t)" using hash_insert_servers [of "f v" i t] by blast
  finally show ?case by simp
qed auto

lemma hash_map_add_servers: "snd ` set (addr_hash (hash_map_add_addr h i p)) \<subseteq> insert i (snd ` set (addr_hash p))"
  unfolding hash_map_add_addr_def Let_def
  by (cases "server_type (params_of p i) = 0") (simp_all add: hash_add_servers subset_insertI)

lemma hash_map_add_fields [simp]:
  "heap (hash_map_add_addr h i p) = heap p" "heap_next (hash_map_add_addr h i p) = heap_next p"
  "nalives (hash_map_add_addr h i p) = nalives p" "groups (hash_map_add_addr h i p) = groups p"
  "breaker_list (hash_map_add_addr h i p) = breaker_list p" "servers (hash_map_add_addr h i p) = servers p"
  "server_map (hash_map_add_addr h i p) = server_map p" "pol_kind (hash_map_add_addr h i p) = pol_kind p"
  "total_weight (hash_map_add_addr h i p) = total_weight p" "pre_generated (hash_map_add_addr h i p) = pre_generated p"
  "pol_try_another (hash_map_add_addr h i p) = pol_try_another p"
  by (simp_all add: hash_map_add_addr_def Let_def)

lemma add_server_locked_fields:
  "heap (add_server_locked h r i p) = heap p" "heap_next (add_server_locked h r i p) = heap_next p"
  "nalives (add_server_locked h r i p) = nalives p + 1" "groups (add_server_locked h r i p) = groups (group_add i p)"
  "breaker_list (add_server_locked h r i p) = breaker_list p" "pol_kind (add_server_locked h r i p) = pol_kind p"
  "servers (add_server_locked h r i p) = servers (group_add i p)"
  "server_map (add_server_locked h r i p) = server_map (group_add i p)"
  "total_weight (add_server_locked h r i p) = total_weight p
     + (if weighted_kind (pol_kind p) \<and> server_type (params_of p i) = 0 then weight_of p i else 0)"
  "pol_try_another (add_server_locked h r i p) = pol_try_another p"
  by (simp_all add: add_server_locked_def Let_def group_add_fields(1-9))

lemma add_server_locked_ok:
  assumes ok: "shared_ok {i} p (add_mset i H) M" "servers_ok p M" "tables_ok p M"
    and i: "i \<notin> M" "i \<notin># H" "\<not> fused (heap p i)" and w: "0 < weight (params_of p i)"
  shows "policy_inv (add_server_locked h r i p) H"
proof -
  let ?p = "add_server_locked h r i p"
  note f = add_server_locked_fields [of h r i p] and g = group_add_fields [of i p]
  have "shared_ok {} ?p H (insert i M)"
    by (rule shared_ok_cong [OF group_add_ok [OF ok(1) i]]) (simp_all add: f g)
  moreover have s: "servers_ok ?p (insert i M)"
  proof -
    have "i \<notin> set (servers p)" using ok(2) i by (simp add: servers_ok_def)
    then have "sum (weight_of p) (insert i (set (servers p))) = weight_of p i + sum (weight_of p) (set (servers p))"
      by simp
    then show ?thesis using ok(2) i by (auto simp: servers_ok_def f g)
  qed
  moreover have w': "\<forall>j\<in>insert i M. 0 < weight (params_of ?p j)" using ok(3) w by (simp add: tables_ok_def f)
  have "tables_ok ?p (insert i M)"
    unfolding tables_ok_def
  proof (intro conjI)
    show "snd ` set (addr_hash ?p) \<subseteq> insert i M"
    proof -
      have "snd ` set (addr_hash ?p) \<subseteq> insert i (snd ` set (addr_hash p))"
        unfolding add_server_locked_def Let_def
        by (split if_split, intro conjI impI order.trans [OF hash_map_add_servers]) (auto simp: g)
      then show ?thesis using ok(3) by (auto simp: tables_ok_def)
    qed
    show "\<not> uses_hash ?p \<longrightarrow> addr_hash ?p = []"
      using ok(3) by (auto simp: tables_ok_def add_server_locked_def Let_def g uses_hash_def)
    show "pol_kind ?p = VNSWRR \<and> servers ?p \<noteq> [] \<longrightarrow> pre_generated ?p = turns ?p"
    proof
      assume v: "pol_kind ?p = VNSWRR \<and> servers ?p \<noteq> []"
      let ?q = "(let p = group_add i p in if weighted_kind (pol_kind p) \<and> server_type (params_of p i) = 0
               then p\<lparr>total_weight := total_weight p + weight_of p i\<rparr> else p)"
      have q: "servers_ok ?q (insert i M)" "pol_kind ?q = VNSWRR" "servers ?q \<noteq> []" "heap ?q = heap p"
        using s v by (simp_all add: servers_ok_def f g Let_def split: if_splits)
      have e: "pre_generated ?p = pre_generated (vnswrr_init r ?q)" "total_weight ?p = total_weight ?q" "servers ?p = servers ?q"
        using v f g by (simp_all add: add_server_locked_def Let_def uses_hash_def)
      have "turns ?p = turns ?q" by (rule turns_cong) (simp_all only: e f(1) q(4))
      then show "pre_generated ?p = turns ?p"
        unfolding e(1) using vnswrr_init_table [OF q(1) _ q(2,3), of r] w' by (simp add: q(4) f)
    qed
  qed (rule w')
  ultimately show ?thesis unfolding policy_inv_def by blast
qed

text \<open>The servers of an address leave.\<close>

lemma unref_other: "j \<noteq> i \<Longrightarrow> heap (unref i p) j = heap p j"
  by (simp add: unref_def pre_delete_server_def Let_def)

lemma remove_one_frame: "same_frame p (group_remove_one i p)"
  by (simp add: group_remove_one_def same_frame_def unref_def pre_delete_server_def Let_def)

lemma remove_one_other: "j \<noteq> i \<Longrightarrow> heap (group_remove_one i p) j = heap p j"
  by (simp add: group_remove_one_def unref_other Let_def)

lemma remove_fold:
  assumes "shared_ok X p H M" and "distinct is" and "set is \<subseteq> M" and "set is \<inter> X = {}"
  shows "shared_ok X (fold group_remove_one is p) H (M - set is) \<and> same_frame p (fold group_remove_one is p)
    \<and> (\<forall>j. j \<notin> set is \<longrightarrow> heap (fold group_remove_one is p) j = heap p j)"
  using assms
proof (induction "is" arbitrary: p M)
  case (Cons i "is")
  let ?p = "group_remove_one i p"
  have "shared_ok X ?p H (M - {i})" using Cons.prems by (intro remove_one_ok) auto
  then have "shared_ok X (fold group_remove_one is ?p) H (M - {i} - set is) \<and> same_frame ?p (fold group_remove_one is ?p)
    \<and> (\<forall>j. j \<notin> set is \<longrightarrow> heap (fold group_remove_one is ?p) j = heap ?p j)"
    using Cons.prems by (intro Cons.IH) auto
  then show ?case
    using remove_one_frame [of p i] by (auto simp: remove_one_other Diff_insert2 [symmetric] intro: same_frame_trans)
qed simp

text \<open>What happens before the groups: the hash table, the place in the round and the total weight.\<close>

definition before_groups :: "string \<Rightarrow> policy \<Rightarrow> policy" where
  "before_groups address p =
     (let p = (if uses_hash p then hash_map_remove_addr address p else p);
          p = (if pol_kind p = Round_robin then round_robin_adjust address p else p)
      in if weighted_kind (pol_kind p)
         then p\<lparr>total_weight := total_weight p
           - sum_list (map (weight_of p) (filter (\<lambda>i. server_type (params_of p i) = 0) (server_map p address)))\<rparr>
         else p)"

lemma remove_server_locked_eq:
  "remove_server_locked rnd address p =
     (let (ret, p) = group_remove address (before_groups address p)
      in (ret, if pol_kind p = VNSWRR then vnswrr_init rnd p else p))"
  by (simp add: remove_server_locked_def before_groups_def Let_def)

lemma hash_part [simp]:
  "heap (if uses_hash p then hash_map_remove_addr a p else p) = heap p"
  "heap_next (if uses_hash p then hash_map_remove_addr a p else p) = heap_next p"
  "nalives (if uses_hash p then hash_map_remove_addr a p else p) = nalives p"
  "groups (if uses_hash p then hash_map_remove_addr a p else p) = groups p"
  "breaker_list (if uses_hash p then hash_map_remove_addr a p else p) = breaker_list p"
  "pol_kind (if uses_hash p then hash_map_remove_addr a p else p) = pol_kind p"
  "servers (if uses_hash p then hash_map_remove_addr a p else p) = servers p"
  "server_map (if uses_hash p then hash_map_remove_addr a p else p) = server_map p"
  "pol_try_another (if uses_hash p then hash_map_remove_addr a p else p) = pol_try_another p"
  "pre_generated (if uses_hash p then hash_map_remove_addr a p else p) = pre_generated p"
  "total_weight (if uses_hash p then hash_map_remove_addr a p else p) = total_weight p"
  by (simp_all add: hash_map_remove_addr_def)

lemma round_part [simp]:
  "heap (round_robin_adjust a p) = heap p"
  "heap_next (round_robin_adjust a p) = heap_next p"
  "nalives (round_robin_adjust a p) = nalives p"
  "groups (round_robin_adjust a p) = groups p"
  "breaker_list (round_robin_adjust a p) = breaker_list p"
  "pol_kind (round_robin_adjust a p) = pol_kind p"
  "servers (round_robin_adjust a p) = servers p"
  "server_map (round_robin_adjust a p) = server_map p"
  "pol_try_another (round_robin_adjust a p) = pol_try_another p"
  "pre_generated (round_robin_adjust a p) = pre_generated p"
  "total_weight (round_robin_adjust a p) = total_weight p"
  "addr_hash (round_robin_adjust a p) = addr_hash p"
  by (simp_all add: round_robin_adjust_def Let_def)

lemma place_part [simp]:
  "heap (if c then round_robin_adjust a p else p) = heap p"
  "heap_next (if c then round_robin_adjust a p else p) = heap_next p"
  "nalives (if c then round_robin_adjust a p else p) = nalives p"
  "groups (if c then round_robin_adjust a p else p) = groups p"
  "breaker_list (if c then round_robin_adjust a p else p) = breaker_list p"
  "pol_kind (if c then round_robin_adjust a p else p) = pol_kind p"
  "servers (if c then round_robin_adjust a p else p) = servers p"
  "server_map (if c then round_robin_adjust a p else p) = server_map p"
  "pol_try_another (if c then round_robin_adjust a p else p) = pol_try_another p"
  "pre_generated (if c then round_robin_adjust a p else p) = pre_generated p"
  "total_weight (if c then round_robin_adjust a p else p) = total_weight p"
  "addr_hash (if c then round_robin_adjust a p else p) = addr_hash p"
  by simp_all

lemma before_groups_fields:
  "heap (before_groups a p) = heap p" "heap_next (before_groups a p) = heap_next p"
  "nalives (before_groups a p) = nalives p" "groups (before_groups a p) = groups p"
  "breaker_list (before_groups a p) = breaker_list p" "pol_kind (before_groups a p) = pol_kind p"
  "servers (before_groups a p) = servers p" "server_map (before_groups a p) = server_map p"
  "pol_try_another (before_groups a p) = pol_try_another p"
  "pre_generated (before_groups a p) = pre_generated p"
  "addr_hash (before_groups a p) = (if uses_hash p then filter (\<lambda>(h, i). ep_address (heap p i) \<noteq> a) (addr_hash p) else addr_hash p)"
  "total_weight (before_groups a p) = (if weighted_kind (pol_kind p)
     then total_weight p - sum_list (map (weight_of p) (filter (\<lambda>i. server_type (params_of p i) = 0) (server_map p a)))
     else total_weight p)"
  by (simp_all add: before_groups_def Let_def) (simp add: hash_map_remove_addr_def)

text \<open>Removing, while a server that is not in the lists may wait to be added (\<open>replace_server\<close>).\<close>

lemma remove_server_locked_ok:
  assumes ok: "shared_ok X p H M" "servers_ok p M" "tables_ok p M" and x: "X \<inter> M = {}"
    and r: "remove_server_locked rnd a p = (ret, p')"
  defines "M' \<equiv> {i \<in> M. ep_address (heap p i) \<noteq> a}"
  shows "shared_ok X p' H M'" and "servers_ok p' M'" and "tables_ok p' M'" and "ret = int (card (M - M'))"
    and "j \<notin> M \<Longrightarrow> heap p' j = heap p j" and "heap_next p' = heap_next p"
proof -
  define xs where "xs = server_map p a"
  define q where "q = (before_groups a p)\<lparr>servers := filter (\<lambda>i. ep_address (heap p i) \<noteq> a) (servers p)\<rparr>"
  define q1 where "q1 = fold group_remove_one xs q"
  define q2 where "q2 = q1\<lparr>server_map := (server_map q1)(a := [])\<rparr>"
  note f = before_groups_fields [of a p]
  have p': "p' = (if pol_kind q2 = VNSWRR then vnswrr_init rnd q2 else q2)" and ret: "ret = int (length xs)"
    using r by (auto simp: remove_server_locked_eq group_remove_def Let_def f xs_def q_def q1_def q2_def)
  have i: "distinct xs" "set xs = {i \<in> M. ep_address (heap p i) = a}" using ok(2) by (simp_all add: xs_def servers_ok_def)
  have M': "M' = M - set xs" by (auto simp: M'_def i)
  show "ret = int (card (M - M'))"
    using ret distinct_card [OF i(1)] i(2) by (simp add: M' Diff_Diff_Int Int_def conj_ac cong: conj_cong)
  have "shared_ok X q H M" by (rule shared_ok_cong [OF ok(1)]) (simp_all add: q_def f)
  then have q1: "shared_ok X q1 H M'" "same_frame q q1" "j \<notin> set xs \<Longrightarrow> heap q1 j = heap q j" for j
    using remove_fold [of X q H M xs] i x by (auto simp: q1_def M')
  have e: "ep_params (heap q1 k) = ep_params (heap p k)" "ep_address (heap q1 k) = ep_address (heap p k)" for k
    using q1(2) by (simp_all add: same_frame_def q_def f)
  have h: "servers q1 = filter (\<lambda>i. ep_address (heap p i) \<noteq> a) (servers p)" "server_map q1 = server_map p"
    "pol_kind q1 = pol_kind p" "heap_next q1 = heap_next p" "pol_try_another q1 = pol_try_another p"
    "pre_generated q1 = pre_generated p" "addr_hash q1 = addr_hash (before_groups a p)"
    "total_weight q1 = total_weight (before_groups a p)"
    using q1(2) by (simp_all add: same_frame_def q_def f)
  show "heap p' j = heap p j" if "j \<notin> M"
    using q1(3) [of j] that i by (auto simp: p' q2_def q_def f)
  show "heap_next p' = heap_next p" by (simp add: p' q2_def h)
  show "shared_ok X p' H M'"
    by (rule shared_ok_cong [OF q1(1)]) (simp_all add: p' q2_def)
  have w: "sum (weight_of p) (set (filter (\<lambda>i. ep_address (heap p i) \<noteq> a) (servers p))) = total_weight q1"
    if "weighted_kind (pol_kind p)"
  proof -
    let ?S = "set (filter (\<lambda>i. server_type (params_of p i) = 0) xs)"
    have "sum_list (map (weight_of p) (filter (\<lambda>i. server_type (params_of p i) = 0) xs)) = sum (weight_of p) ?S"
      using i(1) by (simp add: sum_list_distinct_conv_sum_set)
    moreover have s: "set (filter (\<lambda>i. ep_address (heap p i) \<noteq> a) (servers p)) = set (servers p) - ?S"
      and sub: "?S \<subseteq> set (servers p)"
      using ok(2) i(2) by (auto simp: servers_ok_def)
    moreover have "sum (weight_of p) (set (servers p) - ?S) = sum (weight_of p) (set (servers p)) - sum (weight_of p) ?S"
      using sub by (intro sum_diff) simp_all
    moreover have "total_weight p = sum (weight_of p) (set (servers p))" using ok(2) that by (simp add: servers_ok_def)
    ultimately show ?thesis using that by (simp only: h f xs_def if_True)
  qed
  have s: "servers_ok q2 M'"
    using ok(2) w by (auto simp: servers_ok_def q2_def e h M'_def)
  then show "servers_ok p' M'" by (simp add: p' servers_ok_def)
  have pos: "\<forall>i\<in>M'. 0 < weight (params_of q2 i)" using ok(3) by (simp add: tables_ok_def q2_def e M'_def)
  show "tables_ok p' M'"
    unfolding tables_ok_def
  proof (intro conjI)
    show "snd ` set (addr_hash p') \<subseteq> M'"
      using ok(3) by (auto simp: tables_ok_def p' q2_def h f M'_def)
    show "\<not> uses_hash p' \<longrightarrow> addr_hash p' = []"
      using ok(3) by (auto simp: tables_ok_def p' q2_def h f uses_hash_def)
    show "\<forall>i\<in>M'. 0 < weight (params_of p' i)" using pos by (simp add: p')
    show "pol_kind p' = VNSWRR \<and> servers p' \<noteq> [] \<longrightarrow> pre_generated p' = turns p'"
      using vnswrr_init_table [OF s pos, of rnd] by (auto simp: p' turns_def)
  qed
qed

lemma add_server_ok: "policy_inv p H \<Longrightarrow> policy_inv (add_server h r a q p) H"
  unfolding policy_inv_def [of p]
  by (auto simp: add_server_def split: prod.splits intro: add_server_locked_ok dest: new_endpoint_ok)

lemma remove_server_ok:
  assumes "policy_inv p H"
  shows "policy_inv (snd (remove_server r a p)) H"
proof (cases "remove_server_locked r a p")
  case (Pair ret p')
  from assms obtain M where "shared_ok {} p H M" "servers_ok p M" "tables_ok p M" by (auto simp: policy_inv_def)
  note remove_server_locked_ok(1-3) [OF this _ Pair]
  then show ?thesis by (auto simp: policy_inv_def remove_server_def Pair)
qed

lemma replace_server_ok:
  assumes "policy_inv p H"
  shows "policy_inv (snd (replace_server h r a q p)) H"
proof -
  from assms obtain M where ok: "shared_ok {} p H M" "servers_ok p M" "tables_ok p M" by (auto simp: policy_inv_def)
  obtain i p1 where n: "new_endpoint a q p = (i, p1)" by force
  obtain ret p2 where r: "remove_server_locked r a p1 = (ret, p2)" by force
  note n' = new_endpoint_ok [OF ok n]
  have x: "{i} \<inter> M = {}" using n'(4) by simp
  note r' = remove_server_locked_ok [OF n'(1-3) x r]
  have "heap p2 i = heap p1 i" by (rule r'(5) [OF n'(4)])
  then have "policy_inv (add_server_locked h r i p2) H"
    by (intro add_server_locked_ok [OF r'(1-3)]) (use n'(4-7) in simp_all)
  then show ?thesis by (simp add: replace_server_def n r)
qed

lemma deleter_ok:
  assumes "policy_inv p H" and "mset history \<subseteq># H"
  shows "policy_inv (tracing_deleter history p) (H - mset history)"
  using assms unfolding tracing_deleter_def
proof (induction history arbitrary: p H)
  case (Cons i history)
  then have i: "i \<in># H" and s: "mset history \<subseteq># H - {#i#}" by (auto simp: insert_subset_eq_iff)
  from Cons.prems(1) obtain M where "shared_ok {} p H M" "servers_ok p M" "tables_ok p M" by (auto simp: policy_inv_def)
  then have "policy_inv (unref i p) (H - {#i#})"
    using task_unref [OF _ i] frame_inv [OF same_frame_steps(3)] by blast
  from Cons.IH [OF this s] show ?case by simp
qed simp

section \<open>Choosing\<close>

text \<open>What a strategy does to the policy, and which server it gives: one the upstream has.\<close>

definition chose :: "policy \<Rightarrow> nat multiset \<Rightarrow> nat set \<Rightarrow> nat option \<times> policy \<Rightarrow> bool" where
  "chose p H M r \<longleftrightarrow> shared_ok {} (snd r) H M \<and> same_frame p (snd r) \<and> set_option (fst r) \<subseteq> M"

lemma chose_trans: "same_frame p q \<Longrightarrow> chose q H M r \<Longrightarrow> chose p H M r"
  by (auto simp: chose_def intro: same_frame_trans)

lemma shuffle_ok:
  assumes "shared_ok {} p H M" and "\<And>xs. mset (f xs) = mset xs"
  shows "shared_ok {} (upd_group g (\<lambda>g. g\<lparr>mains := f (mains g)\<rparr>) p) H M"
    and "shared_ok {} (upd_group g (\<lambda>g. g\<lparr>backups := f (backups g)\<rparr>) p) H M"
    and "same_frame p (upd_group g u p)"
proof -
  have s: "set (f xs) = set xs" "distinct (f xs) = distinct xs" for xs
    using assms(2) [of xs] by (metis set_mset_mset, metis distinct_count_atmost_1 mset_eq_imp_distinct_iff)
  have c: "counts_ok {} (upd_group g (\<lambda>g. g\<lparr>mains := f (mains g)\<rparr>) p)"
    "counts_ok {} (upd_group g (\<lambda>g. g\<lparr>backups := f (backups g)\<rparr>) p)"
    by (rule counts_same [where p = p and X = "{}"]; use assms(1) in \<open>simp add: shared_ok_def alive_def\<close>)+
  then show "shared_ok {} (upd_group g (\<lambda>g. g\<lparr>mains := f (mains g)\<rparr>) p) H M"
    "shared_ok {} (upd_group g (\<lambda>g. g\<lparr>backups := f (backups g)\<rparr>) p) H M"
    using assms(1) s unfolding shared_ok_def refs_ok_def breaker_ok_def groups_ok_def by simp_all blast+
qed (simp add: same_frame_def)

lemma find_member:
  assumes "shared_ok X p H M"
  shows "find P (mains (groups p g)) = Some i \<Longrightarrow> i \<in> M" and "find P (backups (groups p g)) = Some i \<Longrightarrow> i \<in> M"
proof -
  have "set (mains (groups p g)) \<subseteq> M" "set (backups (groups p g)) \<subseteq> M"
    using assms by (auto simp: shared_ok_def groups_ok_def)
  then show "find P (mains (groups p g)) = Some i \<Longrightarrow> i \<in> M" "find P (backups (groups p g)) = Some i \<Longrightarrow> i \<in> M"
    by (auto simp: find_Some_iff)
qed

lemma get_one_ok:
  assumes ok: "shared_ok {} p H M" and f: "\<And>xs. mset (f xs) = mset xs"
  shows "chose p H M (get_one f history g p)" and "chose p H M (get_one_backup f history g p)"
proof -
  let ?p = "upd_group g (\<lambda>g. g\<lparr>mains := f (mains g)\<rparr>) p"
  let ?q = "upd_group g (\<lambda>g. g\<lparr>backups := f (backups g)\<rparr>) ?p"
  let ?b = "upd_group g (\<lambda>g. g\<lparr>backups := f (backups g)\<rparr>) p"
  have s: "shared_ok {} ?p H M" "shared_ok {} ?q H M" "shared_ok {} ?b H M" "same_frame p ?p" "same_frame p ?q" "same_frame p ?b"
    using shuffle_ok(1) [OF ok f, of g] shuffle_ok(2) [OF ok f, of g]
      shuffle_ok(2) [OF shuffle_ok(1) [OF ok f, of g] f, of g] by (simp_all add: same_frame_def)
  note m = find_member [OF s(1)] find_member [OF s(2)] find_member [OF s(3)]
  show "chose p H M (get_one f history g p)" "chose p H M (get_one_backup f history g p)"
    using ok s m unfolding get_one_def get_one_backup_def Let_def chose_def
    by (auto split: option.splits simp del: upd_group_simps)
qed

lemma check_and_get_ok:
  assumes ok: "shared_ok {} p H M" and f: "\<And>xs. mset (f xs) = mset xs" and i: "i \<in> M"
  shows "chose p H M (check_and_get f history b i p)"
proof -
  have "chose p H M (get_one f history (group_id (params_of p i)) p)" by (rule get_one_ok(1) [OF ok f])
  then show ?thesis using ok i
    by (auto simp: check_and_get_def chose_def Let_def split: prod.splits option.splits)
qed

lemma weighted_loop_in: "weighted_loop p history x s is = Some i \<Longrightarrow> i \<in> set is"
  by (induction p history x s "is" rule: weighted_loop.induct) (auto split: if_splits)

lemma weighted_first_in: "servers p \<noteq> [] \<Longrightarrow> weighted_first r history p \<in> set (servers p)"
  by (auto simp: weighted_first_def Let_def dest: weighted_loop_in split: option.split)

lemma alive_loop_in: "alive_loop p x s addr is = Some i \<Longrightarrow> i \<in> set is \<or> addr = Some i"
  by (induction p x s addr "is" rule: alive_loop.induct) (auto split: if_splits)

lemma vnswrr_loop_in:
  assumes "0 < length (pre_generated p)"
  shows "vnswrr_loop n k p history pos \<in> insert pos (set (pre_generated p))"
proof (induction n arbitrary: k pos)
  case (Suc n)
  have "pre_generated p ! vnswrr_index (cur_idx p) k p \<in> set (pre_generated p)"
    using assms by (simp add: vnswrr_index_def)
  with Suc [of "Suc k" "pre_generated p ! vnswrr_index (cur_idx p) k p"] show ?case by (auto simp: Let_def)
qed simp

lemma vnswrr_pos_less:
  assumes "servers_ok p M" "tables_ok p M" "pol_kind p = VNSWRR" "servers p \<noteq> []"
  shows "vnswrr_loop (nat (total_weight p)) 0 p history 0 < length (servers p)"
proof -
  have t: "0 < total_weight p"
    using weights_total [of p M] assms by (simp add: tables_ok_def weighted_kind_def)
  have "length (pre_generated p) = nat (total_weight p)" "set (pre_generated p) \<subseteq> {..<length (servers p)}"
    using assms turns_range [of p] by (simp_all add: tables_ok_def)
  then show ?thesis
    using vnswrr_loop_in [of p "nat (total_weight p)" 0 history 0] t assms(4) by auto
qed

lemma hash_loop_in: "hash_loop fuel p k = Ok i \<Longrightarrow> k < length (addr_hash p) \<Longrightarrow> i \<in> snd ` set (addr_hash p)"
proof (induction fuel arbitrary: k)
  case (Suc fuel)
  have "(if Suc k = length (addr_hash p) then 0 else Suc k) < length (addr_hash p)" using Suc.prems(2) by auto
  with Suc show ?case by (auto simp: Let_def simp del: if_split split: if_split_asm)
qed simp

lemma lower_bound_le: "lower_bound h p \<le> length (addr_hash p)"
  by (simp add: lower_bound_def length_takeWhile_le)

lemma consistent_ok:
  assumes ok: "shared_ok {} p H M" "tables_ok p M" and f: "\<And>xs. mset (f xs) = mset xs"
    and r: "consistent_hash_with_group fuel f h history p = Ok r"
  shows "chose p H M r"
proof (cases "nalives p = 0")
  case True
  with r ok show ?thesis by (auto simp: consistent_hash_with_group_def chose_def)
next
  case False
  let ?k = "if lower_bound h p = length (addr_hash p) then 0 else lower_bound h p"
  from False r have ne: "addr_hash p \<noteq> []" by (auto simp: consistent_hash_with_group_def)
  with False r obtain i where i: "hash_loop fuel p ?k = Ok i" "r = check_and_get f history False i p"
    by (cases "hash_loop fuel p ?k") (simp_all add: consistent_hash_with_group_def Let_def)
  have "?k < length (addr_hash p)" using ne lower_bound_le [of h p] by auto
  then have "i \<in> M" using hash_loop_in [OF i(1)] ok(2) by (auto simp: tables_ok_def)
  then show ?thesis using check_and_get_ok [OF ok(1) f] i(2) by simp
qed

lemma advance_ok:
  assumes "shared_ok {} p H M"
  shows "shared_ok {} (advance p) H M" and "same_frame p (advance p)"
  by (rule shared_ok_cong [OF assms]) (simp_all add: advance_def same_frame_def)

lemma servers_member: "servers_ok p M \<Longrightarrow> i \<in> set (servers p) \<Longrightarrow> i \<in> M"
  by (simp add: servers_ok_def)

lemma first_strategy_ok:
  assumes ok: "shared_ok {} p H M" "servers_ok p M" "tables_ok p M" "servers p \<noteq> []"
    and f: "\<And>xs. mset (shuffling q xs) = mset xs" and r: "first_strategy fuel q history p = Ok r"
  shows "chose p H M r"
proof -
  note [simp] = advance_ok [OF ok(1)] ok(1)
  have "servers p ! (k mod length (servers p)) \<in> M" for k
    using ok(4) by (intro servers_member [OF ok(2)] nth_mem) simp
  moreover have "servers p ! vnswrr_loop (nat (total_weight p)) 0 p history 0 \<in> M" if "pol_kind p = VNSWRR"
    using vnswrr_pos_less [OF ok(2,3) that ok(4)] by (intro servers_member [OF ok(2)] nth_mem)
  moreover have "weighted_first (rnd_first q) history p \<in> M"
    using weighted_first_in [OF ok(4)] servers_member [OF ok(2)] by blast
  ultimately show ?thesis
    using r consistent_ok [OF ok(1,3) f] by (cases "pol_kind p") (auto simp: first_strategy_def chose_def)
qed

lemma weighted_another_ok:
  assumes ok: "shared_ok {} p H M" "servers_ok p M" and f: "\<And>xs. mset (f xs) = mset xs"
  shows "chose p H M (weighted_another now r f history p)"
proof -
  let ?p = "if available_weight p = 0 then try_clear_breaker now p else p"
  have p: "shared_ok {} ?p H M" "same_frame p ?p" using try_clear_ok [OF ok(1)] ok(1) by auto
  have "servers_ok ?p M" by (rule same_frame_servers [OF p(2) ok(2)])
  then have "chose ?p H M (check_and_get f history False i ?p)" if "alive_loop ?p x s None (servers ?p) = Some i" for x s i
    using alive_loop_in [OF that] by (intro check_and_get_ok [OF p(1) f]) (auto intro: servers_member)
  moreover have "chose p H M (None, ?p)" using p by (simp add: chose_def)
  ultimately show ?thesis
    unfolding weighted_another_def Let_def by (auto intro: chose_trans [OF p(2)] split: option.split simp del: if_split)
qed

lemma another_strategy_ok:
  assumes ok: "shared_ok {} p H M" "servers_ok p M" "tables_ok p M" "servers p \<noteq> []"
    and f: "\<And>xs. mset (shuffling q xs) = mset xs" and r: "another_strategy fuel q history p = Ok r"
  shows "chose p H M r"
proof -
  note a = advance_ok [OF ok(1)]
  have "servers p ! (k mod length (servers p)) \<in> M" for k
    using ok(4) by (intro servers_member [OF ok(2)] nth_mem) simp
  then have "chose p H M (check_and_get (shuffling q) history False (servers p ! (k mod length (servers p))) (advance p))" for k
    using check_and_get_ok [OF a(1) f] chose_trans [OF a(2)] by blast
  moreover have "chose p H M (None, p)" using ok(1) by (simp add: chose_def)
  ultimately show ?thesis
    using r consistent_ok [OF ok(1,3) f] weighted_another_ok [OF ok(1,2) f]
    by (cases "pol_kind p") (auto simp: another_strategy_def)
qed

lemma retry_ok:
  assumes c: "chose p H M (a1, p1)" and s: "servers_ok p M" "tables_ok p M" "servers p \<noteq> []"
    and f: "\<And>xs. mset (shuffling q xs) = mset xs"
    and r: "(if a1 = None \<or> broken p1 (the a1) then
            let (addr, p) = (case a1 of Some i \<Rightarrow> check_and_get (shuffling q) history True i p1 | None \<Rightarrow> (None, p1))
            in if addr = None \<and> pol_try_another p then another_strategy fuel q history p else Ok (addr, p)
          else Ok (a1, p1)) = Ok r"
  shows "chose p H M r"
proof (cases "a1 = None \<or> broken p1 (the a1)")
  case False
  with r c show ?thesis by simp
next
  case True
  have p1: "shared_ok {} p1 H M" "same_frame p p1" "\<And>i. a1 = Some i \<Longrightarrow> i \<in> M" using c by (auto simp: chose_def)
  obtain a2 p2 where 2: "(case a1 of Some i \<Rightarrow> check_and_get (shuffling q) history True i p1 | None \<Rightarrow> (None, p1)) = (a2, p2)"
    by (cases "case a1 of Some i \<Rightarrow> check_and_get (shuffling q) history True i p1 | None \<Rightarrow> (None, p1)")
  have c2: "chose p H M (a2, p2)"
  proof (cases a1)
    case None
    with 2 p1 show ?thesis by (simp add: chose_def)
  next
    case (Some i)
    show ?thesis
      using check_and_get_ok [OF p1(1) f p1(3) [OF Some], of history True] 2 Some by (auto intro: chose_trans [OF p1(2)])
  qed
  then have p2: "shared_ok {} p2 H M" "same_frame p p2" by (simp_all add: chose_def)
  have "chose p2 H M r" if "another_strategy fuel q history p2 = Ok r"
    using s p2(2) same_frame_servers [OF p2(2) s(1)] same_frame_tables [OF p2(2) s(2)] that
    by (intro another_strategy_ok [OF p2(1) _ _ _ f]) (auto simp: same_frame_def)
  with r True 2 c2 show ?thesis by (auto split: if_splits intro: chose_trans [OF p2(2)])
qed

lemma reference_ok:
  assumes ok: "shared_ok {} p H M" and i: "i \<in> M"
  shows "shared_ok {} (upd_endpoint i (\<lambda>e. e\<lparr>ref_count := ref_count e + 1\<rparr>) p) (add_mset i H) M"
proof -
  let ?p = "upd_endpoint i (\<lambda>e. e\<lparr>ref_count := ref_count e + 1\<rparr>) p"
  have "counts_ok {} ?p"
    by (rule counts_same [where p = p and X = "{}"]) (use ok in \<open>auto simp: shared_ok_def alive_def\<close>)
  moreover have "groups_ok ?p M" by (rule groups_ok_cong [of p]) (use ok in \<open>auto simp: shared_ok_def\<close>)
  moreover have "breaker_ok ?p" using ok by (auto simp: shared_ok_def breaker_ok_def)
  moreover have "refs_ok ?p (add_mset i H) M" using ok i by (auto simp: shared_ok_def refs_ok_def)
  ultimately show ?thesis by (simp add: shared_ok_def)
qed

lemma select_cases:
  assumes ok: "shared_ok {} p H M" "servers_ok p M" "tables_ok p M" and f: "\<And>xs. mset (shuffling q xs) = mset xs"
    and r: "select fuel q history p = Ok (addr, p')"
  obtains "addr = None" "chose p H M (None, p')"
  | i p1 where "addr = Some i" "chose p H M (Some i, p1)" "p' = upd_endpoint i (\<lambda>e. e\<lparr>ref_count := ref_count e + 1\<rparr>) p1"
proof (cases "servers p = []")
  case True
  with r ok that(1) show ?thesis by (simp add: select_def chose_def)
next
  case False
  let ?c = "check_breaker (second q) p"
  have c: "shared_ok {} ?c H M" "same_frame p ?c" by (rule check_breaker_ok [OF ok(1)])+
  from False r obtain a1 p1 where 1: "first_strategy fuel q history ?c = Ok (a1, p1)"
    by (cases "first_strategy fuel q history ?c") (auto simp: select_def)
  have ch1: "chose p H M (a1, p1)"
    using first_strategy_ok [OF c(1) _ _ _ f 1] same_frame_servers [OF c(2) ok(2)] same_frame_tables [OF c(2) ok(3)] False c(2)
    by (auto simp: same_frame_def intro: chose_trans)
  let ?two = "if a1 = None \<or> broken p1 (the a1) then
          let (addr, p) = (case a1 of Some i \<Rightarrow> check_and_get (shuffling q) history True i p1 | None \<Rightarrow> (None, p1))
          in if addr = None \<and> pol_try_another p then another_strategy fuel q history p else Ok (addr, p)
        else Ok (a1, p1)"
  from False r 1 obtain a2 p2 where 2: "?two = Ok (a2, p2)"
    by (cases ?two) (auto simp: select_def simp del: if_split)
  have ch2: "chose p H M (a2, p2)" by (rule retry_ok [OF ch1 ok(2,3) False f 2])
  obtain a3 p3 where 3: "(case a2 of Some i \<Rightarrow> (Some i, p2) | None \<Rightarrow> get_one_backup (shuffling q) history (-1) p2) = (a3, p3)"
    by (cases "case a2 of Some i \<Rightarrow> (Some i, p2) | None \<Rightarrow> get_one_backup (shuffling q) history (-1) p2")
  have p2: "shared_ok {} p2 H M" "same_frame p p2" using ch2 by (simp_all add: chose_def)
  have ch3: "chose p H M (a3, p3)"
    using ch2 3 chose_trans [OF p2(2) get_one_ok(2) [OF p2(1) f, of history "-1"]] by (auto split: option.splits)
  have "select fuel q history p = (case a3 of None \<Rightarrow> Ok (None, p3)
      | Some i \<Rightarrow> Ok (Some i, upd_endpoint i (\<lambda>e. e\<lparr>ref_count := ref_count e + 1\<rparr>) p3))"
    using False 1 2 3 by (simp add: select_def del: if_split)
  with r ch3 that show ?thesis by (auto split: option.splits)
qed

lemma select_ok:
  assumes inv: "policy_inv p H" and f: "\<And>xs. mset (shuffling q xs) = mset xs"
    and r: "select fuel q history p = Ok (addr, p')"
  shows "policy_inv p' (H + mset_set (set_option addr))"
proof -
  from inv obtain M where ok: "shared_ok {} p H M" "servers_ok p M" "tables_ok p M" by (auto simp: policy_inv_def)
  from ok f r show ?thesis
  proof (cases rule: select_cases)
    case 1
    then show ?thesis using ok by (auto simp: chose_def intro: frame_inv)
  next
    case (2 i p1)
    then have p1: "shared_ok {} p1 H M" "same_frame p p1" "i \<in> M" by (simp_all add: chose_def)
    have "same_frame p p'" using p1(2) by (simp add: 2 same_frame_def)
    then show ?thesis using frame_inv [OF _ _ ok(2,3)] reference_ok [OF p1(1,3)] 2 by simp
  qed
qed

section \<open>Histories\<close>

text \<open>One operation of the upstream or of one of the tasks that use it. \<open>H\<close> are the references that
  the tasks hold: a selection gives one, the end of a task gives those of its history back.\<close>

inductive upstream_step :: "(string \<Rightarrow> nat) \<Rightarrow> policy \<times> nat multiset \<Rightarrow> policy \<times> nat multiset \<Rightarrow> bool"
  for std_hash :: "string \<Rightarrow> nat" where
  adds: "upstream_step std_hash (p, H) (add_server std_hash r a params p, H)"
| removes: "upstream_step std_hash (p, H) (snd (remove_server r a p), H)"
| replaces: "upstream_step std_hash (p, H) (snd (replace_server std_hash r a params p), H)"
| enables: "upstream_step std_hash (p, H) (enable_server a p, H)"
| disables: "upstream_step std_hash (p, H) (disable_server now a p, H)"
| selects: "select fuel q history p = Ok (addr, p') \<Longrightarrow> (\<And>xs. mset (shuffling q xs) = mset xs) \<Longrightarrow>
    upstream_step std_hash (p, H) (p', H + mset_set (set_option addr))"
| succeeds: "i \<in># H \<Longrightarrow> upstream_step std_hash (p, H) (success i p, H)"
| fails: "i \<in># H \<Longrightarrow> upstream_step std_hash (p, H) (failed now i p, H)"
| ends: "mset history \<subseteq># H \<Longrightarrow> upstream_step std_hash (p, H) (tracing_deleter history p, H - mset history)"

definition reached :: "(string \<Rightarrow> nat) \<Rightarrow> policy_kind \<Rightarrow> bool \<Rightarrow> policy \<Rightarrow> nat multiset \<Rightarrow> bool" where
  "reached std_hash k another p H \<longleftrightarrow> (upstream_step std_hash)\<^sup>*\<^sup>* (new_upstream_policy k another, {#}) (p, H)"

lemma start_inv: "policy_inv (new_upstream_policy k another) {#}"
  by (auto simp: policy_inv_def shared_ok_def refs_ok_def breaker_ok_def counts_ok_def groups_ok_def servers_ok_def
      tables_ok_def alive_def new_upstream_policy_def new_EndpointGroup_def intro!: exI [of _ "{}"])

lemma step_inv: "upstream_step h s t \<Longrightarrow> policy_inv (fst s) (snd s) \<Longrightarrow> policy_inv (fst t) (snd t)"
proof (induction rule: upstream_step.induct)
  case (enables p H a)
  then show ?case using enable_ok frame_inv by (auto simp: policy_inv_def [of p]) blast
next
  case (disables p H now a)
  then show ?case using disable_ok frame_inv by (auto simp: policy_inv_def [of p]) blast
next
  case (succeeds i H p)
  then show ?case
    using success_ok frame_inv [OF same_frame_steps(4)] by (auto simp: policy_inv_def [of p]) blast
next
  case (fails i H p now)
  then show ?case
    using failed_ok frame_inv [OF same_frame_steps(5)] by (auto simp: policy_inv_def [of p]) blast
qed (auto intro: add_server_ok remove_server_ok replace_server_ok select_ok deleter_ok)

lemma reached_inv: "reached h k another p H \<Longrightarrow> policy_inv p H"
  unfolding reached_def
  by (induction "(p, H)" arbitrary: p H rule: rtranclp_induct) (use start_inv step_inv in fastforce)+

end
