(* ===== verification/Upstream_History.thy ===== *)
theory Upstream_History
  imports Upstream_Safety
begin

text \<open>
  What holds of an upstream after every history of operations, on the policy's own fields, and that the
  lists of the policy are those of the configuration (\<open>Upstreams\<close>).
\<close>

section \<open>What adding and removing do to the lists\<close>

lemma add_server_locked_cur_idx: "pol_kind p \<noteq> VNSWRR \<Longrightarrow> cur_idx (add_server_locked h r i p) = cur_idx p"
  by (simp add: add_server_locked_def Let_def group_add_fields hash_map_add_addr_def)
    (simp add: group_add_def recover_one_server_def upd_group_def Let_def)

lemma remove_fold_frame: "same_frame p (fold group_remove_one xs p)"
  by (rule fold_keeps) (auto intro: same_frame_trans [OF _ remove_one_frame])

lemma remove_server_locked_fields:
  assumes r: "remove_server_locked rnd a p = (ret, p')"
  shows "ret = int (length (server_map p a))" "servers p' = filter (\<lambda>i. ep_address (heap p i) \<noteq> a) (servers p)"
    "server_map p' = (server_map p)(a := [])" "params_of p' j = params_of p j"
    "ep_address (heap p' j) = ep_address (heap p j)" "heap_next p' = heap_next p"
proof -
  define q where "q = (before_groups a p)\<lparr>servers := filter (\<lambda>i. ep_address (heap p i) \<noteq> a) (servers p)\<rparr>"
  define q1 where "q1 = fold group_remove_one (server_map p a) q"
  define q2 where "q2 = q1\<lparr>server_map := (server_map q1)(a := [])\<rparr>"
  note f = before_groups_fields [of a p]
  have p': "p' = (if pol_kind q2 = VNSWRR then vnswrr_init rnd q2 else q2)" and ret: "ret = int (length (server_map p a))"
    using r by (auto simp: remove_server_locked_eq group_remove_def Let_def f q_def q1_def q2_def)
  have "same_frame q q1" unfolding q1_def by (rule remove_fold_frame)
  then show "ret = int (length (server_map p a))" "servers p' = filter (\<lambda>i. ep_address (heap p i) \<noteq> a) (servers p)"
    "server_map p' = (server_map p)(a := [])" "params_of p' j = params_of p j"
    "ep_address (heap p' j) = ep_address (heap p j)" "heap_next p' = heap_next p"
    using ret by (simp_all add: p' q2_def same_frame_def q_def f)
qed

section \<open>Properties\<close>

lemma reached_start: "reached h k another (new_upstream_policy k another) {#}"
  by (simp add: reached_def)

lemma reached_step: "reached h k another p H \<Longrightarrow> upstream_step h (p, H) (p', H') \<Longrightarrow> reached h k another p' H'"
  unfolding reached_def by (rule rtranclp.rtrancl_into_rtrancl)

text \<open>A server is added, a task selects it, and it is removed while the task holds it.\<close>

definition example_request :: request where
  "example_request = \<lparr>route = 0, hash_route = 0, rnd_first = 0, rnd_another = 0, shuffling = (\<lambda>xs. xs), second = 0\<rparr>"

definition example_added :: policy where
  "example_added = add_server (\<lambda>_. 0) 0 ''a'' ADDRESS_PARAMS_DEFAULT (new_upstream_policy Round_robin False)"

definition example_selected :: policy where
  "example_selected = upd_endpoint 0 (\<lambda>e. e\<lparr>ref_count := ref_count e + 1\<rparr>) (advance example_added)"

definition example_removed :: policy where
  "example_removed = snd (remove_server 0 ''a'' example_selected)"

text \<open>The first server of an upstream.\<close>

lemma first_server:
  fixes h r a q k b
  defines "p \<equiv> add_server h r a q (new_upstream_policy k b)"
  shows "servers p = (if server_type (UPSAddrParams q) = 0 then [0] else [])" "pol_kind p = k" "breaker_list p = []"
    "fail_count (heap p 0) = 0" "params_of p 0 = UPSAddrParams q" "ep_address (heap p 0) = a" "nalives p = 1"
    "deleted (heap p i) \<longleftrightarrow> i \<noteq> 0" "\<not> fused (heap p i)" "k \<noteq> VNSWRR \<Longrightarrow> cur_idx p = 0"
    "pol_try_another p = b"
proof -
  define p0 where "p0 = new_upstream_policy k b"
  have k: "pol_kind p0 = k" "heap_next p0 = 0" "servers p0 = []" "cur_idx p0 = 0" "breaker_list p0 = []" "nalives p0 = 0"
    "deleted (heap p0 i)" "\<not> fused (heap p0 i)" for i
    by (simp_all add: p0_def new_upstream_policy_def)
  have t: "pol_try_another p0 = b" by (simp add: p0_def new_upstream_policy_def)
  define p1 where "p1 = snd (new_endpoint a q p0)"
  have n: "new_endpoint a q p0 = (0, p1)" by (simp add: p1_def new_endpoint_def k)
  then have e: "p = add_server_locked h r 0 p1" by (simp add: p_def add_server_def p0_def)
  have c: "cur_idx p1 = 0" "fail_count (heap p1 0) = 0" by (simp_all add: p1_def new_endpoint_def k)
  note e' = new_endpoint_fields [OF n]
  note f = e'(2-18) add_server_locked_fields group_add_fields
  show "servers p = (if server_type (UPSAddrParams q) = 0 then [0] else [])" "pol_kind p = k" "breaker_list p = []"
    "fail_count (heap p 0) = 0" "params_of p 0 = UPSAddrParams q" "ep_address (heap p 0) = a" "nalives p = 1"
    "pol_try_another p = b"
    unfolding e by (simp_all add: f k c t)
  show "k \<noteq> VNSWRR \<Longrightarrow> cur_idx p = 0" unfolding e using add_server_locked_cur_idx [of p1] by (simp add: f k c)
  show "deleted (heap p i) \<longleftrightarrow> i \<noteq> 0" "\<not> fused (heap p i)"
    unfolding e using e'(3) [of i] e'(7,8) k(7,8) [of i] by (cases "i = 0"; simp add: add_server_locked_fields)+
qed

lemma default_params [simp]: "UPSAddrParams ADDRESS_PARAMS_DEFAULT = ADDRESS_PARAMS_DEFAULT"
  by (simp add: UPSAddrParams_def ADDRESS_PARAMS_DEFAULT_def)

lemma example_added_fields:
  "servers example_added = [0]" "pol_kind example_added = Round_robin" "cur_idx example_added = 0"
  "breaker_list example_added = []" "fail_count (heap example_added 0) = 0"
  "params_of example_added 0 = ADDRESS_PARAMS_DEFAULT" "ep_address (heap example_added 0) = ''a''"
  "deleted (heap example_added i) \<longleftrightarrow> i \<noteq> 0" "\<not> fused (heap example_added i)"
  "max_fails ADDRESS_PARAMS_DEFAULT = 200" "group_id ADDRESS_PARAMS_DEFAULT = -1"
  unfolding example_added_def by (simp_all add: first_server) (simp_all add: ADDRESS_PARAMS_DEFAULT_def)

lemma example_select: "select 1 example_request [] example_added = Ok (Some 0, example_selected)"
  by (simp add: select_def first_strategy_def check_breaker_def example_request_def broken_def advance_def
      example_added_fields example_selected_def Let_def)

lemma example_added_reached: "reached (\<lambda>_. 0) Round_robin False example_added {#}"
  unfolding example_added_def by (rule reached_step [OF reached_start adds])

lemma example_reached: "reached (\<lambda>_. 0) Round_robin False example_removed {#0#}"
proof -
  from example_added_reached have "reached (\<lambda>_. 0) Round_robin False example_selected ({#} + mset_set (set_option (Some 0)))"
    by (rule reached_step [OF _ selects [OF example_select]]) (simp add: example_request_def)
  then have "reached (\<lambda>_. 0) Round_robin False example_selected {#0#}" by simp
  then show ?thesis unfolding example_removed_def by (rule reached_step [OF _ removes])
qed

text \<open>C11: In every history of an upstream - servers added, removed and replaced in any order while tasks select
  them, report on them and end - no list of the upstream, no table of a strategy and no task refers to a
  server that has been deleted.\<close>

theorem no_dangling_server:
  assumes "reached std_hash k another p H"
  shows "set_mset H \<union> set (servers p) \<union> (\<Union>a. set (server_map p a)) \<union> (\<Union>g. set (mains (groups p g)) \<union> set (backups (groups p g)))
    \<union> set (breaker_list p) \<union> snd ` set (addr_hash p) \<subseteq> {i. \<not> deleted (heap p i)}"
proof -
  from reached_inv [OF assms] obtain M where ok: "shared_ok {} p H M" "servers_ok p M" "tables_ok p M"
    by (auto simp: policy_inv_def)
  have "set (servers p) \<union> (\<Union>a. set (server_map p a)) \<union> (\<Union>g. set (mains (groups p g)) \<union> set (backups (groups p g)))
    \<union> snd ` set (addr_hash p) \<subseteq> M"
    using ok by (auto simp: shared_ok_def groups_ok_def servers_ok_def tables_ok_def)
  moreover have "M \<union> set_mset H \<union> set (breaker_list p) \<subseteq> {i. \<not> deleted (heap p i)}"
    using ok(1) by (auto simp: shared_ok_def refs_ok_def breaker_ok_def)
  ultimately show ?thesis by blast
qed

theorem no_dangling_server_witness:
  "servers example_removed = [] \<and> \<not> deleted (heap example_removed 0)"
proof
  show "servers example_removed = []"
    using remove_server_locked_fields(2) [of 0 "''a''" example_selected "fst (remove_server 0 ''a'' example_selected)" example_removed]
    by (simp add: example_removed_def remove_server_def example_selected_def advance_def example_added_fields)
  show "\<not> deleted (heap example_removed 0)" using no_dangling_server [OF example_reached] by simp
qed

text \<open>The numbers of servers alive that decide whether a group is used are exact in every history: a group
  counts the servers of it that are not deleted and not broken.\<close>

theorem group_nalives_exact:
  assumes "reached std_hash k another p H"
  shows "group_nalives (groups p g)
    = int (card {i. \<not> deleted (heap p i) \<and> \<not> fused (heap p i) \<and> group_id (params_of p i) = g})"
  using reached_inv [OF assms] by (auto simp: policy_inv_def shared_ok_def counts_ok_def alive_def)

theorem group_nalives_exact_witness: "group_nalives (groups example_added (-1)) = 1"
proof -
  have "{i. \<not> deleted (heap example_added i) \<and> \<not> fused (heap example_added i) \<and> group_id (params_of example_added i) = -1} = {0}"
    using example_added_fields by auto
  then show ?thesis using group_nalives_exact [OF example_added_reached, of "-1"] by simp
qed

text \<open>The weights of the servers always add up to the total weight the random choices are made from.\<close>

theorem total_weight_exact:
  assumes "reached std_hash k another p H" and "weighted_kind (pol_kind p)"
  shows "total_weight p = sum_list (map (weight_of p) (servers p))"
  using reached_inv [OF assms(1)] assms(2)
  by (auto simp: policy_inv_def servers_ok_def sum_list_distinct_conv_sum_set)

definition example_weighted :: policy where
  "example_weighted = add_server (\<lambda>_. 0) 0 ''a'' (ADDRESS_PARAMS_DEFAULT\<lparr>weight := 5\<rparr>) (new_upstream_policy Weighted_random False)"

lemma example_weighted_fields:
  "reached (\<lambda>_. 0) Weighted_random False example_weighted {#}" "servers example_weighted = [0]"
  "pol_kind example_weighted = Weighted_random" "weight (params_of example_weighted 0) = 5"
proof -
  show "reached (\<lambda>_. 0) Weighted_random False example_weighted {#}"
    unfolding example_weighted_def by (rule reached_step [OF reached_start adds])
  show "servers example_weighted = [0]" "pol_kind example_weighted = Weighted_random" "weight (params_of example_weighted 0) = 5"
    unfolding example_weighted_def by (simp_all add: first_server UPSAddrParams_def ADDRESS_PARAMS_DEFAULT_def)
qed

theorem total_weight_exact_witness: "total_weight example_weighted = 5"
  using total_weight_exact [OF example_weighted_fields(1)] by (simp add: weighted_kind_def example_weighted_fields)

section \<open>The list of servers and the policy\<close>

text \<open>What the configuration of an upstream says (\<open>Upstreams\<close>), and the lists of its policy.\<close>

definition entry :: "policy \<Rightarrow> nat \<Rightarrow> string \<times> AddressParams" where
  "entry p i = (ep_address (heap p i), params_of p i)"

definition implements :: "policy \<Rightarrow> UPSGroupPolicy \<Rightarrow> bool" where
  "implements p u \<longleftrightarrow> map (entry p) (servers p) = filter (\<lambda>(_, q). server_type q = 0) (ups_servers u)
     \<and> (\<forall>a. map (entry p) (server_map p a) = filter (\<lambda>(b, _). b = a) (ups_servers u))"

lemma map_entry_cong: "(\<And>i. i \<in> set xs \<Longrightarrow> heap p' i = heap p i) \<Longrightarrow> map (entry p') xs = map (entry p) xs"
  by (simp add: entry_def)

lemma new_endpoint_implements:
  assumes inv: "policy_inv p H" and im: "implements p u" and n: "new_endpoint a q p = (i, p')"
  shows "implements p' u"
proof -
  note f = new_endpoint_fields [OF n]
  from inv obtain M where ok: "refs_ok p H M" "servers_ok p M" by (auto simp: policy_inv_def shared_ok_def)
  have "heap p' j = heap p j" if "j \<in> set (servers p) \<or> (\<exists>a. j \<in> set (server_map p a))" for j
    using that ok f(1) f(3) [of j] by (auto simp: refs_ok_def servers_ok_def)
  then have "map (entry p') (servers p) = map (entry p) (servers p)"
    "map (entry p') (server_map p b) = map (entry p) (server_map p b)" for b
    by (blast intro: map_entry_cong)+
  with im show ?thesis by (simp add: implements_def f(12,13))
qed

lemma add_server_locked_implements:
  assumes "implements p u" and "entry p i = (a, UPSAddrParams q)"
  shows "implements (add_server_locked h r i p) (policy_add_server a q u)"
proof -
  have e: "entry (add_server_locked h r i p) = entry p" by (rule ext) (simp add: entry_def add_server_locked_fields)
  show ?thesis
    using assms by (auto simp: implements_def e policy_add_server_def add_server_locked_fields group_add_fields) (auto simp: entry_def)
qed

lemma remove_server_locked_implements:
  assumes "implements p u" and r: "remove_server_locked rnd a p = (ret, p')" and u: "policy_remove_server a u = (ret', u')"
  shows "ret = ret'" and "implements p' u'"
proof -
  note f = remove_server_locked_fields [OF r]
  have e: "entry p' = entry p" by (rule ext) (simp add: entry_def f)
  have n: "length (server_map p a) = length (filter (\<lambda>(b, _). b = a) (ups_servers u))"
    using assms(1) by (metis implements_def length_map)
  then show "ret = ret'" using u by (auto simp: f policy_remove_server_def)
  have u': "ups_servers u' = filter (\<lambda>(b, _). b \<noteq> a) (ups_servers u)" using u by (auto simp: policy_remove_server_def)
  have "map (entry p) (filter (\<lambda>i. ep_address (heap p i) \<noteq> a) (servers p)) = filter (\<lambda>(b, _). b \<noteq> a) (map (entry p) (servers p))"
    by (simp add: filter_map o_def entry_def)
  then show "implements p' u'"
    using assms(1) by (auto simp: implements_def e f u' filter_filter conj_commute case_prod_unfold intro!: filter_cong)
qed

text \<open>C12: Replacing a server in the policy is replacing it in the configuration of the upstream, with the same
  number of removed servers as the result: the list the strategies choose from is the main servers of
  the configuration in their order, and the table of an address its servers in their order.\<close>

theorem replace_server_refines:
  assumes "policy_inv p H" and "implements p u"
  shows "rel_prod (=) implements (replace_server h r a q p) (policy_replace_server a q u)"
proof -
  obtain i p1 where n: "new_endpoint a q p = (i, p1)" by force
  obtain ret p2 where r: "remove_server_locked r a p1 = (ret, p2)" by force
  obtain ret' u' where u: "policy_remove_server a u = (ret', u')" by force
  have 1: "implements p1 u" by (rule new_endpoint_implements [OF assms n])
  note 2 = remove_server_locked_implements [OF 1 r u]
  have "entry p2 i = (a, UPSAddrParams q)"
    using remove_server_locked_fields(4,5) [OF r] new_endpoint_fields(4,5) [OF n] by (simp add: entry_def)
  from add_server_locked_implements [OF 2(2) this] 2(1) show ?thesis
    by (simp add: replace_server_def policy_replace_server_def n r u)
qed

lemma add_server_implements:
  assumes "policy_inv p H" and "implements p u"
  shows "implements (add_server h r a q p) (policy_add_server a q u)"
proof -
  obtain i p1 where n: "new_endpoint a q p = (i, p1)" by force
  have "entry p1 i = (a, UPSAddrParams q)" using new_endpoint_fields(4,5) [OF n] by (simp add: entry_def)
  from add_server_locked_implements [OF new_endpoint_implements [OF assms n] this] show ?thesis
    by (simp add: add_server_def n)
qed

definition example_entry :: "policy_kind \<Rightarrow> UPSGroupPolicy" where
  "example_entry k = \<lparr>kind = k, try_another = False, ups_servers = [(''a'', ADDRESS_PARAMS_DEFAULT)]\<rparr>"

theorem replace_server_refines_witness:
  "rel_prod (=) implements (replace_server (\<lambda>_. 0) 0 ''a'' ADDRESS_PARAMS_DEFAULT example_added) (1, example_entry Round_robin)"
proof -
  define u :: UPSGroupPolicy where "u = \<lparr>kind = Round_robin, try_another = False, ups_servers = []\<rparr>"
  have "implements (new_upstream_policy Round_robin False) u"
    by (simp add: implements_def new_upstream_policy_def u_def)
  from add_server_implements [OF start_inv this, of "\<lambda>_. 0" 0 "''a''" ADDRESS_PARAMS_DEFAULT]
  have "implements example_added (example_entry Round_robin)"
    by (simp add: example_added_def example_entry_def policy_add_server_def u_def)
  from replace_server_refines [OF reached_inv [OF example_added_reached] this, of "\<lambda>_. 0" 0 "''a''" ADDRESS_PARAMS_DEFAULT]
  show ?thesis
    by (simp add: policy_replace_server_def policy_remove_server_def policy_add_server_def example_entry_def)
qed

end
