(* ===== verification/Upstream_Fairness.thy ===== *)
theory Upstream_Fairness
  imports Upstream_History
begin

text \<open>
  Which server the strategies choose: how often each server has its turn, when the search of a
  consistent hash ends, and that a server that is broken is passed over.
\<close>

section \<open>Smooth weighted round robin\<close>

lemma index_of_max_nth: "cs \<noteq> [] \<Longrightarrow> cs ! index_of_max cs = Max (set cs)"
  unfolding index_of_max_def
  using nth_length_takeWhile [of "\<lambda>c. c \<noteq> Max (set cs)" cs] index_of_max_less [of cs]
  by (simp add: index_of_max_def)

lemma sum_list_add: "length cs = length ws \<Longrightarrow> sum_list (map2 (+) cs ws) = sum_list cs + (sum_list ws :: int)"
  by (induction cs ws rule: list_induct2) simp_all

lemma sum_list_sub: "j < length cs \<Longrightarrow> sum_list (cs[j := cs ! j - t]) = sum_list cs - (t :: int)"
  by (induction cs arbitrary: j) (auto split: nat.splits)

lemma sum_list_pos:
  assumes "\<And>w. w \<in> set ws \<Longrightarrow> 0 < w" and "ws \<noteq> []"
  shows "0 < sum_list (ws :: int list)"
  using assms
proof (induction ws)
  case (Cons w ws)
  then show ?case by (cases "ws = []") (auto intro: add_pos_pos)
qed simp

lemma sum_positive_Max:
  assumes "0 < sum_list (cs :: int list)"
  shows "0 < Max (set cs)"
proof (rule ccontr)
  assume "\<not> 0 < Max (set cs)"
  then have "\<forall>c\<in>set cs. c \<le> 0" using assms by (metis List.finite_set Max_ge order.trans not_le)
  then have "sum_list cs \<le> 0" by (intro sum_list_nonpos) auto
  with assms show False by simp
qed

text \<open>No server falls behind by a whole round: what it is owed stays above minus the total weight.\<close>

lemma virtual_nodes_owed:
  assumes "length cs = length ws" and "sum_list cs = 0" and "\<And>j. j < length ws \<Longrightarrow> - W < cs ! j"
    and "\<And>w. w \<in> set ws \<Longrightarrow> 0 < w" and "W = sum_list ws" and "j < length ws"
  shows "- W < cs ! j + int n * ws ! j - W * int (count_list (virtual_nodes n W ws cs) j)"
  using assms
proof (induction n arbitrary: cs)
  case (Suc n)
  let ?a = "map2 (+) cs ws"
  let ?i = "index_of_max ?a"
  let ?c = "?a[?i := ?a ! ?i - W]"
  have ne: "?a \<noteq> []" using Suc.prems by auto
  have i: "?i < length ws" using index_of_max_less [OF ne] Suc.prems(1) by simp
  have W: "0 < W" using Suc.prems(4-6) by (auto intro!: sum_list_pos)
  have "0 < Max (set ?a)" using sum_list_add [OF Suc.prems(1)] Suc.prems(2,5) W by (intro sum_positive_Max) simp
  then have top: "0 < ?a ! ?i" using index_of_max_nth [OF ne] by simp
  have "- W < ?c ! k" if "k < length ws" for k
  proof (cases "k = ?i")
    case True
    then show ?thesis using top i Suc.prems(1) by simp
  next
    case False
    moreover have "0 < ws ! k" using Suc.prems(4) that by simp
    ultimately show ?thesis using that Suc.prems(1) Suc.prems(3) [OF that] by simp
  qed
  moreover have "sum_list ?c = 0"
    using i sum_list_sub [of ?i ?a W] sum_list_add [OF Suc.prems(1)] Suc.prems(1,2,5) by simp
  ultimately have "- W < ?c ! j + int n * ws ! j - W * int (count_list (virtual_nodes n W ws ?c) j)"
    using Suc.prems by (intro Suc.IH) auto
  moreover have "?c ! j = cs ! j + ws ! j - W * of_bool (?i = j)"
    using Suc.prems(1,6) i by (cases "?i = j") auto
  ultimately show ?case by (cases "?i = j") (simp_all add: Let_def algebra_simps)
qed simp

lemma virtual_nodes_exact:
  assumes pos: "\<And>w. w \<in> set ws \<Longrightarrow> 0 < w" and W: "W = sum_list ws" and j: "j < length ws"
  shows "int (count_list (virtual_nodes (nat W) W ws (replicate (length ws) 0)) j) = ws ! j"
proof -
  let ?v = "virtual_nodes (nat W) W ws (replicate (length ws) 0)"
  have W0: "0 < W" using pos W j by (auto intro!: sum_list_pos)
  have le: "int (count_list ?v k) \<le> ws ! k" if k: "k < length ws" for k
  proof -
    have "- W < replicate (length ws) 0 ! k + int (nat W) * ws ! k - W * int (count_list ?v k)"
      using assms W0 k by (intro virtual_nodes_owed) (simp_all add: sum_list_replicate)
    then have "W * int (count_list ?v k) < W * (ws ! k + 1)" using k W0 by (simp add: algebra_simps)
    then have "int (count_list ?v k) < ws ! k + 1" using W0 by (simp add: mult_less_cancel_left_pos)
    then show ?thesis by simp
  qed
  have "set ?v \<subseteq> {..<length ws}" using j by (intro virtual_nodes_range) auto
  then have "sum (count_list ?v) {..<length ws} = nat W" by (simp add: sum_count_set)
  then have "(\<Sum>k<length ws. int (count_list ?v k)) = W" using W0 by (simp flip: of_nat_sum)
  also have "W = (\<Sum>k<length ws. ws ! k)" by (simp add: W sum_list_sum_nth atLeast0LessThan)
  finally show ?thesis using le j by (auto dest: sum_mono_inv)
qed

text \<open>C13: The table of the smooth weighted round robin gives every server exactly its weight in turns, for every
  list of servers and weights that a history of additions and removals leads to.\<close>

theorem vnswrr_turns_exact:
  assumes "reached std_hash k another p H" and "pol_kind p = VNSWRR" and "j < length (servers p)"
  shows "count_list (pre_generated p) j = weight (params_of p (servers p ! j))"
proof -
  from reached_inv [OF assms(1)] obtain M where ok: "servers_ok p M" "tables_ok p M" by (auto simp: policy_inv_def)
  let ?ws = "map (weight_of p) (servers p)"
  have t: "pre_generated p = turns p" using ok(2) assms(2,3) by (auto simp: tables_ok_def)
  have "total_weight p = sum_list ?ws"
    using ok(1) assms(2) by (simp add: servers_ok_def weighted_kind_def sum_list_distinct_conv_sum_set)
  moreover have "0 < w" if "w \<in> set ?ws" for w using that ok by (auto simp: servers_ok_def tables_ok_def)
  ultimately have "int (count_list (pre_generated p) j) = ?ws ! j"
    using virtual_nodes_exact [of ?ws "total_weight p" j] assms(3) by (simp add: t turns_def)
  then show ?thesis using assms(3) by simp
qed

definition example_smooth :: policy where
  "example_smooth = add_server (\<lambda>_. 0) 0 ''a'' (ADDRESS_PARAMS_DEFAULT\<lparr>weight := 3\<rparr>) (new_upstream_policy VNSWRR False)"

theorem vnswrr_turns_exact_witness: "count_list (pre_generated example_smooth) 0 = 3"
proof -
  have r: "reached (\<lambda>_. 0) VNSWRR False example_smooth {#}"
    unfolding example_smooth_def by (rule reached_step [OF reached_start adds])
  have f: "servers example_smooth = [0]" "pol_kind example_smooth = VNSWRR" "weight (params_of example_smooth 0) = 3"
    unfolding example_smooth_def by (simp_all add: first_server UPSAddrParams_def ADDRESS_PARAMS_DEFAULT_def)
  show ?thesis using vnswrr_turns_exact [OF r f(2), of 0] f by simp
qed

section \<open>Weighted random choice\<close>

lemma weighted_loop_finds:
  "x < s + sum_list (map (weight_of p) (filter (\<lambda>j. j \<notin> set hs) xs)) \<Longrightarrow> s \<le> x \<Longrightarrow> weighted_loop p hs x s xs \<noteq> None"
  by (induction p hs x s xs rule: weighted_loop.induct) (auto simp: add_ac)

text \<open>The numbers for which a server is chosen are an interval as long as its weight.\<close>

lemma weighted_loop_card:
  assumes "distinct xs" and "i \<in> set xs" and "i \<notin> set hs"
  shows "card {x. s \<le> x \<and> x < s + sum_list (map (weight_of p) (filter (\<lambda>j. j \<notin> set hs) xs)) \<and> weighted_loop p hs x s xs = Some i}
    = weight (params_of p i)"
  using assms
proof (induction xs arbitrary: s)
  case (Cons j xs)
  let ?r = "\<lambda>xs. sum_list (map (weight_of p) (filter (\<lambda>j. j \<notin> set hs) xs))"
  have nn: "0 \<le> ?r xs" by (intro sum_list_nonneg) auto
  show ?case
  proof (cases "j \<in> set hs")
    case True
    then show ?thesis using Cons.prems by (auto simp: Cons.IH)
  next
    case False
    show ?thesis
    proof (cases "j = i")
      case True
      have e: "weighted_loop p hs x s (j # xs) = Some i \<longleftrightarrow> x < s + weight_of p i" for x
        using True False Cons.prems weighted_loop_in [of p hs x "s + weight_of p i" xs i] by auto
      then have "{x. s \<le> x \<and> x < s + ?r (j # xs) \<and> weighted_loop p hs x s (j # xs) = Some i} = {s..<s + weight_of p i}"
        unfolding e using True False nn by auto
      then show ?thesis by simp
    next
      case other: False
      have "weighted_loop p hs x s (j # xs) = Some i \<longleftrightarrow> s + weight_of p j \<le> x \<and> weighted_loop p hs x (s + weight_of p j) xs = Some i" for x
        using other False by auto
      then have "{x. s \<le> x \<and> x < s + ?r (j # xs) \<and> weighted_loop p hs x s (j # xs) = Some i}
          = {x. s + weight_of p j \<le> x \<and> x < s + weight_of p j + ?r xs \<and> weighted_loop p hs x (s + weight_of p j) xs = Some i}"
        using False by auto
      then show ?thesis using Cons.IH [of "s + weight_of p j"] Cons.prems other by simp
    qed
  qed
qed simp

lemma card_nonneg: "card {x :: int. 0 \<le> x \<and> P x} = card {r. P (int r)}"
proof -
  have "{x :: int. 0 \<le> x \<and> P x} = int ` {r. P (int r)}"
    by (auto simp: image_iff) (metis nonneg_int_cases)
  then show ?thesis by (simp add: card_image)
qed

text \<open>C14: The first choice of the weighted random policy is exactly fair: of the values that the random number has
  modulo the weights of the servers not tried yet, each of these servers has as many as its weight.\<close>

theorem weighted_first_fair:
  assumes "reached std_hash k another p H" and "weighted_kind (pol_kind p)" and "distinct history" and "set history \<subseteq> set (servers p)"
    and "i \<in> set (servers p)" and "i \<notin> set history"
  shows "card {r. int r < total_weight p - select_history_weight p history \<and> weighted_first r history p = i} = weight (params_of p i)"
proof -
  from reached_inv [OF assms(1)] obtain M where ok: "servers_ok p M" by (auto simp: policy_inv_def)
  let ?rest = "filter (\<lambda>j. j \<notin> set history) (servers p)"
  let ?t = "total_weight p - select_history_weight p history"
  have d: "distinct (servers p)" and tot: "total_weight p = sum (weight_of p) (set (servers p))"
    using ok assms(2) by (simp_all add: servers_ok_def)
  have "set ?rest = set (servers p) - set history" by auto
  then have t: "?t = sum_list (map (weight_of p) ?rest)"
    using assms(3,4) d by (simp add: tot select_history_weight_def sum_list_distinct_conv_sum_set sum_diff)
  have some: "weighted_loop p history x 0 (servers p) \<noteq> None" if "x < ?t" "0 \<le> x" for x
    using that t by (intro weighted_loop_finds) simp_all
  have "weighted_first r history p = i \<longleftrightarrow> weighted_loop p history (int r) 0 (servers p) = Some i" if "int r < ?t" for r
    using that some [of "int r"] by (auto simp: weighted_first_def Let_def split: option.split)
  then have "{r. int r < ?t \<and> weighted_first r history p = i}
      = {r. int r < ?t \<and> weighted_loop p history (int r) 0 (servers p) = Some i}" by blast
  also have "card \<dots> = card {x. 0 \<le> x \<and> x < ?t \<and> weighted_loop p history x 0 (servers p) = Some i}"
    by (rule card_nonneg [symmetric])
  also have "\<dots> = weight (params_of p i)"
    using weighted_loop_card [OF d assms(5,6), of 0 p] by (simp add: t)
  finally show ?thesis .
qed

theorem weighted_first_fair_witness: "card {r. int r < 5 \<and> weighted_first r [] example_weighted = 0} = 5"
proof -
  note f = example_weighted_fields
  have t: "total_weight example_weighted = 5"
    using reached_inv [OF f(1)] f by (auto simp: policy_inv_def servers_ok_def weighted_kind_def)
  show ?thesis
    using weighted_first_fair [OF f(1), of "[]" 0] f t by (simp add: weighted_kind_def select_history_weight_def)
qed

section \<open>Consistent hash\<close>

text \<open>The search goes around the table, one entry a turn; within one round it meets every entry.\<close>

definition entry_alive :: "policy \<Rightarrow> nat \<Rightarrow> bool" where
  "entry_alive p k \<longleftrightarrow> is_alive p (snd (addr_hash p ! (k mod length (addr_hash p))))"

lemma in_table: "k < length (addr_hash p) \<Longrightarrow> m mod length (addr_hash p) < length (addr_hash p)"
  by (rule mod_less_divisor) linarith

lemma hash_loop_step:
  assumes "k < length (addr_hash p)"
  shows "hash_loop (Suc fuel) p k = (if entry_alive p k then Ok (snd (addr_hash p ! k)) else hash_loop fuel p (Suc k mod length (addr_hash p)))"
  using assms by (auto simp: entry_alive_def Let_def)

lemma hash_loop_found:
  assumes "k < length (addr_hash p)" and "entry_alive p (k + n)"
  shows "hash_loop (Suc n) p k \<noteq> Out_of_fuel"
  using assms
proof (induction n arbitrary: k)
  case (Suc n)
  let ?l = "length (addr_hash p)"
  have "entry_alive p (Suc k mod ?l + n)" using Suc.prems(2) by (simp add: entry_alive_def mod_simps)
  then have "hash_loop (Suc n) p (Suc k mod ?l) \<noteq> Out_of_fuel" using Suc.prems(1) by (intro Suc.IH in_table)
  with hash_loop_step [OF Suc.prems(1), of "Suc n"] show ?case by (simp del: hash_loop.simps)
qed (simp add: hash_loop_step del: hash_loop.simps)

lemma hash_loop_lost:
  assumes "\<And>k. \<not> entry_alive p k" and "k < length (addr_hash p)"
  shows "hash_loop fuel p k = Out_of_fuel"
  using assms(2)
proof (induction fuel arbitrary: k)
  case (Suc fuel)
  then have "hash_loop fuel p (Suc k mod length (addr_hash p)) = Out_of_fuel" by (intro Suc.IH in_table)
  with hash_loop_step [OF Suc.prems, of fuel] assms(1) show ?case by (simp del: hash_loop.simps)
qed simp

lemma entry_alive_iff:
  assumes "addr_hash p \<noteq> []"
  shows "(\<exists>n. entry_alive p (k + n)) \<longleftrightarrow> (\<exists>e\<in>set (addr_hash p). is_alive p (snd e))"
proof
  assume "\<exists>e\<in>set (addr_hash p). is_alive p (snd e)"
  then obtain m where m: "m < length (addr_hash p)" "is_alive p (snd (addr_hash p ! m))" by (auto simp: in_set_conv_nth)
  have "k \<le> length (addr_hash p) * k" using m(1) by (cases "length (addr_hash p)") simp_all
  then have "k + (m + (length (addr_hash p) * k - k)) = m + length (addr_hash p) * k" by linarith
  with m have "entry_alive p (k + (m + (length (addr_hash p) * k - k)))" by (simp add: entry_alive_def)
  then show "\<exists>n. entry_alive p (k + n)" ..
qed (use assms in \<open>auto simp: entry_alive_def\<close>)

text \<open>C15: The search of a consistent hash ends exactly when one of the servers in its table is alive. The table has the
  main servers only: when backups alone are alive, the search - which holds the lock of the
  upstream - goes around for ever, whatever the number of turns.\<close>

theorem consistent_hash_returns_iff:
  assumes "nalives p \<noteq> 0" and "addr_hash p \<noteq> []"
  shows "(\<exists>fuel. consistent_hash_with_group fuel shuffle h history p \<noteq> Out_of_fuel)
    \<longleftrightarrow> (\<exists>e\<in>set (addr_hash p). is_alive p (snd e))"
proof -
  define k where "k = (if lower_bound h p = length (addr_hash p) then 0 else lower_bound h p)"
  have k: "k < length (addr_hash p)" using lower_bound_le [of h p] assms(2) by (auto simp: k_def)
  have c: "consistent_hash_with_group fuel shuffle h history p = Out_of_fuel \<longleftrightarrow> hash_loop fuel p k = Out_of_fuel" for fuel
    using assms by (cases "hash_loop fuel p k") (simp_all add: consistent_hash_with_group_def k_def Let_def)
  show ?thesis
  proof (cases "\<exists>n. entry_alive p (k + n)")
    case True
    then obtain n where "hash_loop (Suc n) p k \<noteq> Out_of_fuel" using hash_loop_found [OF k] by blast
    then show ?thesis using True c entry_alive_iff [OF assms(2), of k] by blast
  next
    case False
    then have "\<not> entry_alive p m" for m
      using entry_alive_iff [OF assms(2), of k] entry_alive_iff [OF assms(2), of 0] by auto
    then have "hash_loop fuel p k = Out_of_fuel" for fuel by (rule hash_loop_lost [OF _ k])
    then show ?thesis using False c entry_alive_iff [OF assms(2), of k] by blast
  qed
qed

text \<open>A main server that is disabled, and a backup.\<close>

definition backup_params :: AddressParams where
  "backup_params = ADDRESS_PARAMS_DEFAULT\<lparr>server_type := 1\<rparr>"

definition example_main :: policy where
  "example_main = add_server (\<lambda>_. 0) 0 ''a'' ADDRESS_PARAMS_DEFAULT (new_upstream_policy Consistent_hash False)"

definition example_both :: policy where
  "example_both = add_server (\<lambda>_. 0) 0 ''b'' backup_params example_main"

definition example_hung :: policy where
  "example_hung = disable_server 0 ''a'' example_both"

lemma fold_hash_same: "vs \<noteq> [] \<Longrightarrow> fold (\<lambda>v. hash_insert h i) vs [] = [(h, i)]"
proof -
  have "fold (\<lambda>v. hash_insert h i) vs [(h, i)] = [(h, i)]" for vs :: "'a list" by (induction vs) simp_all
  then show "vs \<noteq> [] \<Longrightarrow> ?thesis" by (cases vs) simp_all
qed

lemma add_server_locked_hash:
  assumes "pol_kind p = Consistent_hash"
  shows "addr_hash (add_server_locked h r i p) = (if server_type (params_of p i) = 0
    then fold (\<lambda>v. hash_insert (h (virtual_name (ep_address (heap p i)) v (Suc (length (server_map p (ep_address (heap p i)))))) mod 2 ^ 32) i)
      [0..<VIRTUAL_GROUP_SIZE * weight (params_of p i)] (addr_hash p)
    else addr_hash p)"
  using assms
  by (simp add: add_server_locked_def uses_hash_def weighted_kind_def hash_map_add_addr_def Let_def group_add_fields)

lemma example_main_fields:
  "addr_hash example_main = [(0, 0)]" "server_map example_main ''a'' = [0]" "heap_next example_main = 1"
  "params_of example_main 0 = ADDRESS_PARAMS_DEFAULT" "nalives example_main = 1" "pol_kind example_main = Consistent_hash"
  "\<not> fused (heap example_main 0)" "server_map example_main ''b'' = []" "reached (\<lambda>_. 0) Consistent_hash False example_main {#}"
proof -
  define p0 where "p0 = new_upstream_policy Consistent_hash False"
  have k: "pol_kind p0 = Consistent_hash" "heap_next p0 = 0" "addr_hash p0 = []" "server_map p0 a = []" for a
    by (simp_all add: p0_def new_upstream_policy_def)
  define p1 where "p1 = snd (new_endpoint ''a'' ADDRESS_PARAMS_DEFAULT p0)"
  have n: "new_endpoint ''a'' ADDRESS_PARAMS_DEFAULT p0 = (0, p1)" by (simp add: p1_def new_endpoint_def k)
  then have e: "example_main = add_server_locked (\<lambda>_. 0) 0 0 p1" by (simp add: example_main_def add_server_def p0_def)
  note e' = new_endpoint_fields [OF n]
  note f = e'(2-18) add_server_locked_fields group_add_fields
  have w: "weight ADDRESS_PARAMS_DEFAULT = 1" "server_type ADDRESS_PARAMS_DEFAULT = 0"
    by (simp_all add: ADDRESS_PARAMS_DEFAULT_def)
  have "[0..<VIRTUAL_GROUP_SIZE * 1] \<noteq> []" by (simp add: VIRTUAL_GROUP_SIZE_def)
  then show "addr_hash example_main = [(0, 0)]"
    unfolding e using add_server_locked_hash [of p1 "\<lambda>_. 0" 0 0] by (simp add: f k w fold_hash_same del: upt_eq_Nil_conv)
  show "server_map example_main ''a'' = [0]" "heap_next example_main = 1" "server_map example_main ''b'' = []"
    unfolding e by (simp_all add: f k)
  show "params_of example_main 0 = ADDRESS_PARAMS_DEFAULT" "nalives example_main = 1" "pol_kind example_main = Consistent_hash"
    "\<not> fused (heap example_main 0)"
    unfolding example_main_def by (simp_all add: first_server)
  show "reached (\<lambda>_. 0) Consistent_hash False example_main {#}"
    unfolding example_main_def by (rule reached_step [OF reached_start adds])
qed

lemma example_both_fields:
  "addr_hash example_both = [(0, 0)]" "server_map example_both ''a'' = [0]" "heap example_both 0 = heap example_main 0"
  "nalives example_both = 2" "reached (\<lambda>_. 0) Consistent_hash False example_both {#}"
proof -
  note m = example_main_fields
  define p1 where "p1 = snd (new_endpoint ''b'' backup_params example_main)"
  have n: "new_endpoint ''b'' backup_params example_main = (1, p1)" by (simp add: p1_def new_endpoint_def m)
  then have e: "example_both = add_server_locked (\<lambda>_. 0) 0 1 p1" by (simp add: example_both_def add_server_def)
  note e' = new_endpoint_fields [OF n]
  note f = e'(2-18) add_server_locked_fields group_add_fields
  have b: "server_type (UPSAddrParams backup_params) \<noteq> 0"
    by (simp add: backup_params_def UPSAddrParams_def ADDRESS_PARAMS_DEFAULT_def Let_def)
  show "addr_hash example_both = [(0, 0)]"
    unfolding e using add_server_locked_hash [of p1 "\<lambda>_. 0" 0 1] b by (simp add: f m del: One_nat_def)
  show "server_map example_both ''a'' = [0]" "nalives example_both = 2"
    unfolding e by (simp_all add: f m del: One_nat_def)
  show "heap example_both 0 = heap example_main 0" unfolding e using e'(3) [of 0] by (simp add: add_server_locked_fields)
  show "reached (\<lambda>_. 0) Consistent_hash False example_both {#}"
    unfolding example_both_def by (rule reached_step [OF m(9) adds])
qed

lemma example_hung_fields:
  "addr_hash example_hung = [(0, 0)]" "nalives example_hung = 1" "\<not> is_alive example_hung 0"
  "reached (\<lambda>_. 0) Consistent_hash False example_hung {#}"
proof -
  note m = example_main_fields and b = example_both_fields
  define p where "p = upd_endpoint 0 (\<lambda>e. e\<lparr>fail_count := max_fails (ep_params e)\<rparr>) example_both"
  have e: "example_hung = fuse_server_to_breaker 0 0 p" by (simp add: example_hung_def disable_server_def b p_def)
  have h: "\<not> fused (heap p 0)" "fail_count (heap p 0) = max_fails (params_of p 0)" "group_id (params_of p 0) = -1"
    using m(4,7) by (simp_all add: p_def b ADDRESS_PARAMS_DEFAULT_def)
  show "addr_hash example_hung = [(0, 0)]" "nalives example_hung = 1"
    using h(1) by (simp_all add: e fuse_server_to_breaker_def) (simp_all add: p_def b)
  show "\<not> is_alive example_hung 0" using h by (simp add: e fuse_server_to_breaker_def is_alive_def)
  show "reached (\<lambda>_. 0) Consistent_hash False example_hung {#}"
    unfolding example_hung_def by (rule reached_step [OF b(5) disables])
qed

theorem consistent_hash_returns_iff_witness:
  "reached (\<lambda>_. 0) Consistent_hash False example_hung {#}
   \<and> (\<nexists>fuel. consistent_hash_with_group fuel (\<lambda>xs. xs) 7 [] example_hung \<noteq> Out_of_fuel)"
  using consistent_hash_returns_iff [of example_hung "\<lambda>xs. xs" 7 "[]"] by (simp add: example_hung_fields)

section \<open>Broken servers\<close>

lemma get_one_usable:
  "fst (get_one f history g p) = Some i \<Longrightarrow> \<not> broken (snd (get_one f history g p)) i"
  "fst (get_one_backup f history g p) = Some i \<Longrightarrow> \<not> broken (snd (get_one_backup f history g p)) i"
  by (auto simp: get_one_def get_one_backup_def Let_def broken_def usable_def find_Some_iff split: if_splits option.splits)

lemma broken_reference [simp]: "broken (upd_endpoint i (\<lambda>e. e\<lparr>ref_count := h e\<rparr>) p) i = broken p i"
  by (simp add: broken_def)

text \<open>Unless it was told to try another one whatever its state, an upstream never gives a task a server that is
  broken: the strategy's choice is replaced by a server of its group or by a backup.\<close>

theorem select_not_broken:
  assumes "reached std_hash k another p H" and "\<And>xs. mset (shuffling q xs) = mset xs" and "\<not> pol_try_another p"
    and "select fuel q history p = Ok (Some i, p')"
  shows "\<not> broken p' i"
proof -
  from reached_inv [OF assms(1)] obtain M where ok: "shared_ok {} p H M" "servers_ok p M" "tables_ok p M" by (auto simp: policy_inv_def)
  let ?c = "check_breaker (second q) p"
  have c: "shared_ok {} ?c H M" "same_frame p ?c" by (rule check_breaker_ok [OF ok(1)])+
  from assms(4) have s: "servers p \<noteq> []" by (auto simp: select_def)
  with assms(4) obtain a1 p1 where 1: "first_strategy fuel q history ?c = Ok (a1, p1)"
    by (cases "first_strategy fuel q history ?c") (auto simp: select_def)
  have "chose ?c H M (a1, p1)"
    using first_strategy_ok [OF c(1) _ _ _ assms(2) 1] same_frame_servers [OF c(2) ok(2)] same_frame_tables [OF c(2) ok(3)] s c(2)
    by (auto simp: same_frame_def)
  then have p1: "shared_ok {} p1 H M" "\<not> pol_try_another p1" "\<And>j. a1 = Some j \<Longrightarrow> j \<in> M"
    using c(2) assms(3) by (auto simp: chose_def same_frame_def)
  define r where "r = (if a1 = None \<or> broken p1 (the a1)
    then case a1 of Some i \<Rightarrow> check_and_get (shuffling q) history True i p1 | None \<Rightarrow> (None, p1) else (a1, p1))"
  have "\<not> pol_try_another (snd r)"
    using p1 check_and_get_ok [OF p1(1) assms(2) p1(3), of _ history True]
    by (auto simp: r_def chose_def same_frame_def split: option.split)
  have ok2: "\<not> broken (snd r) j" if "fst r = Some j" for j
    using that by (auto simp: r_def check_and_get_def Let_def dest: get_one_usable(1) split: if_splits option.splits)
  have "select fuel q history p = (let (addr, p) = (case fst r of Some i \<Rightarrow> (Some i, snd r) | None \<Rightarrow> get_one_backup (shuffling q) history (-1) (snd r))
        in case addr of
             None \<Rightarrow> Ok (None, p)
           | Some i \<Rightarrow> Ok (Some i, upd_endpoint i (\<lambda>e. e\<lparr>ref_count := ref_count e + 1\<rparr>) p))"
  proof (cases "a1 = None \<or> broken p1 (the a1)")
    case True
    obtain a2 p2 where 2: "(case a1 of Some i \<Rightarrow> check_and_get (shuffling q) history True i p1 | None \<Rightarrow> (None, p1)) = (a2, p2)"
      by (cases "case a1 of Some i \<Rightarrow> check_and_get (shuffling q) history True i p1 | None \<Rightarrow> (None, p1)")
    then have r: "r = (a2, p2)" using True by (simp add: r_def)
    then show ?thesis
      using \<open>\<not> pol_try_another (snd r)\<close> s 1 2 True unfolding r fst_conv snd_conv by (simp add: select_def)
  next
    case False
    then have r: "r = (a1, p1)" by (simp add: r_def)
    show ?thesis unfolding r fst_conv snd_conv using s 1 False by (auto simp: select_def)
  qed
  with assms(4) show ?thesis
    by (cases "fst r"; cases "get_one_backup (shuffling q) history (-1) (snd r)")
      (use get_one_usable(2) [of "shuffling q" history "-1" "snd r"] in \<open>auto simp: ok2 split: option.splits\<close>)
qed

theorem select_not_broken_witness: "\<not> broken example_selected 0"
  by (rule select_not_broken [OF example_added_reached _ _ example_select])
    (simp_all add: example_request_def example_added_def first_server)

section \<open>Groups and the available weight\<close>

text \<open>The weight of a group counts as available when its first server comes alive. The servers of a new group
  come alive before their weight is in that of the group, so nothing is added.\<close>

lemma add_server_available:
  assumes "group_id (UPSAddrParams q) > 0" and "group_weight (groups p (group_id (UPSAddrParams q))) = 0"
  shows "available_weight (add_server h r a q p) = available_weight p"
proof -
  obtain p1 where n: "new_endpoint a q p = (heap_next p, p1)" and e: "add_server h r a q p = add_server_locked h r (heap_next p) p1"
    by (simp add: add_server_def new_endpoint_def)
  have "available_weight p1 = available_weight p" using n by (auto simp: new_endpoint_def)
  then have "available_weight (group_add (heap_next p) p1) = available_weight p"
    using assms new_endpoint_fields [OF n] by (simp add: group_add_def recover_one_server_def upd_group_def Let_def)
  then show ?thesis
    by (simp add: e add_server_locked_def vnswrr_init_def hash_map_add_addr_def Let_def)
qed

text \<open>The weights of the servers of a group never become available: an upstream with a weighted policy whose
  server is in a group, and alive, finds none when it is to try another server.\<close>

theorem group_weight_unavailable:
  assumes "0 < group_id q"
  shows "fst (weighted_another now rnd shuffle history (add_server h r a q (new_upstream_policy k another))) = None"
proof -
  let ?p = "add_server h r a q (new_upstream_policy k another)"
  have "group_id (UPSAddrParams q) > 0" using assms by (simp add: UPSAddrParams_def Let_def)
  then have "available_weight ?p = available_weight (new_upstream_policy k another)"
    by (rule add_server_available) (simp add: new_upstream_policy_def new_EndpointGroup_def)
  then have "available_weight ?p = 0" by (simp add: new_upstream_policy_def)
  then show ?thesis by (simp add: weighted_another_def try_clear_breaker_def first_server)
qed

theorem group_weight_unavailable_witness:
  "fst (weighted_another 5 3 (\<lambda>xs. xs) [] (add_server (\<lambda>_. 0) 0 ''a'' (ADDRESS_PARAMS_DEFAULT\<lparr>group_id := 2\<rparr>)
    (new_upstream_policy Weighted_random True))) = None"
  by (rule group_weight_unavailable) simp

end
