(* ===== verification/LRU_Cache.thy ===== *)
theory LRU_Cache
  imports Prelude "HOL-Library.Multiset"
begin

text \<open>
  The cache of \<open>workflow/src/util/LRUCache.h\<close>, which the resolver keeps addresses in. Handles are objects
  that the cache and its users share by reference counts; the heap maps the numbers of the handles
  that exist to their contents, so a use of a handle that has been deleted is undefined, and so is a
  failing assertion. The red-black tree from keys to handles is a map.
\<close>

section \<open>State\<close>

record ('k, 'v) lru_handle =
  lru_value :: 'v
  lru_key :: 'k
  in_cache :: bool
  lru_ref :: int

record ('k, 'v) lru =
  lru_handles :: "nat \<rightharpoonup> ('k, 'v) lru_handle"
  lru_next :: nat
  not_use :: "nat list"
  in_use :: "nat list"
  cache_map :: "'k \<rightharpoonup> nat"
  lru_max_size :: nat
  lru_size :: nat
  deleted_values :: "'v list"

definition new_LRUCache :: "('k, 'v) lru" where
  "new_LRUCache = \<lparr>lru_handles = (\<lambda>_. None), lru_next = 0, not_use = [], in_use = [], cache_map = (\<lambda>_. None),
     lru_max_size = 0, lru_size = 0, deleted_values = []\<rparr>"

definition set_max_size :: "nat \<Rightarrow> ('k, 'v) lru \<Rightarrow> ('k, 'v) lru" where
  "set_max_size n c = c\<lparr>lru_max_size := n\<rparr>"

section \<open>References\<close>

definition lru_at :: "nat \<Rightarrow> ('k, 'v) lru \<Rightarrow> ('k, 'v) lru_handle cxx" where
  "lru_at i c = (case lru_handles c i of Some e \<Rightarrow> Ok e | None \<Rightarrow> Undefined)"

definition lru_set :: "nat \<Rightarrow> ('k, 'v) lru_handle \<Rightarrow> ('k, 'v) lru \<Rightarrow> ('k, 'v) lru" where
  "lru_set i e c = c\<lparr>lru_handles := (lru_handles c)(i \<mapsto> e)\<rparr>"

text \<open>Moving a handle to the end of a list takes it out of the list it is in.\<close>

definition move_in_use :: "nat \<Rightarrow> ('k, 'v) lru \<Rightarrow> ('k, 'v) lru" where
  "move_in_use i c = c\<lparr>not_use := remove1 i (not_use c), in_use := remove1 i (in_use c) @ [i]\<rparr>"

definition move_not_use :: "nat \<Rightarrow> ('k, 'v) lru \<Rightarrow> ('k, 'v) lru" where
  "move_not_use i c = c\<lparr>in_use := remove1 i (in_use c), not_use := remove1 i (not_use c) @ [i]\<rparr>"

definition lru_take :: "nat \<Rightarrow> ('k, 'v) lru \<Rightarrow> ('k, 'v) lru cxx" where
  "lru_take i c = cbind (lru_at i c) (\<lambda>e.
     Ok (lru_set i (e\<lparr>lru_ref := lru_ref e + 1\<rparr>) (if in_cache e \<and> lru_ref e = 1 then move_in_use i c else c)))"

definition lru_unref :: "nat \<Rightarrow> ('k, 'v) lru \<Rightarrow> ('k, 'v) lru cxx" where
  "lru_unref i c = cbind (lru_at i c) (\<lambda>e.
     if lru_ref e \<le> 0 then Undefined
     else
       let e = e\<lparr>lru_ref := lru_ref e - 1\<rparr>; c = lru_set i e c
       in if lru_ref e = 0 then
            if in_cache e then Undefined
            else Ok (c\<lparr>deleted_values := deleted_values c @ [lru_value e], lru_handles := (lru_handles c)(i := None)\<rparr>)
          else Ok (if in_cache e \<and> lru_ref e = 1 then move_not_use i c else c))"

definition erase_node :: "nat \<Rightarrow> ('k, 'v) lru \<Rightarrow> ('k, 'v) lru cxx" where
  "erase_node i c = cbind (lru_at i c) (\<lambda>e.
     if \<not> in_cache e then Undefined
     else lru_unref i (lru_set i (e\<lparr>in_cache := False\<rparr>)
       (c\<lparr>not_use := remove1 i (not_use c), in_use := remove1 i (in_use c), lru_size := lru_size c - 1\<rparr>)))"

definition lru_release :: "nat \<Rightarrow> ('k, 'v) lru \<Rightarrow> ('k, 'v) lru cxx" where
  "lru_release i c = lru_unref i c"

section \<open>Operations\<close>

definition lru_get :: "'k \<Rightarrow> ('k, 'v) lru \<Rightarrow> (nat option \<times> ('k, 'v) lru) cxx" where
  "lru_get k c = (case cache_map c k of
     None \<Rightarrow> Ok (None, c)
   | Some i \<Rightarrow> cbind (lru_take i c) (\<lambda>c. Ok (Some i, c)))"

text \<open>The handle that has not been used for the longest time, as long as the cache is too large.\<close>

fun lru_evict :: "nat \<Rightarrow> ('k, 'v) lru \<Rightarrow> ('k, 'v) lru cxx" where
  "lru_evict 0 c = Out_of_fuel"
| "lru_evict (Suc fuel) c =
     (if lru_max_size c < lru_size c \<and> not_use c \<noteq> [] then
        cbind (lru_at (hd (not_use c)) c) (\<lambda>e.
        if lru_ref e \<noteq> 1 then Undefined
        else cbind (erase_node (hd (not_use c)) (c\<lparr>cache_map := (cache_map c)(lru_key e := None)\<rparr>)) (lru_evict fuel))
      else Ok c)"

definition lru_put :: "'k \<Rightarrow> 'v \<Rightarrow> ('k, 'v) lru \<Rightarrow> (nat \<times> ('k, 'v) lru) cxx" where
  "lru_put k v c =
     (let i = lru_next c; bound = cache_map c k;
          c = c\<lparr>lru_handles := (lru_handles c)(i \<mapsto> \<lparr>lru_value = v, lru_key = k, in_cache = True, lru_ref = 2\<rparr>),
                lru_next := Suc i, in_use := in_use c @ [i], lru_size := lru_size c + 1,
                cache_map := (cache_map c)(k \<mapsto> i)\<rparr>
      in cbind (case bound of Some j \<Rightarrow> erase_node j c | None \<Rightarrow> Ok c) (\<lambda>c.
         cbind (if lru_max_size c > 0 then lru_evict (Suc (length (not_use c))) c else Ok c) (\<lambda>c. Ok (i, c))))"

definition lru_del :: "'k \<Rightarrow> ('k, 'v) lru \<Rightarrow> ('k, 'v) lru cxx" where
  "lru_del k c = cbind (lru_get k c) (\<lambda>(e, c). case e of
     None \<Rightarrow> Ok c
   | Some i \<Rightarrow> cbind (lru_unref i c) (\<lambda>c. erase_node i (c\<lparr>cache_map := (cache_map c)(k := None)\<rparr>)))"

fun lru_prune_loop :: "nat list \<Rightarrow> ('k, 'v) lru \<Rightarrow> ('k, 'v) lru cxx" where
  "lru_prune_loop [] c = Ok c"
| "lru_prune_loop (i # is) c = cbind (lru_at i c) (\<lambda>e.
     if lru_ref e \<noteq> 1 then Undefined
     else cbind (erase_node i (c\<lparr>cache_map := (cache_map c)(lru_key e := None)\<rparr>)) (lru_prune_loop is))"

definition lru_prune :: "('k, 'v) lru \<Rightarrow> ('k, 'v) lru cxx" where
  "lru_prune c = lru_prune_loop (not_use c) c"

text \<open>The destructor, when nobody holds a handle.\<close>

fun lru_destroy_loop :: "nat list \<Rightarrow> ('k, 'v) lru \<Rightarrow> ('k, 'v) lru cxx" where
  "lru_destroy_loop [] c = Ok c"
| "lru_destroy_loop (i # is) c = cbind (lru_at i c) (\<lambda>e.
     if \<not> in_cache e \<or> lru_ref e \<noteq> 1 then Undefined
     else cbind (lru_unref i (lru_set i (e\<lparr>in_cache := False\<rparr>) c)) (lru_destroy_loop is))"

definition lru_destroy :: "('k, 'v) lru \<Rightarrow> ('k, 'v) lru cxx" where
  "lru_destroy c = (if in_use c \<noteq> [] then Undefined else lru_destroy_loop (not_use c) c)"

section \<open>Invariant\<close>

text \<open>\<open>H\<close> are the references the users hold.\<close>

definition handles_ok :: "('k, 'v) lru \<Rightarrow> nat multiset \<Rightarrow> bool" where
  "handles_ok c H \<longleftrightarrow> dom (lru_handles c) \<subseteq> {..<lru_next c} \<and> set_mset H \<subseteq> dom (lru_handles c)
     \<and> (\<forall>i e. lru_handles c i = Some e \<longrightarrow> lru_ref e = int (count H i) + of_bool (in_cache e) \<and> (in_cache e \<or> i \<in># H))"

definition lists_ok :: "('k, 'v) lru \<Rightarrow> bool" where
  "lists_ok c \<longleftrightarrow> distinct (not_use c) \<and> distinct (in_use c)
     \<and> set (not_use c) = {i. \<exists>e. lru_handles c i = Some e \<and> in_cache e \<and> lru_ref e = 1}
     \<and> set (in_use c) = {i. \<exists>e. lru_handles c i = Some e \<and> in_cache e \<and> lru_ref e \<noteq> 1}
     \<and> lru_size c = length (not_use c) + length (in_use c)"

definition core_ok :: "('k, 'v) lru \<Rightarrow> nat multiset \<Rightarrow> bool" where
  "core_ok c H \<longleftrightarrow> handles_ok c H \<and> lists_ok c"

definition map_ok :: "('k, 'v) lru \<Rightarrow> bool" where
  "map_ok c \<longleftrightarrow> (\<forall>k i. cache_map c k = Some i \<longleftrightarrow> (\<exists>e. lru_handles c i = Some e \<and> in_cache e \<and> lru_key e = k))"

definition lru_inv :: "('k, 'v) lru \<Rightarrow> nat multiset \<Rightarrow> bool" where
  "lru_inv c H \<longleftrightarrow> core_ok c H \<and> map_ok c"

text \<open>The values that have been put: those deleted, and those of the handles that exist.\<close>

definition lru_values :: "('k, 'v) lru \<Rightarrow> 'v multiset" where
  "lru_values c = mset (deleted_values c) + (\<Sum>i \<in> dom (lru_handles c). {#lru_value (the (lru_handles c i))#})"

section \<open>Steps\<close>

lemma lru_at_Ok [simp]: "lru_handles c i = Some e \<Longrightarrow> lru_at i c = Ok e"
  by (simp add: lru_at_def)

lemma lru_set_simps [simp]:
  "lru_handles (lru_set i e c) = (lru_handles c)(i \<mapsto> e)" "lru_next (lru_set i e c) = lru_next c"
  "not_use (lru_set i e c) = not_use c" "in_use (lru_set i e c) = in_use c" "cache_map (lru_set i e c) = cache_map c"
  "lru_max_size (lru_set i e c) = lru_max_size c" "lru_size (lru_set i e c) = lru_size c"
  "deleted_values (lru_set i e c) = deleted_values c"
  by (simp_all add: lru_set_def)

lemma move_simps [simp]:
  "lru_handles (move_in_use i c) = lru_handles c" "lru_next (move_in_use i c) = lru_next c"
  "not_use (move_in_use i c) = remove1 i (not_use c)" "in_use (move_in_use i c) = remove1 i (in_use c) @ [i]"
  "cache_map (move_in_use i c) = cache_map c" "lru_max_size (move_in_use i c) = lru_max_size c"
  "lru_size (move_in_use i c) = lru_size c" "deleted_values (move_in_use i c) = deleted_values c"
  "lru_handles (move_not_use i c) = lru_handles c" "lru_next (move_not_use i c) = lru_next c"
  "not_use (move_not_use i c) = remove1 i (not_use c) @ [i]" "in_use (move_not_use i c) = remove1 i (in_use c)"
  "cache_map (move_not_use i c) = cache_map c" "lru_max_size (move_not_use i c) = lru_max_size c"
  "lru_size (move_not_use i c) = lru_size c" "deleted_values (move_not_use i c) = deleted_values c"
  by (simp_all add: move_in_use_def move_not_use_def)

lemma finite_handles: "handles_ok c H \<Longrightarrow> finite (dom (lru_handles c))"
  by (rule finite_subset [of _ "{..<lru_next c}"]) (simp_all add: handles_ok_def)

lemma lru_values_same:
  assumes "lru_handles c i = Some e" and "lru_value e' = lru_value e"
  shows "(\<Sum>j \<in> dom (lru_handles c). {#lru_value (the (((lru_handles c)(i \<mapsto> e')) j))#})
    = (\<Sum>j \<in> dom (lru_handles c). {#lru_value (the (lru_handles c j))#})"
  by (rule sum.cong) (use assms in auto)

text \<open>What a step on one handle does to the heap: the handle is changed, or its value is deleted with it.\<close>

definition handle_step :: "nat \<Rightarrow> ('k, 'v) lru_handle \<Rightarrow> ('k, 'v) lru_handle \<Rightarrow> ('k, 'v) lru \<Rightarrow> ('k, 'v) lru \<Rightarrow> bool" where
  "handle_step i e e' c c' \<longleftrightarrow> lru_next c' = lru_next c \<and> cache_map c' = cache_map c \<and> lru_max_size c' = lru_max_size c
     \<and> lru_value e' = lru_value e \<and> lru_key e' = lru_key e \<and> in_cache e' = in_cache e
     \<and> (lru_handles c' = (lru_handles c)(i \<mapsto> e') \<and> deleted_values c' = deleted_values c
        \<or> \<not> in_cache e \<and> lru_handles c' = (lru_handles c)(i := None) \<and> deleted_values c' = deleted_values c @ [lru_value e])"

lemma remove1_length: "i \<in> set xs \<Longrightarrow> Suc (length (remove1 i xs)) = length xs"
  by (induction xs) auto

lemma take_ok:
  assumes ok: "core_ok c H" and i: "lru_handles c i = Some e"
  obtains c' where "lru_take i c = Ok c'" "core_ok c' (add_mset i H)" "lru_size c' = lru_size c"
    "handle_step i e (e\<lparr>lru_ref := lru_ref e + 1\<rparr>) c c'" "lru_handles c' i \<noteq> None"
    "set (not_use c') \<subseteq> set (not_use c)"
proof -
  let ?c = "lru_set i (e\<lparr>lru_ref := lru_ref e + 1\<rparr>) (if in_cache e \<and> lru_ref e = 1 then move_in_use i c else c)"
  have h: "handles_ok c H" and l: "lists_ok c" using ok by (simp_all add: core_ok_def)
  have r: "0 < lru_ref e" using h i by (auto simp: handles_ok_def of_bool_def)
  have "handles_ok ?c (add_mset i H)"
    using h i by (auto simp: handles_ok_def split: if_splits)
  moreover have "lists_ok ?c"
  proof (cases "in_cache e \<and> lru_ref e = 1")
    case True
    then have m: "i \<in> set (not_use c)" "i \<notin> set (in_use c)" using l i by (auto simp: lists_ok_def)
    with True show ?thesis
      using remove1_length [OF m(1)] l i by (auto simp: lists_ok_def remove1_idem)
  next
    case False
    then show ?thesis using l i r by (auto simp: lists_ok_def)
  qed
  ultimately have "core_ok ?c (add_mset i H)" by (simp add: core_ok_def)
  moreover have "lru_take i c = Ok ?c" using i by (simp add: lru_take_def)
  moreover have "handle_step i e (e\<lparr>lru_ref := lru_ref e + 1\<rparr>) c ?c" by (simp add: handle_step_def)
  moreover have "set (not_use ?c) \<subseteq> set (not_use c)" by (auto dest: set_remove1_subset [THEN subsetD])
  ultimately show ?thesis using that [of ?c] by simp
qed

lemma unref_core:
  assumes h: "\<And>j f. j \<noteq> i \<Longrightarrow> lru_handles c j = Some f \<Longrightarrow> lru_ref f = int (count H' j) + of_bool (in_cache f) \<and> (in_cache f \<or> j \<in># H')"
    and d: "dom (lru_handles c) \<subseteq> {..<lru_next c}" "set_mset H' \<subseteq> dom (lru_handles c)"
    and i: "lru_handles c i = Some e" "lru_ref e = int (count H' i) + of_bool (in_cache e) + 1"
    and l: "lists_ok c"
  obtains c' where "lru_unref i c = Ok c'" "core_ok c' H'" "handle_step i e (e\<lparr>lru_ref := lru_ref e - 1\<rparr>) c c'"
    "lru_size c' = lru_size c" "\<not> in_cache e \<Longrightarrow> not_use c' = not_use c \<and> in_use c' = in_use c"
proof (cases "lru_ref e = 1")
  case True
  then have n: "\<not> in_cache e" "i \<notin># H'" using i(2) by (simp_all add: of_bool_def not_in_iff split: if_splits)
  let ?c = "c\<lparr>deleted_values := deleted_values c @ [lru_value e], lru_handles := (lru_handles c)(i := None)\<rparr>"
  have "lru_unref i c = Ok ?c" using True n i by (simp add: lru_unref_def lru_set_def Let_def)
  moreover have "core_ok ?c H'"
    using h d n l i by (auto simp: core_ok_def handles_ok_def lists_ok_def)
  moreover have "handle_step i e (e\<lparr>lru_ref := lru_ref e - 1\<rparr>) c ?c" using n by (simp add: handle_step_def)
  ultimately show ?thesis using that [of ?c] by simp
next
  case False
  have r: "1 < lru_ref e" using False i(2) by (simp add: of_bool_def split: if_splits)
  let ?e = "e\<lparr>lru_ref := lru_ref e - 1\<rparr>"
  let ?c = "if in_cache e \<and> lru_ref e - 1 = 1 then move_not_use i (lru_set i ?e c) else lru_set i ?e c"
  have u: "lru_unref i c = Ok ?c" using r i(1) by (simp add: lru_unref_def Let_def)
  have "lru_handles ?c = (lru_handles c)(i \<mapsto> ?e)" "lru_next ?c = lru_next c" by simp_all
  then have "handles_ok ?c H'" using h d i r by (auto simp: handles_ok_def)
  moreover have "lists_ok ?c"
  proof (cases "in_cache e \<and> lru_ref e - 1 = 1")
    case True
    then have m: "i \<in> set (in_use c)" "i \<notin> set (not_use c)" using l i by (auto simp: lists_ok_def)
    with True show ?thesis
      using remove1_length [OF m(1)] l i(1) by (auto simp: lists_ok_def remove1_idem)
  next
    case False
    then show ?thesis using l i(1) r by (auto simp: lists_ok_def)
  qed
  ultimately have "core_ok ?c H'" by (simp add: core_ok_def)
  moreover have "handle_step i e ?e c ?c" by (simp add: handle_step_def)
  ultimately show ?thesis using that [OF u] by simp
qed

lemma lru_unref_ok:
  assumes ok: "core_ok c H" and i: "i \<in># H"
  obtains c' e where "lru_unref i c = Ok c'" "core_ok c' (H - {#i#})" "lru_handles c i = Some e"
    "handle_step i e (e\<lparr>lru_ref := lru_ref e - 1\<rparr>) c c'" "lru_size c' = lru_size c"
proof -
  have h: "handles_ok c H" and l: "lists_ok c" using ok by (simp_all add: core_ok_def)
  from h i obtain e where e: "lru_handles c i = Some e" by (auto simp: handles_ok_def)
  have n: "int (count (H - {#i#}) i) + 1 = int (count H i)" using i by (simp add: of_nat_diff Suc_le_eq)
  have h': "lru_ref f = int (count (H - {#i#}) j) + of_bool (in_cache f) \<and> (in_cache f \<or> j \<in># H - {#i#})"
    if "j \<noteq> i" "lru_handles c j = Some f" for j f
    using h that by (auto simp: handles_ok_def in_diff_count)
  have d: "set_mset (H - {#i#}) \<subseteq> dom (lru_handles c)" using h by (auto simp: handles_ok_def dest: in_diffD)
  have r: "lru_ref e = int (count (H - {#i#}) i) + of_bool (in_cache e) + 1" using h e n by (auto simp: handles_ok_def)
  show ?thesis
    by (rule unref_core [OF h' _ d e r l]) (use h e that in \<open>auto simp: handles_ok_def\<close>)
qed

lemma erase_ok:
  assumes ok: "core_ok c H" and i: "lru_handles c i = Some e" "in_cache e"
  obtains c' where "erase_node i c = Ok c'" "core_ok c' H" "lru_size c' = lru_size c - 1"
    "handle_step i (e\<lparr>in_cache := False\<rparr>) (e\<lparr>in_cache := False, lru_ref := lru_ref e - 1\<rparr>) c c'"
    "not_use c' = remove1 i (not_use c)" "in_use c' = remove1 i (in_use c)"
proof -
  let ?c = "lru_set i (e\<lparr>in_cache := False\<rparr>)
    (c\<lparr>not_use := remove1 i (not_use c), in_use := remove1 i (in_use c), lru_size := lru_size c - 1\<rparr>)"
  have h: "handles_ok c H" and l: "lists_ok c" using ok by (simp_all add: core_ok_def)
  have m: "i \<in> set (not_use c) \<and> i \<notin> set (in_use c) \<or> i \<in> set (in_use c) \<and> i \<notin> set (not_use c)"
    using l i by (auto simp: lists_ok_def)
  have s: "lru_size c - 1 = length (remove1 i (not_use c)) + length (remove1 i (in_use c))"
    using m l remove1_length [of i "not_use c"] remove1_length [of i "in_use c"] by (auto simp: lists_ok_def remove1_idem)
  have l': "lists_ok ?c" using l i s by (auto simp: lists_ok_def)
  have h': "lru_ref f = int (count H j) + of_bool (in_cache f) \<and> (in_cache f \<or> j \<in># H)"
    if "j \<noteq> i" "lru_handles ?c j = Some f" for j f
    using h that by (auto simp: handles_ok_def)
  have d: "dom (lru_handles ?c) \<subseteq> {..<lru_next ?c}" "set_mset H \<subseteq> dom (lru_handles ?c)"
    using h i by (auto simp: handles_ok_def)
  have e: "lru_handles ?c i = Some (e\<lparr>in_cache := False\<rparr>)" by simp
  have r: "lru_ref (e\<lparr>in_cache := False\<rparr>) = int (count H i) + of_bool (in_cache (e\<lparr>in_cache := False\<rparr>)) + 1"
    using h i by (simp add: handles_ok_def)
  obtain c' where c': "lru_unref i ?c = Ok c'" "core_ok c' H" "lru_size c' = lru_size ?c"
    "handle_step i (e\<lparr>in_cache := False\<rparr>) (e\<lparr>in_cache := False, lru_ref := lru_ref e - 1\<rparr>) ?c c'"
    "not_use c' = not_use ?c" "in_use c' = in_use ?c"
    by (rule unref_core [OF h' d e r l']) auto
  have "erase_node i c = Ok c'" using i c'(1) by (simp add: erase_node_def)
  moreover have "handle_step i (e\<lparr>in_cache := False\<rparr>) (e\<lparr>in_cache := False, lru_ref := lru_ref e - 1\<rparr>) c c'"
    using c'(4) by (simp add: handle_step_def)
  ultimately show ?thesis using that c'(2,3,5,6) by simp
qed

lemma core_finite: "core_ok c H \<Longrightarrow> finite (dom (lru_handles c))"
  using finite_handles [of c H] by (simp add: core_ok_def)

lemma handle_step_values:
  assumes h: "handle_step i e e' c c'" and i: "lru_handles c i = Some f" "lru_value f = lru_value e"
    and fin: "finite (dom (lru_handles c))"
  shows "lru_values c' = lru_values c"
proof -
  have d: "i \<in> dom (lru_handles c)" using i by auto
  consider "lru_handles c' = (lru_handles c)(i \<mapsto> e')" "deleted_values c' = deleted_values c" "lru_value e' = lru_value e"
    | "lru_handles c' = (lru_handles c)(i := None)" "deleted_values c' = deleted_values c @ [lru_value e]"
    using h by (auto simp: handle_step_def)
  then show ?thesis
  proof cases
    case 1
    then show ?thesis
      using lru_values_same [of c i f e'] i d by (simp add: lru_values_def insert_absorb)
  next
    case 2
    have "(\<Sum>j\<in>dom (lru_handles c). {#lru_value (the (lru_handles c j))#})
        = {#lru_value f#} + (\<Sum>j\<in>dom (lru_handles c) - {i}. {#lru_value (the (lru_handles c j))#})"
      using sum.remove [OF fin d, of "\<lambda>j. {#lru_value (the (lru_handles c j))#}"] i by simp
    moreover have "(\<Sum>j\<in>dom (lru_handles c) - {i}. {#lru_value (the (((lru_handles c)(i := None)) j))#})
        = (\<Sum>j\<in>dom (lru_handles c) - {i}. {#lru_value (the (lru_handles c j))#})"
      by (rule sum.cong) auto
    ultimately show ?thesis using 2 i by (simp add: lru_values_def)
  qed
qed

text \<open>What the cache gives for a key, and a cache that has lost entries but changed none.\<close>

definition lru_lookup :: "('k, 'v) lru \<Rightarrow> 'k \<rightharpoonup> 'v" where
  "lru_lookup c k = (case cache_map c k of None \<Rightarrow> None | Some i \<Rightarrow> map_option lru_value (lru_handles c i))"

definition shrinks :: "('k, 'v) lru \<Rightarrow> ('k, 'v) lru \<Rightarrow> bool" where
  "shrinks c c' \<longleftrightarrow> (\<forall>j f. lru_handles c' j = Some f \<longrightarrow> (\<exists>e. lru_handles c j = Some e \<and> lru_value f = lru_value e))
     \<and> cache_map c' \<subseteq>\<^sub>m cache_map c \<and> lru_values c' = lru_values c \<and> lru_max_size c' = lru_max_size c \<and> lru_next c' = lru_next c"

lemma shrinks_refl [simp]: "shrinks c c"
  by (simp add: shrinks_def)

lemma shrinks_trans: "shrinks c c' \<Longrightarrow> shrinks c' c'' \<Longrightarrow> shrinks c c''"
  unfolding shrinks_def by (metis map_le_trans)

lemma shrinks_lookup:
  assumes "shrinks c c'" and "lru_inv c' H"
  shows "lru_lookup c' \<subseteq>\<^sub>m lru_lookup c"
  unfolding map_le_def
proof
  fix k
  assume "k \<in> dom (lru_lookup c')"
  then obtain i f where c': "cache_map c' k = Some i" "lru_handles c' i = Some f" "lru_lookup c' k = Some (lru_value f)"
    by (auto simp: lru_lookup_def split: option.splits)
  then have "cache_map c k = Some i" using assms(1) by (auto simp: shrinks_def map_le_def dom_def)
  moreover obtain e where "lru_handles c i = Some e" "lru_value f = lru_value e"
    using assms(1) c'(2) by (auto simp: shrinks_def)
  ultimately show "lru_lookup c' k = lru_lookup c k" using c' by (simp add: lru_lookup_def)
qed

text \<open>An entry leaves the cache.\<close>

lemma core_cong:
  "lru_handles c' = lru_handles c \<Longrightarrow> lru_next c' = lru_next c \<Longrightarrow> not_use c' = not_use c \<Longrightarrow> in_use c' = in_use c \<Longrightarrow>
   lru_size c' = lru_size c \<Longrightarrow> core_ok c' H = core_ok c H"
  by (simp add: core_ok_def handles_ok_def lists_ok_def)

lemma values_cong: "lru_handles c' = lru_handles c \<Longrightarrow> deleted_values c' = deleted_values c \<Longrightarrow> lru_values c' = lru_values c"
  by (simp add: lru_values_def)

lemma drop_ok:
  assumes inv: "lru_inv c H" and i: "lru_handles c i = Some e" "in_cache e"
  obtains c' where "erase_node i (c\<lparr>cache_map := (cache_map c)(lru_key e := None)\<rparr>) = Ok c'" "lru_inv c' H" "shrinks c c'"
    "lru_size c' = lru_size c - 1" "not_use c' = remove1 i (not_use c)" "in_use c' = remove1 i (in_use c)"
    "lru_lookup c' = (lru_lookup c)(lru_key e := None)"
proof -
  let ?c = "c\<lparr>cache_map := (cache_map c)(lru_key e := None)\<rparr>"
  have core: "core_ok ?c H" and m: "map_ok c" using inv core_cong [of ?c c H] by (simp_all add: lru_inv_def)
  from i have i': "lru_handles ?c i = Some e" by simp
  from erase_ok [OF core i' i(2)] obtain c' where c': "erase_node i ?c = Ok c'" "core_ok c' H" "lru_size c' = lru_size ?c - 1"
    "handle_step i (e\<lparr>in_cache := False\<rparr>) (e\<lparr>in_cache := False, lru_ref := lru_ref e - 1\<rparr>) ?c c'"
    "not_use c' = remove1 i (not_use ?c)" "in_use c' = remove1 i (in_use ?c)" by blast
  have other: "lru_handles c' j = lru_handles c j" if "j \<noteq> i" for j using c'(4) that by (auto simp: handle_step_def)
  have own: "f = e\<lparr>in_cache := False, lru_ref := lru_ref e - 1\<rparr>" if "lru_handles c' i = Some f" for f
    using c'(4) that by (auto simp: handle_step_def)
  have cm: "cache_map c' = (cache_map c)(lru_key e := None)" "lru_max_size c' = lru_max_size c" "lru_next c' = lru_next c"
    using c'(4) by (simp_all add: handle_step_def)
  have k: "cache_map c (lru_key e) = Some i" using m i by (auto simp: map_ok_def)
  have "map_ok c'"
    unfolding map_ok_def
  proof (intro allI)
    fix k' j
    show "(cache_map c' k' = Some j) = (\<exists>f. lru_handles c' j = Some f \<and> in_cache f \<and> lru_key f = k')"
    proof (cases "j = i")
      case True
      then show ?thesis using own m i by (auto simp: cm map_ok_def)
    next
      case False
      have "(\<exists>f. lru_handles c' j = Some f \<and> in_cache f \<and> lru_key f = k') \<longleftrightarrow> cache_map c k' = Some j"
        using m other [OF False] by (simp add: map_ok_def)
      then show ?thesis using k False by (auto simp: cm)
    qed
  qed
  then have inv': "lru_inv c' H" using c'(2) by (simp add: lru_inv_def)
  have "lru_values c' = lru_values ?c" by (rule handle_step_values [OF c'(4) i' _ core_finite [OF core]]) simp
  then have vals: "lru_values c' = lru_values c" using values_cong [of ?c c] by simp
  have v: "\<exists>e. lru_handles c j = Some e \<and> lru_value f = lru_value e" if "lru_handles c' j = Some f" for j f
    using that other [of j] own [of f] i by (cases "j = i") simp_all
  have "cache_map c' \<subseteq>\<^sub>m cache_map c" by (simp add: cm map_le_def)
  with v vals cm(2,3) have "shrinks c c'" unfolding shrinks_def by blast
  moreover have "lru_lookup c' = (lru_lookup c)(lru_key e := None)"
  proof
    fix k'
    show "lru_lookup c' k' = ((lru_lookup c)(lru_key e := None)) k'"
    proof (cases "cache_map c k'")
      case (Some j)
      have "k' = lru_key e" if "j = i" using m i Some that by (auto simp: map_ok_def)
      then show ?thesis using other [of j] Some by (cases "j = i") (auto simp: lru_lookup_def cm)
    qed (simp add: lru_lookup_def cm)
  qed
  ultimately show ?thesis using that c' inv' by simp
qed


text \<open>The eviction loop, given as many turns as there are unused handles and one more.\<close>

lemma not_use_member:
  "lru_inv c H \<Longrightarrow> i \<in> set (not_use c) \<Longrightarrow> \<exists>e. lru_handles c i = Some e \<and> in_cache e \<and> lru_ref e = 1"
  by (auto simp: lru_inv_def core_ok_def lists_ok_def)

lemma evict_ok:
  assumes "lru_inv c H" and "length (not_use c) < fuel"
  shows "\<exists>c'. lru_evict fuel c = Ok c' \<and> lru_inv c' H \<and> shrinks c c' \<and> in_use c' = in_use c
    \<and> (lru_size c' \<le> lru_max_size c \<or> not_use c' = [])"
  using assms
proof (induction fuel arbitrary: c)
  case (Suc fuel)
  show ?case
  proof (cases "lru_max_size c < lru_size c \<and> not_use c \<noteq> []")
    case True
    then have h: "hd (not_use c) \<in> set (not_use c)" by simp
    from not_use_member [OF Suc.prems(1) h] obtain e where
      e: "lru_handles c (hd (not_use c)) = Some e" "in_cache e" "lru_ref e = 1" by blast
    from drop_ok [OF Suc.prems(1) e(1,2)] obtain c1 where
      c1: "erase_node (hd (not_use c)) (c\<lparr>cache_map := (cache_map c)(lru_key e := None)\<rparr>) = Ok c1" "lru_inv c1 H" "shrinks c c1"
        "not_use c1 = remove1 (hd (not_use c)) (not_use c)" "in_use c1 = remove1 (hd (not_use c)) (in_use c)" by blast
    have "hd (not_use c) \<notin> set (in_use c)" using Suc.prems(1) e by (auto simp: lru_inv_def core_ok_def lists_ok_def)
    then have iu: "in_use c1 = in_use c" by (simp add: c1(5) remove1_idem)
    have "length (not_use c1) < fuel" using Suc.prems(2) remove1_length [OF h] by (simp add: c1(4))
    from Suc.IH [OF c1(2) this] obtain c' where c': "lru_evict fuel c1 = Ok c'" "lru_inv c' H" "shrinks c1 c'"
      "in_use c' = in_use c1" "lru_size c' \<le> lru_max_size c1 \<or> not_use c' = []" by blast
    have "lru_evict (Suc fuel) c = Ok c'" using True e c1(1) c'(1) by simp
    moreover have "lru_max_size c1 = lru_max_size c" using c1(3) by (simp add: shrinks_def)
    ultimately show ?thesis using c' iu c1(3) shrinks_trans by metis
  next
    case False
    then show ?thesis using Suc.prems by auto
  qed
qed simp

section \<open>Operations\<close>

lemma get_ok:
  assumes "lru_inv c H"
  shows "\<exists>r c'. lru_get k c = Ok (r, c') \<and> lru_inv c' (H + mset_set (set_option r)) \<and> shrinks c c'
    \<and> lru_lookup c' = lru_lookup c \<and> r = cache_map c k \<and> cache_map c' = cache_map c"
proof (cases "cache_map c k")
  case None
  then show ?thesis using assms by (simp add: lru_get_def)
next
  case (Some i)
  with assms obtain e where e: "lru_handles c i = Some e" by (auto simp: lru_inv_def map_ok_def)
  have core: "core_ok c H" and m: "map_ok c" using assms by (simp_all add: lru_inv_def)
  obtain c' where c': "lru_take i c = Ok c'" "core_ok c' (add_mset i H)"
    "handle_step i e (e\<lparr>lru_ref := lru_ref e + 1\<rparr>) c c'" "lru_handles c' i \<noteq> None"
    by (rule take_ok [OF core e]) (rule that)
  have h: "lru_handles c' = (lru_handles c)(i \<mapsto> e\<lparr>lru_ref := lru_ref e + 1\<rparr>)" "cache_map c' = cache_map c"
    "lru_max_size c' = lru_max_size c" "lru_next c' = lru_next c" using c'(3,4) by (auto simp: handle_step_def)
  have "map_ok c'" using m e by (auto simp: map_ok_def h)
  moreover have "lru_values c' = lru_values c" by (rule handle_step_values [OF c'(3) e _ core_finite [OF core]]) simp
  then have "shrinks c c'" using e by (simp add: shrinks_def h)
  moreover have "lru_lookup c' = lru_lookup c" by (rule ext) (auto simp: lru_lookup_def h e split: option.split)
  ultimately show ?thesis using Some c' h(2) by (simp add: lru_get_def lru_inv_def)
qed

lemma release_ok:
  assumes "lru_inv c H" and "i \<in># H"
  shows "\<exists>c'. lru_release i c = Ok c' \<and> lru_inv c' (H - {#i#}) \<and> shrinks c c' \<and> lru_lookup c' = lru_lookup c
    \<and> lru_size c' = lru_size c \<and> cache_map c' = cache_map c"
proof -
  have core: "core_ok c H" and m: "map_ok c" using assms by (simp_all add: lru_inv_def)
  from lru_unref_ok [OF core assms(2)] obtain c' e where c': "lru_unref i c = Ok c'" "core_ok c' (H - {#i#})"
    "lru_handles c i = Some e" "handle_step i e (e\<lparr>lru_ref := lru_ref e - 1\<rparr>) c c'" "lru_size c' = lru_size c" by blast
  have h: "cache_map c' = cache_map c" "lru_max_size c' = lru_max_size c" "lru_next c' = lru_next c"
    using c'(4) by (auto simp: handle_step_def)
  have o: "lru_handles c' j = lru_handles c j" if "j \<noteq> i" for j using c'(4) that by (auto simp: handle_step_def)
  have "lru_handles c' i = Some (e\<lparr>lru_ref := lru_ref e - 1\<rparr>) \<or> lru_handles c' i = None \<and> \<not> in_cache e"
    using c'(4) by (auto simp: handle_step_def)
  then have ic: "(\<exists>f. lru_handles c' j = Some f \<and> in_cache f \<and> P (lru_key f) (lru_value f))
      \<longleftrightarrow> (\<exists>f. lru_handles c j = Some f \<and> in_cache f \<and> P (lru_key f) (lru_value f))" for j P
    using o [of j] c'(3) by (cases "j = i") auto
  have "map_ok c'" using m ic [of _ "\<lambda>k v. k = _"] by (simp add: map_ok_def h)
  then have inv': "lru_inv c' (H - {#i#})" using c'(2) by (simp add: lru_inv_def)
  have "lru_values c' = lru_values c" by (rule handle_step_values [OF c'(4,3) _ core_finite [OF core]]) simp
  moreover have "\<exists>e. lru_handles c j = Some e \<and> lru_value f = lru_value e" if "lru_handles c' j = Some f" for j f
    using that o [of j] c'(3,4) by (cases "j = i") (auto simp: handle_step_def)
  ultimately have "shrinks c c'" unfolding shrinks_def by (simp add: h)
  moreover have "lru_lookup c' = lru_lookup c"
  proof
    fix k
    show "lru_lookup c' k = lru_lookup c k"
    proof (cases "cache_map c k")
      case (Some j)
      then obtain f where f: "lru_handles c j = Some f" "in_cache f" using m by (auto simp: map_ok_def)
      then obtain g where "lru_handles c' j = Some g" "lru_value g = lru_value f"
        using ic [of j "\<lambda>k v. v = lru_value f"] by auto
      then show ?thesis using Some f by (simp add: lru_lookup_def h)
    qed (simp add: lru_lookup_def h)
  qed
  ultimately show ?thesis using c'(1,5) inv' h(1) by (simp add: lru_release_def)
qed

text \<open>The new handle is in the cache and used; it takes the place of the handle of the same key.\<close>

definition lru_insert :: "'k \<Rightarrow> 'v \<Rightarrow> ('k, 'v) lru \<Rightarrow> ('k, 'v) lru" where
  "lru_insert k v c = c\<lparr>lru_handles := (lru_handles c)(lru_next c \<mapsto> \<lparr>lru_value = v, lru_key = k, in_cache = True, lru_ref = 2\<rparr>),
     lru_next := Suc (lru_next c), in_use := in_use c @ [lru_next c], lru_size := lru_size c + 1,
     cache_map := (cache_map c)(k \<mapsto> lru_next c)\<rparr>"

lemma fresh_handle: "core_ok c H \<Longrightarrow> lru_handles c (lru_next c) = None \<and> lru_next c \<notin># H"
  by (force simp: core_ok_def handles_ok_def)

lemma insert_core:
  assumes "core_ok c H"
  shows "core_ok (lru_insert k v c) (add_mset (lru_next c) H)" and "lru_values (lru_insert k v c) = add_mset v (lru_values c)"
proof -
  let ?i = "lru_next c" and ?e = "\<lparr>lru_value = v, lru_key = k, in_cache = True, lru_ref = 2\<rparr>"
  have n: "lru_handles c ?i = None" "count H ?i = 0" using fresh_handle [OF assms] by (simp_all add: count_eq_zero_iff)
  have h: "handles_ok c H" and l: "lists_ok c" using assms by (simp_all add: core_ok_def)
  have "handles_ok (lru_insert k v c) (add_mset ?i H)"
    using h n by (auto simp: handles_ok_def lru_insert_def)
  moreover have "lists_ok (lru_insert k v c)"
    using l n by (auto simp: lists_ok_def lru_insert_def)
  ultimately show "core_ok (lru_insert k v c) (add_mset ?i H)" by (simp add: core_ok_def)
  have "?i \<notin> dom (lru_handles c)" using n by auto
  moreover have "(\<Sum>j\<in>dom (lru_handles c). {#lru_value (the (((lru_handles c)(?i \<mapsto> ?e)) j))#})
      = (\<Sum>j\<in>dom (lru_handles c). {#lru_value (the (lru_handles c j))#})"
    using n by (intro sum.cong) auto
  ultimately show "lru_values (lru_insert k v c) = add_mset v (lru_values c)"
    using finite_handles [OF h] by (simp add: lru_values_def lru_insert_def)
qed

lemma replace_ok:
  assumes inv: "lru_inv c H"
  shows "\<exists>c'. (case cache_map c k of Some j \<Rightarrow> erase_node j (lru_insert k v c) | None \<Rightarrow> Ok (lru_insert k v c)) = Ok c'
    \<and> lru_inv c' (add_mset (lru_next c) H) \<and> lru_lookup c' = (lru_lookup c)(k \<mapsto> v) \<and> cache_map c' k = Some (lru_next c)
    \<and> lru_values c' = add_mset v (lru_values c) \<and> lru_max_size c' = lru_max_size c \<and> lru_next c \<in> set (in_use c')"
proof (cases "cache_map c k")
  case None
  let ?c = "lru_insert k v c"
  have core: "core_ok c H" and m: "map_ok c" using inv by (simp_all add: lru_inv_def)
  note n = fresh_handle [OF core]
  have m': "cache_map c (lru_key f) = Some l" if "lru_handles c l = Some f" "in_cache f" for l f
    using m that by (auto simp: map_ok_def)
  have "map_ok ?c" using m None n by (auto simp: map_ok_def lru_insert_def dest: m')
  moreover have "lru_lookup ?c = (lru_lookup c)(k \<mapsto> v)"
  proof
    fix k'
    have "cache_map c k' \<noteq> Some (lru_next c)" using m n by (auto simp: map_ok_def)
    then show "lru_lookup ?c k' = ((lru_lookup c)(k \<mapsto> v)) k'" by (auto simp: lru_lookup_def lru_insert_def split: option.split)
  qed
  ultimately show ?thesis using None insert_core [OF core, of k v] by (simp add: lru_inv_def) (simp add: lru_insert_def)
next
  case (Some j)
  let ?i = "lru_next c" and ?c = "lru_insert k v c"
  have core: "core_ok c H" and m: "map_ok c" using inv by (simp_all add: lru_inv_def)
  note n = fresh_handle [OF core]
  from m Some obtain e where e: "lru_handles c j = Some e" "in_cache e" "lru_key e = k" by (auto simp: map_ok_def)
  have ji: "j \<noteq> ?i" using e n by auto
  then have e': "lru_handles ?c j = Some e" using e by (simp add: lru_insert_def)
  obtain c' where c': "erase_node j ?c = Ok c'" "core_ok c' (add_mset ?i H)"
    "handle_step j (e\<lparr>in_cache := False\<rparr>) (e\<lparr>in_cache := False, lru_ref := lru_ref e - 1\<rparr>) ?c c'"
    "in_use c' = remove1 j (in_use ?c)"
    by (rule erase_ok [OF insert_core(1) [OF core] e' e(2)]) (rule that)
  have o: "lru_handles c' l = lru_handles ?c l" if "l \<noteq> j" for l using c'(3) that by (auto simp: handle_step_def)
  have own: "\<not> in_cache f" if "lru_handles c' j = Some f" for f using c'(3) that by (auto simp: handle_step_def)
  have cm: "cache_map c' = (cache_map c)(k \<mapsto> ?i)" "lru_max_size c' = lru_max_size c"
    using c'(3) by (simp_all add: handle_step_def lru_insert_def)
  have hs: "lru_handles c' l = (if l = ?i then Some \<lparr>lru_value = v, lru_key = k, in_cache = True, lru_ref = 2\<rparr> else lru_handles c l)"
    if "l \<noteq> j" for l using o [OF that] by (simp add: lru_insert_def)
  have only: "cache_map c k' = Some j \<longleftrightarrow> k' = k" for k' using m e Some by (auto simp: map_ok_def)
  have "map_ok c'"
    unfolding map_ok_def
  proof (intro allI)
    fix k' l
    show "(cache_map c' k' = Some l) = (\<exists>f. lru_handles c' l = Some f \<and> in_cache f \<and> lru_key f = k')"
    proof (cases "l = j")
      case True
      then show ?thesis using own ji only [of k'] by (auto simp: cm)
    next
      case False
      show ?thesis
      proof (cases "l = ?i")
        case True
        then show ?thesis using hs [OF False] m n by (auto simp: cm map_ok_def)
      next
        case other: False
        have "(\<exists>f. lru_handles c' l = Some f \<and> in_cache f \<and> lru_key f = k') \<longleftrightarrow> cache_map c k' = Some l"
          using hs [OF False] other m by (simp add: map_ok_def)
        then show ?thesis using Some other False by (auto simp: cm)
      qed
    qed
  qed
  moreover have "lru_lookup c' = (lru_lookup c)(k \<mapsto> v)"
  proof
    fix k'
    have "cache_map c k' \<noteq> Some ?i" using m n by (auto simp: map_ok_def)
    then show "lru_lookup c' k' = ((lru_lookup c)(k \<mapsto> v)) k'"
      using ji only [of k'] hs by (auto simp: lru_lookup_def cm split: option.split)
  qed
  moreover have "lru_values c' = lru_values ?c" by (rule handle_step_values [OF c'(3) e' _ core_finite [OF insert_core(1) [OF core]]]) simp
  moreover have "?i \<in> set (in_use c')" using ji by (simp add: c'(4) lru_insert_def)
  ultimately show ?thesis using Some c'(1,2) insert_core(2) [OF core, of k v] by (simp add: lru_inv_def cm)
qed

lemma lru_put_eq:
  "lru_put k v c = cbind (case cache_map c k of Some j \<Rightarrow> erase_node j (lru_insert k v c) | None \<Rightarrow> Ok (lru_insert k v c)) (\<lambda>c'.
     cbind (if lru_max_size c' > 0 then lru_evict (Suc (length (not_use c'))) c' else Ok c') (\<lambda>c'. Ok (lru_next c, c')))"
  unfolding lru_put_def lru_insert_def Let_def by (rule refl)

lemma put_ok:
  assumes "lru_inv c H"
  shows "\<exists>c'. lru_put k v c = Ok (lru_next c, c') \<and> lru_inv c' (add_mset (lru_next c) H) \<and> lru_lookup c' k = Some v
    \<and> lru_lookup c' \<subseteq>\<^sub>m (lru_lookup c)(k \<mapsto> v) \<and> lru_values c' = add_mset v (lru_values c)
    \<and> (lru_max_size c = 0 \<or> lru_size c' \<le> lru_max_size c \<or> not_use c' = [])"
proof -
  let ?i = "lru_next c"
  from replace_ok [OF assms, of k v] obtain c1 where
    c1: "(case cache_map c k of Some j \<Rightarrow> erase_node j (lru_insert k v c) | None \<Rightarrow> Ok (lru_insert k v c)) = Ok c1"
      "lru_inv c1 (add_mset ?i H)" "lru_lookup c1 = (lru_lookup c)(k \<mapsto> v)" "cache_map c1 k = Some ?i"
      "lru_values c1 = add_mset v (lru_values c)" "lru_max_size c1 = lru_max_size c" "?i \<in> set (in_use c1)" by blast
  show ?thesis
  proof (cases "lru_max_size c = 0")
    case True
    then show ?thesis using c1 by (simp add: lru_put_eq)
  next
    case False
    from evict_ok [OF c1(2), of "Suc (length (not_use c1))"] obtain c' where
      c': "lru_evict (Suc (length (not_use c1))) c1 = Ok c'" "lru_inv c' (add_mset ?i H)" "shrinks c1 c'" "in_use c' = in_use c1"
        "lru_size c' \<le> lru_max_size c1 \<or> not_use c' = []" by blast
    have "lru_lookup c' \<subseteq>\<^sub>m lru_lookup c1" by (rule shrinks_lookup [OF c'(3,2)])
    moreover have "lru_lookup c' k = Some v"
    proof -
      have "?i \<in> set (in_use c')" using c1(7) c'(4) by simp
      then obtain f where f: "lru_handles c' ?i = Some f" "in_cache f" using c'(2) by (auto simp: lru_inv_def core_ok_def lists_ok_def)
      then have m: "cache_map c' (lru_key f) = Some ?i" using c'(2) by (auto simp: lru_inv_def map_ok_def)
      moreover have "cache_map c' \<subseteq>\<^sub>m cache_map c1" using c'(3) by (simp add: shrinks_def)
      ultimately have "cache_map c1 (lru_key f) = Some ?i" by (metis domI map_le_def)
      then have "lru_key f = k" using c1(2,4) by (auto simp: lru_inv_def map_ok_def)
      then have k: "k \<in> dom (lru_lookup c')" using m f by (auto simp: lru_lookup_def)
      have "lru_lookup c' k = lru_lookup c1 k"
        using shrinks_lookup [OF c'(3,2)] k by (auto simp: map_le_def)
      then show ?thesis by (simp add: c1(3))
    qed
    moreover have "lru_put k v c = Ok (?i, c')" using False c1(1,6) c'(1) by (simp add: lru_put_eq del: lru_evict.simps)
    moreover have "lru_values c' = lru_values c1" using c'(3) by (simp add: shrinks_def)
    ultimately show ?thesis using c1(3,5,6) c'(2,5) by auto
  qed
qed

lemma del_ok:
  assumes "lru_inv c H"
  shows "\<exists>c'. lru_del k c = Ok c' \<and> lru_inv c' H \<and> lru_lookup c' = (lru_lookup c)(k := None) \<and> lru_values c' = lru_values c
    \<and> lru_max_size c' = lru_max_size c"
proof -
  from get_ok [OF assms, of k] obtain c1 where c1: "lru_get k c = Ok (cache_map c k, c1)"
    "lru_inv c1 (H + mset_set (set_option (cache_map c k)))" "shrinks c c1" "lru_lookup c1 = lru_lookup c" "cache_map c1 = cache_map c"
    by blast
  show ?thesis
  proof (cases "cache_map c k")
    case None
    then have "lru_lookup c k = None" by (simp add: lru_lookup_def)
    then show ?thesis using None c1 by (simp add: lru_del_def shrinks_def fun_upd_idem)
  next
    case (Some i)
    from release_ok [OF c1(2), of i] Some obtain c2 where
      c2: "lru_unref i c1 = Ok c2" "lru_inv c2 H" "shrinks c1 c2" "lru_lookup c2 = lru_lookup c1" "cache_map c2 = cache_map c1"
      by (auto simp: lru_release_def)
    then have "cache_map c2 k = Some i" using c1(5) Some by simp
    then obtain e where e: "lru_handles c2 i = Some e" "in_cache e" "lru_key e = k" using c2(2) by (auto simp: lru_inv_def map_ok_def)
    obtain c' where c': "erase_node i (c2\<lparr>cache_map := (cache_map c2)(lru_key e := None)\<rparr>) = Ok c'" "lru_inv c' H" "shrinks c2 c'"
      "lru_lookup c' = (lru_lookup c2)(lru_key e := None)"
      by (rule drop_ok [OF c2(2) e(1,2)]) (rule that)
    have "lru_del k c = Ok c'" using c1(1) Some c2(1) c'(1) e(3) by (simp add: lru_del_def)
    then show ?thesis using c' c1(3,4) c2(3,4) e(3) by (simp add: shrinks_def)
  qed
qed

lemma prune_ok:
  assumes "lru_inv c H"
  shows "\<exists>c'. lru_prune c = Ok c' \<and> lru_inv c' H \<and> shrinks c c' \<and> not_use c' = []"
proof -
  have "\<exists>c'. lru_prune_loop xs c = Ok c' \<and> lru_inv c' H \<and> shrinks c c' \<and> not_use c' = []" if "lru_inv c H" "not_use c = xs" for xs c
    using that
  proof (induction xs arbitrary: c)
    case (Cons i xs)
    from not_use_member [OF Cons.prems(1), of i] Cons.prems(2) obtain e where
      e: "lru_handles c i = Some e" "in_cache e" "lru_ref e = 1" by auto
    obtain c1 where c1: "erase_node i (c\<lparr>cache_map := (cache_map c)(lru_key e := None)\<rparr>) = Ok c1" "lru_inv c1 H" "shrinks c c1"
      "not_use c1 = remove1 i (not_use c)"
      by (rule drop_ok [OF Cons.prems(1) e(1,2)]) (rule that)
    from Cons.IH [OF c1(2)] obtain c' where "lru_prune_loop xs c1 = Ok c'" "lru_inv c' H" "shrinks c1 c'" "not_use c' = []"
      using c1(4) Cons.prems(2) by auto
    then show ?case using e c1 by (auto intro: shrinks_trans)
  qed simp
  from this [OF assms refl] show ?thesis by (simp add: lru_prune_def)
qed

lemma destroy_ok:
  assumes "lru_inv c {#}"
  shows "\<exists>c'. lru_destroy c = Ok c' \<and> lru_handles c' = Map.empty \<and> mset (deleted_values c') = lru_values c"
proof -
  have h: "handles_ok c {#}" and l: "lists_ok c" using assms by (simp_all add: lru_inv_def core_ok_def)
  have one: "in_cache e \<and> lru_ref e = 1" if "lru_handles c i = Some e" for i e using h that by (simp add: handles_ok_def)
  have "\<exists>c'. lru_destroy_loop xs c = Ok c' \<and> lru_handles c' = (lru_handles c) |` (- set xs) \<and> lru_values c' = lru_values c"
    if "finite (dom (lru_handles c))" "distinct xs" "\<And>i. i \<in> set xs \<Longrightarrow> \<exists>e. lru_handles c i = Some e \<and> in_cache e \<and> lru_ref e = 1" for xs c
    using that
  proof (induction xs arbitrary: c)
    case (Cons i xs)
    from Cons.prems(3) [of i] obtain e where e: "lru_handles c i = Some e" "in_cache e" "lru_ref e = 1" by auto
    let ?c = "(lru_set i (e\<lparr>in_cache := False, lru_ref := 0\<rparr>) c)\<lparr>deleted_values := deleted_values c @ [lru_value e],
      lru_handles := (lru_handles c)(i := None)\<rparr>"
    have u: "lru_unref i (lru_set i (e\<lparr>in_cache := False\<rparr>) c) = Ok ?c"
      using e by (simp add: lru_unref_def lru_set_def Let_def)
    have v: "lru_values ?c = lru_values c"
      by (rule handle_step_values [of i "e\<lparr>in_cache := False\<rparr>" "e\<lparr>in_cache := False\<rparr>" c _ e])
        (use e Cons.prems(1) in \<open>simp_all add: handle_step_def\<close>)
    have "\<exists>c'. lru_destroy_loop xs ?c = Ok c' \<and> lru_handles c' = (lru_handles ?c) |` (- set xs) \<and> lru_values c' = lru_values ?c"
    proof (rule Cons.IH)
      show "finite (dom (lru_handles ?c))"
        by (rule finite_subset [OF _ Cons.prems(1)]) auto
    qed (use Cons.prems in auto)
    then obtain c' where "lru_destroy_loop xs ?c = Ok c'" "lru_handles c' = (lru_handles ?c) |` (- set xs)" "lru_values c' = lru_values ?c"
      by blast
    moreover have "(lru_handles ?c) |` (- set xs) = (lru_handles c) |` (- set (i # xs))" by (auto simp: restrict_map_def)
    ultimately show ?case using e u v by simp
  qed (simp add: restrict_map_def)
  from this [OF finite_handles [OF h], of "not_use c"] l obtain c' where
    c': "lru_destroy_loop (not_use c) c = Ok c'" "lru_handles c' = (lru_handles c) |` (- set (not_use c))" "lru_values c' = lru_values c"
    by (auto simp: lists_ok_def)
  have "in_use c = []" using l one by (auto simp: lists_ok_def simp flip: set_empty)
  moreover have "lru_handles c' = Map.empty"
    using c'(2) l one by (auto simp: lists_ok_def restrict_map_def fun_eq_iff)
  moreover have "mset (deleted_values c') = lru_values c" using c'(3) \<open>lru_handles c' = Map.empty\<close> by (simp add: lru_values_def)
  ultimately show ?thesis using c'(1) by (simp add: lru_destroy_def)
qed

section \<open>Histories\<close>

text \<open>What clients do with the cache. A client gives back a handle that it holds.\<close>

datatype ('k, 'v) lru_op = Put 'k 'v | Get 'k | Del 'k | Prune | Limit nat | Release nat

fun lru_step :: "('k, 'v) lru_op \<Rightarrow> ('k, 'v) lru \<times> nat multiset \<Rightarrow> (('k, 'v) lru \<times> nat multiset) cxx" where
  "lru_step (Put k v) (c, H) = cbind (lru_put k v c) (\<lambda>(i, c). Ok (c, add_mset i H))"
| "lru_step (Get k) (c, H) = cbind (lru_get k c) (\<lambda>(r, c). Ok (c, H + mset_set (set_option r)))"
| "lru_step (Del k) (c, H) = cbind (lru_del k c) (\<lambda>c. Ok (c, H))"
| "lru_step Prune (c, H) = cbind (lru_prune c) (\<lambda>c. Ok (c, H))"
| "lru_step (Limit n) (c, H) = Ok (set_max_size n c, H)"
| "lru_step (Release i) (c, H) = (if i \<in># H then cbind (lru_release i c) (\<lambda>c. Ok (c, H - {#i#})) else Ok (c, H))"

fun lru_run :: "('k, 'v) lru_op list \<Rightarrow> ('k, 'v) lru \<times> nat multiset \<Rightarrow> (('k, 'v) lru \<times> nat multiset) cxx" where
  "lru_run [] s = Ok s"
| "lru_run (op # ops) s = cbind (lru_step op s) (lru_run ops)"

fun put_value :: "('k, 'v) lru_op \<Rightarrow> 'v list" where
  "put_value (Put k v) = [v]"
| "put_value _ = []"

definition put_values :: "('k, 'v) lru_op list \<Rightarrow> 'v list" where
  "put_values ops = concat (map put_value ops)"

lemma limit_ok: "lru_inv c H \<Longrightarrow> lru_inv (set_max_size n c) H \<and> lru_values (set_max_size n c) = lru_values c"
  by (simp add: lru_inv_def core_ok_def handles_ok_def lists_ok_def map_ok_def lru_values_def set_max_size_def)

lemma step_ok:
  assumes "lru_inv c H"
  shows "\<exists>c' H'. lru_step op (c, H) = Ok (c', H') \<and> lru_inv c' H' \<and> lru_values c' = mset (put_value op) + lru_values c"
proof (cases op)
  case (Put k v)
  with put_ok [OF assms, of k v] show ?thesis by auto
next
  case (Get k)
  with get_ok [OF assms, of k] show ?thesis by (auto simp: shrinks_def)
next
  case (Del k)
  with del_ok [OF assms, of k] show ?thesis by auto
next
  case Prune
  with prune_ok [OF assms] show ?thesis by (auto simp: shrinks_def)
next
  case (Limit n)
  with limit_ok [OF assms] show ?thesis by simp
next
  case (Release i)
  with release_ok [OF assms, of i] assms show ?thesis by (auto simp: shrinks_def)
qed

lemma run_ok:
  assumes "lru_inv c H"
  shows "\<exists>c' H'. lru_run ops (c, H) = Ok (c', H') \<and> lru_inv c' H' \<and> lru_values c' = mset (put_values ops) + lru_values c"
  using assms
proof (induction ops arbitrary: c H)
  case (Cons op ops)
  from step_ok [OF Cons.prems, of op] obtain c1 H1 where
    1: "lru_step op (c, H) = Ok (c1, H1)" "lru_inv c1 H1" "lru_values c1 = mset (put_value op) + lru_values c" by blast
  from Cons.IH [OF 1(2)] 1 show ?case by (auto simp: put_values_def)
qed (simp add: put_values_def)

lemma new_ok: "lru_inv new_LRUCache {#}" "lru_values new_LRUCache = {#}"
  by (simp_all add: new_LRUCache_def lru_inv_def core_ok_def handles_ok_def lists_ok_def map_ok_def lru_values_def)

section \<open>Properties\<close>

text \<open>C25: Whatever its clients put, get, delete, prune and limit, in any order, and whenever they give their handles
  back: the cache never uses a handle that has been deleted, and no assertion of it fails.\<close>

theorem lru_never_dangles: "returns (lru_run ops (new_LRUCache, {#}))"
  using run_ok [OF new_ok(1), of ops] by auto

text \<open>C26: When the clients have given all their handles back, destroying the cache deletes the rest: every value
  that was ever put is deleted exactly once.\<close>

theorem lru_deletes_once:
  assumes "lru_run ops (new_LRUCache, {#}) = Ok (c, {#})"
  shows "\<exists>c'. lru_destroy c = Ok c' \<and> lru_handles c' = Map.empty \<and> mset (deleted_values c') = mset (put_values ops)"
proof -
  from run_ok [OF new_ok(1), of ops] assms have "lru_inv c {#}" "lru_values c = mset (put_values ops)"
    by (auto simp: new_ok(2))
  then show ?thesis using destroy_ok [of c] by simp
qed

theorem lru_deletes_once_witness:
  "\<exists>c c'. lru_run [Put ''a'' 1, Get ''a'', Put ''a'' 2, Release 1, Release 0, Release 0] (new_LRUCache, {#}) = Ok (c, {#})
    \<and> lru_destroy c = Ok c' \<and> mset (deleted_values c') = {#1, 2 :: nat#}"
proof -
  let ?ops = "[Put ''a'' 1, Get ''a'', Put ''a'' 2, Release 1, Release 0, Release 0] :: (string, nat) lru_op list"
  have "\<exists>c. lru_run ?ops (new_LRUCache, {#}) = Ok (c, {#})"
    by (simp add: new_LRUCache_def lru_put_def lru_get_def lru_take_def lru_at_def lru_set_def erase_node_def lru_unref_def
        lru_release_def move_in_use_def move_not_use_def Let_def)
  then obtain c where c: "lru_run ?ops (new_LRUCache, {#}) = Ok (c, {#})" ..
  then show ?thesis using lru_deletes_once [OF c] by (auto simp: put_values_def)
qed

text \<open>A value that has been put is found under its key; nothing else is in the cache than before, and a cache
  that has a limit and exceeds it afterwards contains no unused entry.\<close>

theorem lru_put_spec:
  assumes "lru_run ops (new_LRUCache, {#}) = Ok (c, H)"
  shows "\<exists>i c'. lru_put k v c = Ok (i, c') \<and> lru_lookup c' k = Some v \<and> lru_lookup c' \<subseteq>\<^sub>m (lru_lookup c)(k \<mapsto> v)
    \<and> (lru_max_size c = 0 \<or> lru_size c' \<le> lru_max_size c \<or> not_use c' = [])"
proof -
  from run_ok [OF new_ok(1), of ops] assms have "lru_inv c H" by auto
  from put_ok [OF this, of k v] show ?thesis by blast
qed

theorem lru_put_spec_witness:
  "\<exists>i c' :: (string, nat) lru. lru_put ''a'' 5 new_LRUCache = Ok (i, c') \<and> lru_lookup c' ''a'' = Some 5"
  using lru_put_spec [of "[]" new_LRUCache "{#}" "''a''" 5] by auto

end
