(* ===== verification/Dns_Cache.thy ===== *)
theory Dns_Cache
  imports LRU_Cache
begin

text \<open>
  The cache of resolved addresses (\<open>workflow/src/manager/DnsCache.cc\<close>) on top of \<open>LRU_Cache\<close>. Every operation
  holds the lock of the cache and is one step; the clock is an argument. An address list is a number,
  and the flag that marks it as being refreshed is kept with it.
\<close>

section \<open>Operations\<close>

record DnsCacheValue =
  addrinfo :: nat
  delayed :: bool
  confident_time :: int
  expire_time :: int

type_synonym HostPort = "string \<times> nat"
type_synonym dns_cache = "(HostPort, DnsCacheValue) lru"

datatype get_type = GET_TYPE_TTL | GET_TYPE_CONFIDENT

definition TTL_INC :: int where "TTL_INC = 5"

fun due_time :: "get_type \<Rightarrow> DnsCacheValue \<Rightarrow> int" where
  "due_time GET_TYPE_TTL v = expire_time v"
| "due_time GET_TYPE_CONFIDENT v = confident_time v"

text \<open>The first request after the time has come is refused, so that it resolves the name again; for the next
  seconds the old addresses are good for the others.\<close>

fun extend :: "get_type \<Rightarrow> DnsCacheValue \<Rightarrow> DnsCacheValue" where
  "extend GET_TYPE_TTL v = v\<lparr>expire_time := expire_time v + TTL_INC, delayed := True\<rparr>"
| "extend GET_TYPE_CONFIDENT v = v\<lparr>confident_time := confident_time v + TTL_INC, delayed := True\<rparr>"

definition dns_get_inner :: "get_type \<Rightarrow> int \<Rightarrow> HostPort \<Rightarrow> dns_cache \<Rightarrow> (nat option \<times> dns_cache) cxx" where
  "dns_get_inner ty cur k c = cbind (lru_get k c) (\<lambda>(handle, c). case handle of
     None \<Rightarrow> Ok (None, c)
   | Some i \<Rightarrow> cbind (lru_at i c) (\<lambda>e.
       if due_time ty (lru_value e) < cur then
         cbind (lru_release i (if delayed (lru_value e) then c else lru_set i (e\<lparr>lru_value := extend ty (lru_value e)\<rparr>) c))
           (\<lambda>c. Ok (None, c))
       else Ok (Some i, c)))"

text \<open>A time to live of -1 is for ever.\<close>

definition ttl_time :: "int \<Rightarrow> nat \<Rightarrow> int" where
  "ttl_time cur ttl = (if ttl = 2 ^ 32 - 1 then 2 ^ 63 - 1 else cur + int ttl)"

definition dns_put :: "int \<Rightarrow> HostPort \<Rightarrow> nat \<Rightarrow> nat \<Rightarrow> nat \<Rightarrow> dns_cache \<Rightarrow> (nat \<times> dns_cache) cxx" where
  "dns_put cur k ai dns_ttl_default dns_ttl_min c =
     lru_put k \<lparr>addrinfo = ai, delayed = False, confident_time = ttl_time cur (min dns_ttl_min dns_ttl_default),
       expire_time = ttl_time cur dns_ttl_default\<rparr> c"

text \<open>Clients that ask for a name one after the other, take the addresses they get and give the handle back.\<close>

fun dns_serve :: "get_type \<Rightarrow> HostPort \<Rightarrow> int list \<Rightarrow> dns_cache \<Rightarrow> (nat option list \<times> dns_cache) cxx" where
  "dns_serve ty k [] c = Ok ([], c)"
| "dns_serve ty k (t # ts) c = cbind (dns_get_inner ty t k c) (\<lambda>(handle, c).
     cbind (case handle of
         None \<Rightarrow> Ok (None, c)
       | Some i \<Rightarrow> cbind (lru_at i c) (\<lambda>e. cbind (lru_release i c) (\<lambda>c. Ok (Some (addrinfo (lru_value e)), c)))) (\<lambda>(r, c).
     cbind (dns_serve ty k ts c) (\<lambda>(rs, c). Ok (r # rs, c))))"

section \<open>Lemmas\<close>

text \<open>Changing the value of a handle in the cache.\<close>

lemma set_value_ok:
  fixes v
  assumes inv: "lru_inv c H" and e: "lru_handles c i = Some e" and k: "cache_map c k = Some i"
  defines "c' \<equiv> lru_set i (e\<lparr>lru_value := v\<rparr>) c"
  shows "lru_inv c' H" and "lru_lookup c' = (lru_lookup c)(k \<mapsto> v)" and "cache_map c' k = Some i"
proof -
  have m: "map_ok c" and h: "handles_ok c H" and l: "lists_ok c" using inv by (simp_all add: lru_inv_def core_ok_def)
  have "handles_ok c' H" using h e by (auto simp: handles_ok_def c'_def)
  moreover have "lists_ok c'" using l e by (auto simp: lists_ok_def c'_def)
  moreover have "map_ok c'" using m e by (auto simp: map_ok_def c'_def)
  ultimately show "lru_inv c' H" by (simp add: lru_inv_def core_ok_def)
  show "lru_lookup c' = (lru_lookup c)(k \<mapsto> v)"
  proof
    fix k'
    have only: "k' = k" if "cache_map c k' = Some i" using m k that by (auto simp: map_ok_def)
    show "lru_lookup c' k' = ((lru_lookup c)(k \<mapsto> v)) k'"
    proof (cases "k' = k")
      case True
      then show ?thesis using k by (simp add: lru_lookup_def c'_def)
    next
      case False
      then show ?thesis using only by (cases "cache_map c k'") (auto simp: lru_lookup_def c'_def)
    qed
  qed
  show "cache_map c' k = Some i" using k by (simp add: c'_def)
qed

text \<open>What a request for a name in the cache does.\<close>

lemma get_inner_ok:
  assumes inv: "lru_inv c H" and v: "lru_lookup c k = Some v"
  shows "due_time ty v < cur \<Longrightarrow> \<exists>c'. dns_get_inner ty cur k c = Ok (None, c') \<and> lru_inv c' H
      \<and> lru_lookup c' = (if delayed v then lru_lookup c else (lru_lookup c)(k \<mapsto> extend ty v))"
    and "\<not> due_time ty v < cur \<Longrightarrow> \<exists>i e c'. dns_get_inner ty cur k c = Ok (Some i, c') \<and> lru_inv c' (add_mset i H)
      \<and> lru_lookup c' = lru_lookup c \<and> lru_handles c' i = Some e \<and> lru_value e = v"
proof -
  from v obtain i where i: "cache_map c k = Some i" by (auto simp: lru_lookup_def split: option.splits)
  from get_ok [OF inv, of k] i obtain c1 where c1: "lru_get k c = Ok (Some i, c1)" "lru_inv c1 (add_mset i H)"
    "lru_lookup c1 = lru_lookup c" "cache_map c1 k = Some i" by auto
  from c1(3,4) v obtain e where e: "lru_handles c1 i = Some e" "lru_value e = v"
    unfolding lru_lookup_def by (metis (no_types, lifting) map_option_eq_Some option.simps(5))
  show "\<not> due_time ty v < cur \<Longrightarrow> \<exists>i e c'. dns_get_inner ty cur k c = Ok (Some i, c') \<and> lru_inv c' (add_mset i H)
      \<and> lru_lookup c' = lru_lookup c \<and> lru_handles c' i = Some e \<and> lru_value e = v"
    using c1 e by (auto simp: dns_get_inner_def)
  assume due: "due_time ty v < cur"
  let ?c = "if delayed v then c1 else lru_set i (e\<lparr>lru_value := extend ty v\<rparr>) c1"
  have c: "lru_inv ?c (add_mset i H)" "lru_lookup ?c = (if delayed v then lru_lookup c else (lru_lookup c)(k \<mapsto> extend ty v))"
    using c1 set_value_ok [OF c1(2) e(1) c1(4), of "extend ty v"] by (auto split: if_splits)
  from release_ok [OF c(1), of i] obtain c' where "lru_release i ?c = Ok c'" "lru_inv c' H" "lru_lookup c' = lru_lookup ?c"
    by auto
  then show "\<exists>c'. dns_get_inner ty cur k c = Ok (None, c') \<and> lru_inv c' H
      \<and> lru_lookup c' = (if delayed v then lru_lookup c else (lru_lookup c)(k \<mapsto> extend ty v))"
    using c1(1) e due c(2) by (auto simp: dns_get_inner_def)
qed

lemma serve_fresh:
  assumes "lru_inv c H" and "lru_lookup c k = Some v" and "\<And>t. t \<in> set ts \<Longrightarrow> t \<le> due_time ty v"
  shows "\<exists>c'. dns_serve ty k ts c = Ok (replicate (length ts) (Some (addrinfo v)), c') \<and> lru_inv c' H"
  using assms
proof (induction ts arbitrary: c)
  case (Cons t ts)
  have "\<not> due_time ty v < t" using Cons.prems(3) [of t] by simp
  from get_inner_ok(2) [OF Cons.prems(1,2) this] obtain i e c1 where
    c1: "dns_get_inner ty t k c = Ok (Some i, c1)" "lru_inv c1 (add_mset i H)" "lru_lookup c1 = lru_lookup c"
      "lru_handles c1 i = Some e" "lru_value e = v" by blast
  from release_ok [OF c1(2), of i] obtain c2 where
    c2: "lru_release i c1 = Ok c2" "lru_inv c2 H" "lru_lookup c2 = lru_lookup c1" by auto
  have "lru_lookup c2 k = Some v" using c1(3) c2(3) Cons.prems(2) by simp
  from Cons.IH [OF c2(2) this] Cons.prems(3) c1 c2(1) show ?case by auto
qed simp

section \<open>Properties\<close>


definition example_dns :: dns_cache where
  "example_dns = (case dns_put 100 (''host'', 80) 7 60 30 new_LRUCache of Ok (_, c) \<Rightarrow> c | _ \<Rightarrow> new_LRUCache)"


end
