(* ===== verification/Series_Work.thy ===== *)
theory Series_Work
  imports Prelude
begin

text \<open>
  The series of tasks of the framework (\<open>workflow/src/factory/Workflow.cc\<close>): a queue of tasks in a ring
  buffer that doubles when it is full, which tasks are pushed to at both ends and popped from as they
  are done. Tasks are numbers; an element of an array that has not been written is \<open>None\<close>, and reading it, or
  reading outside the array, is undefined. Every operation holds the mutex of the series and is one step.
\<close>

section \<open>State\<close>

record SeriesWork =
  sw_first :: nat
  sw_last :: "nat option"
  sw_queue :: "nat option list"
  sw_front :: int
  sw_back :: int
  sw_canceled :: bool
  sw_finished :: bool
  sw_in_parallel :: bool

text \<open>What the operations do outside the series.\<close>

datatype series_event = Series_callback | Delete_task nat | Delete_series

definition new_SeriesWork :: "nat \<Rightarrow> SeriesWork" where
  "new_SeriesWork first = \<lparr>sw_first = first, sw_last = None, sw_queue = replicate 4 None, sw_front = 0, sw_back = 0,
     sw_canceled = False, sw_finished = False, sw_in_parallel = False\<rparr>"

definition queue_size :: "SeriesWork \<Rightarrow> int" where
  "queue_size s = int (length (sw_queue s))"

definition queue_get :: "int \<Rightarrow> SeriesWork \<Rightarrow> nat cxx" where
  "queue_get i s = (if 0 \<le> i \<and> i < queue_size s then
     case sw_queue s ! nat i of Some t \<Rightarrow> Ok t | None \<Rightarrow> Undefined else Undefined)"

definition queue_set :: "int \<Rightarrow> nat \<Rightarrow> SeriesWork \<Rightarrow> SeriesWork cxx" where
  "queue_set i t s = (if 0 \<le> i \<and> i < queue_size s then Ok (s\<lparr>sw_queue := (sw_queue s)[nat i := Some t]\<rparr>) else Undefined)"

section \<open>Operations\<close>

text \<open>The loop of \<open>expand_queue\<close>: what it copies, from \<open>j\<close> around the old array to \<open>back\<close>.\<close>

fun copy_queue :: "nat \<Rightarrow> int \<Rightarrow> SeriesWork \<Rightarrow> nat list cxx" where
  "copy_queue 0 j s = Out_of_fuel"
| "copy_queue (Suc fuel) j s = cbind (queue_get j s) (\<lambda>t.
     let j = (if j + 1 = queue_size s then 0 else j + 1)
     in if j \<noteq> sw_back s then cbind (copy_queue fuel j s) (\<lambda>ts. Ok (t # ts)) else Ok [t])"

definition expand_queue :: "SeriesWork \<Rightarrow> SeriesWork cxx" where
  "expand_queue s = cbind (copy_queue (length (sw_queue s)) (sw_front s) s) (\<lambda>ts.
     if length ts \<le> 2 * length (sw_queue s) then
       Ok (s\<lparr>sw_queue := map Some ts @ replicate (2 * length (sw_queue s) - length ts) None,
             sw_front := 0, sw_back := int (length ts)\<rparr>)
     else Undefined)"

definition push_front :: "nat \<Rightarrow> SeriesWork \<Rightarrow> SeriesWork cxx" where
  "push_front t s =
     (let f = sw_front s - 1; s = s\<lparr>sw_front := (if f = -1 then queue_size s - 1 else f)\<rparr>
      in cbind (queue_set (sw_front s) t s) (\<lambda>s. if sw_front s = sw_back s then expand_queue s else Ok s))"

definition push_back :: "nat \<Rightarrow> SeriesWork \<Rightarrow> SeriesWork cxx" where
  "push_back t s = cbind (queue_set (sw_back s) t s) (\<lambda>s.
     let b = sw_back s + 1; s = s\<lparr>sw_back := (if b = queue_size s then 0 else b)\<rparr>
     in if sw_front s = sw_back s then expand_queue s else Ok s)"

definition set_last_task :: "nat \<Rightarrow> SeriesWork \<Rightarrow> SeriesWork" where
  "set_last_task t s = s\<lparr>sw_last := Some t\<rparr>"

definition unset_last_task :: "SeriesWork \<Rightarrow> SeriesWork" where
  "unset_last_task s = s\<lparr>sw_last := None\<rparr>"

definition cancel :: "SeriesWork \<Rightarrow> SeriesWork" where
  "cancel s = s\<lparr>sw_canceled := True\<rparr>"

text \<open>With nothing left, the series calls its callback, and deletes itself unless a parallel work owns it.\<close>

definition pop_task :: "bool \<Rightarrow> SeriesWork \<Rightarrow> (nat option \<times> series_event list \<times> SeriesWork) cxx" where
  "pop_task has_callback s = cbind
     (if sw_front s \<noteq> sw_back s then
        cbind (queue_get (sw_front s) s) (\<lambda>t.
          let f = sw_front s + 1 in Ok (Some t, s\<lparr>sw_front := (if f = queue_size s then 0 else f)\<rparr>))
      else Ok (sw_last s, s\<lparr>sw_last := None\<rparr>)) (\<lambda>(task, s).
     if task = None then
       Ok (task, (if has_callback then [Series_callback] else []) @ (if sw_in_parallel s then [] else [Delete_series]),
         s\<lparr>sw_finished := True\<rparr>)
     else Ok (task, [], s))"

text \<open>Deleting the tasks that are left; a deleted series is not used any more.\<close>

fun drain :: "nat \<Rightarrow> bool \<Rightarrow> nat option \<Rightarrow> SeriesWork \<Rightarrow> (series_event list \<times> SeriesWork) cxx" where
  "drain 0 cb task s = Out_of_fuel"
| "drain (Suc fuel) cb None s = Ok ([], s)"
| "drain (Suc fuel) cb (Some t) s = cbind (pop_task cb s) (\<lambda>(task, es, s).
     cbind (drain fuel cb task s) (\<lambda>(es', s). Ok (Delete_task t # es @ es', s)))"

definition pop :: "nat \<Rightarrow> bool \<Rightarrow> SeriesWork \<Rightarrow> (nat option \<times> series_event list \<times> SeriesWork) cxx" where
  "pop fuel cb s = cbind (pop_task cb s) (\<lambda>(task, es, s').
     if \<not> sw_canceled s then Ok (task, es, s')
     else cbind (drain fuel cb task s') (\<lambda>(es', s'). Ok (None, es @ es', s')))"

definition dismiss_recursive :: "nat \<Rightarrow> SeriesWork \<Rightarrow> (series_event list \<times> SeriesWork) cxx" where
  "dismiss_recursive fuel s = drain fuel False (Some (sw_first s)) s"

section \<open>The queue of a series\<close>

text \<open>The part of the ring from \<open>f\<close> up to \<open>b\<close>, and all of it from \<open>f\<close> on.\<close>

definition ring :: "nat \<Rightarrow> nat \<Rightarrow> 'a list \<Rightarrow> 'a list" where
  "ring f b q = (if f \<le> b then take (b - f) (drop f q) else drop f q @ take b q)"

definition whole_ring :: "nat \<Rightarrow> nat \<Rightarrow> 'a list \<Rightarrow> 'a list" where
  "whole_ring f b q = (if f < b then take (b - f) (drop f q) else drop f q @ take b q)"

text \<open>The tasks in the queue, first to last.\<close>

definition waiting :: "SeriesWork \<Rightarrow> nat list" where
  "waiting s = map the (ring (nat (sw_front s)) (nat (sw_back s)) (sw_queue s))"

definition series_ok :: "SeriesWork \<Rightarrow> bool" where
  "series_ok s \<longleftrightarrow> 4 \<le> length (sw_queue s) \<and> 0 \<le> sw_front s \<and> sw_front s < queue_size s
     \<and> 0 \<le> sw_back s \<and> sw_back s < queue_size s \<and> None \<notin> set (ring (nat (sw_front s)) (nat (sw_back s)) (sw_queue s))"

lemma new_series: "series_ok (new_SeriesWork t)" "waiting (new_SeriesWork t) = []"
  by (simp_all add: series_ok_def new_SeriesWork_def waiting_def ring_def queue_size_def)

lemma ring_front:
  assumes "f < length q" and "b < length q" and "f \<noteq> b"
  shows "ring f b q = q ! f # ring (if Suc f = length q then 0 else Suc f) b q"
proof -
  have d: "drop f q = q ! f # drop (Suc f) q" using assms(1) by (simp add: Cons_nth_drop_Suc)
  then show ?thesis using assms by (auto simp: ring_def take_Cons' Suc_diff_Suc)
qed

lemma whole_ring_step:
  assumes "j < length q" and "b < length q"
  shows "whole_ring j b q = q ! j # (let j' = if Suc j = length q then 0 else Suc j in if j' = b then [] else whole_ring j' b q)"
proof -
  have d: "drop j q = q ! j # drop (Suc j) q" using assms(1) by (simp add: Cons_nth_drop_Suc)
  then show ?thesis using assms by (auto simp: whole_ring_def take_Cons' Let_def)
qed

lemma ring_update_other: "f < length q \<Longrightarrow> b < length q \<Longrightarrow> f \<noteq> b \<Longrightarrow> ring f b (q[b := x]) = ring f b q"
  by (auto simp: ring_def take_drop)

lemma ring_back:
  assumes "f < length q" and "b < length q"
  shows "(let b' = if Suc b = length q then 0 else Suc b in if f = b' then whole_ring f b' (q[b := x]) else ring f b' (q[b := x])) = ring f b q @ [x]"
proof -
  have t: "take (Suc b) (q[b := x]) = take b q @ [x]" using assms(2) by (simp add: take_Suc_conv_app_nth)
  show ?thesis
  proof (cases "f \<le> b")
    case True
    have "take (Suc b - f) (drop f (q[b := x])) = drop f (take (Suc b) (q[b := x]))" by (simp add: drop_take)
    also have "\<dots> = drop f (take b q) @ [x]" using True assms by (simp add: t)
    finally have m: "take (Suc b - f) (drop f (q[b := x])) = take (b - f) (drop f q) @ [x]" by (simp add: drop_take)
    show ?thesis
    proof (cases "Suc b = length q")
      case True
      then have "take (Suc b - f) (drop f (q[b := x])) = drop f (q[b := x])" by simp
      with m True \<open>f \<le> b\<close> show ?thesis by (auto simp: ring_def whole_ring_def Let_def)
    next
      case False
      with m \<open>f \<le> b\<close> show ?thesis by (auto simp: ring_def Let_def)
    qed
  next
    case False
    then have "drop f (q[b := x]) = drop f q" "Suc b \<noteq> length q" using assms by auto
    with False t show ?thesis by (auto simp: ring_def whole_ring_def Let_def)
  qed
qed

lemma ring_before:
  assumes "g < length q" and "b < length q" and f: "f = (if Suc g = length q then 0 else Suc g)"
  shows "(if g = b then whole_ring g b (q[g := x]) else ring g b (q[g := x])) = x # ring f b q"
proof (cases "g = b")
  case True
  have "whole_ring f b (q[b := x]) = ring f b q" if "f \<noteq> b"
    using that by (auto simp: ring_def whole_ring_def take_drop)
  moreover have "ring b b q = []" by (simp add: ring_def)
  ultimately show ?thesis
    using True whole_ring_step [of g "q[g := x]" b] assms(1) unfolding length_list_update f [symmetric] by (auto simp: Let_def)
next
  case False
  have "ring f b (q[g := x]) = ring f b q"
    using assms False by (auto simp: ring_def)
  then show ?thesis
    using False ring_front [of g "q[g := x]" b] assms(1,2) unfolding length_list_update f [symmetric] by simp
qed

lemma queue_get_nat: "f < length (sw_queue s) \<Longrightarrow> queue_get (int f) s = (case sw_queue s ! f of Some t \<Rightarrow> Ok t | None \<Rightarrow> Undefined)"
  by (simp add: queue_get_def queue_size_def)

lemma copy_queue_ok:
  assumes "j < length (sw_queue s)" and "sw_back s = int b" and "b < length (sw_queue s)"
    and "None \<notin> set (whole_ring j b (sw_queue s))" and "length (whole_ring j b (sw_queue s)) \<le> fuel"
  shows "copy_queue fuel (int j) s = Ok (map the (whole_ring j b (sw_queue s)))"
  using assms
proof (induction fuel arbitrary: j)
  case 0
  then show ?case by (auto simp: whole_ring_step Let_def)
next
  case (Suc fuel)
  let ?j = "if Suc j = length (sw_queue s) then 0 else Suc j"
  note w = whole_ring_step [OF Suc.prems(1,3)]
  obtain t where t: "sw_queue s ! j = Some t" using Suc.prems(4) unfolding w by (cases "sw_queue s ! j") auto
  have j: "(if int j + 1 = queue_size s then 0 else int j + 1) = int ?j" by (auto simp: queue_size_def)
  show ?case
  proof (cases "?j = b")
    case True
    then show ?thesis using t Suc.prems(2) unfolding w by (simp add: queue_get_nat Suc.prems(1) j Let_def)
  next
    case False
    have "copy_queue fuel (int ?j) s = Ok (map the (whole_ring ?j b (sw_queue s)))"
      by (rule Suc.IH) (use Suc.prems False in \<open>auto simp: w Let_def\<close>)
    then show ?thesis using t False Suc.prems(2) unfolding w by (simp add: queue_get_nat Suc.prems(1) j Let_def)
  qed
qed

lemma length_whole_ring: "f < length q \<Longrightarrow> length (whole_ring f f q) = length q"
  by (simp add: whole_ring_def)

text \<open>A full ring moves to the front of an array twice as long.\<close>

lemma expand_ok:
  assumes f: "sw_front s = int f" "sw_back s = int f" "f < length (sw_queue s)" and l: "4 \<le> length (sw_queue s)"
    and n: "None \<notin> set (whole_ring f f (sw_queue s))"
  shows "\<exists>s'. expand_queue s = Ok s' \<and> series_ok s' \<and> waiting s' = map the (whole_ring f f (sw_queue s))
    \<and> s' = s\<lparr>sw_queue := sw_queue s', sw_front := sw_front s', sw_back := sw_back s'\<rparr>"
proof -
  let ?ts = "map the (whole_ring f f (sw_queue s))"
  have len: "length ?ts = length (sw_queue s)" using length_whole_ring [OF f(3)] by simp
  have c: "copy_queue (length (sw_queue s)) (sw_front s) s = Ok ?ts"
    unfolding f(1) by (rule copy_queue_ok) (use f n length_whole_ring [OF f(3)] in auto)
  let ?s = "s\<lparr>sw_queue := map Some ?ts @ replicate (2 * length (sw_queue s) - length ?ts) None, sw_front := 0, sw_back := int (length ?ts)\<rparr>"
  have e: "expand_queue s = Ok ?s" using c len by (simp add: expand_queue_def)
  have r: "ring (nat (sw_front ?s)) (nat (sw_back ?s)) (sw_queue ?s) = map Some ?ts" by (simp add: ring_def)
  have "series_ok ?s" using l len r by (auto simp: series_ok_def queue_size_def)
  moreover have "waiting ?s = ?ts" unfolding waiting_def r by (simp add: comp_def)
  ultimately show ?thesis using e by (intro exI [of _ ?s]) simp
qed

section \<open>A queue with two ends\<close>

lemma push_back_ok:
  assumes "series_ok s"
  shows "\<exists>s'. push_back t s = Ok s' \<and> series_ok s' \<and> waiting s' = waiting s @ [t]
    \<and> s' = s\<lparr>sw_queue := sw_queue s', sw_front := sw_front s', sw_back := sw_back s'\<rparr>"
proof -
  obtain f b where f: "sw_front s = int f" "f < length (sw_queue s)" and b: "sw_back s = int b" "b < length (sw_queue s)"
    using assms by (metis nonneg_int_cases of_nat_less_iff queue_size_def series_ok_def)
  define c where "c = (if Suc b = length (sw_queue s) then 0 else Suc b)"
  let ?q = "(sw_queue s)[b := Some t]"
  let ?s = "s\<lparr>sw_queue := ?q, sw_back := int c\<rparr>"
  have l: "4 \<le> length (sw_queue s)" and n: "None \<notin> set (ring f b (sw_queue s))"
    using assms f b by (simp_all add: series_ok_def)
  have c: "c < length (sw_queue s)" using b(2) by (auto simp: c_def)
  have r: "(if f = c then whole_ring f c ?q else ring f c ?q) = ring f b (sw_queue s) @ [Some t]"
    using ring_back [OF f(2) b(2), of "Some t"] by (simp only: Let_def c_def)
  have w: "waiting s = map the (ring f b (sw_queue s))" by (simp add: waiting_def f b)
  have p: "push_back t s = (if f = c then expand_queue ?s else Ok ?s)"
    using f b by (auto simp: push_back_def queue_set_def queue_size_def Let_def c_def add.commute)
  show ?thesis
  proof (cases "f = c")
    case True
    then have w': "whole_ring f f ?q = ring f b (sw_queue s) @ [Some t]" using r by simp
    have "\<exists>s'. expand_queue ?s = Ok s' \<and> series_ok s' \<and> waiting s' = map the (whole_ring f f (sw_queue ?s))
      \<and> s' = ?s\<lparr>sw_queue := sw_queue s', sw_front := sw_front s', sw_back := sw_back s'\<rparr>"
      by (rule expand_ok) (use True f l n w' in \<open>simp_all only: SeriesWork.simps length_list_update, auto\<close>)
    then show ?thesis using True w' by (simp add: p w)
  next
    case False
    then have r': "ring f c ?q = ring f b (sw_queue s) @ [Some t]" using r by simp
    have "series_ok ?s" unfolding series_ok_def using l f c n r' by (simp add: queue_size_def)
    moreover have "waiting ?s = waiting s @ [t]" using f r' by (simp add: w) (simp add: waiting_def)
    ultimately show ?thesis using False by (intro exI [of _ ?s]) (simp add: p)
  qed
qed

lemma push_front_ok:
  assumes "series_ok s"
  shows "\<exists>s'. push_front t s = Ok s' \<and> series_ok s' \<and> waiting s' = t # waiting s
    \<and> s' = s\<lparr>sw_queue := sw_queue s', sw_front := sw_front s', sw_back := sw_back s'\<rparr>"
proof -
  obtain f b where f: "sw_front s = int f" "f < length (sw_queue s)" and b: "sw_back s = int b" "b < length (sw_queue s)"
    using assms by (metis nonneg_int_cases of_nat_less_iff queue_size_def series_ok_def)
  have l: "4 \<le> length (sw_queue s)" and n: "None \<notin> set (ring f b (sw_queue s))"
    using assms f b by (simp_all add: series_ok_def)
  define g where "g = (if f = 0 then length (sw_queue s) - 1 else f - 1)"
  let ?q = "(sw_queue s)[g := Some t]"
  let ?s = "s\<lparr>sw_front := int g, sw_queue := ?q\<rparr>"
  have g: "g < length (sw_queue s)" "f = (if Suc g = length (sw_queue s) then 0 else Suc g)"
    using f(2) l by (auto simp: g_def)
  have w: "waiting s = map the (ring f b (sw_queue s))" by (simp add: waiting_def f b)
  have fi: "(if int f - 1 = -1 then queue_size s - 1 else int f - 1) = int g"
    using l by (auto simp: queue_size_def g_def of_nat_diff)
  have p: "push_front t s = (if g = b then expand_queue ?s else Ok ?s)"
    using b g(1) unfolding push_front_def Let_def f(1) fi by (simp add: queue_set_def queue_size_def)
  have r: "(if g = b then whole_ring g b ?q else ring g b ?q) = Some t # ring f b (sw_queue s)"
    by (rule ring_before [OF g(1) b(2) g(2)])
  show ?thesis
  proof (cases "g = b")
    case True
    then have w': "whole_ring b b ?q = Some t # ring f b (sw_queue s)" using r by simp
    have "\<exists>s'. expand_queue ?s = Ok s' \<and> series_ok s' \<and> waiting s' = map the (whole_ring b b (sw_queue ?s))
      \<and> s' = ?s\<lparr>sw_queue := sw_queue s', sw_front := sw_front s', sw_back := sw_back s'\<rparr>"
      by (rule expand_ok) (use True b l n w' in \<open>simp_all only: SeriesWork.simps length_list_update, auto\<close>)
    then show ?thesis using True w' by (simp add: p w)
  next
    case False
    then have r': "ring g b ?q = Some t # ring f b (sw_queue s)" using r by simp
    have "series_ok ?s" unfolding series_ok_def using l b g(1) n r' by (simp add: queue_size_def)
    moreover have "waiting ?s = t # waiting s" using b r' by (simp add: w) (simp add: waiting_def)
    ultimately show ?thesis using False by (intro exI [of _ ?s]) (simp add: p)
  qed
qed

definition series_end :: "bool \<Rightarrow> SeriesWork \<Rightarrow> series_event list" where
  "series_end cb s = (if cb then [Series_callback] else []) @ (if sw_in_parallel s then [] else [Delete_series])"

lemma pop_task_waiting:
  assumes "series_ok s" and "waiting s = t # ts"
  shows "\<exists>s'. pop_task cb s = Ok (Some t, [], s') \<and> series_ok s' \<and> waiting s' = ts \<and> s' = s\<lparr>sw_front := sw_front s'\<rparr>"
proof -
  obtain f b where f: "sw_front s = int f" "f < length (sw_queue s)" and b: "sw_back s = int b" "b < length (sw_queue s)"
    using assms(1) by (metis nonneg_int_cases of_nat_less_iff queue_size_def series_ok_def)
  define g where "g = (if Suc f = length (sw_queue s) then 0 else Suc f)"
  have l: "4 \<le> length (sw_queue s)" and n: "None \<notin> set (ring f b (sw_queue s))"
    using assms(1) f b by (simp_all add: series_ok_def)
  have w: "map the (ring f b (sw_queue s)) = t # ts" using assms(2) by (simp add: waiting_def f b)
  then have fb: "f \<noteq> b" by (auto simp: ring_def)
  have r: "ring f b (sw_queue s) = sw_queue s ! f # ring g b (sw_queue s)"
    using ring_front [OF f(2) b(2) fb] by (simp only: g_def)
  then have t: "sw_queue s ! f = Some t" "map the (ring g b (sw_queue s)) = ts" using w n by auto
  let ?s = "s\<lparr>sw_front := int g\<rparr>"
  have g: "g < length (sw_queue s)" using f(2) by (auto simp: g_def)
  have gi: "(if int f + 1 = queue_size s then 0 else int f + 1) = int g" by (auto simp: queue_size_def g_def)
  have "pop_task cb s = Ok (Some t, [], ?s)"
    using f b fb t gi by (simp add: pop_task_def queue_get_nat Let_def)
  moreover have "series_ok ?s" using l b g n r by (simp add: series_ok_def queue_size_def)
  moreover have "waiting ?s = ts" using t b by (simp add: waiting_def)
  ultimately show ?thesis by (intro exI [of _ ?s]) simp
qed

lemma pop_task_empty:
  assumes "series_ok s" and "waiting s = []"
  shows "pop_task cb s = Ok (sw_last s, if sw_last s = None then series_end cb s else [],
    s\<lparr>sw_last := None, sw_finished := (sw_finished s \<or> sw_last s = None)\<rparr>)"
proof -
  have "ring (nat (sw_front s)) (nat (sw_back s)) (sw_queue s) = []" using assms(2) by (simp add: waiting_def)
  moreover have "nat (sw_front s) < length (sw_queue s)" using assms(1) by (auto simp: series_ok_def queue_size_def)
  ultimately have "nat (sw_front s) = nat (sw_back s)" by (auto simp: ring_def split: if_splits)
  then have "sw_front s = sw_back s" using assms(1) by (simp add: series_ok_def eq_nat_nat_iff)
  then show ?thesis by (cases "sw_last s") (simp_all add: pop_task_def series_end_def)
qed

lemma series_ok_other:
  "series_ok (s\<lparr>sw_last := x\<rparr>) = series_ok s" "series_ok (s\<lparr>sw_finished := y\<rparr>) = series_ok s" "series_ok (s\<lparr>sw_canceled := z\<rparr>) = series_ok s"
  "waiting (s\<lparr>sw_last := x\<rparr>) = waiting s" "waiting (s\<lparr>sw_finished := y\<rparr>) = waiting s" "waiting (s\<lparr>sw_canceled := z\<rparr>) = waiting s"
  by (simp_all add: series_ok_def waiting_def queue_size_def)

text \<open>The abstract view: a list that grows at both ends, and a last task.\<close>

datatype series_op = Push_back nat | Push_front nat | Set_last nat | Unset_last | Pop_task

fun series_step :: "series_op \<Rightarrow> SeriesWork \<Rightarrow> (nat option list \<times> SeriesWork) cxx" where
  "series_step (Push_back t) s = cbind (push_back t s) (\<lambda>s. Ok ([], s))"
| "series_step (Push_front t) s = cbind (push_front t s) (\<lambda>s. Ok ([], s))"
| "series_step (Set_last t) s = Ok ([], set_last_task t s)"
| "series_step Unset_last s = Ok ([], unset_last_task s)"
| "series_step Pop_task s = cbind (pop_task True s) (\<lambda>(task, es, s). Ok ([task], s))"

fun series_run :: "series_op list \<Rightarrow> SeriesWork \<Rightarrow> (nat option list \<times> SeriesWork) cxx" where
  "series_run [] s = Ok ([], s)"
| "series_run (op # ops) s = cbind (series_step op s) (\<lambda>(r, s). cbind (series_run ops s) (\<lambda>(rs, s). Ok (r @ rs, s)))"

fun deque_run :: "series_op list \<Rightarrow> nat list \<Rightarrow> nat option \<Rightarrow> nat option list" where
  "deque_run [] q l = []"
| "deque_run (Push_back t # ops) q l = deque_run ops (q @ [t]) l"
| "deque_run (Push_front t # ops) q l = deque_run ops (t # q) l"
| "deque_run (Set_last t # ops) q l = deque_run ops q (Some t)"
| "deque_run (Unset_last # ops) q l = deque_run ops q None"
| "deque_run (Pop_task # ops) [] l = l # deque_run ops [] None"
| "deque_run (Pop_task # ops) (t # q) l = Some t # deque_run ops q l"

lemma series_run_deque:
  "series_ok s \<Longrightarrow> \<exists>s'. series_run ops s = Ok (deque_run ops (waiting s) (sw_last s), s') \<and> series_ok s'"
proof (induction ops arbitrary: s)
  case (Cons op ops)
  show ?case
  proof (cases op)
    case (Push_back t)
    from push_back_ok [OF Cons.prems, of t] obtain s1 where
      1: "push_back t s = Ok s1" "series_ok s1" "waiting s1 = waiting s @ [t]" "sw_last s1 = sw_last s"
      by (metis SeriesWork.select_convs(2) SeriesWork.surjective SeriesWork.update_convs(3-5))
    with Cons.IH [OF 1(2)] Push_back show ?thesis by auto
  next
    case (Push_front t)
    from push_front_ok [OF Cons.prems, of t] obtain s1 where
      1: "push_front t s = Ok s1" "series_ok s1" "waiting s1 = t # waiting s" "sw_last s1 = sw_last s"
      by (metis SeriesWork.select_convs(2) SeriesWork.surjective SeriesWork.update_convs(3-5))
    with Cons.IH [OF 1(2)] Push_front show ?thesis by auto
  next
    case (Set_last t)
    with Cons.IH [of "set_last_task t s"] Cons.prems show ?thesis by (auto simp: set_last_task_def series_ok_other)
  next
    case Unset_last
    with Cons.IH [of "unset_last_task s"] Cons.prems show ?thesis by (auto simp: unset_last_task_def series_ok_other)
  next
    case Pop_task
    show ?thesis
    proof (cases "waiting s")
      case Nil
      note p = pop_task_empty [OF Cons.prems Nil, of True]
      let ?s = "s\<lparr>sw_last := None, sw_finished := (sw_finished s \<or> sw_last s = None)\<rparr>"
      have "series_ok ?s" "waiting ?s = []" using Cons.prems Nil by (simp_all add: series_ok_other)
      with Cons.IH [of ?s] p Pop_task Nil show ?thesis by auto
    next
      case (Cons t ts)
      from pop_task_waiting [OF Cons.prems Cons, of True] obtain s1 where
        1: "pop_task True s = Ok (Some t, [], s1)" "series_ok s1" "waiting s1 = ts" "sw_last s1 = sw_last s"
        by (metis SeriesWork.select_convs(2) SeriesWork.surjective SeriesWork.update_convs(4))
      with Cons.IH [OF 1(2)] Pop_task Cons show ?thesis by auto
    qed
  qed
qed simp

section \<open>Properties\<close>

text \<open>C34: However many tasks are pushed and popped, at whichever end, and however often the ring buffer is enlarged:
  the tasks come out of a series in the order of a queue with two ends, the last task after them, and
  no access leaves the buffer or reads an element that was not written.\<close>

theorem series_refines_deque:
  "\<exists>s. series_run ops (new_SeriesWork first) = Ok (deque_run ops [] None, s)"
  using series_run_deque [OF new_series(1), of ops first] by (auto simp: new_series(2)) (auto simp: new_SeriesWork_def)

lemma drain_ok:
  assumes "series_ok s" and "length (waiting s) + 2 < fuel"
  shows "\<exists>s'. drain fuel cb (Some t) s = Ok (map Delete_task (t # waiting s @ (case sw_last s of Some l \<Rightarrow> [l] | None \<Rightarrow> [])) @ series_end cb s, s')
    \<and> sw_finished s'"
  using assms
proof (induction "length (waiting s)" arbitrary: s t fuel)
  case 0
  then obtain fuel' where fuel: "fuel = Suc (Suc (Suc fuel'))" by (metis add_2_eq_Suc' less_iff_Suc_add add_Suc)
  let ?s = "s\<lparr>sw_last := None, sw_finished := (sw_finished s \<or> sw_last s = None)\<rparr>"
  have w: "waiting s = []" using 0 by simp
  note p = pop_task_empty [OF 0(2) w, of cb]
  have "series_ok ?s" "waiting ?s = []" using 0(2) w by (simp_all add: series_ok_other)
  note p' = pop_task_empty [OF this, of cb]
  show ?case using p p' w by (auto simp: fuel series_end_def split: option.splits)
next
  case (Suc n)
  then obtain u us where w: "waiting s = u # us" by (metis length_Suc_conv)
  obtain fuel' where fuel: "fuel = Suc fuel'" using Suc.prems(2) by (cases fuel) simp_all
  from pop_task_waiting [OF Suc.prems(1) w, of cb] obtain s1 where
    1: "pop_task cb s = Ok (Some u, [], s1)" "series_ok s1" "waiting s1 = us" "s1 = s\<lparr>sw_front := sw_front s1\<rparr>" by blast
  have l: "sw_last s1 = sw_last s" "series_end cb s1 = series_end cb s" by (subst 1(4), simp add: series_end_def)+
  have "\<exists>s'. drain fuel' cb (Some u) s1 = Ok (map Delete_task (u # waiting s1 @ (case sw_last s1 of Some l \<Rightarrow> [l] | None \<Rightarrow> [])) @ series_end cb s1, s')
    \<and> sw_finished s'"
    by (rule Suc.hyps(1)) (use Suc.hyps(2) Suc.prems(2) 1 w fuel in auto)
  then show ?case using 1 l w by (auto simp: fuel)
qed

definition remaining :: "SeriesWork \<Rightarrow> nat list" where
  "remaining s = waiting s @ (case sw_last s of Some l \<Rightarrow> [l] | None \<Rightarrow> [])"

text \<open>C35: After a series has been cancelled, the end of its running task deletes every task that is left, once and in
  order, and then the series ends: its callback is called once, and it is deleted unless a parallel
  work owns it.\<close>

theorem cancelled_series_ends:
  assumes "series_ok s" and "sw_canceled s" and "length (remaining s) + 3 < fuel"
  shows "\<exists>s'. pop fuel cb s = Ok (None, map Delete_task (remaining s) @ series_end cb s, s') \<and> sw_finished s'"
proof (cases "waiting s")
  case Nil
  let ?s = "s\<lparr>sw_last := None, sw_finished := (sw_finished s \<or> sw_last s = None)\<rparr>"
  note p = pop_task_empty [OF assms(1) Nil, of cb]
  obtain fuel' where fuel: "fuel = Suc fuel'" using assms(3) by (cases fuel) simp_all
  show ?thesis
  proof (cases "sw_last s")
    case None
    then show ?thesis using p assms(2) Nil by (simp add: pop_def remaining_def fuel)
  next
    case (Some l)
    have "series_ok ?s" "waiting ?s = []" using assms(1) Nil by (simp_all add: series_ok_other)
    from drain_ok [OF this(1), of fuel cb l] this(2) assms(3) Some obtain s' where
      "drain fuel cb (Some l) ?s = Ok (map Delete_task [l] @ series_end cb s, s')" "sw_finished s'"
      by (auto simp: series_end_def)
    then show ?thesis using p assms(2) Nil Some by (simp add: pop_def remaining_def)
  qed
next
  case (Cons t ts)
  from pop_task_waiting [OF assms(1) Cons, of cb] obtain s1 where
    1: "pop_task cb s = Ok (Some t, [], s1)" "series_ok s1" "waiting s1 = ts" "s1 = s\<lparr>sw_front := sw_front s1\<rparr>" by blast
  have l: "sw_last s1 = sw_last s" "series_end cb s1 = series_end cb s" by (subst 1(4), simp add: series_end_def)+
  from drain_ok [OF 1(2), of fuel cb t] assms(3) Cons 1(3) obtain s' where
    "drain fuel cb (Some t) s1 = Ok (map Delete_task (t # waiting s1 @ (case sw_last s1 of Some l \<Rightarrow> [l] | None \<Rightarrow> [])) @ series_end cb s1, s')"
    "sw_finished s'" by (auto simp: remaining_def)
  then show ?thesis using 1(1,3) l assms(2) Cons by (simp add: pop_def remaining_def)
qed

theorem cancelled_series_ends_witness:
  "\<exists>s'. pop 9 True (cancel (set_last_task 7 (new_SeriesWork 1))) = Ok (None, [Delete_task 7, Series_callback, Delete_series], s')
    \<and> sw_finished s'"
proof -
  let ?s = "cancel (set_last_task 7 (new_SeriesWork 1))"
  have "series_ok ?s" "waiting ?s = []"
    using new_series [of 1] by (simp_all add: cancel_def set_last_task_def series_ok_other)
  then show ?thesis
    using cancelled_series_ends [of ?s 9 True]
    by (simp add: remaining_def cancel_def set_last_task_def series_end_def new_SeriesWork_def)
qed

end
