(* ===== verification/Task_Tree.thy ===== *)
theory Task_Tree
  imports Prelude "HOL-Library.Multiset"
begin

text \<open>
  Series in parallel (\<open>workflow/src/kernel/SubTask.cc\<close>, \<open>ParallelWork\<close> in \<open>workflow/src/factory/Workflow.cc\<close>).
  A parallel task dispatches the first task of each of its series and counts with \<open>nleft\<close> those that have not
  ended; whoever ends the last one goes on with the parallel task. The objects and their parent pointers
  form a tree, which is a value here: a running task is the tree below it, and climbing to the parent
  is returning from the recursion. The queue of a series is the list it implements (\<open>Series_Work\<close>). Network tasks,
  timers and the like (\<open>Single\<close>) end whenever they like: the order in which they do is arbitrary.
\<close>

section \<open>Tasks\<close>

datatype task = Single nat | Parallel nat "series list"
  and series = Series nat "task list"

text \<open>A task that has been dispatched; a parallel one with the number of its series that have not ended, and for
  each series its running task, if it has not ended, and the tasks that wait in its queue.\<close>

datatype running = Busy nat | Forked nat nat "branch list"
  and branch = Branch nat "running option" "task list"

datatype task_event = Task_started nat | Task_callback nat | Parallel_callback nat | Series_ended nat

section \<open>Operations\<close>

text \<open>\<open>ParallelTask::dispatch\<close>. A parallel task without series is done at once, and so may be a task that has only such
  ones below it; the result is then \<open>None\<close>. \<open>next_task\<close> is what \<open>subtask_done\<close> does for a series: it pops and dispatches
  the next task, until one is running or the series has ended. When the loop over the series is left, the
  number of series that have not ended is what the decrements have left of \<open>nleft\<close>.\<close>

fun dispatch :: "task \<Rightarrow> task_event list \<times> running option"
  and next_task :: "task list \<Rightarrow> task_event list \<times> running option \<times> task list"
  and dispatch_series :: "series list \<Rightarrow> task_event list \<times> branch list" where
  "dispatch (Single i) = ([Task_started i], Some (Busy i))"
| "dispatch (Parallel p ss) = (let (es, bs) = dispatch_series ss;
       nleft = length ss - length (filter (\<lambda>b. case b of Branch s r q \<Rightarrow> r = None) bs)
     in if nleft = 0 then (es @ [Parallel_callback p], None) else (es, Some (Forked p nleft bs)))"
| "next_task [] = ([], None, [])"
| "next_task (t # ts) = (let (es, r) = dispatch t
     in case r of Some a \<Rightarrow> (es, Some a, ts) | None \<Rightarrow> let (es', r', ts') = next_task ts in (es @ es', r', ts'))"
| "dispatch_series [] = ([], [])"
| "dispatch_series (Series s ts # ss) = (let (es, r, q) = next_task ts; (es', bs) = dispatch_series ss
     in (es @ (if r = None then [Series_ended s] else []) @ es', Branch s r q # bs))"

text \<open>The tasks that are running.\<close>

fun busy :: "running \<Rightarrow> nat list" and busy_branches :: "branch list \<Rightarrow> nat list" where
  "busy (Busy i) = [i]"
| "busy (Forked p nleft bs) = busy_branches bs"
| "busy_branches [] = []"
| "busy_branches (Branch s None q # bs) = busy_branches bs"
| "busy_branches (Branch s (Some a) q # bs) = busy a @ busy_branches bs"

text \<open>A single task ends: \<open>subtask_done\<close>, up to the first parent with series that have not ended. The result is \<open>None\<close> when
  the loop goes on above.\<close>

fun subtask_done :: "nat \<Rightarrow> running \<Rightarrow> task_event list \<times> running option"
  and branch_done :: "nat \<Rightarrow> branch list \<Rightarrow> task_event list \<times> bool \<times> branch list" where
  "subtask_done i (Busy j) = (if i = j then ([Task_callback i], None) else ([], Some (Busy j)))"
| "subtask_done i (Forked p nleft bs) = (let (es, ended, bs') = branch_done i bs
     in if ended then
          if nleft - 1 = 0 then (es @ [Parallel_callback p], None) else (es, Some (Forked p (nleft - 1) bs'))
        else (es, Some (Forked p nleft bs')))"
| "branch_done i [] = ([], False, [])"
| "branch_done i (Branch s None q # bs) = (let (es, ended, bs') = branch_done i bs in (es, ended, Branch s None q # bs'))"
| "branch_done i (Branch s (Some a) q # bs) =
     (if i \<notin> set (busy a) then let (es, ended, bs') = branch_done i bs in (es, ended, Branch s (Some a) q # bs')
      else let (es, r) = subtask_done i a
        in case r of
             Some a' \<Rightarrow> (es, False, Branch s (Some a') q # bs)
           | None \<Rightarrow> let (es', r', q') = next_task q
                     in (es @ es' @ (if r' = None then [Series_ended s] else []), r' = None, Branch s r' q' # bs))"

text \<open>A workflow is a series that is started; the end of one of its tasks.\<close>

definition start_series :: "series \<Rightarrow> task_event list \<times> branch list" where
  "start_series s = dispatch_series [s]"

text \<open>A schedule: the tasks end in this order, each of them while it is running.\<close>

fun run_schedule :: "nat list \<Rightarrow> branch list \<Rightarrow> (task_event list \<times> branch list) option" where
  "run_schedule [] bs = Some ([], bs)"
| "run_schedule (i # is) bs = (if i \<in> set (busy_branches bs) then
     let (es, ended, bs') = branch_done i bs in map_option (\<lambda>(es', bs''). (es @ es', bs'')) (run_schedule is bs')
   else None)"

section \<open>What is still to happen\<close>

fun task_events :: "task \<Rightarrow> task_event multiset" and series_events :: "series \<Rightarrow> task_event multiset" where
  "task_events (Single i) = {#Task_started i, Task_callback i#}"
| "task_events (Parallel p ss) = add_mset (Parallel_callback p) (\<Sum>\<^sub># (mset (map series_events ss)))"
| "series_events (Series s ts) = add_mset (Series_ended s) (\<Sum>\<^sub># (mset (map task_events ts)))"

abbreviation queue_events :: "task list \<Rightarrow> task_event multiset" where
  "queue_events ts \<equiv> \<Sum>\<^sub># (image_mset task_events (mset ts))"

fun pending :: "running \<Rightarrow> task_event multiset" and pending_branches :: "branch list \<Rightarrow> task_event multiset" where
  "pending (Busy i) = {#Task_callback i#}"
| "pending (Forked p nleft bs) = add_mset (Parallel_callback p) (pending_branches bs)"
| "pending_branches [] = {#}"
| "pending_branches (Branch s None q # bs) = pending_branches bs"
| "pending_branches (Branch s (Some a) q # bs) = add_mset (Series_ended s) (pending a + queue_events q + pending_branches bs)"

definition pending_option :: "running option \<Rightarrow> task_event multiset" where
  "pending_option r = (case r of Some a \<Rightarrow> pending a | None \<Rightarrow> {#})"

text \<open>The counter of a parallel task is the number of its series that have not ended; it is not 0.\<close>

fun unfinished :: "branch list \<Rightarrow> nat" where
  "unfinished [] = 0"
| "unfinished (Branch s None q # bs) = unfinished bs"
| "unfinished (Branch s (Some a) q # bs) = Suc (unfinished bs)"

fun tree_ok :: "running \<Rightarrow> bool" and branches_ok :: "branch list \<Rightarrow> bool" where
  "tree_ok (Busy i) = True"
| "tree_ok (Forked p nleft bs) = (nleft = unfinished bs \<and> 0 < nleft \<and> branches_ok bs)"
| "branches_ok [] = True"
| "branches_ok (Branch s None q # bs) = branches_ok bs"
| "branches_ok (Branch s (Some a) q # bs) = (tree_ok a \<and> branches_ok bs)"

lemma pending_option_simps [simp]: "pending_option None = {#}" "pending_option (Some a) = pending a"
  by (simp_all add: pending_option_def)

lemma finished_count: "length bs - length (filter (\<lambda>b. case b of Branch s r q \<Rightarrow> r = None) bs) = unfinished bs"
proof (induction bs rule: unfinished.induct)
  case (3 s a q bs)
  have "length (filter (\<lambda>b. case b of Branch s r q \<Rightarrow> r = None) bs) \<le> length bs" by (rule length_filter_le)
  with 3 show ?case by (simp add: Suc_diff_le)
qed simp_all

lemma length_dispatch_series: "length (snd (dispatch_series ss)) = length ss"
proof (induction ss)
  case (Cons s ss)
  then show ?case by (cases s) (auto split: prod.split)
qed simp

lemma branch_none: "pending_branches (Branch s None q # bs) = pending_branches bs"
  by simp

lemma dispatch_events:
  "dispatch t = (es, r) \<Longrightarrow> mset es + pending_option r = task_events t \<and> (\<forall>a. r = Some a \<longrightarrow> tree_ok a)"
  "next_task ts = (es, r, q) \<Longrightarrow> mset es + pending_option r + queue_events q = queue_events ts \<and> (\<forall>a. r = Some a \<longrightarrow> tree_ok a)
     \<and> (r = None \<longrightarrow> q = [])"
  "dispatch_series ss = (es, bs) \<Longrightarrow> mset es + pending_branches bs = \<Sum>\<^sub># (image_mset series_events (mset ss)) \<and> branches_ok bs"
proof (induction t and ts and ss arbitrary: es r and es r q and es bs rule: dispatch_next_task_dispatch_series.induct)
  case (2 p ss)
  obtain es' bs where d: "dispatch_series ss = (es', bs)" by force
  have n: "length ss - length (filter (\<lambda>b. case b of Branch s r q \<Rightarrow> r = None) bs) = unfinished bs"
    using finished_count [of bs] length_dispatch_series [of ss] d by simp
  have IH: "mset es' + pending_branches bs = \<Sum>\<^sub># (image_mset series_events (mset ss))" "branches_ok bs" using 2(1) [OF d] by auto
  have "unfinished bs = 0 \<Longrightarrow> pending_branches bs = {#}" by (induction bs rule: unfinished.induct) simp_all
  with 2(2) d n IH show ?case by (auto simp: Let_def split: if_splits)
next
  case (4 t ts)
  obtain es1 r1 where 1: "dispatch t = (es1, r1)" by force
  note a = 4(1) [OF 1]
  show ?case
  proof (cases r1)
    case None
    obtain es2 r2 q2 where 2: "next_task ts = (es2, r2, q2)" by (cases "next_task ts")
    have "mset es2 + pending_option r2 + queue_events q2 = queue_events ts \<and> (\<forall>a. r2 = Some a \<longrightarrow> tree_ok a) \<and> (r2 = None \<longrightarrow> q2 = [])"
      by (rule 4(2)) (use 1 2 None in auto)
    with 4(3) 1 2 None a show ?thesis by (auto simp: add.assoc)
  qed (use 4(3) 1 a in auto)
next
  case (6 s ts ss)
  obtain es1 r1 q1 where 1: "next_task ts = (es1, r1, q1)" by (cases "next_task ts")
  obtain es2 bs2 where 2: "dispatch_series ss = (es2, bs2)" by force
  have a: "mset es1 + pending_option r1 + queue_events q1 = queue_events ts" "\<forall>a. r1 = Some a \<longrightarrow> tree_ok a" "r1 = None \<longrightarrow> q1 = []"
    using 6(1) [OF 1] by auto
  have b: "mset es2 + pending_branches bs2 = \<Sum>\<^sub># (image_mset series_events (mset ss))" "branches_ok bs2"
    using 6(2) [OF 1 [symmetric] refl refl 2] by auto
  show ?case using 6(3) 1 2 a b by (cases r1) (auto simp flip: a(1) b(1))
qed auto

text \<open>Nothing happens twice and nothing is left out when a task ends.\<close>

lemma done_events:
  "subtask_done i a = (es, r) \<Longrightarrow> tree_ok a \<Longrightarrow> i \<in> set (busy a) \<Longrightarrow>
     mset es + pending_option r = pending a \<and> (\<forall>a'. r = Some a' \<longrightarrow> tree_ok a')"
  "branch_done i bs = (es, ended, bs') \<Longrightarrow> branches_ok bs \<Longrightarrow> i \<in> set (busy_branches bs) \<Longrightarrow>
     mset es + pending_branches bs' = pending_branches bs \<and> branches_ok bs' \<and> unfinished bs = unfinished bs' + of_bool ended"
proof (induction i a and i bs arbitrary: es r and es ended bs' rule: subtask_done_branch_done.induct)
  case (2 i p nleft bs)
  obtain es1 ended1 bs1 where 1: "branch_done i bs = (es1, ended1, bs1)" by (cases "branch_done i bs")
  have IH: "mset es1 + pending_branches bs1 = pending_branches bs" "branches_ok bs1" "unfinished bs = unfinished bs1 + of_bool ended1"
    using 2(1) [OF 1] 2(3,4) by auto
  have "unfinished bs1 = 0 \<Longrightarrow> pending_branches bs1 = {#}" by (induction bs1 rule: unfinished.induct) simp_all
  with 2(2,3) 1 IH show ?case by (auto split: if_splits simp flip: IH(1))
next
  case (4 i s q bs)
  obtain es1 ended1 bs1 where 1: "branch_done i bs = (es1, ended1, bs1)" by (cases "branch_done i bs")
  from 4(1) [OF 1] 4(2-4) 1 show ?case by auto
next
  case (5 i s a q bs)
  show ?case
  proof (cases "i \<in> set (busy a)")
    case False
    obtain es1 ended1 bs1 where 1: "branch_done i bs = (es1, ended1, bs1)" by (cases "branch_done i bs")
    have "mset es1 + pending_branches bs1 = pending_branches bs \<and> branches_ok bs1 \<and> unfinished bs = unfinished bs1 + of_bool ended1"
      by (rule 5(1)) (use False 1 5(4,5) in auto)
    with 5(3) False 1 5(4) show ?thesis by (auto simp flip: add.assoc)
  next
    case True
    obtain es1 r1 where 1: "subtask_done i a = (es1, r1)" by force
    have "mset es1 + pending_option r1 = pending a \<and> (\<forall>a'. r1 = Some a' \<longrightarrow> tree_ok a')"
      by (rule 5(2)) (use True 1 5(4) in auto)
    then have IH: "pending a = mset es1 + pending_option r1" "\<And>a'. r1 = Some a' \<Longrightarrow> tree_ok a'" by simp_all
    show ?thesis
    proof (cases r1)
      case None
      obtain es2 r2 q2 where 2: "next_task q = (es2, r2, q2)" by (cases "next_task q")
      from dispatch_events(2) [OF 2] have n: "mset es2 + pending_option r2 + queue_events q2 = queue_events q"
        "\<forall>a. r2 = Some a \<longrightarrow> tree_ok a" "r2 = None \<longrightarrow> q2 = []" by auto
      show ?thesis
        using 5(3,4) True 1 None 2 n(2,3) by (cases r2) (auto simp: IH(1) simp flip: n(1))
    next
      case (Some a')
      with 5(3,4) True 1 IH(2) show ?thesis by (auto simp: IH(1))
    qed
  qed
qed auto

text \<open>The single tasks whose callbacks are in a list of events.\<close>

fun ended_tasks :: "task_event list \<Rightarrow> nat list" where
  "ended_tasks [] = []"
| "ended_tasks (Task_callback i # es) = i # ended_tasks es"
| "ended_tasks (_ # es) = ended_tasks es"

lemma ended_append [simp]: "ended_tasks (es @ es') = ended_tasks es @ ended_tasks es'"
  by (induction es rule: ended_tasks.induct) simp_all

lemma dispatch_ends_nothing:
  "dispatch t = (es, r) \<Longrightarrow> ended_tasks es = []"
  "next_task ts = (es, r, q) \<Longrightarrow> ended_tasks es = []"
  "dispatch_series ss = (es, bs) \<Longrightarrow> ended_tasks es = []"
  by (induction t and ts and ss arbitrary: es r and es r q and es bs rule: dispatch_next_task_dispatch_series.induct)
    (auto simp: Let_def split: prod.splits option.splits if_splits)

lemma done_ends_one:
  "subtask_done i a = (es, r) \<Longrightarrow> i \<in> set (busy a) \<Longrightarrow> ended_tasks es = [i]"
  "branch_done i bs = (es, ended, bs') \<Longrightarrow> i \<in> set (busy_branches bs) \<Longrightarrow> ended_tasks es = [i]"
  by (induction i a and i bs arbitrary: es r and es ended bs' rule: subtask_done_branch_done.induct)
    (auto dest: dispatch_ends_nothing(2) split: prod.splits option.splits if_splits)

lemma busy_exists:
  "tree_ok a \<Longrightarrow> busy a \<noteq> []"
  "branches_ok bs \<Longrightarrow> busy_branches bs = [] \<longleftrightarrow> unfinished bs = 0"
  by (induction a and bs rule: busy_busy_branches.induct) auto

section \<open>Schedules\<close>

definition callbacks :: "task_event multiset \<Rightarrow> nat" where
  "callbacks M = size (filter_mset (\<lambda>e. \<exists>i. e = Task_callback i) M)"

lemma callbacks_mset: "callbacks (mset es) = length (ended_tasks es)"
  unfolding callbacks_def by (induction es rule: ended_tasks.induct) auto

lemma callbacks_add [simp]:
  "callbacks {#} = 0" "callbacks (M + N) = callbacks M + callbacks N" "callbacks (add_mset (Task_callback i) M) = Suc (callbacks M)"
  "callbacks (add_mset (Task_started i) M) = callbacks M" "callbacks (add_mset (Parallel_callback i) M) = callbacks M"
  "callbacks (add_mset (Series_ended i) M) = callbacks M"
  by (simp_all add: callbacks_def)

text \<open>The number of single tasks of a workflow.\<close>

fun task_singles :: "task \<Rightarrow> nat" and series_singles :: "series \<Rightarrow> nat" where
  "task_singles (Single i) = 1"
| "task_singles (Parallel p ss) = sum_list (map series_singles ss)"
| "series_singles (Series s ts) = sum_list (map task_singles ts)"

lemma callbacks_sum: "callbacks (\<Sum>\<^sub># (image_mset f (mset xs))) = sum_list (map (\<lambda>x. callbacks (f x)) xs)"
  by (induction xs) simp_all

lemma callbacks_singles: "callbacks (task_events t) = task_singles t" "callbacks (series_events s) = series_singles s"
  by (induction t and s rule: task_singles_series_singles.induct) (simp_all add: callbacks_sum cong: map_cong)

lemma busy_callbacks:
  "length (busy a) \<le> callbacks (pending a)"
  "length (busy_branches bs) \<le> callbacks (pending_branches bs)"
  by (induction a and bs rule: busy_busy_branches.induct) auto

lemma run_schedule_ok:
  assumes "run_schedule is bs = Some (es, bs')" and "branches_ok bs"
  shows "mset es + pending_branches bs' = pending_branches bs \<and> branches_ok bs' \<and> ended_tasks es = is"
  using assms
proof (induction "is" arbitrary: bs es)
  case (Cons i "is")
  obtain es1 ended bs1 where 1: "branch_done i bs = (es1, ended, bs1)" by (cases "branch_done i bs")
  from Cons.prems(1) 1 obtain es2 where i: "i \<in> set (busy_branches bs)" and 2: "run_schedule is bs1 = Some (es2, bs')" "es = es1 @ es2"
    by (auto split: if_splits)
  have d: "mset es1 + pending_branches bs1 = pending_branches bs" "branches_ok bs1"
    using done_events(2) [OF 1 Cons.prems(2) i] by auto
  from Cons.IH [OF 2(1) d(2)] done_ends_one(2) [OF 1 i] show ?case by (auto simp: 2(2) simp flip: d(1))
qed auto

lemma schedule_from_start:
  assumes "run_schedule is (snd (start_series s)) = Some (es, bs)"
  shows "mset (fst (start_series s) @ es) + pending_branches bs = series_events s" and "branches_ok bs"
    and "ended_tasks (fst (start_series s) @ es) = is"
proof -
  obtain es0 bs0 where 0: "start_series s = (es0, bs0)" by force
  then have d: "dispatch_series [s] = (es0, bs0)" by (simp add: start_series_def)
  from dispatch_events(3) [OF d] have e: "mset es0 + pending_branches bs0 = series_events s" "branches_ok bs0" by auto
  from run_schedule_ok [of "is" bs0 es bs] assms 0 e
  have r: "mset es + pending_branches bs = pending_branches bs0" "branches_ok bs" "ended_tasks es = is" by auto
  show "mset (fst (start_series s) @ es) + pending_branches bs = series_events s"
    using e(1) by (simp add: 0 add.assoc flip: r(1))
  show "branches_ok bs" "ended_tasks (fst (start_series s) @ es) = is" using r dispatch_ends_nothing(3) [OF d] by (simp_all add: 0)
qed

section \<open>Properties\<close>

text \<open>C36: In whatever order the tasks of a workflow end, the workflow - series nested in parallel tasks nested in
  series to any depth - has ended exactly after as many ends as it has single tasks, and never waits for
  something that is not running.\<close>

theorem workflow_ends:
  assumes "run_schedule is (snd (start_series s)) = Some (es, bs)"
  shows "busy_branches bs = [] \<longleftrightarrow> length is = series_singles s"
proof -
  note r = schedule_from_start [OF assms]
  have "length is + callbacks (pending_branches bs) = series_singles s"
    using arg_cong [OF r(1), of callbacks] r(3) by (auto simp: callbacks_mset callbacks_singles simp flip: r(3))
  moreover have "busy_branches bs = [] \<Longrightarrow> callbacks (pending_branches bs) = 0"
  proof -
    assume "busy_branches bs = []"
    then have "unfinished bs = 0" using busy_exists(2) [OF r(2)] by simp
    then have "pending_branches bs = {#}" by (induction bs rule: unfinished.induct) simp_all
    then show ?thesis by simp
  qed
  ultimately show ?thesis using busy_callbacks(2) [of bs] by (cases "busy_branches bs") auto
qed

definition example_flow :: series where
  "example_flow = Series 0 [Single 1, Parallel 2 [Series 3 [Single 4, Single 5], Series 6 [Parallel 7 []]], Single 8]"

theorem workflow_ends_witness:
  "(case run_schedule [1, 4, 5, 8] (snd (start_series example_flow)) of Some (es, bs) \<Rightarrow> busy_branches bs = [] | None \<Rightarrow> False)
   \<and> series_singles example_flow = 4"
proof -
  have r: "run_schedule [1, 4, 5, 8] (snd (start_series example_flow)) \<noteq> None"
    by (simp add: example_flow_def start_series_def)
  then obtain es bs where e: "run_schedule [1, 4, 5, 8] (snd (start_series example_flow)) = Some (es, bs)" by auto
  have n: "series_singles example_flow = 4" by (simp add: example_flow_def)
  have "busy_branches bs = []" using workflow_ends [OF e] n by simp
  then show ?thesis unfolding e using n by simp
qed

text \<open>C37: When a workflow has ended, every callback has been called exactly once: that of every single task, of every
  parallel task and of every series, and nothing else has happened.\<close>

theorem workflow_callbacks_once:
  assumes "run_schedule is (snd (start_series s)) = Some (es, bs)" and "busy_branches bs = []"
  shows "mset (fst (start_series s) @ es) = series_events s"
proof -
  note r = schedule_from_start [OF assms(1)]
  have "unfinished bs = 0" using busy_exists(2) [OF r(2)] assms(2) by simp
  then have "pending_branches bs = {#}" by (induction bs rule: unfinished.induct) simp_all
  with r(1) show ?thesis by simp
qed

theorem workflow_callbacks_once_witness:
  "mset (fst (start_series (Series 0 [Parallel 1 [Series 2 [Single 3], Series 4 []]])) @ [Task_callback 3, Series_ended 2, Parallel_callback 1, Series_ended 0])
    = {#Task_started 3, Series_ended 4, Task_callback 3, Series_ended 2, Parallel_callback 1, Series_ended 0#}"
proof -
  let ?s = "Series 0 [Parallel 1 [Series 2 [Single 3], Series 4 []]]"
  have "run_schedule [3] (snd (start_series ?s)) = Some ([Task_callback 3, Series_ended 2, Parallel_callback 1, Series_ended 0], [Branch 0 None []])"
    by (simp add: start_series_def)
  from workflow_callbacks_once [OF this] show ?thesis by (simp add: add_mset_commute)
qed

text \<open>The callback of a parallel task is the last thing that happens in it: when its last series ends, everything
  below it has happened.\<close>

theorem parallel_callback_last:
  assumes "tree_ok (Forked p nleft bs)" and "i \<in> set (busy (Forked p nleft bs))" and "subtask_done i (Forked p nleft bs) = (es, None)"
  shows "\<exists>es'. es = es' @ [Parallel_callback p] \<and> mset es' = pending_branches bs"
proof -
  obtain es' ended bs' where b: "branch_done i bs = (es', ended, bs')" by (cases "branch_done i bs")
  have "es = es' @ [Parallel_callback p]" using assms(3) b by (auto split: if_splits)
  moreover have "mset es = add_mset (Parallel_callback p) (pending_branches bs)"
    using done_events(1) [OF assms(3,1,2)] by simp
  ultimately show ?thesis by auto
qed

theorem parallel_callback_last_witness:
  "\<exists>es'. fst (subtask_done 3 (Forked 1 1 [Branch 2 (Some (Busy 3)) [], Branch 4 None []])) = es' @ [Parallel_callback 1]"
  using parallel_callback_last [of 1 1 "[Branch 2 (Some (Busy 3)) [], Branch 4 None []]" 3] by auto

end
