(* ===== verification/String_Util.thy ===== *)
theory String_Util
  imports Cxx_Strings
begin

text \<open>
  The string functions of the framework (\<open>workflow/src/util/StringUtil.cc\<close>): coding of URLs, splitting,
  stripping. The classification of characters is that of the C locale.
\<close>

section \<open>Coding of URLs\<close>

abbreviation code_of :: "char \<Rightarrow> nat" where
  "code_of c \<equiv> of_char c"

definition is_alnum :: "char \<Rightarrow> bool" where
  "is_alnum c \<longleftrightarrow> 48 \<le> code_of c \<and> code_of c \<le> 57 \<or> 65 \<le> code_of c \<and> code_of c \<le> 90 \<or> 97 \<le> code_of c \<and> code_of c \<le> 122"

definition is_xdigit :: "char \<Rightarrow> bool" where
  "is_xdigit c \<longleftrightarrow> 48 \<le> code_of c \<and> code_of c \<le> 57 \<or> 65 \<le> code_of c \<and> code_of c \<le> 70 \<or> 97 \<le> code_of c \<and> code_of c \<le> 102"

definition to_upper :: "char \<Rightarrow> nat" where
  "to_upper c = (if 97 \<le> code_of c \<and> code_of c \<le> 122 then code_of c - 32 else code_of c)"

definition hex_value :: "char \<Rightarrow> nat" where
  "hex_value c = (if code_of c \<le> 57 then code_of c - 48 else to_upper c - 65 + 10)"

definition hex_to_int :: "char \<Rightarrow> char \<Rightarrow> nat" where
  "hex_to_int a b = 16 * hex_value a + hex_value b"

definition int_to_hex :: "nat \<Rightarrow> char" where
  "int_to_hex n = char_of (if n \<le> 9 then n + 48 else n - 10 + 65)"

definition plus_space :: "char \<Rightarrow> char" where
  "plus_space c = (if c = CHR ''+'' then CHR '' '' else c)"

text \<open>The decoding is done in place, the place written never being ahead of the place read.\<close>

fun url_decode_loop :: "string \<Rightarrow> string" where
  "url_decode_loop [] = []"
| "url_decode_loop (c # a # b # s) =
     (if c = CHR ''%'' \<and> is_xdigit a \<and> is_xdigit b then char_of (hex_to_int a b) # url_decode_loop s
      else plus_space c # url_decode_loop (a # b # s))"
| "url_decode_loop (c # s) = plus_space c # url_decode_loop s"

definition url_decode :: "string \<Rightarrow> string" where
  "url_decode s = url_decode_loop (c_str s)"

definition component_safe :: "char \<Rightarrow> bool" where
  "component_safe c \<longleftrightarrow> is_alnum c \<or> c \<in> set (''-_.!~*()'' @ [CHR 0x27])"

definition url_safe :: "char \<Rightarrow> bool" where
  "url_safe c \<longleftrightarrow> component_safe c \<or> c \<in> set '':/@?#&''"

definition encode_char :: "(char \<Rightarrow> bool) \<Rightarrow> char \<Rightarrow> string" where
  "encode_char safe c = (if safe c then [c] else if c = CHR '' '' then ''+''
     else [CHR ''%'', int_to_hex (code_of c div 16), int_to_hex (code_of c mod 16)])"

definition url_encode :: "string \<Rightarrow> string" where
  "url_encode s = concat (map (encode_char url_safe) s)"

definition url_encode_component :: "string \<Rightarrow> string" where
  "url_encode_component s = concat (map (encode_char component_safe) s)"

section \<open>Splitting\<close>

function split :: "char \<Rightarrow> string \<Rightarrow> string list" where
  "split sep s = (case dropWhile (\<lambda>c. c \<noteq> sep) s of
     [] \<Rightarrow> [takeWhile (\<lambda>c. c \<noteq> sep) s]
   | _ # r \<Rightarrow> takeWhile (\<lambda>c. c \<noteq> sep) s # split sep r)"
  by auto
termination
proof (relation "measure (\<lambda>(sep, s). length s)")
  fix sep s c r
  assume "dropWhile (\<lambda>c. c \<noteq> sep) s = c # r"
  then have "Suc (length r) \<le> length s" using length_dropWhile_le [of "\<lambda>c. c \<noteq> sep" s] by simp
  then show "((sep, r), sep, s) \<in> measure (\<lambda>(sep, s). length s)" by simp
qed simp

declare split.simps [simp del]

function split_filter_empty :: "char \<Rightarrow> string \<Rightarrow> string list" where
  "split_filter_empty sep s = (let w = takeWhile (\<lambda>c. c \<noteq> sep) s; ws = (if w \<noteq> [] then [w] else [])
     in case dropWhile (\<lambda>c. c \<noteq> sep) s of [] \<Rightarrow> ws | _ # r \<Rightarrow> ws @ split_filter_empty sep r)"
  by auto
termination
proof (relation "measure (\<lambda>(sep, s). length s)")
  fix sep s w ws c r
  assume "dropWhile (\<lambda>c. c \<noteq> sep) s = c # r"
  then have "Suc (length r) \<le> length s" using length_dropWhile_le [of "\<lambda>c. c \<noteq> sep" s] by simp
  then show "((sep, r), sep, s) \<in> measure (\<lambda>(sep, s). length s)" by simp
qed simp

declare split_filter_empty.simps [simp del]

definition strip :: "string \<Rightarrow> string" where
  "strip s = rev (dropWhile is_space (rev (dropWhile is_space s)))"

definition start_with :: "string \<Rightarrow> string \<Rightarrow> bool" where
  "start_with s w \<longleftrightarrow> length w \<le> length s \<and> (\<forall>i < length w. s ! i = w ! i)"

section \<open>Lemmas\<close>

lemma hex_digits: "n < 16 \<Longrightarrow> is_xdigit (int_to_hex n) \<and> hex_value (int_to_hex n) = n \<and> int_to_hex n \<noteq> CHR 0x00"
proof (cases "n \<le> 9")
  case True
  then have "of_char (int_to_hex n) = n + 48" by (simp add: int_to_hex_def)
  then show ?thesis using True by (auto simp: is_xdigit_def hex_value_def)
next
  case False
  assume "n < 16"
  then have "of_char (int_to_hex n) = n + 55" using False by (simp add: int_to_hex_def)
  then show ?thesis using False \<open>n < 16\<close> by (auto simp: is_xdigit_def hex_value_def to_upper_def)
qed

lemma decode_plain: "c \<noteq> CHR ''%'' \<Longrightarrow> url_decode_loop (c # s) = plus_space c # url_decode_loop s"
  by (cases "(c # s)" rule: url_decode_loop.cases) auto

lemma safe_plain: "url_safe c \<Longrightarrow> c \<noteq> CHR ''%'' \<and> c \<noteq> CHR ''+'' \<and> c \<noteq> CHR 0x00"
  by (auto simp: url_safe_def component_safe_def is_alnum_def)

lemma div_16_code: "code_of c div 16 < 16"
proof -
  have "code_of c < 256" by (rule of_char_less_256)
  then show ?thesis by linarith
qed

lemma decode_encode_char:
  assumes "\<And>c. safe c \<Longrightarrow> url_safe c"
  shows "url_decode_loop (encode_char safe c @ s) = c # url_decode_loop s" and "CHR 0x00 \<notin> set (encode_char safe c)"
proof -
  have d: "code_of c div 16 < 16" by (rule div_16_code)
  have m: "code_of c mod 16 < 16" by simp
  note h = hex_digits [OF d] hex_digits [OF m]
  have "char_of (hex_to_int (int_to_hex (code_of c div 16)) (int_to_hex (code_of c mod 16))) = c"
    by (simp add: hex_to_int_def h)
  then show "url_decode_loop (encode_char safe c @ s) = c # url_decode_loop s" and "CHR 0x00 \<notin> set (encode_char safe c)"
    using h safe_plain [OF assms, of c] by (auto simp: encode_char_def decode_plain plus_space_def)
qed

lemma decode_encode:
  assumes "\<And>c. safe c \<Longrightarrow> url_safe c"
  shows "url_decode (concat (map (encode_char safe) s)) = s"
proof -
  have n: "CHR 0x00 \<notin> set (concat (map (encode_char safe) s))" using decode_encode_char(2) [OF assms] by auto
  have "url_decode_loop (concat (map (encode_char safe) s)) = s"
    by (induction s) (use decode_encode_char(1) [OF assms] in auto)
  moreover have "c_str (concat (map (encode_char safe) s)) = concat (map (encode_char safe) s)"
    by (rule c_str_id) (use n in \<open>simp add: NUL_def\<close>)
  ultimately show ?thesis by (simp add: url_decode_def)
qed

text \<open>Decoding a coded URL gives back what was coded, for every string of bytes: a zero byte and the characters
  that have a meaning in the coding included.\<close>

theorem url_roundtrip: "url_decode (url_encode s) = s"
  unfolding url_encode_def by (rule decode_encode)

theorem url_component_roundtrip: "url_decode (url_encode_component s) = s"
  unfolding url_encode_component_def by (rule decode_encode) (simp add: url_safe_def)

text \<open>The pieces of a string, without the separator, and what they are put together from.\<close>

fun join :: "char \<Rightarrow> string list \<Rightarrow> string" where
  "join sep [] = []"
| "join sep [w] = w"
| "join sep (w # ws) = w @ sep # join sep ws"

lemma split_not_Nil [simp]: "split sep s \<noteq> []"
  by (subst split.simps) (simp split: list.split)

lemma split_pieces: "w \<in> set (split sep s) \<Longrightarrow> sep \<notin> set w"
proof (induction sep s rule: split.induct)
  case (1 sep s)
  then show ?case
    by (subst (asm) split.simps) (auto split: list.splits dest: set_takeWhileD)
qed

text \<open>Splitting a string gives pieces that, put together again with the separator, are the string.\<close>

theorem join_split: "join sep (split sep s) = s"
proof (induction sep s rule: split.induct)
  case (1 sep s)
  show ?case
  proof (cases "dropWhile (\<lambda>c. c \<noteq> sep) s")
    case Nil
    have "takeWhile (\<lambda>c. c \<noteq> sep) s = s" using takeWhile_dropWhile_id [of "\<lambda>c. c \<noteq> sep" s] unfolding Nil by simp
    then show ?thesis unfolding split.simps [of sep s] Nil by simp
  next
    case (Cons c r)
    then have "c = sep" using hd_dropWhile [of "\<lambda>c. c \<noteq> sep" s] by simp
    moreover obtain w ws where "split sep r = w # ws" by (cases "split sep r") auto
    ultimately show ?thesis
      using Cons 1 [OF Cons] takeWhile_dropWhile_id [of "\<lambda>c. c \<noteq> sep" s] by (simp add: split.simps [of sep s])
  qed
qed

lemma split_word: "sep \<notin> set w \<Longrightarrow> split sep w = [w]" "sep \<notin> set w \<Longrightarrow> split sep (w @ sep # s) = w # split sep s"
proof -
  assume "sep \<notin> set w"
  then have w: "takeWhile (\<lambda>c. c \<noteq> sep) w = w" "dropWhile (\<lambda>c. c \<noteq> sep) w = []"
    "takeWhile (\<lambda>c. c \<noteq> sep) (w @ sep # s) = w" "dropWhile (\<lambda>c. c \<noteq> sep) (w @ sep # s) = sep # s"
    by (simp_all add: takeWhile_eq_all_conv dropWhile_eq_Nil_conv takeWhile_append dropWhile_append)
      (auto simp: takeWhile_eq_all_conv)
  show "split sep w = [w]" unfolding split.simps [of sep w] w by simp
  show "split sep (w @ sep # s) = w # split sep s" unfolding split.simps [of sep "w @ sep # s"] w by simp
qed

lemma split_join: "\<lbrakk>ws \<noteq> []; \<forall>w \<in> set ws. sep \<notin> set w\<rbrakk> \<Longrightarrow> split sep (join sep ws) = ws"
  by (induction sep ws rule: join.induct) (auto simp: split_word)

lemma split_filter_empty_eq: "split_filter_empty sep s = filter (\<lambda>w. w \<noteq> []) (split sep s)"
proof (induction sep s rule: split.induct)
  case (1 sep s)
  show ?case
  proof (cases "dropWhile (\<lambda>c. c \<noteq> sep) s")
    case Nil
    show ?thesis unfolding split.simps [of sep s] split_filter_empty.simps [of sep s] Let_def Nil by simp
  next
    case (Cons c r)
    show ?thesis
      unfolding split.simps [of sep s] split_filter_empty.simps [of sep s] Let_def Cons using 1 [OF Cons] by simp
  qed
qed

end
