(* ===== verification/Uri_Parser.thy ===== *)
theory Uri_Parser
  imports String_Util
begin

text \<open>
  The parser of URIs (\<open>workflow/src/util/URIParser.cc\<close>): one scan that records where each part starts and ends,
  a check of the characters, and copies of the parts. A position in the string comes with the rest of
  the string from there on, which ends where the code reads the terminating NUL; \<open>realloc\<close> is
  a parameter (the \<open>errno\<close> of a failure).
\<close>

section \<open>State\<close>

datatype uri_part = URI_SCHEME | URI_USERINFO | URI_HOST | URI_PORT | URI_QUERY | URI_FRAGMENT | URI_PATH | URI_PART_ELEMENTS

datatype uri_state = URI_STATE_INIT | URI_STATE_SUCCESS | URI_STATE_INVALID | URI_STATE_ERROR

record ParsedURI =
  uri_text :: "uri_part \<Rightarrow> string option"
  uri_status :: uri_state
  uri_error :: int

definition new_ParsedURI :: ParsedURI where
  "new_ParsedURI = \<lparr>uri_text = (\<lambda>_. None), uri_status = URI_STATE_INIT, uri_error = 0\<rparr>"

text \<open>The local variables of the scan.\<close>

record uri_scan =
  start_idx :: "uri_part \<Rightarrow> nat"
  end_idx :: "uri_part \<Rightarrow> nat"
  pre_state :: uri_part
  in_ipv6 :: bool
  skip_path :: bool

fun valid_char :: "uri_part \<Rightarrow> char \<Rightarrow> bool" where
  "valid_char URI_SCHEME c = (is_alnum c \<or> c \<in> set ''+-.'')"
| "valid_char URI_USERINFO c = (is_alnum c \<or> c \<in> set (''!$%&()*+,-.:;=_~'' @ [CHR 0x27]))"
| "valid_char URI_HOST c = (is_alnum c \<or> c \<in> set (''!$%&()*+,-.:;=[]_~'' @ [CHR 0x27]))"
| "valid_char URI_PORT c = (48 \<le> code_of c \<and> code_of c \<le> 57)"
| "valid_char _ c = True"

text \<open>The first part stands for the entry 0 of the table: a character that means nothing.\<close>

definition authority_map :: "char \<Rightarrow> uri_part" where
  "authority_map c = (if c = NUL then URI_PART_ELEMENTS else if c = CHR ''#'' then URI_FRAGMENT
     else if c = CHR ''/'' then URI_PATH else if c = CHR '':'' then URI_HOST
     else if c = CHR ''?'' then URI_QUERY else if c = CHR ''@'' then URI_USERINFO else URI_SCHEME)"

section \<open>Scan\<close>

text \<open>The end of the scheme, 0 without a colon, and where the scan goes on.\<close>

fun scheme_loop :: "nat \<Rightarrow> string \<Rightarrow> nat \<times> nat \<times> string" where
  "scheme_loop i [] = (0, i, [])"
| "scheme_loop i (c # s) = (if c = CHR '':'' then (i, Suc i, s) else scheme_loop (Suc i) s)"

abbreviation at_char :: "char \<Rightarrow> string \<Rightarrow> bool" where
  "at_char c s \<equiv> (case s of [] \<Rightarrow> False | d # _ \<Rightarrow> d = c)"

definition set_start :: "uri_part \<Rightarrow> nat \<Rightarrow> uri_scan \<Rightarrow> uri_scan" where
  "set_start p i u = u\<lparr>start_idx := (start_idx u)(p := i)\<rparr>"

definition set_end :: "uri_part \<Rightarrow> nat \<Rightarrow> uri_scan \<Rightarrow> uri_scan" where
  "set_end p i u = u\<lparr>end_idx := (end_idx u)(p := i)\<rparr>"

text \<open>The loop over the authority; \<open>prev\<close> is the character before the current one.\<close>

fun authority_loop :: "nat \<Rightarrow> char \<Rightarrow> string \<Rightarrow> uri_scan \<Rightarrow> nat \<times> string \<times> uri_scan" where
  "authority_loop i prev [] u = (i, [], u\<lparr>skip_path := True\<rparr>)"
| "authority_loop i prev (c # s) u = (case authority_map c of
     URI_USERINFO \<Rightarrow>
       (let u = (if at_char (CHR ''['') s then u\<lparr>in_ipv6 := True\<rparr> else u)
        in authority_loop (Suc i) c s ((set_start URI_HOST (Suc i) (set_end URI_USERINFO i u))\<lparr>pre_state := URI_HOST\<rparr>))
   | URI_HOST \<Rightarrow>
       (let u = (if prev = CHR '']'' then u\<lparr>in_ipv6 := False\<rparr> else u);
            u = (if \<not> in_ipv6 u then (set_start URI_PORT (Suc i) (set_end URI_HOST i u))\<lparr>pre_state := URI_PORT\<rparr> else u)
        in authority_loop (Suc i) c s u)
   | URI_QUERY \<Rightarrow>
       authority_loop (Suc i) c s
         ((set_start URI_QUERY (Suc i) (set_end (pre_state u) i u))\<lparr>pre_state := URI_QUERY, skip_path := True\<rparr>)
   | URI_FRAGMENT \<Rightarrow>
       (i, c # s, (set_end URI_FRAGMENT (i + length (c # s)) (set_start URI_FRAGMENT (Suc i) (set_end (pre_state u) i u)))
          \<lparr>pre_state := URI_PART_ELEMENTS, skip_path := True\<rparr>)
   | URI_PATH \<Rightarrow>
       if skip_path u then authority_loop (Suc i) c s u else (i, c # s, set_start URI_PATH i u)
   | URI_PART_ELEMENTS \<Rightarrow> (i, c # s, u\<lparr>skip_path := True\<rparr>)
   | _ \<Rightarrow> authority_loop (Suc i) c s u)"

text \<open>After a question mark at \<open>i\<close>: up to the next number sign, or to the last character.\<close>

fun query_skip :: "nat \<Rightarrow> char \<Rightarrow> string \<Rightarrow> nat \<times> char \<times> string" where
  "query_skip i c [] = (i, c, [])"
| "query_skip i c (d # s) = (if d = CHR ''#'' then (Suc i, d, s) else query_skip (Suc i) d s)"

lemma query_skip_length: "query_skip i c s = (i', c', s') \<Longrightarrow> length s' \<le> length s"
  by (induction i c s rule: query_skip.induct) (auto split: if_splits)

function path_loop :: "nat \<Rightarrow> string \<Rightarrow> uri_scan \<Rightarrow> nat \<times> string \<times> uri_scan" where
  "path_loop i [] u = (i, [], u)"
| "path_loop i (c # s) u =
     (let (i', c', s') = (if c = CHR ''?'' then query_skip i c s else (i, c, s));
          u' = (if c = CHR ''?'' then (set_start URI_QUERY (Suc i) (set_end URI_PATH i u))\<lparr>pre_state := URI_QUERY\<rparr> else u)
      in if c' = CHR ''#'' then
           (i', c' # s', (set_start URI_FRAGMENT (Suc i') (set_end (pre_state u') i' u'))\<lparr>pre_state := URI_FRAGMENT\<rparr>)
         else path_loop (Suc i') s' u')"
  by pat_completeness auto
termination
proof (relation "measure (\<lambda>(i, s, u). length s)")
  fix i c s u x i' y c' s' u'
  assume "x = (if c = CHR ''?'' then query_skip i c s else (i, c, s))" "(i', y) = x" "(c', s') = y"
  then have "length s' \<le> length s" by (auto split: if_splits dest: query_skip_length [OF sym])
  then show "((Suc i', s', u'), i, c # s, u) \<in> measure (\<lambda>(i, s, u). length s)" by simp
qed simp

text \<open>What follows the authority.\<close>

definition uri_scan_rest :: "nat \<times> string \<times> uri_scan \<Rightarrow> uri_scan" where
  "uri_scan_rest r = (let (i, s, u) = r;
       u = (if pre_state u \<noteq> URI_PART_ELEMENTS then set_end (pre_state u) i u else u)
     in if skip_path u then u
        else let (i, s, u) = path_loop i s (u\<lparr>pre_state := URI_PATH\<rparr>) in set_end (pre_state u) (i + length s) u)"

text \<open>The scan of the whole string: \<open>None\<close> without a scheme.\<close>

definition uri_scan_string :: "string \<Rightarrow> uri_scan option" where
  "uri_scan_string str = (let (e, i, s) = scheme_loop 0 str;
       u = \<lparr>start_idx = (\<lambda>_. 0), end_idx = (\<lambda>_. 0)(URI_SCHEME := e), pre_state = URI_SCHEME, in_ipv6 = False, skip_path = False\<rparr>
     in if e = 0 then None
        else
          let (i, s, u) = (case s of
                 CHR ''/'' # CHR ''/'' # t \<Rightarrow>
                   (let u = u\<lparr>pre_state := URI_HOST\<rparr>; i = i + 2;
                        u = (if at_char (CHR ''['') t then u\<lparr>in_ipv6 := True\<rparr> else set_start URI_USERINFO i u)
                    in (i, t, set_start URI_HOST i u))
               | _ \<Rightarrow> (i, s, set_start URI_PATH i (u\<lparr>pre_state := URI_PATH\<rparr>)))
          in Some (uri_scan_rest (if start_idx u URI_PATH = 0 then authority_loop i (CHR ''/'') s u else (i, s, u))))"

section \<open>Parsing\<close>

definition part_text :: "string \<Rightarrow> uri_scan \<Rightarrow> uri_part \<Rightarrow> string" where
  "part_text str u p = segment (start_idx u p) (end_idx u p - start_idx u p) str"

definition chars_valid :: "string \<Rightarrow> uri_scan \<Rightarrow> bool" where
  "chars_valid str u = list_all (\<lambda>p. list_all (valid_char p) (part_text str u p)) [URI_SCHEME, URI_USERINFO, URI_HOST, URI_PORT]"

text \<open>The brackets around an address of version 6 are not copied.\<close>

definition strip_brackets :: "uri_part \<Rightarrow> string \<Rightarrow> string" where
  "strip_brackets p t = (if p = URI_HOST \<and> hd t = CHR ''['' \<and> last t = CHR '']'' then segment 1 (length t - 2) t else t)"

fun store_parts :: "(uri_part \<Rightarrow> int option) \<Rightarrow> string \<Rightarrow> uri_scan \<Rightarrow> uri_part list \<Rightarrow> ParsedURI \<Rightarrow> int \<times> ParsedURI" where
  "store_parts no_memory str u [] uri = (0, uri\<lparr>uri_status := URI_STATE_SUCCESS\<rparr>)"
| "store_parts no_memory str u (p # ps) uri =
     (if start_idx u p < end_idx u p then
        case no_memory p of
          Some e \<Rightarrow> (-1, uri\<lparr>uri_text := (uri_text uri)(p := None), uri_status := URI_STATE_ERROR, uri_error := e\<rparr>)
        | None \<Rightarrow> store_parts no_memory str u ps
            (uri\<lparr>uri_text := (uri_text uri)(p := Some (strip_brackets p (part_text str u p)))\<rparr>)
      else store_parts no_memory str u ps (uri\<lparr>uri_text := (uri_text uri)(p := None)\<rparr>))"

definition uri_parts :: "uri_part list" where
  "uri_parts = [URI_SCHEME, URI_USERINFO, URI_HOST, URI_PORT, URI_QUERY, URI_FRAGMENT, URI_PATH]"

definition parse_uri :: "(uri_part \<Rightarrow> int option) \<Rightarrow> string \<Rightarrow> ParsedURI \<Rightarrow> int \<times> ParsedURI" where
  "parse_uri no_memory s uri = (let str = c_str s; uri = uri\<lparr>uri_status := URI_STATE_INVALID\<rparr>
     in case uri_scan_string str of
          None \<Rightarrow> (-1, uri)
        | Some u \<Rightarrow> if \<not> chars_valid str u then (-1, uri) else store_parts no_memory str u uri_parts uri)"

section \<open>Queries and paths\<close>

definition query_pair :: "string \<Rightarrow> string \<times> string" where
  "query_pair ele = (let kv = split (CHR ''='') ele in (hd kv, if length kv = 1 then [] else kv ! 1))"

definition add_pair :: "string \<times> string \<Rightarrow> (string \<rightharpoonup> string) \<Rightarrow> (string \<rightharpoonup> string)" where
  "add_pair kv res = (if fst kv = [] \<or> res (fst kv) \<noteq> None then res else res(fst kv \<mapsto> snd kv))"

definition split_query :: "string \<Rightarrow> (string \<rightharpoonup> string)" where
  "split_query query = (if query = [] then (\<lambda>_. None)
     else fold (\<lambda>ele res. if ele = [] then res else add_pair (query_pair ele) res) (split (CHR ''&'') query) (\<lambda>_. None))"

definition add_value :: "string \<times> string \<Rightarrow> (string \<Rightarrow> string list) \<Rightarrow> (string \<Rightarrow> string list)" where
  "add_value kv res = (if fst kv = [] then res else res(fst kv := res (fst kv) @ [snd kv]))"

definition split_query_strict :: "string \<Rightarrow> (string \<Rightarrow> string list)" where
  "split_query_strict query = (if query = [] then (\<lambda>_. [])
     else fold (\<lambda>ele res. if ele = [] then res else add_value (query_pair ele) res) (split (CHR ''&'') query) (\<lambda>_. []))"

definition split_path :: "string \<Rightarrow> string list" where
  "split_path path = split_filter_empty (CHR ''/'') path"

section \<open>What the scan finds\<close>

text \<open>A part of a URI that is there is not empty.\<close>

definition part_at :: "string \<Rightarrow> uri_part \<Rightarrow> string option \<Rightarrow> uri_scan \<Rightarrow> bool" where
  "part_at str p x u \<longleftrightarrow> (case x of
     None \<Rightarrow> end_idx u p \<le> start_idx u p
   | Some t \<Rightarrow> end_idx u p = start_idx u p + length t \<and> segment (start_idx u p) (length t) str = t \<and> t \<noteq> [])"

lemma part_at_text: "part_at str p (Some t) u \<Longrightarrow> part_text str u p = t \<and> start_idx u p < end_idx u p"
  by (auto simp: part_at_def part_text_def)

lemma part_at_None: "part_at str p None u \<Longrightarrow> part_text str u p = [] \<and> \<not> start_idx u p < end_idx u p"
  by (auto simp: part_at_def part_text_def segment_def)

lemma set_idx_simps [simp]:
  "start_idx (set_start p i u) = (start_idx u)(p := i)" "end_idx (set_start p i u) = end_idx u"
  "end_idx (set_end p i u) = (end_idx u)(p := i)" "start_idx (set_end p i u) = start_idx u"
  "pre_state (set_start p i u) = pre_state u" "pre_state (set_end p i u) = pre_state u"
  "in_ipv6 (set_start p i u) = in_ipv6 u" "in_ipv6 (set_end p i u) = in_ipv6 u"
  "skip_path (set_start p i u) = skip_path u" "skip_path (set_end p i u) = skip_path u"
  by (auto simp: set_start_def set_end_def)

text \<open>Characters the authority loop passes over.\<close>

definition plain :: "char \<Rightarrow> bool" where
  "plain c \<longleftrightarrow> authority_map c = URI_SCHEME"

lemma plain_iff: "plain c \<longleftrightarrow> c \<notin> set ''#/:?@'' \<and> c \<noteq> NUL"
  by (auto simp: plain_def authority_map_def)

lemma authority_special [simp]:
  "authority_map (CHR ''#'') = URI_FRAGMENT" "authority_map (CHR ''/'') = URI_PATH" "authority_map (CHR '':'') = URI_HOST"
  "authority_map (CHR ''?'') = URI_QUERY" "authority_map (CHR ''@'') = URI_USERINFO"
  by (simp_all add: authority_map_def NUL_def)

text \<open>The branches of the loop.\<close>

declare authority_loop.simps(2) [simp del]

lemma authority_step:
  "plain c \<Longrightarrow> authority_loop i p (c # s) u = authority_loop (Suc i) c s u"
  by (subst authority_loop.simps(2)) (simp add: plain_def)

lemma authority_colon:
  "p \<noteq> CHR '']'' \<Longrightarrow> in_ipv6 u \<Longrightarrow> authority_loop i p (CHR '':'' # s) u = authority_loop (Suc i) (CHR '':'') s u"
  "\<not> in_ipv6 u \<Longrightarrow> authority_loop i p (CHR '':'' # s) u =
     authority_loop (Suc i) (CHR '':'') s ((set_start URI_PORT (Suc i) (set_end URI_HOST i u))\<lparr>pre_state := URI_PORT\<rparr>)"
  by (subst authority_loop.simps(2), cases u, simp add: set_start_def set_end_def)+

lemma authority_colon_bracket:
  "authority_loop i (CHR '']'') (CHR '':'' # s) u = authority_loop (Suc i) (CHR '':'') s
     ((set_start URI_PORT (Suc i) (set_end URI_HOST i u))\<lparr>in_ipv6 := False, pre_state := URI_PORT\<rparr>)"
  by (subst authority_loop.simps(2), cases u) (simp add: set_start_def set_end_def)

lemma authority_at:
  assumes "\<not> in_ipv6 u"
  shows "authority_loop i p (CHR ''@'' # s) u = authority_loop (Suc i) (CHR ''@'') s
     ((set_start URI_HOST (Suc i) (set_end URI_USERINFO i u))\<lparr>pre_state := URI_HOST, in_ipv6 := at_char (CHR ''['') s\<rparr>)"
proof (cases "at_char (CHR ''['') s")
  case True
  then show ?thesis by (subst authority_loop.simps(2), cases u) (simp add: set_start_def set_end_def)
next
  case False
  then show ?thesis using assms by (subst authority_loop.simps(2), cases u) (simp add: set_start_def set_end_def)
qed

lemma authority_end:
  "authority_loop i p (CHR ''?'' # s) u = authority_loop (Suc i) (CHR ''?'') s
     ((set_start URI_QUERY (Suc i) (set_end (pre_state u) i u))\<lparr>pre_state := URI_QUERY, skip_path := True\<rparr>)"
  "authority_loop i p (CHR ''#'' # s) u = (i, CHR ''#'' # s,
     (set_end URI_FRAGMENT (i + length (CHR ''#'' # s)) (set_start URI_FRAGMENT (Suc i) (set_end (pre_state u) i u)))
          \<lparr>pre_state := URI_PART_ELEMENTS, skip_path := True\<rparr>)"
  "authority_loop i p (CHR ''/'' # s) u =
     (if skip_path u then authority_loop (Suc i) (CHR ''/'') s u else (i, CHR ''/'' # s, set_start URI_PATH i u))"
  by (subst authority_loop.simps(2), simp)+

lemma authority_plain: "\<forall>c \<in> set xs. plain c \<Longrightarrow>
  authority_loop i p (xs @ s) u = authority_loop (i + length xs) (last (p # xs)) s u"
  by (induction xs arbitrary: i p) (auto simp: authority_step)

text \<open>Inside of brackets a colon means nothing.\<close>

lemma authority_ipv6: "\<lbrakk>\<forall>c \<in> set xs. plain c \<and> c \<noteq> CHR '']'' \<or> c = CHR '':''; in_ipv6 u; p \<noteq> CHR '']''\<rbrakk> \<Longrightarrow>
  authority_loop i p (xs @ s) u = authority_loop (i + length xs) (last (p # xs)) s u"
proof (induction xs arbitrary: i p)
  case (Cons c xs)
  have "authority_loop i p (c # xs @ s) u = authority_loop (Suc i) c (xs @ s) u"
  proof (cases "c = CHR '':''")
    case True
    then show ?thesis using Cons.prems(2,3) by (simp add: authority_colon(1))
  next
    case False
    then show ?thesis using Cons.prems(1) by (simp add: authority_step)
  qed
  moreover have "authority_loop (Suc i) c (xs @ s) u = authority_loop (Suc i + length xs) (last (c # xs)) s u"
    using Cons.prems by (intro Cons.IH) auto
  ultimately show ?case by simp
qed simp

text \<open>In the user information a colon starts a port, until the at sign takes it back.\<close>

definition after_userinfo :: "nat \<Rightarrow> bool \<Rightarrow> nat \<Rightarrow> nat \<Rightarrow> uri_scan \<Rightarrow> uri_scan" where
  "after_userinfo i b6 a b u = u\<lparr>start_idx := (start_idx u)(URI_PORT := b, URI_HOST := Suc i),
     end_idx := (end_idx u)(URI_HOST := a, URI_USERINFO := i), pre_state := URI_HOST, in_ipv6 := b6\<rparr>"

lemma authority_userinfo: "\<lbrakk>\<forall>c \<in> set xs. plain c \<or> c = CHR '':''; \<not> in_ipv6 u\<rbrakk> \<Longrightarrow>
  \<exists>a b. authority_loop i p (xs @ CHR ''@'' # s) u =
    authority_loop (Suc (i + length xs)) (CHR ''@'') s (after_userinfo (i + length xs) (at_char (CHR ''['') s) a b u)"
proof (induction xs arbitrary: i p u)
  case Nil
  have "(set_start URI_HOST (Suc i) (set_end URI_USERINFO i u))\<lparr>pre_state := URI_HOST, in_ipv6 := at_char (CHR ''['') s\<rparr> =
      after_userinfo i (at_char (CHR ''['') s) (end_idx u URI_HOST) (start_idx u URI_PORT) u"
    by (simp add: after_userinfo_def set_start_def set_end_def)
  then have "authority_loop i p ([] @ CHR ''@'' # s) u = authority_loop (Suc (i + length [])) (CHR ''@'') s
      (after_userinfo (i + length []) (at_char (CHR ''['') s) (end_idx u URI_HOST) (start_idx u URI_PORT) u)"
    using authority_at [OF Nil(2), of i p s] by simp
  then show ?case by blast
next
  case (Cons c xs)
  have rest: "\<forall>c \<in> set xs. plain c \<or> c = CHR '':''" using Cons.prems by auto
  show ?case
  proof (cases "c = CHR '':''")
    case True
    define v where "v = (set_start URI_PORT (Suc i) (set_end URI_HOST i u))\<lparr>pre_state := URI_PORT\<rparr>"
    have "\<not> in_ipv6 v" using Cons.prems by (simp add: v_def)
    then obtain a b where "authority_loop (Suc i) c (xs @ CHR ''@'' # s) v = authority_loop (Suc (Suc i + length xs)) (CHR ''@'') s
        (after_userinfo (Suc i + length xs) (at_char (CHR ''['') s) a b v)"
      using Cons.IH [OF rest, of v "Suc i" c] by blast
    moreover have "after_userinfo (Suc i + length xs) b6 a b v = after_userinfo (Suc i + length xs) b6 a b u" for b6
      by (simp add: after_userinfo_def v_def set_start_def set_end_def)
    moreover have "authority_loop i p ((c # xs) @ CHR ''@'' # s) u = authority_loop (Suc i) c (xs @ CHR ''@'' # s) v"
      using True Cons.prems by (simp add: authority_colon(2) v_def)
    ultimately have "authority_loop i p ((c # xs) @ CHR ''@'' # s) u = authority_loop (Suc (i + length (c # xs))) (CHR ''@'') s
        (after_userinfo (i + length (c # xs)) (at_char (CHR ''['') s) a b u)" by simp
    then show ?thesis by blast
  next
    case False
    then have "authority_loop i p ((c # xs) @ CHR ''@'' # s) u = authority_loop (Suc i) c (xs @ CHR ''@'' # s) u"
      using Cons.prems by (simp add: authority_step)
    then show ?thesis using Cons.IH [OF rest Cons.prems(2), of "Suc i" c] by simp
  qed
qed

lemma query_skip_all: "CHR ''#'' \<notin> set s \<Longrightarrow> query_skip i c s = (i + length s, last (c # s), [])"
  by (induction s arbitrary: i c) auto

lemma query_skip_hash: "CHR ''#'' \<notin> set s \<Longrightarrow> query_skip i c (s @ CHR ''#'' # t) = (Suc (i + length s), CHR ''#'', t)"
  by (induction s arbitrary: i c) auto

lemma path_plain: "\<lbrakk>CHR ''#'' \<notin> set xs; CHR ''?'' \<notin> set xs\<rbrakk> \<Longrightarrow> path_loop i (xs @ s) u = path_loop (i + length xs) s u"
  by (induction xs arbitrary: i) auto

lemma authority_skip: "\<lbrakk>\<forall>c \<in> set xs. plain c \<or> c = CHR ''/''; skip_path u\<rbrakk> \<Longrightarrow>
  authority_loop i p (xs @ s) u = authority_loop (i + length xs) (last (p # xs)) s u"
proof (induction xs arbitrary: i p)
  case (Cons c xs)
  have "authority_loop i p (c # xs @ s) u = authority_loop (Suc i) c (xs @ s) u"
    using Cons.prems by (cases "c = CHR ''/''") (auto simp: authority_end(3) authority_step)
  with Cons show ?case by simp
qed simp

section \<open>Round trip\<close>

definition host_text :: "string \<Rightarrow> string" where
  "host_text h = (if CHR '':'' \<in> set h then CHR ''['' # h @ [CHR '']''] else h)"

definition optional :: "string \<Rightarrow> string option \<Rightarrow> string" where
  "optional pre x = (case x of None \<Rightarrow> [] | Some t \<Rightarrow> pre @ t)"

lemma optional_simps [simp]: "optional pre None = []" "optional pre (Some t) = pre @ t"
  by (simp_all add: optional_def)

text \<open>After the host and the port, which start at \<open>i\<close>.\<close>

definition after_host :: "nat \<Rightarrow> string \<Rightarrow> string option \<Rightarrow> uri_scan \<Rightarrow> uri_scan" where
  "after_host i h port u = (case port of
     None \<Rightarrow> u
   | Some x \<Rightarrow> (set_start URI_PORT (Suc (i + length (host_text h))) (set_end URI_HOST (i + length (host_text h)) u))
       \<lparr>pre_state := URI_PORT, in_ipv6 := False\<rparr>)"

definition host_ok :: "string \<Rightarrow> bool" where
  "host_ok h \<longleftrightarrow> h \<noteq> [] \<and> (\<forall>c \<in> set h. valid_char URI_HOST c \<and> c \<notin> set ''[]'')"

lemma valid_plain:
  "valid_char URI_HOST c \<Longrightarrow> plain c \<or> c = CHR '':''" "valid_char URI_USERINFO c \<Longrightarrow> plain c \<or> c = CHR '':''"
  "valid_char URI_PORT c \<Longrightarrow> plain c" "valid_char URI_SCHEME c \<Longrightarrow> plain c"
  by (auto simp: plain_iff is_alnum_def NUL_def)

lemma authority_host:
  assumes "host_ok h" and "in_ipv6 u \<longleftrightarrow> CHR '':'' \<in> set h" and "p \<noteq> CHR '']''"
    and "\<And>x. port = Some x \<Longrightarrow> \<forall>c \<in> set x. valid_char URI_PORT c"
  shows "\<exists>p'. authority_loop i p (host_text h @ optional '':'' port @ t) u =
    authority_loop (i + length (host_text h @ optional '':'' port)) p' t (after_host i h port u)"
proof -
  have port: ?thesis
    if h: "authority_loop i p (host_text h @ optional '':'' port @ t) u =
        authority_loop (i + length (host_text h)) p' (optional '':'' port @ t) u" and b: "in_ipv6 u \<longrightarrow> p' = CHR '']''" for p'
  proof (cases port)
    case None
    then show ?thesis using h by (auto simp: after_host_def)
  next
    case (Some x)
    have "authority_loop k p' (CHR '':'' # x @ t) u = authority_loop (Suc k) (CHR '':'') (x @ t)
        ((set_start URI_PORT (Suc k) (set_end URI_HOST k u))\<lparr>pre_state := URI_PORT, in_ipv6 := False\<rparr>)" for k
    proof (cases "in_ipv6 u")
      case True
      then show ?thesis using b by (cases u) (simp add: authority_colon_bracket set_start_def set_end_def)
    next
      case False
      then show ?thesis by (cases u) (simp add: authority_colon(2) set_start_def set_end_def)
    qed
    moreover have "\<forall>c \<in> set x. plain c" using assms(4) [OF Some] valid_plain(3) by blast
    ultimately have "authority_loop k p' (CHR '':'' # x @ t) u = authority_loop (Suc k + length x) (last (CHR '':'' # x)) t
        ((set_start URI_PORT (Suc k) (set_end URI_HOST k u))\<lparr>pre_state := URI_PORT, in_ipv6 := False\<rparr>)" for k
      by (simp add: authority_plain)
    then show ?thesis using h Some by (auto simp: after_host_def add.assoc)
  qed
  show ?thesis
  proof (cases "CHR '':'' \<in> set h")
    case False
    then have "\<forall>c \<in> set h. plain c" using assms(1) valid_plain(1) by (auto simp: host_ok_def)
    with False assms(2) show ?thesis by (intro port [of "last (p # h)"]) (simp_all add: host_text_def authority_plain)
  next
    case True
    have b: "plain (CHR ''['')" "plain (CHR '']'')" by (simp_all add: plain_iff NUL_def)
    have "\<forall>c \<in> set (CHR ''['' # h). plain c \<and> c \<noteq> CHR '']'' \<or> c = CHR '':''"
      using assms(1) valid_plain(1) b(1) by (auto simp: host_ok_def)
    from authority_ipv6 [OF this, of u p i "CHR '']'' # optional '':'' port @ t"] True assms(2,3)
    have "authority_loop i p (host_text h @ optional '':'' port @ t) u =
        authority_loop (i + length (host_text h)) (CHR '']'') (optional '':'' port @ t) u"
      by (simp add: host_text_def authority_step b(2))
    then show ?thesis by (intro port [of "CHR '']''"]) simp_all
  qed
qed

text \<open>The rest of a URI: what follows the authority, which ends at \<open>j\<close>.\<close>

definition rest_text :: "string option \<Rightarrow> string option \<Rightarrow> string option \<Rightarrow> string" where
  "rest_text path query fragment = optional [] path @ optional ''?'' query @ optional ''#'' fragment"

definition rest_ok :: "string option \<Rightarrow> string option \<Rightarrow> string option \<Rightarrow> bool" where
  "rest_ok path query fragment \<longleftrightarrow>
     (\<forall>x. path = Some x \<longrightarrow> at_char (CHR ''/'') x \<and> CHR ''?'' \<notin> set x \<and> CHR ''#'' \<notin> set x) \<and>
     (\<forall>q. query = Some q \<longrightarrow> q \<noteq> [] \<and> CHR ''#'' \<notin> set q \<and> (path = None \<longrightarrow> (\<forall>c \<in> set q. plain c \<or> c = CHR ''/''))) \<and>
     fragment \<noteq> Some []"

definition same_authority :: "uri_scan \<Rightarrow> uri_scan \<Rightarrow> bool" where
  "same_authority u v \<longleftrightarrow> (\<forall>p \<in> {URI_SCHEME, URI_USERINFO, URI_HOST, URI_PORT}.
     start_idx u p = start_idx v p \<and> end_idx u p = end_idx v p)"

definition rest_found :: "string \<Rightarrow> string option \<Rightarrow> string option \<Rightarrow> string option \<Rightarrow> uri_scan \<Rightarrow> bool" where
  "rest_found str path query fragment u \<longleftrightarrow>
     part_at str URI_PATH path u \<and> part_at str URI_QUERY query u \<and> part_at str URI_FRAGMENT fragment u"

definition in_authority :: "uri_scan \<Rightarrow> bool" where
  "in_authority u \<longleftrightarrow> pre_state u \<in> {URI_HOST, URI_PORT} \<and> \<not> skip_path u \<and>
     (\<forall>p \<in> {URI_PATH, URI_QUERY, URI_FRAGMENT}. start_idx u p = 0 \<and> end_idx u p = 0)"

lemma rest_with_path:
  fixes p :: char
  assumes "in_authority u" and "rest_ok (Some x) query fragment" and "length pre = j"
  defines "str \<equiv> pre @ rest_text (Some x) query fragment"
  defines "v \<equiv> uri_scan_rest (authority_loop j p (rest_text (Some x) query fragment) u)"
  shows "same_authority v (set_end (pre_state u) j u)" and "rest_found str (Some x) query fragment v"
proof -
  define w where "w = set_end (pre_state u) j (set_start URI_PATH j u)\<lparr>pre_state := URI_PATH\<rparr>"
  let ?t = "optional ''?'' query @ optional ''#'' fragment"
  from assms(2) have x: "at_char (CHR ''/'') x" "CHR ''?'' \<notin> set x" "CHR ''#'' \<notin> set x" by (auto simp: rest_ok_def)
  from x obtain y where y: "x = CHR ''/'' # y" by (cases x) auto
  have "authority_loop j p (rest_text (Some x) query fragment) u = (j, x @ ?t, set_start URI_PATH j u)"
    using assms(1) by (simp add: rest_text_def y authority_end in_authority_def)
  then have v: "v = (let (i, s, u) = path_loop j (x @ ?t) w in set_end (pre_state u) (i + length s) u)"
    using assms(1) by (auto simp: v_def uri_scan_rest_def in_authority_def w_def)
  have w: "start_idx w = (start_idx u)(URI_PATH := j)" "end_idx w = (end_idx u)(pre_state u := j)" "pre_state w = URI_PATH"
    by (simp_all add: w_def)
  have path: "path_loop j (x @ ?t) w = path_loop (j + length x) ?t w" by (rule path_plain [OF x(3,2)])
  have "same_authority v (set_end (pre_state u) j u) \<and> rest_found str (Some x) query fragment v"
  proof (cases query)
    case None
    show ?thesis
    proof (cases fragment)
      case None
      with \<open>query = None\<close> have "v = set_end URI_PATH (j + length x) w" using v path w by simp
      then show ?thesis
        using \<open>query = None\<close> None assms(1,3) y w
        by (auto simp: same_authority_def rest_found_def part_at_def in_authority_def str_def rest_text_def segment_def)
    next
      case (Some f)
      with \<open>query = None\<close> have "v = set_end URI_FRAGMENT (Suc (j + length x + length f))
          ((set_start URI_FRAGMENT (Suc (j + length x)) (set_end URI_PATH (j + length x) w))\<lparr>pre_state := URI_FRAGMENT\<rparr>)"
        using v path w by simp
      then show ?thesis
        using \<open>query = None\<close> Some assms(1,2,3) y w
        by (auto simp: same_authority_def rest_found_def part_at_def in_authority_def str_def rest_text_def segment_def rest_ok_def)
    qed
  next
    case (Some q)
    with assms(2) have q: "CHR ''#'' \<notin> set q" "q \<noteq> []" by (auto simp: rest_ok_def)
    let ?w = "(set_start URI_QUERY (Suc (j + length x)) (set_end URI_PATH (j + length x) w))\<lparr>pre_state := URI_QUERY\<rparr>"
    show ?thesis
    proof (cases fragment)
      case None
      have "last q \<noteq> CHR ''#''" using q last_in_set by metis
      then have "v = set_end URI_QUERY (Suc (j + length x + length q)) ?w"
        using v path w None \<open>query = Some q\<close> q by (simp add: query_skip_all)
      then show ?thesis
        using \<open>query = Some q\<close> None assms(1,3) y w q
        by (auto simp: same_authority_def rest_found_def part_at_def in_authority_def str_def rest_text_def segment_def)
    next
      case (Some f)
      have "v = set_end URI_FRAGMENT (Suc (Suc (j + length x + length q + length f)))
          ((set_start URI_FRAGMENT (Suc (Suc (j + length x + length q))) (set_end URI_QUERY (Suc (j + length x + length q)) ?w))
            \<lparr>pre_state := URI_FRAGMENT\<rparr>)"
        using v path w Some \<open>query = Some q\<close> q by (simp add: query_skip_hash)
      then show ?thesis
        using \<open>query = Some q\<close> Some assms(1,2,3) y w q
        by (auto simp: same_authority_def rest_found_def part_at_def in_authority_def str_def rest_text_def segment_def rest_ok_def numeral_3_eq_3)
    qed
  qed
  then show "same_authority v (set_end (pre_state u) j u)" and "rest_found str (Some x) query fragment v" by blast+
qed

lemma rest_without_path:
  fixes p :: char
  assumes "in_authority u" and "rest_ok None query fragment" and "length pre = j"
  defines "str \<equiv> pre @ rest_text None query fragment"
  defines "v \<equiv> uri_scan_rest (authority_loop j p (rest_text None query fragment) u)"
  shows "same_authority v (set_end (pre_state u) j u)" and "rest_found str None query fragment v"
proof -
  have "same_authority v (set_end (pre_state u) j u) \<and> rest_found str None query fragment v"
  proof (cases query)
    case None
    show ?thesis
    proof (cases fragment)
      case None
      with \<open>query = None\<close> have "v = set_end (pre_state u) j u\<lparr>skip_path := True\<rparr>"
        using assms(1) by (auto simp: v_def rest_text_def uri_scan_rest_def in_authority_def)
      then show ?thesis
        using \<open>query = None\<close> None assms(1)
        by (auto simp: same_authority_def rest_found_def part_at_def in_authority_def)
    next
      case (Some f)
      with \<open>query = None\<close> have
        "v = (set_end URI_FRAGMENT (Suc (j + length f)) (set_start URI_FRAGMENT (Suc j) (set_end (pre_state u) j u)))
            \<lparr>pre_state := URI_PART_ELEMENTS, skip_path := True\<rparr>"
        using assms(1) by (simp add: v_def rest_text_def uri_scan_rest_def authority_end)
      then show ?thesis
        using \<open>query = None\<close> Some assms(1,2,3)
        by (auto simp: same_authority_def rest_found_def part_at_def in_authority_def str_def rest_text_def segment_def rest_ok_def)
    qed
  next
    case (Some q)
    with assms(2) have q: "\<forall>c \<in> set q. plain c \<or> c = CHR ''/''" "q \<noteq> []" by (auto simp: rest_ok_def)
    let ?w = "(set_start URI_QUERY (Suc j) (set_end (pre_state u) j u))\<lparr>pre_state := URI_QUERY, skip_path := True\<rparr>"
    have a: "authority_loop j p (CHR ''?'' # q @ t) u = authority_loop (Suc j + length q) (last (CHR ''?'' # q)) t ?w" for t
      using authority_skip [OF q(1), of ?w "Suc j" "CHR ''?''" t] by (simp add: authority_end(1))
    show ?thesis
    proof (cases fragment)
      case None
      with \<open>query = Some q\<close> have "v = set_end URI_QUERY (Suc j + length q) (?w\<lparr>skip_path := True\<rparr>)"
        using a [of "[]"] by (simp add: v_def rest_text_def uri_scan_rest_def)
      then show ?thesis
        using \<open>query = Some q\<close> None assms(1,3) q
        by (auto simp: same_authority_def rest_found_def part_at_def in_authority_def str_def rest_text_def segment_def)
    next
      case (Some f)
      with \<open>query = Some q\<close> have
        "v = (set_end URI_FRAGMENT (Suc (Suc j + length q + length f)) (set_start URI_FRAGMENT (Suc (Suc j + length q))
            (set_end URI_QUERY (Suc j + length q) ?w)))\<lparr>pre_state := URI_PART_ELEMENTS, skip_path := True\<rparr>"
        using a [of "CHR ''#'' # f"] by (simp add: v_def rest_text_def uri_scan_rest_def authority_end(2))
      then show ?thesis
        using \<open>query = Some q\<close> Some assms(1,2,3) q
        by (auto simp: same_authority_def rest_found_def part_at_def in_authority_def str_def rest_text_def segment_def rest_ok_def)
    qed
  qed
  then show "same_authority v (set_end (pre_state u) j u)" and "rest_found str None query fragment v" by blast+
qed

text \<open>The text of a URI, and which parts one can have.\<close>

definition authority_text :: "(uri_part \<Rightarrow> string option) \<Rightarrow> string" where
  "authority_text f = (case f URI_USERINFO of None \<Rightarrow> [] | Some t \<Rightarrow> t @ ''@'') @ host_text (the (f URI_HOST)) @ optional '':'' (f URI_PORT)"

definition print_uri :: "(uri_part \<Rightarrow> string option) \<Rightarrow> string" where
  "print_uri f = the (f URI_SCHEME) @ ''://'' @ authority_text f @ rest_text (f URI_PATH) (f URI_QUERY) (f URI_FRAGMENT)"

definition uri_ok :: "(uri_part \<Rightarrow> string option) \<Rightarrow> bool" where
  "uri_ok f \<longleftrightarrow> f URI_SCHEME \<noteq> None \<and> f URI_HOST \<noteq> None \<and> host_ok (the (f URI_HOST)) \<and>
     list_all (\<lambda>p. case f p of None \<Rightarrow> True | Some t \<Rightarrow> t \<noteq> [] \<and> list_all (valid_char p) t) [URI_SCHEME, URI_USERINFO, URI_PORT] \<and>
     rest_ok (f URI_PATH) (f URI_QUERY) (f URI_FRAGMENT) \<and>
     list_all (\<lambda>p. case f p of None \<Rightarrow> True | Some t \<Rightarrow> NUL \<notin> set t) [URI_PATH, URI_QUERY, URI_FRAGMENT]"

lemma uri_ok_part: "uri_ok f \<Longrightarrow> f p = Some t \<Longrightarrow> p \<in> {URI_SCHEME, URI_USERINFO, URI_PORT} \<Longrightarrow> t \<noteq> [] \<and> (\<forall>c \<in> set t. valid_char p c)"
  by (auto simp: uri_ok_def list_all_iff)

lemma scheme_loop_colon: "CHR '':'' \<notin> set s \<Longrightarrow> scheme_loop i (s @ CHR '':'' # t) = (i + length s, Suc (i + length s), t)"
  by (induction s arbitrary: i) auto

lemma host_text_start: "host_ok h \<Longrightarrow> at_char (CHR ''['') (host_text h @ t) \<longleftrightarrow> CHR '':'' \<in> set h"
  by (cases h) (auto simp: host_text_def host_ok_def)

lemma userinfo_start: "\<forall>c \<in> set t. valid_char URI_USERINFO c \<Longrightarrow> t \<noteq> [] \<Longrightarrow> \<not> at_char (CHR ''['') (t @ s)"
  by (cases t) (auto simp: is_alnum_def)

text \<open>The state when the authority has been read.\<close>

definition authority_found :: "string \<Rightarrow> (uri_part \<Rightarrow> string option) \<Rightarrow> uri_scan \<Rightarrow> bool" where
  "authority_found str f u \<longleftrightarrow> part_at str URI_SCHEME (f URI_SCHEME) u \<and> part_at str URI_USERINFO (f URI_USERINFO) u \<and>
     part_at str URI_HOST (map_option host_text (f URI_HOST)) u \<and> part_at str URI_PORT (f URI_PORT) u"

lemma authority_found_same: "authority_found str f v \<Longrightarrow> same_authority u v \<Longrightarrow> authority_found str f u"
  by (auto simp: authority_found_def same_authority_def part_at_def split: option.splits)

text \<open>The host starts at \<open>i\<close> and the user information, if there is one, has been read.\<close>

lemma after_host_found:
  assumes "host_ok h" and "f URI_HOST = Some h" and "in_authority u" and "pre_state u = URI_HOST" and "start_idx u URI_HOST = i"
    and "length pre = i" and "str = pre @ host_text h @ optional '':'' (f URI_PORT) @ t"
    and "f URI_PORT = None \<Longrightarrow> end_idx u URI_PORT = 0" and "f URI_PORT \<noteq> Some []"
    and "part_at str URI_SCHEME (f URI_SCHEME) u" and "part_at str URI_USERINFO (f URI_USERINFO) u"
    and "j = i + length (host_text h @ optional '':'' (f URI_PORT))"
  defines "v \<equiv> after_host i h (f URI_PORT) u"
  shows "in_authority v" and "authority_found str f (set_end (pre_state v) j v)"
proof -
  show "in_authority v" using assms(3) by (cases "f URI_PORT") (auto simp: v_def after_host_def in_authority_def)
  have h: "host_text h \<noteq> []" using assms(1) by (auto simp: host_ok_def host_text_def)
  show "authority_found str f (set_end (pre_state v) j v)"
  proof (cases "f URI_PORT")
    case None
    then have "v = u" by (simp add: v_def after_host_def)
    then show ?thesis using assms(2,4-) None h by (auto simp: authority_found_def part_at_def segment_def split: option.splits)
  next
    case (Some x)
    then show ?thesis using assms(2,4-) h
      by (auto simp: authority_found_def part_at_def segment_def v_def after_host_def split: option.splits)
  qed
qed

lemma authority_scanned:
  assumes f: "uri_ok f" and sch: "f URI_SCHEME = Some sch" and h: "f URI_HOST = Some h"
    and str: "str = sch @ ''://'' @ authority_text f @ t" and i: "i = length sch + 3"
    and u: "u = \<lparr>start_idx = (\<lambda>_. 0), end_idx = (\<lambda>_. 0)(URI_SCHEME := length sch), pre_state = URI_HOST, in_ipv6 = False, skip_path = False\<rparr>"
    and w: "w = set_start URI_HOST i (if at_char (CHR ''['') (authority_text f @ t) then u\<lparr>in_ipv6 := True\<rparr> else set_start URI_USERINFO i u)"
  shows "\<exists>p' v. authority_loop i (CHR ''/'') (authority_text f @ t) w = authority_loop (i + length (authority_text f)) p' t v \<and>
    in_authority v \<and> authority_found str f (set_end (pre_state v) (i + length (authority_text f)) v)"
proof -
  have hok: "host_ok h" using f h by (auto simp: uri_ok_def)
  have sch_ok: "sch \<noteq> []" using uri_ok_part [OF f sch] by simp
  have port: "\<forall>c \<in> set x. valid_char URI_PORT c" if "f URI_PORT = Some x" for x using uri_ok_part [OF f that] by blast
  have port': "f URI_PORT \<noteq> Some []" using uri_ok_part [OF f, of URI_PORT "[]"] by auto
  show ?thesis
  proof (cases "f URI_USERINFO")
    case None
    then have a: "authority_text f = host_text h @ optional '':'' (f URI_PORT)" by (simp add: authority_text_def h)
    have six: "at_char (CHR ''['') (authority_text f @ t) \<longleftrightarrow> CHR '':'' \<in> set h" using host_text_start [OF hok] a by simp
    have w6: "in_ipv6 w \<longleftrightarrow> CHR '':'' \<in> set h" by (simp add: w six u)
    from authority_host [OF hok w6, of "CHR ''/''" "f URI_PORT" i t] port obtain p' where
      loop: "authority_loop i (CHR ''/'') (authority_text f @ t) w =
        authority_loop (i + length (authority_text f)) p' t (after_host i h (f URI_PORT) w)" by (auto simp: a)
    have wi: "in_authority w" "pre_state w = URI_HOST" "start_idx w URI_HOST = i" "end_idx w URI_PORT = 0"
      by (auto simp: w u in_authority_def)
    have "part_at str URI_SCHEME (f URI_SCHEME) w" "part_at str URI_USERINFO (f URI_USERINFO) w"
      using sch_ok by (auto simp: part_at_def sch None w u str segment_def)
    moreover have "str = (sch @ ''://'') @ host_text h @ optional '':'' (f URI_PORT) @ t" "length (sch @ ''://'') = i"
      by (simp_all add: str a i)
    ultimately show ?thesis using loop after_host_found [of h f w i "sch @ ''://''" str t "i + length (authority_text f)"] hok h wi port' a
      by metis
  next
    case (Some ui)
    have ui: "ui \<noteq> []" "\<forall>c \<in> set ui. valid_char URI_USERINFO c" using uri_ok_part [OF f Some] by auto
    let ?h = "host_text h @ optional '':'' (f URI_PORT)"
    have a: "authority_text f = ui @ CHR ''@'' # ?h" using Some by (simp add: authority_text_def h)
    have no6: "\<not> at_char (CHR ''['') (authority_text f @ t)" using userinfo_start [OF ui(2,1)] by (simp add: a)
    have w': "w = set_start URI_HOST i (set_start URI_USERINFO i u)" unfolding w using no6 by (simp only: if_False)
    have six: "at_char (CHR ''['') (?h @ t) \<longleftrightarrow> CHR '':'' \<in> set h" using host_text_start [OF hok] by simp
    let ?k = "Suc (i + length ui)"
    have "\<forall>c \<in> set ui. plain c \<or> c = CHR '':''" using ui(2) valid_plain(2) by blast
    moreover have "\<not> in_ipv6 w" by (simp add: w' u)
    ultimately obtain b c where 1: "authority_loop i (CHR ''/'') (authority_text f @ t) w =
        authority_loop ?k (CHR ''@'') (?h @ t) (after_userinfo (i + length ui) (at_char (CHR ''['') (?h @ t)) b c w)"
      using authority_userinfo [of ui w i "CHR ''/''" "?h @ t"] by (auto simp: a)
    define x where "x = after_userinfo (i + length ui) (at_char (CHR ''['') (?h @ t)) b c w"
    have x6: "in_ipv6 x \<longleftrightarrow> CHR '':'' \<in> set h" unfolding x_def after_userinfo_def using six by simp
    have xi: "in_authority x" "pre_state x = URI_HOST" "start_idx x URI_HOST = ?k" "end_idx x URI_PORT = 0"
      by (auto simp: x_def after_userinfo_def w' u in_authority_def)
    from authority_host [OF hok x6, of "CHR ''@''" "f URI_PORT" ?k t] port obtain p' where
      2: "authority_loop ?k (CHR ''@'') (?h @ t) x = authority_loop (?k + length ?h) p' t (after_host ?k h (f URI_PORT) x)" by auto
    have loop: "authority_loop i (CHR ''/'') (authority_text f @ t) w =
        authority_loop (i + length (authority_text f)) p' t (after_host ?k h (f URI_PORT) x)"
      using 1 2 by (simp add: a x_def add.assoc)
    have "part_at str URI_SCHEME (f URI_SCHEME) x" "part_at str URI_USERINFO (f URI_USERINFO) x"
      using sch_ok ui(1) by (auto simp: part_at_def sch Some x_def after_userinfo_def w' u str segment_def a i eval_nat_numeral)
    moreover have "str = (sch @ ''://'' @ ui @ ''@'') @ host_text h @ optional '':'' (f URI_PORT) @ t"
      "length (sch @ ''://'' @ ui @ ''@'') = ?k" "i + length (authority_text f) = ?k + length ?h"
      by (simp_all add: str a i)
    ultimately show ?thesis
      using loop after_host_found [of h f x ?k "sch @ ''://'' @ ui @ ''@''" str t "i + length (authority_text f)"] hok h xi port'
      by metis
  qed
qed

lemma uri_scanned:
  assumes f: "uri_ok f"
  shows "\<exists>u. uri_scan_string (print_uri f) = Some u \<and> authority_found (print_uri f) f u \<and>
    rest_found (print_uri f) (f URI_PATH) (f URI_QUERY) (f URI_FRAGMENT) u"
proof -
  obtain sch h where fs: "f URI_SCHEME = Some sch" "f URI_HOST = Some h" using f by (auto simp: uri_ok_def)
  let ?r = "rest_text (f URI_PATH) (f URI_QUERY) (f URI_FRAGMENT)" and ?i = "length sch + 3"
  let ?t = "authority_text f @ ?r"
  have str: "print_uri f = sch @ ''://'' @ ?t" by (simp add: print_uri_def fs)
  have sch: "sch \<noteq> []" "CHR '':'' \<notin> set sch" using uri_ok_part [OF f fs(1)] by (auto simp: is_alnum_def)
  define u where "u = \<lparr>start_idx = (\<lambda>_. 0), end_idx = (\<lambda>_. 0)(URI_SCHEME := length sch), pre_state = URI_HOST, in_ipv6 = False, skip_path = False\<rparr>"
  define w where "w = set_start URI_HOST ?i (if at_char (CHR ''['') ?t then u\<lparr>in_ipv6 := True\<rparr> else set_start URI_USERINFO ?i u)"
  obtain p v where loop: "authority_loop ?i (CHR ''/'') ?t w = authority_loop (?i + length (authority_text f)) p ?r v"
    and v: "in_authority v" "authority_found (print_uri f) f (set_end (pre_state v) (?i + length (authority_text f)) v)"
    using authority_scanned [OF f fs str refl u_def w_def] by blast
  define x where "x = uri_scan_rest (authority_loop (?i + length (authority_text f)) p ?r v)"
  have rest: "rest_ok (f URI_PATH) (f URI_QUERY) (f URI_FRAGMENT)" using f by (simp add: uri_ok_def)
  have len: "length (sch @ ''://'' @ authority_text f) = ?i + length (authority_text f)" by simp
  have pr: "print_uri f = (sch @ ''://'' @ authority_text f) @ ?r" by (simp add: str)
  have x: "same_authority x (set_end (pre_state v) (?i + length (authority_text f)) v) \<and>
      rest_found (print_uri f) (f URI_PATH) (f URI_QUERY) (f URI_FRAGMENT) x"
  proof (cases "f URI_PATH")
    case None
    then show ?thesis using rest_without_path [OF v(1) _ len, of "f URI_QUERY" "f URI_FRAGMENT" p] rest by (simp add: x_def pr)
  next
    case (Some y)
    then show ?thesis using rest_with_path [OF v(1) _ len, of y "f URI_QUERY" "f URI_FRAGMENT" p] rest by (simp add: x_def pr)
  qed
  have "w = set_start URI_HOST ?i (if at_char (CHR ''['') ?t then u\<lparr>in_ipv6 := True\<rparr> else set_start URI_USERINFO ?i u)" by (rule w_def)
  moreover have "start_idx w URI_PATH = 0" by (simp add: w_def u_def)
  ultimately have "uri_scan_string (print_uri f) = Some (uri_scan_rest (authority_loop ?i (CHR ''/'') ?t w))"
    using scheme_loop_colon [OF sch(2), of 0 "''//'' @ ?t"] sch(1)
    by (simp add: uri_scan_string_def str u_def Let_def eval_nat_numeral)
  then have "uri_scan_string (print_uri f) = Some x" by (simp add: loop x_def)
  then show ?thesis using x authority_found_same [OF v(2)] by blast
qed

lemma store_ok: "\<lbrakk>\<forall>p \<in> set ps. part_at str p (g p) u; distinct ps\<rbrakk> \<Longrightarrow>
  \<exists>uri'. store_parts (\<lambda>_. None) str u ps uri = (0, uri') \<and> uri_status uri' = URI_STATE_SUCCESS \<and>
    (\<forall>p \<in> set ps. uri_text uri' p = map_option (strip_brackets p) (g p)) \<and> (\<forall>p. p \<notin> set ps \<longrightarrow> uri_text uri' p = uri_text uri p)"
proof (induction ps arbitrary: uri)
  case (Cons p ps)
  define r where "r = uri\<lparr>uri_text := (uri_text uri)(p := map_option (strip_brackets p) (g p))\<rparr>"
  have "store_parts (\<lambda>_. None) str u (p # ps) uri = store_parts (\<lambda>_. None) str u ps r"
    using Cons.prems part_at_text [of str p _ u] part_at_None [of str p u] by (cases "g p") (auto simp: r_def)
  then show ?case using Cons.IH [of r] Cons.prems by (auto simp: r_def)
qed simp

lemma host_text_stripped: "host_ok h \<Longrightarrow> strip_brackets URI_HOST (host_text h) = h"
proof (cases "CHR '':'' \<in> set h")
  case False
  assume "host_ok h"
  then have "hd h \<noteq> CHR ''[''" using hd_in_set [of h] by (auto simp: host_ok_def)
  then show ?thesis using False by (simp add: strip_brackets_def host_text_def)
next
  case True
  then show ?thesis by (simp add: strip_brackets_def host_text_def segment_def)
qed

lemma host_text_valid: "host_ok h \<Longrightarrow> list_all (valid_char URI_HOST) (host_text h)"
proof -
  have "valid_char URI_HOST (CHR ''['')" "valid_char URI_HOST (CHR '']'')" by simp_all
  then show "host_ok h \<Longrightarrow> list_all (valid_char URI_HOST) (host_text h)"
    by (auto simp: host_ok_def host_text_def list_all_iff simp del: valid_char.simps)
qed

lemma valid_not_NUL: "p \<in> {URI_SCHEME, URI_USERINFO, URI_HOST, URI_PORT} \<Longrightarrow> \<not> valid_char p NUL"
  by (auto simp: is_alnum_def NUL_def)

lemma print_not_NUL:
  assumes f: "uri_ok f"
  shows "NUL \<notin> set (print_uri f)"
proof -
  have a: "NUL \<notin> set t" if "p \<in> {URI_SCHEME, URI_USERINFO, URI_PORT}" "f p = Some t" for p t
    using uri_ok_part [OF f that(2,1)] valid_not_NUL [of p] that(1) by blast
  have h: "NUL \<notin> set (host_text (the (f URI_HOST)))"
    using host_text_valid valid_not_NUL [of URI_HOST] f by (auto simp: uri_ok_def list_all_iff simp del: valid_char.simps)
  obtain sch where s: "f URI_SCHEME = Some sch" using f by (auto simp: uri_ok_def)
  have n: "NUL \<noteq> c" if "c \<in> set '':/@?#''" for c using that by (auto simp: NUL_def)
  show ?thesis
    using a [of URI_SCHEME] a [of URI_USERINFO] a [of URI_PORT] h n s f
    by (auto simp: print_uri_def authority_text_def rest_text_def optional_def uri_ok_def split: option.splits)
qed

lemma authority_found_texts:
  assumes f: "uri_ok f" and u: "authority_found str f u"
  shows "chars_valid str u"
proof -
  have p: "list_all (valid_char p) (part_text str u p)" if "p \<in> {URI_SCHEME, URI_USERINFO, URI_PORT}" "part_at str p (f p) u" for p
  proof (cases "f p")
    case None
    then show ?thesis using part_at_None [of str p u] that(2) by simp
  next
    case (Some t)
    then show ?thesis using part_at_text [of str p t u] that uri_ok_part [OF f Some that(1)] by (simp add: list_all_iff)
  qed
  obtain h where h: "f URI_HOST = Some h" "host_ok h" using f by (auto simp: uri_ok_def)
  then have "part_text str u URI_HOST = host_text h" using u part_at_text [of str URI_HOST "host_text h" u]
    by (simp add: authority_found_def)
  then have "list_all (valid_char URI_HOST) (part_text str u URI_HOST)" using host_text_valid [OF h(2)] by simp
  then show ?thesis
    using p [of URI_SCHEME] p [of URI_USERINFO] p [of URI_PORT] u by (simp add: chars_valid_def authority_found_def del: valid_char.simps)
qed

text \<open>C38: Parsing the text of a URI gives back its parts: the user information with its colon, the address of
  version 6 without its brackets, and none of the parts it does not have. Without a path the query must not contain
  a colon, a question mark or an at sign.\<close>

theorem uri_roundtrip:
  assumes f: "uri_ok f"
  shows "\<exists>uri'. parse_uri (\<lambda>_. None) (print_uri f) uri = (0, uri') \<and> uri_status uri' = URI_STATE_SUCCESS
    \<and> (\<forall>p \<in> set uri_parts. uri_text uri' p = f p)"
proof -
  obtain u where u: "uri_scan_string (print_uri f) = Some u" "authority_found (print_uri f) f u"
    "rest_found (print_uri f) (f URI_PATH) (f URI_QUERY) (f URI_FRAGMENT) u"
    using uri_scanned [OF f] by blast
  obtain h where h: "f URI_HOST = Some h" "host_ok h" using f by (auto simp: uri_ok_def)
  define g where "g = f(URI_HOST := map_option host_text (f URI_HOST))"
  have "\<forall>p \<in> set uri_parts. part_at (print_uri f) p (g p) u"
    using u(2,3) by (simp add: g_def uri_parts_def authority_found_def rest_found_def)
  from store_ok [OF this, of "uri\<lparr>uri_status := URI_STATE_INVALID\<rparr>"] obtain uri' where
    st: "store_parts (\<lambda>_. None) (print_uri f) u uri_parts (uri\<lparr>uri_status := URI_STATE_INVALID\<rparr>) = (0, uri')"
      "uri_status uri' = URI_STATE_SUCCESS" "\<forall>p \<in> set uri_parts. uri_text uri' p = map_option (strip_brackets p) (g p)"
    by (auto simp: uri_parts_def)
  have "uri_text uri' p = f p" if "p \<in> set uri_parts" for p
  proof (cases "p = URI_HOST")
    case True
    then show ?thesis using st(3) that host_text_stripped [OF h(2)] h(1) by (simp add: g_def)
  next
    case False
    moreover have "strip_brackets p = id" using False by (auto simp: strip_brackets_def)
    ultimately show ?thesis using st(3) that by (simp add: g_def option.map_id0)
  qed
  moreover have "parse_uri (\<lambda>_. None) (print_uri f) uri = (0, uri')"
    using c_str_id [OF print_not_NUL [OF f]] u(1) authority_found_texts [OF f u(2)] st(1) by (simp add: parse_uri_def)
  ultimately show ?thesis using st(2) by blast
qed

definition example_uri :: "uri_part \<Rightarrow> string option" where
  "example_uri = (\<lambda>_. None)(URI_SCHEME := Some ''rpc'', URI_USERINFO := Some ''a:b'', URI_HOST := Some ''::1'', URI_PORT := Some ''80'',
     URI_QUERY := Some ''k=v/w'', URI_FRAGMENT := Some ''x#y'')"

theorem uri_roundtrip_witness:
  "\<exists>uri'. parse_uri (\<lambda>_. None) ''rpc://a:b@[::1]:80?k=v/w#x#y'' new_ParsedURI = (0, uri') \<and> uri_text uri' URI_HOST = Some ''::1''"
proof -
  have "uri_ok example_uri"
    by (simp add: uri_ok_def example_uri_def host_ok_def rest_ok_def is_alnum_def plain_iff NUL_def)
  from uri_roundtrip [OF this, of new_ParsedURI] obtain uri' where
    "parse_uri (\<lambda>_. None) (print_uri example_uri) new_ParsedURI = (0, uri')" "\<forall>p \<in> set uri_parts. uri_text uri' p = example_uri p"
    by blast
  moreover have "print_uri example_uri = ''rpc://a:b@[::1]:80?k=v/w#x#y''"
    by (simp add: print_uri_def example_uri_def authority_text_def rest_text_def host_text_def)
  ultimately show ?thesis by (auto simp: uri_parts_def example_uri_def)
qed

text \<open>The scan of the authority goes on after a question mark. A colon in the query of a URI without a path ends the host
  there, and the URI is refused.\<close>

theorem uri_query_colon_refused:
  assumes sch: "sch \<noteq> []" "CHR '':'' \<notin> set sch" "NUL \<notin> set sch" and h: "h \<noteq> []" "\<forall>c \<in> set h. plain c" "hd h \<noteq> CHR ''[''"
    and a: "\<forall>c \<in> set a. plain c \<or> c = CHR ''/''" and b: "\<forall>c \<in> set b. plain c \<or> c = CHR ''/''"
  shows "fst (parse_uri no_memory (sch @ ''://'' @ h @ ''?'' @ a @ '':'' @ b) uri) = -1"
proof -
  define str where "str = sch @ ''://'' @ h @ ''?'' @ a @ '':'' @ b"
  let ?i = "length sch + 3"
  let ?t = "h @ CHR ''?'' # a @ CHR '':'' # b"
  define u where "u = \<lparr>start_idx = (\<lambda>_. 0), end_idx = (\<lambda>_. 0)(URI_SCHEME := length sch), pre_state = URI_HOST, in_ipv6 = False, skip_path = False\<rparr>"
  define w where "w = set_start URI_HOST ?i (set_start URI_USERINFO ?i u)"
  define x where "x = (set_start URI_QUERY (Suc (?i + length h)) (set_end URI_HOST (?i + length h) w))\<lparr>pre_state := URI_QUERY, skip_path := True\<rparr>"
  define k where "k = Suc (?i + length h) + length a"
  define y where "y = (set_start URI_PORT (Suc k) (set_end URI_HOST k x))\<lparr>pre_state := URI_PORT\<rparr>"
  have "authority_loop ?i (CHR ''/'') ?t w = authority_loop (?i + length h) (last (CHR ''/'' # h)) (CHR ''?'' # a @ CHR '':'' # b) w"
    using authority_plain [OF h(2)] by simp
  also have "\<dots> = authority_loop (Suc (?i + length h)) (CHR ''?'') (a @ CHR '':'' # b) x"
    by (simp add: authority_end(1) x_def w_def u_def)
  also have "\<dots> = authority_loop k (last (CHR ''?'' # a)) (CHR '':'' # b) x"
    unfolding k_def by (rule authority_skip [OF a]) (simp add: x_def)
  also have "\<dots> = authority_loop (Suc k) (CHR '':'') (b @ []) y"
    by (simp add: authority_colon(2) y_def x_def w_def u_def)
  also have "\<dots> = authority_loop (Suc k + length b) (last (CHR '':'' # b)) [] y"
    by (rule authority_skip [OF b]) (simp add: y_def x_def)
  finally have loop: "authority_loop ?i (CHR ''/'') ?t w = (Suc k + length b, [], y\<lparr>skip_path := True\<rparr>)" by simp
  define z where "z = set_end URI_PORT (Suc k + length b) (y\<lparr>skip_path := True\<rparr>)"
  have "\<not> at_char (CHR ''['') ?t" using h(1,3) by (cases h) auto
  then have "uri_scan_string str = Some (uri_scan_rest (authority_loop ?i (CHR ''/'') ?t w))"
    using scheme_loop_colon [OF sch(2), of 0 "''//'' @ ?t"] sch(1)
    by (simp add: uri_scan_string_def str_def u_def w_def Let_def eval_nat_numeral)
  then have scan: "uri_scan_string str = Some z" unfolding loop by (simp add: uri_scan_rest_def z_def y_def)
  have "part_text str z URI_HOST = segment (length (sch @ ''://'')) (length (h @ ''?'' @ a)) ((sch @ ''://'') @ (h @ ''?'' @ a) @ '':'' @ b)"
    by (simp add: part_text_def z_def y_def x_def w_def u_def k_def str_def eval_nat_numeral)
  also have "\<dots> = h @ ''?'' @ a" by (rule segment_mid)
  finally have "part_text str z URI_HOST = h @ ''?'' @ a" .
  then have bad: "\<not> chars_valid str z" by (simp add: chars_valid_def is_alnum_def)
  have n: "NUL \<notin> set t" if "\<forall>c \<in> set t. plain c \<or> c = CHR ''/''" for t using that by (auto simp: plain_iff NUL_def)
  have "NUL \<noteq> c" if "c \<in> set '':/?''" for c using that by (auto simp: NUL_def)
  then have "NUL \<notin> set str" using sch(3) n [OF a] n [OF b] n [of h] h(2) by (simp add: str_def)
  then have "fst (parse_uri no_memory str uri) = -1" using bad by (simp add: parse_uri_def c_str_id scan)
  then show ?thesis by (simp add: str_def)
qed

theorem uri_query_colon_refused_witness: "fst (parse_uri (\<lambda>_. None) ''http://h?t=1:2'' new_ParsedURI) = -1"
  using uri_query_colon_refused [of "''http''" "''h''" "''t=1''" "''2''" "\<lambda>_. None" new_ParsedURI] by (simp add: plain_iff NUL_def)

section \<open>Splitting a query\<close>

definition pair_text :: "string \<times> string \<Rightarrow> string" where
  "pair_text kv = fst kv @ CHR ''='' # snd kv"

definition pair_ok :: "string \<times> string \<Rightarrow> bool" where
  "pair_ok kv \<longleftrightarrow> fst kv \<noteq> [] \<and> (\<forall>c \<in> set (fst kv @ snd kv). c \<notin> set ''=&'')"

lemma query_pair_text: "pair_ok kv \<Longrightarrow> query_pair (pair_text kv) = kv"
proof -
  assume "pair_ok kv"
  then have "CHR ''='' \<notin> set (fst kv)" "CHR ''='' \<notin> set (snd kv)" by (auto simp: pair_ok_def)
  then have "split (CHR ''='') (pair_text kv) = [fst kv, snd kv]" by (simp add: pair_text_def split_word)
  then show "query_pair (pair_text kv) = kv" by (simp add: query_pair_def)
qed

lemma split_pairs: "kvs \<noteq> [] \<Longrightarrow> list_all pair_ok kvs \<Longrightarrow>
  split (CHR ''&'') (join (CHR ''&'') (map pair_text kvs)) = map pair_text kvs"
  by (rule split_join) (auto simp: pair_text_def pair_ok_def list_all_iff)

lemma join_pairs_Nil: "join (CHR ''&'') (map pair_text kvs) = [] \<longleftrightarrow> kvs = []"
proof (cases kvs)
  case (Cons kv l)
  then show ?thesis by (cases l) (simp_all add: pair_text_def)
qed simp

lemma add_pairs: "list_all pair_ok kvs \<Longrightarrow>
  fold (\<lambda>ele res. if ele = [] then res else add_pair (query_pair ele) res) (map pair_text kvs) m = map_of kvs ++ m"
proof (induction kvs arbitrary: m)
  case (Cons kv kvs)
  have "fst kv \<noteq> []" using Cons.prems by (simp add: pair_ok_def)
  then have "map_of kvs ++ add_pair kv m = map_of (kv # kvs) ++ m"
    by (intro ext) (auto simp: add_pair_def map_add_def split: option.split)
  moreover have "pair_text kv \<noteq> []" by (simp add: pair_text_def)
  moreover have "map_of kvs ++ add_pair kv m = fold (\<lambda>ele res. if ele = [] then res else add_pair (query_pair ele) res) (map pair_text kvs) (add_pair kv m)"
    using Cons by simp
  ultimately show ?case using Cons.prems by (simp add: query_pair_text fun_upd_def)
qed simp

lemma add_values: "list_all pair_ok kvs \<Longrightarrow>
  fold (\<lambda>ele res. if ele = [] then res else add_value (query_pair ele) res) (map pair_text kvs) m =
    (\<lambda>k. m k @ map snd (filter (\<lambda>kv. fst kv = k) kvs))"
proof (induction kvs arbitrary: m)
  case (Cons kv kvs)
  have "pair_text kv \<noteq> []" by (simp add: pair_text_def)
  with Cons show ?case by (auto simp: query_pair_text add_value_def pair_ok_def fun_eq_iff)
qed simp

text \<open>Splitting a query gives every key the first of its values, and the strict variant all its values in order.\<close>

theorem split_query_spec:
  assumes "list_all pair_ok kvs"
  shows "split_query (join (CHR ''&'') (map pair_text kvs)) = map_of kvs
    \<and> split_query_strict (join (CHR ''&'') (map pair_text kvs)) = (\<lambda>k. map snd (filter (\<lambda>kv. fst kv = k) kvs))"
proof (cases "kvs = []")
  case False
  with assms show ?thesis
    by (simp add: split_query_def split_query_strict_def join_pairs_Nil split_pairs add_pairs add_values)
qed (simp add: split_query_def split_query_strict_def)

theorem split_query_spec_witness: "split_query ''a=1&b=2&a=3'' = map_of [(''a'', ''1''), (''b'', ''2''), (''a'', ''3'')]"
  using split_query_spec [of "[(''a'', ''1''), (''b'', ''2''), (''a'', ''3'')]"] by (simp add: pair_ok_def pair_text_def)

end
