(* ===== verification/Message_Queue.thy ===== *)
theory Message_Queue
  imports Prelude "HOL-Library.Word"
begin

text \<open>
  The message queue of the framework's thread pools (\<open>workflow/src/kernel/msgqueue.c\<close>): two linked lists with a
  mutex each, of which getters empty one while putters fill the other. Threads are interleaved; one
  step is a critical section or what lies between two operations on a mutex or a condition.
  Messages are addresses, linked through a field of their own; a place is a head or such a field.
\<close>

section \<open>State\<close>

datatype place = Head bool | Link nat

text \<open>Where a thread is: \<open>put\<close>, \<open>put_head\<close>, \<open>get\<close> with \<open>swap\<close>, and \<open>set_nonblock\<close>.\<close>

datatype pc = Idle
  | Put_lock nat | Put_check nat | Put_sleep nat | Put_signal
  | Front_lock nat | Front_test nat | Front_try nat | Front_insert nat | Front_wake nat | Front_check nat | Front_sleep nat
  | Get_lock | Get_test | Swap_lock | Swap_check | Swap_sleep | Get_take | Get_null
  | Nonblock_lock | Nonblock_signal

record msgqueue =
  msg_max :: "64 word"
  msg_cnt :: nat
  nonblock :: bool
  heads :: "bool \<Rightarrow> nat option"
  get_head :: bool
  put_head :: bool
  put_tail :: place
  link :: "nat \<Rightarrow> nat option"
  get_mutex :: "nat option"
  put_mutex :: "nat option"
  thread :: "nat \<Rightarrow> pc"

definition msgqueue_create :: "64 word \<Rightarrow> (nat \<Rightarrow> nat option) \<Rightarrow> msgqueue" where
  "msgqueue_create maxlen lk = \<lparr>msg_max = maxlen, msg_cnt = 0, nonblock = False, heads = (\<lambda>_. None), get_head = False,
     put_head = True, put_tail = Head True, link = lk, get_mutex = None, put_mutex = None, thread = (\<lambda>_. Idle)\<rparr>"

section \<open>Lists\<close>

definition store :: "place \<Rightarrow> nat option \<Rightarrow> msgqueue \<Rightarrow> msgqueue" where
  "store p v q = (case p of Head b \<Rightarrow> q\<lparr>heads := (heads q)(b := v)\<rparr> | Link m \<Rightarrow> q\<lparr>link := (link q)(m := v)\<rparr>)"

text \<open>A maximum of 0 is no maximum, because the subtraction wraps.\<close>

definition queue_full :: "msgqueue \<Rightarrow> bool" where
  "queue_full q \<longleftrightarrow> unat (msg_max q - 1) < msg_cnt q"

definition put_back :: "nat \<Rightarrow> msgqueue \<Rightarrow> msgqueue" where
  "put_back m q = (store (put_tail q) (Some m) q)\<lparr>put_tail := Link m, msg_cnt := msg_cnt q + 1\<rparr>"

definition put_front :: "nat \<Rightarrow> msgqueue \<Rightarrow> msgqueue" where
  "put_front m q =
     (let first = heads q (put_head q); q = store (Link m) first q;
          q = (if first = None then q\<lparr>put_tail := Link m\<rparr> else q)
      in (store (Head (put_head q)) (Some m) q)\<lparr>msg_cnt := msg_cnt q + 1\<rparr>)"

definition insert_front :: "nat \<Rightarrow> msgqueue \<Rightarrow> msgqueue" where
  "insert_front m q = store (Head (get_head q)) (Some m) (store (Link m) (heads q (get_head q)) q)"

definition swap_lists :: "msgqueue \<Rightarrow> msgqueue" where
  "swap_lists q = q\<lparr>get_head := put_head q, put_head := get_head q, put_tail := Head (get_head q), msg_cnt := 0\<rparr>"

definition take_first :: "nat \<Rightarrow> msgqueue \<Rightarrow> msgqueue" where
  "take_first m q = store (Head (get_head q)) (link q m) q"

section \<open>Threads\<close>

datatype event = Put nat | Put_front nat | Got nat | Got_nothing | Null_pointer

definition goto :: "nat \<Rightarrow> pc \<Rightarrow> msgqueue \<Rightarrow> msgqueue" where
  "goto i p q = q\<lparr>thread := (thread q)(i := p)\<rparr>"

definition lock_get :: "nat \<Rightarrow> pc \<Rightarrow> msgqueue \<Rightarrow> (event option \<times> msgqueue) option" where
  "lock_get i p q = (if get_mutex q = None then Some (None, goto i p (q\<lparr>get_mutex := Some i\<rparr>)) else None)"

definition lock_put :: "nat \<Rightarrow> pc \<Rightarrow> msgqueue \<Rightarrow> (event option \<times> msgqueue) option" where
  "lock_put i p q = (if put_mutex q = None then Some (None, goto i p (q\<lparr>put_mutex := Some i\<rparr>)) else None)"

definition unlock_get :: "msgqueue \<Rightarrow> msgqueue" where
  "unlock_get q = q\<lparr>get_mutex := None\<rparr>"

definition unlock_put :: "msgqueue \<Rightarrow> msgqueue" where
  "unlock_put q = q\<lparr>put_mutex := None\<rparr>"

text \<open>A signal may wake more than one waiter; a thread that sleeps on \<open>get_cond\<close> holds \<open>get_mutex\<close>, so there is at most one.\<close>

fun woken_getter :: "pc \<Rightarrow> pc" where
  "woken_getter Swap_sleep = Swap_lock"
| "woken_getter p = p"

fun woken_putter :: "pc \<Rightarrow> pc" where
  "woken_putter (Put_sleep m) = Put_lock m"
| "woken_putter (Front_sleep m) = Front_wake m"
| "woken_putter p = p"

definition signal_get :: "msgqueue \<Rightarrow> msgqueue" where
  "signal_get q = q\<lparr>thread := woken_getter \<circ> thread q\<rparr>"

definition broadcast_put :: "msgqueue \<Rightarrow> msgqueue" where
  "broadcast_put q = q\<lparr>thread := woken_putter \<circ> thread q\<rparr>"

text \<open>One step of a thread, \<open>None\<close> when it cannot go on: it is idle, sleeps, or waits for a mutex.\<close>

definition act :: "nat \<Rightarrow> msgqueue \<Rightarrow> (event option \<times> msgqueue) option" where
  "act i q = (case thread q i of
     Idle \<Rightarrow> None
   | Put_lock m \<Rightarrow> lock_put i (Put_check m) q
   | Put_check m \<Rightarrow>
       (if queue_full q \<and> \<not> nonblock q then Some (None, goto i (Put_sleep m) (unlock_put q))
        else Some (Some (Put m), goto i Put_signal (unlock_put (put_back m q))))
   | Put_sleep m \<Rightarrow> None
   | Put_signal \<Rightarrow> Some (None, goto i Idle (signal_get q))
   | Front_lock m \<Rightarrow> lock_put i (Front_test m) q
   | Front_test m \<Rightarrow>
       (if heads q (get_head q) \<noteq> None then Some (None, goto i (Front_try m) q) else Some (None, goto i (Front_check m) q))
   | Front_try m \<Rightarrow>
       (if get_mutex q = None then Some (None, goto i (Front_insert m) (unlock_put (q\<lparr>get_mutex := Some i\<rparr>)))
        else Some (None, goto i (Front_test m) q))
   | Front_insert m \<Rightarrow> Some (Some (Put_front m), goto i Idle (unlock_get (insert_front m q)))
   | Front_wake m \<Rightarrow> lock_put i (Front_check m) q
   | Front_check m \<Rightarrow>
       (if queue_full q \<and> \<not> nonblock q then Some (None, goto i (Front_sleep m) (unlock_put q))
        else Some (Some (Put_front m), goto i Put_signal (unlock_put (put_front m q))))
   | Front_sleep m \<Rightarrow> None
   | Get_lock \<Rightarrow> lock_get i Get_test q
   | Get_test \<Rightarrow> Some (None, goto i (if heads q (get_head q) \<noteq> None then Get_take else Swap_lock) q)
   | Swap_lock \<Rightarrow> lock_put i Swap_check q
   | Swap_check \<Rightarrow>
       (if msg_cnt q = 0 \<and> \<not> nonblock q then Some (None, goto i Swap_sleep (unlock_put q))
        else Some (if msg_cnt q = 0 then Some Got_nothing else None,
          goto i (if 0 < msg_cnt q then Get_take else Get_null)
            (unlock_put (swap_lists (if queue_full q then broadcast_put q else q)))))
   | Swap_sleep \<Rightarrow> None
   | Get_take \<Rightarrow>
       (case heads q (get_head q) of
          Some m \<Rightarrow> Some (Some (Got m), goto i Idle (unlock_get (take_first m q)))
        | None \<Rightarrow> Some (Some Null_pointer, q))
   | Get_null \<Rightarrow> Some (None, goto i Idle (unlock_get q))
   | Nonblock_lock \<Rightarrow> lock_put i Nonblock_signal q
   | Nonblock_signal \<Rightarrow> Some (None, goto i Idle (unlock_put (broadcast_put (signal_get q)))))"

text \<open>A message that a thread is putting.\<close>

fun carried :: "pc \<Rightarrow> nat option" where
  "carried (Put_lock m) = Some m" | "carried (Put_check m) = Some m" | "carried (Put_sleep m) = Some m"
| "carried (Front_lock m) = Some m" | "carried (Front_test m) = Some m" | "carried (Front_try m) = Some m"
| "carried (Front_insert m) = Some m" | "carried (Front_wake m) = Some m" | "carried (Front_check m) = Some m"
| "carried (Front_sleep m) = Some m" | "carried _ = None"

text \<open>The chain of messages that starts with a link.\<close>

fun chain :: "(nat \<Rightarrow> nat option) \<Rightarrow> nat option \<Rightarrow> nat list \<Rightarrow> bool" where
  "chain lk h [] = (h = None)"
| "chain lk h (m # ms) = (h = Some m \<and> chain lk (lk m) ms)"

definition queued :: "msgqueue \<Rightarrow> nat list \<Rightarrow> bool" where
  "queued q ms \<longleftrightarrow> (\<exists>xs ys. ms = xs @ ys \<and> chain (link q) (heads q (get_head q)) xs \<and> chain (link q) (heads q (put_head q)) ys)"

text \<open>What the client must observe: a message is not put again before it has been got.\<close>

definition message_free :: "nat \<Rightarrow> msgqueue \<Rightarrow> bool" where
  "message_free m q \<longleftrightarrow> (\<forall>i. carried (thread q i) \<noteq> Some m) \<and> (\<forall>ms. queued q ms \<longrightarrow> m \<notin> set ms)"

text \<open>The steps of a system of threads: a thread goes on, an idle thread begins an operation, or a sleeping thread wakes up
  for no reason, as POSIX allows.\<close>

inductive mq_step :: "msgqueue \<Rightarrow> event option \<Rightarrow> msgqueue \<Rightarrow> bool" where
  go_on: "act i q = Some (e, q') \<Longrightarrow> mq_step q e q'"
| begin_put: "thread q i = Idle \<Longrightarrow> message_free m q \<Longrightarrow> mq_step q None (goto i (Put_lock m) (store (Link m) None q))"
| begin_put_head: "thread q i = Idle \<Longrightarrow> message_free m q \<Longrightarrow> mq_step q None (goto i (Front_lock m) q)"
| begin_get: "thread q i = Idle \<Longrightarrow> mq_step q None (goto i Get_lock q)"
| begin_set_nonblock: "thread q i = Idle \<Longrightarrow> mq_step q None (goto i Nonblock_lock (q\<lparr>nonblock := True\<rparr>))"
| set_block: "mq_step q None (q\<lparr>nonblock := False\<rparr>)"
| spurious_getter: "mq_step q None (goto i (woken_getter (thread q i)) q)"
| spurious_putter: "mq_step q None (goto i (woken_putter (thread q i)) q)"

fun happened :: "event option \<Rightarrow> event list" where
  "happened None = []"
| "happened (Some e) = [e]"

inductive mq_run :: "64 word \<Rightarrow> event list \<Rightarrow> msgqueue \<Rightarrow> bool" for maxlen where
  start: "mq_run maxlen [] (msgqueue_create maxlen lk)"
| step: "mq_run maxlen es q \<Longrightarrow> mq_step q e q' \<Longrightarrow> mq_run maxlen (es @ happened e) q'"

section \<open>The abstract queue\<close>

text \<open>A message put at the head comes before those that have not been moved to the getters' list.\<close>

inductive queue_trace :: "event list \<Rightarrow> nat list \<Rightarrow> bool" where
  empty: "queue_trace [] []"
| put: "queue_trace es ms \<Longrightarrow> queue_trace (es @ [Put m]) (ms @ [m])"
| put_front: "queue_trace es (ms @ ns) \<Longrightarrow> queue_trace (es @ [Put_front m]) (ms @ m # ns)"
| got: "queue_trace es (m # ms) \<Longrightarrow> queue_trace (es @ [Got m]) ms"
| got_nothing: "queue_trace es [] \<Longrightarrow> queue_trace (es @ [Got_nothing]) []"

section \<open>Lists in memory\<close>

lemma chain_cong: "\<forall>x \<in> set xs. lk x = lk' x \<Longrightarrow> chain lk h xs = chain lk' h xs"
  by (induction xs arbitrary: h) auto

lemma chain_None [simp]: "chain lk None xs \<longleftrightarrow> xs = []"
  by (cases xs) auto

lemma chain_upd [simp]: "m \<notin> set xs \<Longrightarrow> chain (lk(m := v)) h xs = chain lk h xs"
  by (rule chain_cong) auto

lemma chain_unique: "chain lk h xs \<Longrightarrow> chain lk h ys \<Longrightarrow> xs = ys"
proof (induction xs arbitrary: h ys)
  case Nil
  then show ?case by (cases ys) auto
next
  case (Cons x xs)
  then show ?case by (cases ys) auto
qed


lemma chain_snoc: "\<lbrakk>chain lk h (x # xs); distinct (x # xs); m \<notin> set (x # xs); lk m = None\<rbrakk> \<Longrightarrow>
  chain (lk(last (x # xs) := Some m)) h (x # xs @ [m])"
proof (induction xs arbitrary: x h)
  case (Cons y ys)
  define z where "z = last (y # ys)"
  have z: "last (x # y # ys) = z" by (simp add: z_def)
  from Cons.prems have "chain (lk(z := Some m)) (lk x) (y # ys @ [m])" unfolding z_def by (intro Cons.IH) auto
  moreover have "z \<noteq> x" using Cons.prems(2) last_in_set [of "y # ys"] unfolding z_def by auto
  moreover have "h = Some x" using Cons.prems(1) by simp
  ultimately show ?case unfolding z by (simp only: chain.simps(2) [of _ _ x] fun_upd_other append_Cons simp_thms)
qed simp

definition lists_ok :: "nat list \<Rightarrow> nat list \<Rightarrow> msgqueue \<Rightarrow> bool" where
  "lists_ok xs ys q \<longleftrightarrow> chain (link q) (heads q (get_head q)) xs \<and> chain (link q) (heads q (put_head q)) ys \<and>
     put_head q = (\<not> get_head q) \<and> put_tail q = (if ys = [] then Head (put_head q) else Link (last ys)) \<and>
     distinct (xs @ ys) \<and> msg_cnt q = length ys"

lemma lists_ok_queued: "lists_ok xs ys q \<Longrightarrow> queued q ms \<longleftrightarrow> ms = xs @ ys"
  by (auto simp: lists_ok_def queued_def dest: chain_unique)

lemma put_back_ok: "lists_ok xs ys q \<Longrightarrow> m \<notin> set (xs @ ys) \<Longrightarrow> link q m = None \<Longrightarrow> lists_ok xs (ys @ [m]) (put_back m q)"
proof (cases ys)
  case Nil
  assume "lists_ok xs ys q" "m \<notin> set (xs @ ys)" "link q m = None"
  with Nil show ?thesis by (auto simp: lists_ok_def put_back_def store_def)
next
  case (Cons y zs)
  assume a: "lists_ok xs ys q" "m \<notin> set (xs @ ys)" "link q m = None"
  have l: "last ys \<notin> set xs" using a(1) last_in_set [of ys] Cons by (auto simp: lists_ok_def)
  have "chain ((link q)(last ys := Some m)) (heads q (put_head q)) (y # zs @ [m])"
    using a Cons chain_snoc [of "link q" "heads q (put_head q)" y zs m] by (auto simp: lists_ok_def)
  then show ?thesis using a l Cons by (auto simp: lists_ok_def put_back_def store_def simp del: chain.simps)
qed

lemma put_front_ok: "lists_ok xs ys q \<Longrightarrow> m \<notin> set (xs @ ys) \<Longrightarrow> lists_ok xs (m # ys) (put_front m q)"
  by (cases ys) (auto simp: lists_ok_def put_front_def store_def Let_def)

lemma insert_front_ok: "lists_ok xs ys q \<Longrightarrow> m \<notin> set (xs @ ys) \<Longrightarrow> lists_ok (m # xs) ys (insert_front m q)"
  by (auto simp: lists_ok_def insert_front_def store_def)

lemma swap_lists_ok: "lists_ok [] ys q \<Longrightarrow> lists_ok ys [] (swap_lists q)"
  by (auto simp: lists_ok_def swap_lists_def)

lemma take_first_ok: "lists_ok (m # xs) ys q \<Longrightarrow> lists_ok xs ys (take_first m q)"
  by (auto simp: lists_ok_def take_first_def store_def)

section \<open>Invariant\<close>

text \<open>What a thread relies on where it is.\<close>

fun holds_get :: "pc \<Rightarrow> bool" where
  "holds_get p \<longleftrightarrow> p \<in> {Get_test, Swap_lock, Swap_check, Swap_sleep, Get_take, Get_null} \<or> (\<exists>m. p = Front_insert m)"

fun holds_put :: "pc \<Rightarrow> bool" where
  "holds_put p \<longleftrightarrow> p \<in> {Swap_check, Nonblock_signal} \<or> (\<exists>m. p \<in> {Put_check m, Front_test m, Front_try m, Front_check m})"

definition notifying :: "msgqueue \<Rightarrow> bool" where
  "notifying q \<longleftrightarrow> (\<exists>j. thread q j \<in> {Nonblock_lock, Nonblock_signal})"

definition signalling :: "msgqueue \<Rightarrow> bool" where
  "signalling q \<longleftrightarrow> (\<exists>j. thread q j \<in> {Put_signal, Nonblock_lock, Nonblock_signal})"

definition pc_ok :: "nat list \<Rightarrow> nat list \<Rightarrow> msgqueue \<Rightarrow> pc \<Rightarrow> bool" where
  "pc_ok xs ys q p \<longleftrightarrow>
     (\<forall>m. carried p = Some m \<longrightarrow> m \<notin> set (xs @ ys)) \<and>
     (\<forall>m. p \<in> {Put_lock m, Put_check m, Put_sleep m} \<longrightarrow> link q m = None) \<and>
     (p = Get_take \<longrightarrow> xs \<noteq> []) \<and>
     (p \<in> {Swap_lock, Swap_check, Swap_sleep} \<longrightarrow> xs = []) \<and>
     ((\<exists>m. p \<in> {Put_sleep m, Front_sleep m}) \<longrightarrow> queue_full q \<and> (nonblock q \<longrightarrow> notifying q)) \<and>
     (p = Swap_sleep \<longrightarrow> (ys \<noteq> [] \<longrightarrow> signalling q) \<and> (nonblock q \<longrightarrow> notifying q))"

definition mutexes_ok :: "msgqueue \<Rightarrow> bool" where
  "mutexes_ok q \<longleftrightarrow> (\<forall>i. get_mutex q = Some i \<longleftrightarrow> holds_get (thread q i)) \<and> (\<forall>i. put_mutex q = Some i \<longleftrightarrow> holds_put (thread q i))"

definition carried_ok :: "msgqueue \<Rightarrow> bool" where
  "carried_ok q \<longleftrightarrow> (\<forall>i j m. carried (thread q i) = Some m \<longrightarrow> carried (thread q j) = Some m \<longrightarrow> i = j)"

definition mq_inv :: "nat list \<Rightarrow> nat list \<Rightarrow> msgqueue \<Rightarrow> bool" where
  "mq_inv xs ys q \<longleftrightarrow> lists_ok xs ys q \<and> mutexes_ok q \<and> carried_ok q \<and> (\<forall>i. pc_ok xs ys q (thread q i))"

text \<open>What an event does to the messages.\<close>

fun event_ok :: "event option \<Rightarrow> nat list \<Rightarrow> nat list \<Rightarrow> bool" where
  "event_ok None ms ms' \<longleftrightarrow> ms' = ms"
| "event_ok (Some (Put m)) ms ms' \<longleftrightarrow> ms' = ms @ [m]"
| "event_ok (Some (Put_front m)) ms ms' \<longleftrightarrow> (\<exists>a b. ms = a @ b \<and> ms' = a @ m # b)"
| "event_ok (Some (Got m)) ms ms' \<longleftrightarrow> ms = m # ms'"
| "event_ok (Some Got_nothing) ms ms' \<longleftrightarrow> ms = [] \<and> ms' = []"
| "event_ok (Some Null_pointer) ms ms' \<longleftrightarrow> False"

lemma goto_simps [simp]:
  "thread (goto i p q) = (thread q)(i := p)" "msg_cnt (goto i p q) = msg_cnt q" "msg_max (goto i p q) = msg_max q"
  "nonblock (goto i p q) = nonblock q" "heads (goto i p q) = heads q" "get_head (goto i p q) = get_head q"
  "put_head (goto i p q) = put_head q" "put_tail (goto i p q) = put_tail q" "link (goto i p q) = link q"
  "get_mutex (goto i p q) = get_mutex q" "put_mutex (goto i p q) = put_mutex q"
  by (simp_all add: goto_def)

text \<open>Steps that do not touch the lists: a lock is taken or given back, or nothing but the place of the thread changes.\<close>

lemma inv_pcD: "mq_inv xs ys q \<Longrightarrow> thread q i = p \<Longrightarrow> pc_ok xs ys q p"
  by (auto simp: mq_inv_def)

lemma lists_ok_cong:
  "lists_ok xs ys q \<Longrightarrow> link q' = link q \<Longrightarrow> heads q' = heads q \<Longrightarrow> get_head q' = get_head q \<Longrightarrow> put_head q' = put_head q \<Longrightarrow>
   put_tail q' = put_tail q \<Longrightarrow> msg_cnt q' = msg_cnt q \<Longrightarrow> lists_ok xs ys q'"
  by (cases "ys = []") (auto simp: lists_ok_def)

lemma mutexes_goto:
  assumes "mutexes_ok q" and "thread q' = (thread q)(i := p)"
    and "if holds_get p then get_mutex q \<in> {None, Some i} \<and> get_mutex q' = Some i
         else get_mutex q' = (if holds_get (thread q i) then None else get_mutex q)"
    and "if holds_put p then put_mutex q \<in> {None, Some i} \<and> put_mutex q' = Some i
         else put_mutex q' = (if holds_put (thread q i) then None else put_mutex q)"
  shows "mutexes_ok q'"
proof -
  have g: "get_mutex q = Some j \<longleftrightarrow> holds_get (thread q j)" and p: "put_mutex q = Some j \<longleftrightarrow> holds_put (thread q j)" for j
    using assms(1) by (simp_all only: mutexes_ok_def)
  have "get_mutex q' = Some j \<longleftrightarrow> holds_get (thread q' j)" for j
    using assms(2,3) g [of j] g [of i] by (cases "j = i") (auto simp del: holds_get.simps split: if_splits)
  moreover have "put_mutex q' = Some j \<longleftrightarrow> holds_put (thread q' j)" for j
    using assms(2,4) p [of j] p [of i] by (cases "j = i") (auto simp del: holds_put.simps split: if_splits)
  ultimately show ?thesis by (simp only: mutexes_ok_def) blast
qed

text \<open>Other threads still rely on what they relied on.\<close>

lemma pc_ok_mono:
  assumes "pc_ok xs ys q p" and "link q' = link q" and "queue_full q \<Longrightarrow> queue_full q'" and "nonblock q' \<Longrightarrow> nonblock q"
    and "notifying q \<Longrightarrow> notifying q'" and "signalling q \<Longrightarrow> signalling q'"
  shows "pc_ok xs ys q' p"
  using assms unfolding pc_ok_def by simp

text \<open>A step of one thread.\<close>

lemma inv_update_fresh:
  assumes inv: "mq_inv xs ys q" and th: "thread q' = (thread q)(i := p)" and lists: "lists_ok xs' ys' q'"
    and get: "if holds_get p then get_mutex q \<in> {None, Some i} \<and> get_mutex q' = Some i
         else get_mutex q' = (if holds_get (thread q i) then None else get_mutex q)"
    and put: "if holds_put p then put_mutex q \<in> {None, Some i} \<and> put_mutex q' = Some i
         else put_mutex q' = (if holds_put (thread q i) then None else put_mutex q)"
    and c: "\<And>m j. carried p = Some m \<Longrightarrow> carried (thread q j) = Some m \<Longrightarrow> j = i"
    and p: "pc_ok xs' ys' q' p"
    and others: "\<And>j. j \<noteq> i \<Longrightarrow> pc_ok xs ys q (thread q j) \<Longrightarrow> pc_ok xs' ys' q' (thread q j)"
  shows "mq_inv xs' ys' q'"
proof -
  have "pc_ok xs' ys' q' (thread q' j)" for j
  proof (cases "j = i")
    case True
    then show ?thesis using p th by simp
  next
    case False
    moreover have "pc_ok xs ys q (thread q j)" using inv by (simp only: mq_inv_def)
    ultimately show ?thesis using others [OF False] th by simp
  qed
  moreover have "carried_ok q'"
  proof -
    have "carried_ok q" using inv by (simp only: mq_inv_def)
    then have old: "a = b" if "carried (thread q a) = Some m" "carried (thread q b) = Some m" for a b m
      using that unfolding carried_ok_def by blast
    have new: "carried (thread q a) = Some m \<or> a = i \<and> carried p = Some m" if "carried (thread q' a) = Some m" for a m
      using that unfolding th by (cases "a = i") simp_all
    have "a = b" if "carried (thread q' a) = Some m" "carried (thread q' b) = Some m" for a b m
      using new [OF that(1)] new [OF that(2)] old c by blast
    then show ?thesis unfolding carried_ok_def by blast
  qed
  moreover have "mutexes_ok q" using inv by (simp only: mq_inv_def)
  then have "mutexes_ok q'" by (rule mutexes_goto) (rule th get put)+
  ultimately show ?thesis using lists by (simp only: mq_inv_def) blast
qed

lemma inv_update:
  assumes inv: "mq_inv xs ys q" and th: "thread q' = (thread q)(i := p)" and lists: "lists_ok xs' ys' q'"
    and get: "if holds_get p then get_mutex q \<in> {None, Some i} \<and> get_mutex q' = Some i
         else get_mutex q' = (if holds_get (thread q i) then None else get_mutex q)"
    and put: "if holds_put p then put_mutex q \<in> {None, Some i} \<and> put_mutex q' = Some i
         else put_mutex q' = (if holds_put (thread q i) then None else put_mutex q)"
    and c: "carried p \<noteq> None \<Longrightarrow> carried p = carried (thread q i)"
    and p: "pc_ok xs' ys' q' p"
    and others: "\<And>j. j \<noteq> i \<Longrightarrow> pc_ok xs ys q (thread q j) \<Longrightarrow> pc_ok xs' ys' q' (thread q j)"
  shows "mq_inv xs' ys' q'"
proof (rule inv_update_fresh [OF inv th lists get put _ p others])
  have "carried_ok q" using inv by (simp only: mq_inv_def)
  then show "\<And>m j. carried p = Some m \<Longrightarrow> carried (thread q j) = Some m \<Longrightarrow> j = i"
    using c unfolding carried_ok_def by (metis option.distinct(1))
qed

text \<open>One that leaves the lists as they are.\<close>

lemma inv_goto:
  assumes inv: "mq_inv xs ys q" and th: "thread q' = (thread q)(i := p)"
    and same: "link q' = link q" "heads q' = heads q" "get_head q' = get_head q" "put_head q' = put_head q"
      "put_tail q' = put_tail q" "msg_cnt q' = msg_cnt q" "msg_max q' = msg_max q" "nonblock q' = nonblock q"
    and get: "if holds_get p then get_mutex q \<in> {None, Some i} \<and> get_mutex q' = Some i
         else get_mutex q' = (if holds_get (thread q i) then None else get_mutex q)"
    and put: "if holds_put p then put_mutex q \<in> {None, Some i} \<and> put_mutex q' = Some i
         else put_mutex q' = (if holds_put (thread q i) then None else put_mutex q)"
    and c: "carried p \<noteq> None \<Longrightarrow> carried p = carried (thread q i)"
    and s: "thread q i \<in> {Put_signal, Nonblock_lock, Nonblock_signal} \<Longrightarrow> p = Nonblock_signal"
    and p: "pc_ok xs ys q' p"
  shows "mq_inv xs ys q'"
proof (rule inv_update [OF inv th _ get put c p])
  have "lists_ok xs ys q" using inv by (simp only: mq_inv_def)
  then show "lists_ok xs ys q'" by (rule lists_ok_cong) (rule same)+
  have full: "queue_full q' = queue_full q" using same by (simp add: queue_full_def)
  have n: "notifying q'" if "notifying q"
    using that s th unfolding notifying_def by (metis fun_upd_apply insert_iff)
  have g: "signalling q'" if "signalling q"
    using that s th unfolding signalling_def by (metis fun_upd_apply insert_iff)
  show "pc_ok xs ys q' (thread q j)" if "pc_ok xs ys q (thread q j)" for j
    by (rule pc_ok_mono [OF that same(1)]) (use n g full same(8) in simp_all)
qed

lemma lock_simps [simp]:
  "thread (unlock_put q) = thread q" "thread (unlock_get q) = thread q" "put_mutex (unlock_put q) = None" "get_mutex (unlock_put q) = get_mutex q"
  "get_mutex (unlock_get q) = None" "put_mutex (unlock_get q) = put_mutex q" "link (unlock_put q) = link q" "link (unlock_get q) = link q"
  "heads (unlock_put q) = heads q" "heads (unlock_get q) = heads q" "get_head (unlock_put q) = get_head q" "get_head (unlock_get q) = get_head q"
  "put_head (unlock_put q) = put_head q" "put_head (unlock_get q) = put_head q" "put_tail (unlock_put q) = put_tail q"
  "put_tail (unlock_get q) = put_tail q" "msg_cnt (unlock_put q) = msg_cnt q" "msg_cnt (unlock_get q) = msg_cnt q"
  "msg_max (unlock_put q) = msg_max q" "msg_max (unlock_get q) = msg_max q" "nonblock (unlock_put q) = nonblock q"
  "nonblock (unlock_get q) = nonblock q"
  by (simp_all add: unlock_put_def unlock_get_def)

lemma lock_put_inv:
  assumes inv: "mq_inv xs ys q" and step: "lock_put i p q = Some (e, q')" and "holds_put p" and "holds_get p = holds_get (thread q i)"
    and c: "carried p = carried (thread q i)" and s: "thread q i \<noteq> Put_signal" "thread q i \<noteq> Nonblock_signal"
      "thread q i = Nonblock_lock \<longrightarrow> p = Nonblock_signal"
    and p: "p \<notin> {Get_take, Swap_sleep}" "\<And>m. p \<noteq> Put_sleep m" "\<And>m. p \<noteq> Front_sleep m" "p = Swap_check \<longrightarrow> thread q i = Swap_lock"
      "p \<noteq> Swap_lock" "\<And>m. p = Put_check m \<Longrightarrow> thread q i = Put_lock m" "\<And>m. p \<noteq> Put_lock m"
  shows "e = None \<and> mq_inv xs ys q'"
proof -
  have n: "put_mutex q = None" and q': "e = None" "q' = goto i p (q\<lparr>put_mutex := Some i\<rparr>)" using step by (auto simp: lock_put_def split: if_splits)
  have m: "mutexes_ok q" and o: "pc_ok xs ys q (thread q i)" using inv by (simp_all add: mq_inv_def)
  have np: "\<not> holds_put (thread q i)" using m n by (metis mutexes_ok_def option.distinct(1))
  have g: "holds_get (thread q i) \<longleftrightarrow> get_mutex q = Some i" using m by (simp only: mutexes_ok_def)
  have "pc_ok xs ys q' p" using o c p by (auto simp: pc_ok_def q')
  then have "mq_inv xs ys q'"
    by (intro inv_goto [OF inv, of q' i p]) (use assms(3,4) q' n np g s in \<open>auto simp: c simp del: holds_get.simps holds_put.simps\<close>)
  then show ?thesis using q'(1) by blast
qed

text \<open>Waking threads up.\<close>

lemma woken_getter_simps [simp]:
  "holds_get (woken_getter p) = holds_get p" "holds_put (woken_getter p) = holds_put p" "carried (woken_getter p) = carried p"
  "woken_getter p \<noteq> Swap_sleep" "woken_getter p = Nonblock_lock \<longleftrightarrow> p = Nonblock_lock" "woken_getter p = Nonblock_signal \<longleftrightarrow> p = Nonblock_signal"
  "woken_getter p = Put_signal \<longleftrightarrow> p = Put_signal"
  by (cases p; simp)+

lemma woken_putter_simps [simp]:
  "holds_get (woken_putter p) = holds_get p" "holds_put (woken_putter p) = holds_put p" "carried (woken_putter p) = carried p"
  "woken_putter p \<noteq> Put_sleep m" "woken_putter p \<noteq> Front_sleep m" "woken_putter p = Nonblock_lock \<longleftrightarrow> p = Nonblock_lock"
  "woken_putter p = Nonblock_signal \<longleftrightarrow> p = Nonblock_signal" "woken_putter p = Put_signal \<longleftrightarrow> p = Put_signal"
  by (cases p; simp)+

lemma pc_ok_woken: "pc_ok xs ys q p \<Longrightarrow> pc_ok xs ys q (woken_getter p)" "pc_ok xs ys q p \<Longrightarrow> pc_ok xs ys q (woken_putter p)"
  by (cases p; simp add: pc_ok_def)+

lemma wake_inv:
  assumes inv: "mq_inv xs ys q" and w: "w \<in> {woken_getter, woken_putter}"
  shows "mq_inv xs ys (q\<lparr>thread := w \<circ> thread q\<rparr>)"
proof -
  let ?q = "q\<lparr>thread := w \<circ> thread q\<rparr>"
  have s: "notifying ?q = notifying q" "signalling ?q = signalling q"
    using w by (auto simp: notifying_def signalling_def)
  have "pc_ok xs ys ?q (thread ?q j)" for j
  proof -
    have "pc_ok xs ys q (thread q j)" using inv by (simp only: mq_inv_def)
    then have "pc_ok xs ys q (w (thread q j))" using w pc_ok_woken by blast
    then show ?thesis by (simp add: pc_ok_def s queue_full_def)
  qed
  moreover have "carried_ok ?q" using inv w by (simp only: mq_inv_def carried_ok_def) auto
  moreover have "mutexes_ok ?q" using inv w by (auto simp: mq_inv_def mutexes_ok_def simp del: holds_get.simps holds_put.simps)
  moreover have "lists_ok xs ys q" using inv by (simp only: mq_inv_def)
  then have "lists_ok xs ys ?q" by (rule lists_ok_cong) simp_all
  ultimately show ?thesis by (simp only: mq_inv_def) blast
qed

lemma signal_inv: "mq_inv xs ys q \<Longrightarrow> mq_inv xs ys (signal_get q)" "mq_inv xs ys q \<Longrightarrow> mq_inv xs ys (broadcast_put q)"
  unfolding signal_get_def broadcast_put_def by (rule wake_inv; simp)+

text \<open>What another thread relies on when the lists change.\<close>

lemma pc_ok_change:
  assumes "pc_ok xs ys q p" and "\<And>m. carried p = Some m \<Longrightarrow> m \<notin> set (xs' @ ys') \<and> link q' m = link q m"
    and "p = Get_take \<Longrightarrow> xs' \<noteq> []" and "p \<in> {Swap_lock, Swap_check, Swap_sleep} \<Longrightarrow> xs' = []"
    and "\<exists>m. p \<in> {Put_sleep m, Front_sleep m} \<Longrightarrow> queue_full q' \<or> \<not> queue_full q" and "nonblock q' = nonblock q"
    and "notifying q \<Longrightarrow> notifying q'" and "p = Swap_sleep \<Longrightarrow> ys' \<noteq> [] \<Longrightarrow> signalling q'"
  shows "pc_ok xs' ys' q' p"
proof -
  have "link q' m = None" if "p \<in> {Put_lock m, Put_check m, Put_sleep m}" for m
  proof -
    have "carried p = Some m" using that by auto
    moreover have "link q m = None" using that assms(1) unfolding pc_ok_def by blast
    ultimately show ?thesis using assms(2) by simp
  qed
  then show ?thesis using assms unfolding pc_ok_def by blast
qed

lemma inv_parts:
  assumes "mq_inv xs ys q"
  shows "lists_ok xs ys q" and "pc_ok xs ys q (thread q i)"
    and "holds_get (thread q i) \<longleftrightarrow> get_mutex q = Some i" and "holds_put (thread q i) \<longleftrightarrow> put_mutex q = Some i"
    and "carried (thread q i) = Some m \<Longrightarrow> carried (thread q j) = Some m \<Longrightarrow> i = j"
  using assms unfolding mq_inv_def mutexes_ok_def carried_ok_def by blast+

lemma notifying_goto: "notifying q \<Longrightarrow> thread q i \<notin> {Nonblock_lock, Nonblock_signal} \<Longrightarrow> thread q' = (thread q)(i := p) \<Longrightarrow> notifying q'"
  unfolding notifying_def by (metis fun_upd_other)

lemma signalling_goto:
  "signalling q \<Longrightarrow> thread q i \<notin> {Put_signal, Nonblock_lock, Nonblock_signal} \<Longrightarrow> thread q' = (thread q)(i := p) \<Longrightarrow> signalling q'"
  unfolding signalling_def by (metis fun_upd_other)

lemma put_simps [simp]:
  "thread (put_back m q) = thread q" "nonblock (put_back m q) = nonblock q" "get_mutex (put_back m q) = get_mutex q"
  "put_mutex (put_back m q) = put_mutex q" "msg_max (put_back m q) = msg_max q" "msg_cnt (put_back m q) = Suc (msg_cnt q)"
  "thread (put_front m q) = thread q" "nonblock (put_front m q) = nonblock q" "get_mutex (put_front m q) = get_mutex q"
  "put_mutex (put_front m q) = put_mutex q" "msg_max (put_front m q) = msg_max q" "msg_cnt (put_front m q) = Suc (msg_cnt q)"
  "thread (insert_front m q) = thread q" "nonblock (insert_front m q) = nonblock q" "get_mutex (insert_front m q) = get_mutex q"
  "put_mutex (insert_front m q) = put_mutex q" "msg_max (insert_front m q) = msg_max q" "msg_cnt (insert_front m q) = msg_cnt q"
  "thread (take_first m q) = thread q" "nonblock (take_first m q) = nonblock q" "get_mutex (take_first m q) = get_mutex q"
  "put_mutex (take_first m q) = put_mutex q" "msg_max (take_first m q) = msg_max q" "msg_cnt (take_first m q) = msg_cnt q"
  "link (take_first m q) = link q"
  "thread (swap_lists q) = thread q" "nonblock (swap_lists q) = nonblock q" "get_mutex (swap_lists q) = get_mutex q"
  "put_mutex (swap_lists q) = put_mutex q" "msg_max (swap_lists q) = msg_max q" "link (swap_lists q) = link q"
  by (simp_all add: put_back_def put_front_def insert_front_def take_first_def swap_lists_def store_def Let_def split: place.split)

lemma put_links:
  "lists_ok xs ys q \<Longrightarrow> n \<notin> set ys \<Longrightarrow> link (put_back m q) n = link q n"
  "n \<noteq> m \<Longrightarrow> link (put_front m q) n = link q n"
  "n \<noteq> m \<Longrightarrow> link (insert_front m q) n = link q n"
  by (auto simp: lists_ok_def put_back_def put_front_def insert_front_def store_def Let_def)

lemma full_simps [simp]:
  "queue_full q \<Longrightarrow> queue_full (goto i p (unlock_put (put_back m q)))" "queue_full q \<Longrightarrow> queue_full (goto i p (unlock_put (put_front m q)))"
  "queue_full (goto i p (unlock_get (insert_front m q))) = queue_full q" "queue_full (goto i p (unlock_get (take_first m q))) = queue_full q"
  by (simp_all add: queue_full_def)

lemma put_step_inv:
  assumes inv: "mq_inv xs ys q" and p: "thread q i \<in> {Put_check m, Front_check m}"
    and q': "q' = (if thread q i = Put_check m then goto i Put_signal (unlock_put (put_back m q))
      else goto i Put_signal (unlock_put (put_front m q)))"
  shows "mq_inv xs (if thread q i = Put_check m then ys @ [m] else m # ys) q'"
proof (rule inv_update [OF inv])
  have c: "carried (thread q i) = Some m" using p by auto
  have o: "m \<notin> set (xs @ ys)" "thread q i = Put_check m \<Longrightarrow> link q m = None"
    using inv_parts(2) [OF inv, of i] c by (auto simp: pc_ok_def)
  show th: "thread q' = (thread q)(i := Put_signal)" by (simp add: q')
  show "lists_ok xs (if thread q i = Put_check m then ys @ [m] else m # ys) q'"
  proof (cases "thread q i = Put_check m")
    case True
    then show ?thesis using put_back_ok [OF inv_parts(1) [OF inv] o(1) o(2)] by (auto simp: q' intro: lists_ok_cong)
  next
    case False
    then show ?thesis using put_front_ok [OF inv_parts(1) [OF inv] o(1)] by (auto simp: q' intro: lists_ok_cong)
  qed
  show "pc_ok xs (if thread q i = Put_check m then ys @ [m] else m # ys) q' Put_signal" by (simp add: pc_ok_def)
  show "pc_ok xs (if thread q i = Put_check m then ys @ [m] else m # ys) q' (thread q j)"
    if j: "j \<noteq> i" "pc_ok xs ys q (thread q j)" for j
  proof (rule pc_ok_change [OF j(2)])
    fix n assume n: "carried (thread q j) = Some n"
    then have "n \<noteq> m" "n \<notin> set (xs @ ys)" using inv_parts(5) [OF inv c] j by (auto simp: pc_ok_def)
    then show "n \<notin> set (xs @ (if thread q i = Put_check m then ys @ [m] else m # ys)) \<and> link q' n = link q n"
      using inv_parts(1) [OF inv] by (auto simp: q' put_links)
  next
    show "notifying q \<Longrightarrow> notifying q'" by (erule notifying_goto [OF _ _ th]) (use p in auto)
    show "signalling q'" unfolding signalling_def using th by (metis fun_upd_same insertI1)
    show "thread q j = Get_take \<Longrightarrow> xs \<noteq> []" using j(2) by (auto simp: pc_ok_def)
    show "thread q j \<in> {Swap_lock, Swap_check, Swap_sleep} \<Longrightarrow> xs = []" using j(2) by (auto simp: pc_ok_def)
  qed (auto simp: q')
qed (use p q' inv_parts(4) [OF inv, of i] in auto)

lemma insert_step_inv:
  assumes inv: "mq_inv xs ys q" and p: "thread q i = Front_insert m"
  shows "mq_inv (m # xs) ys (goto i Idle (unlock_get (insert_front m q)))" (is "mq_inv _ _ ?q")
proof (rule inv_update [OF inv])
  have c: "carried (thread q i) = Some m" using p by simp
  have o: "m \<notin> set (xs @ ys)" using inv_parts(2) [OF inv, of i] c by (auto simp: pc_ok_def)
  show th: "thread ?q = (thread q)(i := Idle)" by simp
  show "lists_ok (m # xs) ys ?q" using insert_front_ok [OF inv_parts(1) [OF inv] o] by (auto intro: lists_ok_cong)
  show "pc_ok (m # xs) ys ?q Idle" by (simp add: pc_ok_def)
  show "pc_ok (m # xs) ys ?q (thread q j)" if j: "j \<noteq> i" "pc_ok xs ys q (thread q j)" for j
  proof (rule pc_ok_change [OF j(2)])
    fix n assume n: "carried (thread q j) = Some n"
    then have "n \<noteq> m" "n \<notin> set (xs @ ys)" using inv_parts(5) [OF inv c] j by (auto simp: pc_ok_def)
    then show "n \<notin> set ((m # xs) @ ys) \<and> link ?q n = link q n" by (simp add: put_links)
  next
    have "get_mutex q = Some i" using inv_parts(3) [OF inv, of i] p by simp
    then have "\<not> holds_get (thread q j)" using inv_parts(3) [OF inv, of j] j(1) by simp
    then have g: "thread q j \<notin> {Get_take, Swap_lock, Swap_check, Swap_sleep}" by auto
    show "notifying q \<Longrightarrow> notifying ?q" by (erule notifying_goto [OF _ _ th]) (use p in auto)
    show "thread q j \<in> {Swap_lock, Swap_check, Swap_sleep} \<Longrightarrow> m # xs = []" using g by auto
    show "thread q j = Swap_sleep \<Longrightarrow> ys \<noteq> [] \<Longrightarrow> signalling ?q" using g by auto
  qed auto
qed (use p inv_parts(3) [OF inv, of i] inv_parts(4) [OF inv, of i] in auto)

lemma take_step_inv:
  assumes inv: "mq_inv xs ys q" and p: "thread q i = Get_take"
  shows "\<exists>m zs. heads q (get_head q) = Some m \<and> xs = m # zs \<and> mq_inv zs ys (goto i Idle (unlock_get (take_first m q)))"
proof -
  from inv_parts(2) [OF inv, of i] p obtain m zs where xs: "xs = m # zs" by (cases xs) (auto simp: pc_ok_def)
  let ?q = "goto i Idle (unlock_get (take_first m q))"
  have "heads q (get_head q) = Some m" using inv_parts(1) [OF inv] by (simp add: xs lists_ok_def)
  moreover have "mq_inv zs ys ?q"
  proof (rule inv_update [OF inv])
    show th: "thread ?q = (thread q)(i := Idle)" by simp
    show "lists_ok zs ys ?q" using take_first_ok [of m zs ys q] inv_parts(1) [OF inv] by (auto simp: xs intro: lists_ok_cong)
    show "pc_ok zs ys ?q Idle" by (simp add: pc_ok_def)
    show "pc_ok zs ys ?q (thread q j)" if j: "j \<noteq> i" "pc_ok xs ys q (thread q j)" for j
    proof (rule pc_ok_change [OF j(2)])
      fix n assume "carried (thread q j) = Some n"
      then show "n \<notin> set (zs @ ys) \<and> link ?q n = link q n" using j(2) by (auto simp: pc_ok_def xs)
    next
      have "get_mutex q = Some i" using inv_parts(3) [OF inv, of i] p by simp
      then have "\<not> holds_get (thread q j)" using inv_parts(3) [OF inv, of j] j(1) by simp
      then have g: "thread q j \<notin> {Get_take, Swap_lock, Swap_check, Swap_sleep}" by auto
      show "notifying q \<Longrightarrow> notifying ?q" by (erule notifying_goto [OF _ _ th]) (use p in auto)
      show "thread q j = Get_take \<Longrightarrow> zs \<noteq> []" using g by auto
      show "thread q j \<in> {Swap_lock, Swap_check, Swap_sleep} \<Longrightarrow> zs = []" using g by auto
      show "thread q j = Swap_sleep \<Longrightarrow> ys \<noteq> [] \<Longrightarrow> signalling ?q" using g by auto
    qed auto
  qed (use p inv_parts(3) [OF inv, of i] inv_parts(4) [OF inv, of i] in auto)
  ultimately show ?thesis using xs by blast
qed

text \<open>Swapping, when the getters' list is empty; sleeping putters have been woken before if there can be any.\<close>

lemma swap_step_inv:
  assumes inv: "mq_inv xs ys q" and p: "thread q i = Swap_check"
    and w: "\<And>j m. thread q j \<noteq> Put_sleep m \<and> thread q j \<noteq> Front_sleep m" and t: "t = (if ys = [] then Get_null else Get_take)"
  shows "xs = []" and "mq_inv ys [] (goto i t (unlock_put (swap_lists q)))" (is "mq_inv _ _ ?q")
proof -
  show xs: "xs = []" using inv_parts(2) [OF inv, of i] p by (auto simp: pc_ok_def)
  show "mq_inv ys [] ?q"
  proof (rule inv_update [OF inv])
    show th: "thread ?q = (thread q)(i := t)" by simp
    show "lists_ok ys [] ?q" using swap_lists_ok [of ys q] inv_parts(1) [OF inv] by (auto simp: xs intro: lists_ok_cong)
    show "pc_ok ys [] ?q t" by (simp add: pc_ok_def t)
    show "pc_ok ys [] ?q (thread q j)" if j: "j \<noteq> i" "pc_ok xs ys q (thread q j)" for j
    proof (rule pc_ok_change [OF j(2)])
      fix n assume "carried (thread q j) = Some n"
      then show "n \<notin> set (ys @ []) \<and> link ?q n = link q n" using j(2) by (auto simp: pc_ok_def xs)
    next
      have "get_mutex q = Some i" using inv_parts(3) [OF inv, of i] p by simp
      then have "\<not> holds_get (thread q j)" using inv_parts(3) [OF inv, of j] j(1) by simp
      then have g: "thread q j \<notin> {Get_take, Swap_lock, Swap_check, Swap_sleep}" by auto
      show "notifying q \<Longrightarrow> notifying ?q" by (erule notifying_goto [OF _ _ th]) (use p in auto)
      show "thread q j = Get_take \<Longrightarrow> ys \<noteq> []" using g by auto
      show "thread q j \<in> {Swap_lock, Swap_check, Swap_sleep} \<Longrightarrow> ys = []" using g by auto
      show "\<exists>m. thread q j \<in> {Put_sleep m, Front_sleep m} \<Longrightarrow> queue_full ?q \<or> \<not> queue_full q" using w by blast
    qed auto
  qed (use p t inv_parts(3) [OF inv, of i] inv_parts(4) [OF inv, of i] in auto)
qed

text \<open>A signaller that has woken the getter, and both when the queue has been set not to block.\<close>

lemma signal_step_inv:
  assumes inv: "mq_inv xs ys q" and p: "thread q i \<in> {Put_signal, Nonblock_signal}"
    and g: "\<And>j. thread q j \<noteq> Swap_sleep"
    and w: "\<And>j m. thread q i = Nonblock_signal \<Longrightarrow> thread q j \<noteq> Put_sleep m \<and> thread q j \<noteq> Front_sleep m"
    and q': "q' = goto i Idle (if thread q i = Put_signal then q else unlock_put q)"
  shows "mq_inv xs ys q'"
proof (rule inv_update [OF inv])
  show th: "thread q' = (thread q)(i := Idle)" by (simp add: q')
  show "lists_ok xs ys q'" using inv_parts(1) [OF inv] by (auto simp: q' intro: lists_ok_cong)
  show "pc_ok xs ys q' Idle" by (simp add: pc_ok_def)
  show "pc_ok xs ys q' (thread q j)" if j: "j \<noteq> i" "pc_ok xs ys q (thread q j)" for j
  proof (cases "\<exists>m. thread q j \<in> {Put_sleep m, Front_sleep m}")
    case True
    then have "thread q i = Put_signal" using p w by blast
    then have "notifying q \<Longrightarrow> notifying q'" using notifying_goto [OF _ _ th] by simp
    then show ?thesis using j(2) g [of j] \<open>thread q i = Put_signal\<close> by (auto simp: pc_ok_def q' queue_full_def)
  next
    case False
    then show ?thesis using j(2) g [of j] by (auto simp: pc_ok_def q')
  qed
qed (use p q' inv_parts(3) [OF inv, of i] inv_parts(4) [OF inv, of i] in auto)

section \<open>Every step keeps the invariant\<close>

lemma woken_putter_getter: "woken_putter (woken_getter p) \<noteq> Swap_sleep"
  by (cases p) simp_all

lemma woken_after:
  "thread (signal_get q) i \<noteq> Swap_sleep" "thread (broadcast_put q) i \<noteq> Put_sleep m" "thread (broadcast_put q) i \<noteq> Front_sleep m"
  "thread (broadcast_put (signal_get q)) i \<noteq> Swap_sleep"
  by (simp_all add: signal_get_def broadcast_put_def woken_putter_getter)

lemma wake_simps [simp]:
  "put_mutex (broadcast_put q) = put_mutex q" "get_mutex (broadcast_put q) = get_mutex q" "msg_cnt (broadcast_put q) = msg_cnt q"
  "heads (broadcast_put q) = heads q" "get_head (broadcast_put q) = get_head q"
  by (simp_all add: broadcast_put_def)

lemma queue_full_lists: "lists_ok xs ys q \<Longrightarrow> queue_full q \<longleftrightarrow> unat (msg_max q - 1) < length ys"
  by (simp add: lists_ok_def queue_full_def)

lemma act_inv:
  assumes inv: "mq_inv xs ys q" and step: "act i q = Some (e, q')"
  shows "\<exists>xs' ys'. mq_inv xs' ys' q' \<and> event_ok e (xs @ ys) (xs' @ ys')"
proof -
  note o = inv_parts(2) [OF inv, of i]
  have stay: ?thesis if "e = None" "mq_inv xs ys q'" using that by auto
  have g: "get_mutex q = Some i \<longleftrightarrow> holds_get (thread q i)" and h: "put_mutex q = Some i \<longleftrightarrow> holds_put (thread q i)"
    using inv_parts(3,4) [OF inv, of i] by auto
  show ?thesis
  proof (cases "thread q i")
    case (Put_lock m)
    with step have "lock_put i (Put_check m) q = Some (e, q')" by (simp add: act_def)
    from lock_put_inv [OF inv this] show ?thesis using Put_lock stay by auto
  next
    case (Put_check m)
    show ?thesis
    proof (cases "queue_full q \<and> \<not> nonblock q")
      case True
      then have q': "e = None" "q' = goto i (Put_sleep m) (unlock_put q)" using step Put_check by (simp_all add: act_def)
      have "mq_inv xs ys q'"
        by (rule inv_goto [OF inv, of _ i "Put_sleep m"])
          (use Put_check True o g h in \<open>simp_all add: q' pc_ok_def queue_full_def\<close>)
      then show ?thesis using stay q' by blast
    next
      case False
      then have q': "e = Some (Put m)" "q' = goto i Put_signal (unlock_put (put_back m q))"
        using step Put_check by (auto simp: act_def)
      from put_step_inv [OF inv, of i m q'] Put_check q' have "mq_inv xs (ys @ [m]) q'" by simp
      then show ?thesis using q'(1) by (intro exI [of _ xs] exI [of _ "ys @ [m]"]) simp
    qed
  next
    case Put_signal
    then have q': "e = None" "q' = goto i Idle (signal_get q)" using step by (simp_all add: act_def)
    have "mq_inv xs ys q'"
      by (rule signal_step_inv [OF signal_inv(1) [OF inv], of i])
        (use Put_signal q' woken_after(1) in \<open>simp_all add: signal_get_def\<close>)
    then show ?thesis using stay q' by blast
  next
    case (Front_lock m)
    with step have "lock_put i (Front_test m) q = Some (e, q')" by (simp add: act_def)
    from lock_put_inv [OF inv this] show ?thesis using Front_lock stay by auto
  next
    case (Front_test m)
    then have e: "e = None" using step by (auto simp: act_def split: if_splits)
    from Front_test step have q': "q' = goto i (Front_try m) q \<or> q' = goto i (Front_check m) q" by (auto simp: act_def split: if_splits)
    have "mq_inv xs ys (goto i p q)" if "p = Front_try m \<or> p = Front_check m" for p
      by (rule inv_goto [OF inv, of _ i p]) (use Front_test o g h that in \<open>auto simp: pc_ok_def\<close>)
    then show ?thesis using stay e q' by blast
  next
    case (Front_try m)
    then have e: "e = None" using step by (auto simp: act_def split: if_splits)
    show ?thesis
    proof (cases "get_mutex q = None")
      case True
      then have q': "q' = goto i (Front_insert m) (unlock_put (q\<lparr>get_mutex := Some i\<rparr>))" using step Front_try by (simp add: act_def)
      have "mq_inv xs ys q'"
        by (rule inv_goto [OF inv, of _ i "Front_insert m"]) (use Front_try True o g h in \<open>auto simp: q' pc_ok_def\<close>)
      then show ?thesis using stay e by blast
    next
      case False
      then have q': "q' = goto i (Front_test m) q" using step Front_try by (auto simp: act_def)
      have "mq_inv xs ys q'"
        by (rule inv_goto [OF inv, of _ i "Front_test m"]) (use Front_try o g h in \<open>auto simp: q' pc_ok_def\<close>)
      then show ?thesis using stay e by blast
    qed
  next
    case (Front_insert m)
    then have q': "e = Some (Put_front m)" "q' = goto i Idle (unlock_get (insert_front m q))" using step by (simp_all add: act_def)
    from insert_step_inv [OF inv Front_insert] q' show ?thesis
      by (intro exI [of _ "m # xs"] exI [of _ ys]) (auto intro: exI [of _ "[]"])
  next
    case (Front_wake m)
    with step have "lock_put i (Front_check m) q = Some (e, q')" by (simp add: act_def)
    from lock_put_inv [OF inv this] show ?thesis using Front_wake stay by auto
  next
    case (Front_check m)
    show ?thesis
    proof (cases "queue_full q \<and> \<not> nonblock q")
      case True
      then have q': "e = None" "q' = goto i (Front_sleep m) (unlock_put q)" using step Front_check by (simp_all add: act_def)
      have "mq_inv xs ys q'"
        by (rule inv_goto [OF inv, of _ i "Front_sleep m"])
          (use Front_check True o g h in \<open>simp_all add: q' pc_ok_def queue_full_def\<close>)
      then show ?thesis using stay q' by blast
    next
      case False
      then have q': "e = Some (Put_front m)" "q' = goto i Put_signal (unlock_put (put_front m q))"
        using step Front_check by (auto simp: act_def)
      from put_step_inv [OF inv, of i m q'] Front_check q' have "mq_inv xs (m # ys) q'" by simp
      then show ?thesis using q'(1) by (intro exI [of _ xs] exI [of _ "m # ys"]) auto
    qed
  next
    case Get_lock
    then have n: "get_mutex q = None" and q': "e = None" "q' = goto i Get_test (q\<lparr>get_mutex := Some i\<rparr>)"
      using step by (auto simp: act_def lock_get_def split: if_splits)
    have "mq_inv xs ys q'"
      by (rule inv_goto [OF inv, of _ i Get_test]) (use Get_lock n o g h in \<open>auto simp: q' pc_ok_def\<close>)
    then show ?thesis using stay q' by blast
  next
    case Get_test
    define p where "p = (if heads q (get_head q) \<noteq> None then Get_take else Swap_lock)"
    have q': "e = None" "q' = goto i p q" using step Get_test by (simp_all add: act_def p_def)
    have "heads q (get_head q) = None \<longleftrightarrow> xs = []" using inv_parts(1) [OF inv] by (cases xs) (auto simp: lists_ok_def)
    then have p: "p = (if xs = [] then Swap_lock else Get_take)" by (simp add: p_def)
    have "mq_inv xs ys q'"
      by (rule inv_goto [OF inv, of _ i p]) (use Get_test p o g h in \<open>auto simp: q' pc_ok_def\<close>)
    then show ?thesis using stay q' by blast
  next
    case Swap_lock
    with step have "lock_put i Swap_check q = Some (e, q')" by (simp add: act_def)
    from lock_put_inv [OF inv this] show ?thesis using Swap_lock stay by auto
  next
    case Swap_check
    have cnt: "msg_cnt q = 0 \<longleftrightarrow> ys = []" using inv_parts(1) [OF inv] by (auto simp: lists_ok_def)
    show ?thesis
    proof (cases "msg_cnt q = 0 \<and> \<not> nonblock q")
      case True
      then have q': "e = None" "q' = goto i Swap_sleep (unlock_put q)" using step Swap_check by (simp_all add: act_def)
      have "mq_inv xs ys q'"
        by (rule inv_goto [OF inv, of _ i Swap_sleep]) (use Swap_check True cnt o g h in \<open>auto simp: q' pc_ok_def\<close>)
      then show ?thesis using stay q' by blast
    next
      case False
      define r where "r = (if queue_full q then broadcast_put q else q)"
      define t where "t = (if ys = [] then Get_null else Get_take)"
      have q': "e = (if ys = [] then Some Got_nothing else None)" "q' = goto i t (unlock_put (swap_lists r))"
        using step Swap_check False cnt by (auto simp: act_def r_def t_def)
      have r: "mq_inv xs ys r" using inv signal_inv(2) by (simp add: r_def)
      have c: "thread r i = Swap_check" using Swap_check by (simp add: r_def broadcast_put_def)
      have w: "thread r j \<noteq> Put_sleep m \<and> thread r j \<noteq> Front_sleep m" for j m
        using woken_after(2,3) [of q j m] inv_parts(2) [OF inv, of j] by (auto simp: r_def pc_ok_def)
      from swap_step_inv [OF r c w t_def] q' show ?thesis
        by (intro exI [of _ ys] exI [of _ "[]"]) auto
    qed
  next
    case Get_take
    from take_step_inv [OF inv Get_take] obtain m zs where
      m: "heads q (get_head q) = Some m" "xs = m # zs" "mq_inv zs ys (goto i Idle (unlock_get (take_first m q)))" by blast
    then have "e = Some (Got m)" "q' = goto i Idle (unlock_get (take_first m q))" using step Get_take by (simp_all add: act_def)
    then show ?thesis using m by (intro exI [of _ zs] exI [of _ ys]) simp
  next
    case Get_null
    then have q': "e = None" "q' = goto i Idle (unlock_get q)" using step by (simp_all add: act_def)
    have "mq_inv xs ys q'"
      by (rule inv_goto [OF inv, of _ i Idle]) (use Get_null o g h in \<open>auto simp: q' pc_ok_def\<close>)
    then show ?thesis using stay q' by blast
  next
    case Nonblock_lock
    with step have "lock_put i Nonblock_signal q = Some (e, q')" by (simp add: act_def)
    from lock_put_inv [OF inv this] show ?thesis using Nonblock_lock stay by auto
  next
    case Nonblock_signal
    then have q': "e = None" "q' = goto i Idle (unlock_put (broadcast_put (signal_get q)))" using step by (simp_all add: act_def)
    have "mq_inv xs ys q'"
      by (rule signal_step_inv [OF signal_inv(2) [OF signal_inv(1) [OF inv]], of i])
        (use Nonblock_signal q' woken_after(2,3,4) in \<open>simp_all add: signal_get_def broadcast_put_def\<close>)
    then show ?thesis using stay q' by blast
  qed (use step in \<open>simp_all add: act_def\<close>)
qed

lemma begin_put_inv:
  assumes inv: "mq_inv xs ys q" and idle: "thread q i = Idle" and free: "message_free m q" and p: "p \<in> {Put_lock m, Front_lock m}"
    and q': "q' = goto i p (if p = Put_lock m then store (Link m) None q else q)"
  shows "mq_inv xs ys q'"
proof (rule inv_update_fresh [OF inv])
  have l: "lists_ok xs ys q" by (rule inv_parts(1) [OF inv])
  have m: "m \<notin> set (xs @ ys)" "carried (thread q j) \<noteq> Some m" for j
    using free lists_ok_queued [OF l] by (auto simp: message_free_def)
  show th: "thread q' = (thread q)(i := p)" by (simp add: q' store_def)
  show "lists_ok xs ys q'" using l m(1) by (auto simp: q' store_def lists_ok_def)
  have lk: "link q' n = (if n = m \<and> p = Put_lock m then None else link q n)" for n by (simp add: q' store_def)
  show "pc_ok xs ys q' p" using p m(1) lk by (auto simp: pc_ok_def)
  show "\<And>n j. carried p = Some n \<Longrightarrow> carried (thread q j) = Some n \<Longrightarrow> j = i" using p m(2) by auto
  have sg: "signalling q \<Longrightarrow> signalling q'" by (erule signalling_goto [OF _ _ th]) (use idle in auto)
  show "pc_ok xs ys q' (thread q j)" if j: "j \<noteq> i" "pc_ok xs ys q (thread q j)" for j
  proof (rule pc_ok_change [OF j(2)])
    fix n assume n: "carried (thread q j) = Some n"
    then have "n \<noteq> m" using m(2) [of j] by auto
    then show "n \<notin> set (xs @ ys) \<and> link q' n = link q n" using j(2) n by (auto simp: pc_ok_def lk)
  next
    show "notifying q \<Longrightarrow> notifying q'" by (erule notifying_goto [OF _ _ th]) (use idle in auto)
    show "thread q j = Swap_sleep \<Longrightarrow> ys \<noteq> [] \<Longrightarrow> signalling q'" using j(2) sg by (auto simp: pc_ok_def)
  qed (use j(2) in \<open>auto simp: q' pc_ok_def queue_full_def store_def\<close>)
qed (use p q' idle inv_parts(3) [OF inv, of i] inv_parts(4) [OF inv, of i] in \<open>auto simp: store_def\<close>)

lemma begin_nonblock_inv:
  assumes inv: "mq_inv xs ys q" and idle: "thread q i = Idle"
  shows "mq_inv xs ys (goto i Nonblock_lock (q\<lparr>nonblock := True\<rparr>))" (is "mq_inv _ _ ?q")
proof (rule inv_update [OF inv])
  show "lists_ok xs ys ?q" using inv_parts(1) [OF inv] by (auto intro: lists_ok_cong)
  show "pc_ok xs ys ?q Nonblock_lock" by (simp add: pc_ok_def)
  have n: "notifying ?q" "signalling ?q" by (auto simp: notifying_def signalling_def)
  show "pc_ok xs ys ?q (thread q j)" if j: "j \<noteq> i" "pc_ok xs ys q (thread q j)" for j
    using j(2) n by (auto simp: pc_ok_def queue_full_def)
qed (use idle inv_parts(3) [OF inv, of i] inv_parts(4) [OF inv, of i] in auto)

lemma mq_step_inv:
  assumes inv: "mq_inv xs ys q" and step: "mq_step q e q'"
  shows "\<exists>xs' ys'. mq_inv xs' ys' q' \<and> event_ok e (xs @ ys) (xs' @ ys')"
  using step
proof cases
  case (go_on i)
  then show ?thesis using act_inv [OF inv] by simp
next
  case (begin_put i m)
  then show ?thesis using begin_put_inv [OF inv begin_put(3,4), of "Put_lock m"] by auto
next
  case (begin_put_head i m)
  then show ?thesis using begin_put_inv [OF inv begin_put_head(3,4), of "Front_lock m"] by auto
next
  case (begin_get i)
  have "mq_inv xs ys q'"
    by (rule inv_goto [OF inv, of _ i Get_lock])
      (use begin_get inv_parts(3) [OF inv, of i] inv_parts(4) [OF inv, of i] in \<open>auto simp: pc_ok_def\<close>)
  then show ?thesis using begin_get by auto
next
  case (begin_set_nonblock i)
  then show ?thesis using begin_nonblock_inv [OF inv] by auto
next
  case set_block
  have n: "notifying q' = notifying q" "signalling q' = signalling q" unfolding set_block notifying_def signalling_def by simp_all
  have "pc_ok xs ys q' (thread q' j)" for j
    using inv_parts(2) [OF inv, of j] n set_block by (auto simp: pc_ok_def queue_full_def)
  moreover have "mutexes_ok q" "carried_ok q" using inv by (simp_all only: mq_inv_def)
  then have "mutexes_ok q'" "carried_ok q'" unfolding set_block mutexes_ok_def carried_ok_def by simp_all
  moreover have "lists_ok xs ys q'" unfolding set_block using inv_parts(1) [OF inv] by (rule lists_ok_cong) simp_all
  ultimately have "mq_inv xs ys q'" unfolding mq_inv_def by blast
  then show ?thesis using set_block by auto
next
  case (spurious_getter i)
  note o = inv_parts(2) [OF inv, of i]
  have "mq_inv xs ys q'"
  proof (cases "thread q i = Swap_sleep")
    case True
    show ?thesis
      by (rule inv_goto [OF inv, of _ i Swap_lock])
        (use True o spurious_getter inv_parts(3) [OF inv, of i] inv_parts(4) [OF inv, of i] in \<open>auto simp: pc_ok_def\<close>)
  next
    case False
    then have "woken_getter (thread q i) = thread q i" by (cases "thread q i") auto
    then show ?thesis using inv spurious_getter by (simp add: goto_def)
  qed
  then show ?thesis using spurious_getter by auto
next
  case (spurious_putter i)
  note o = inv_parts(2) [OF inv, of i]
  have "mq_inv xs ys q'"
  proof (cases "\<exists>m. thread q i \<in> {Put_sleep m, Front_sleep m}")
    case True
    then obtain m where m: "thread q i = Put_sleep m \<or> thread q i = Front_sleep m" by blast
    have g: "get_mutex q \<noteq> Some i" "put_mutex q \<noteq> Some i"
      using m inv_parts(3) [OF inv, of i] inv_parts(4) [OF inv, of i] by auto
    have c: "m \<notin> set (xs @ ys)" "thread q i = Put_sleep m \<Longrightarrow> link q m = None" using m o by (auto simp: pc_ok_def)
    have "mq_inv xs ys (goto i (Put_lock m) q)" if "thread q i = Put_sleep m"
      by (rule inv_goto [OF inv, of _ i "Put_lock m"]) (use that c g in \<open>simp_all add: pc_ok_def\<close>)
    moreover have "mq_inv xs ys (goto i (Front_wake m) q)" if "thread q i = Front_sleep m"
      by (rule inv_goto [OF inv, of _ i "Front_wake m"]) (use that c g in \<open>simp_all add: pc_ok_def\<close>)
    ultimately show ?thesis using m spurious_putter by auto
  next
    case False
    then have "woken_putter (thread q i) = thread q i" by (cases "thread q i") auto
    then show ?thesis using inv spurious_putter by (simp add: goto_def)
  qed
  then show ?thesis using spurious_putter by auto
qed

lemma event_trace: "queue_trace es ms \<Longrightarrow> event_ok e ms ms' \<Longrightarrow> queue_trace (es @ happened e) ms'"
  by (cases "(e, ms, ms')" rule: event_ok.cases) (auto intro: queue_trace.intros)

lemma mq_run_inv: "mq_run maxlen es q \<Longrightarrow> \<exists>xs ys. mq_inv xs ys q \<and> queue_trace es (xs @ ys)"
proof (induction rule: mq_run.induct)
  case (start lk)
  have "mq_inv [] [] (msgqueue_create maxlen lk)"
    by (simp add: mq_inv_def msgqueue_create_def lists_ok_def mutexes_ok_def carried_ok_def pc_ok_def)
  then show ?case using queue_trace.empty by (intro exI [of _ "[]"]) auto
next
  case (step es q e q')
  then obtain xs ys where inv: "mq_inv xs ys q" and tr: "queue_trace es (xs @ ys)" by blast
  from mq_step_inv [OF inv step(2)] obtain xs' ys' where "mq_inv xs' ys' q'" "event_ok e (xs @ ys) (xs' @ ys')" by blast
  then show ?case using event_trace [OF tr] by blast
qed

section \<open>Properties\<close>


fun puts :: "event list \<Rightarrow> nat list" where
  "puts [] = []"
| "puts (Put m # es) = m # puts es"
| "puts (_ # es) = puts es"

fun gots :: "event list \<Rightarrow> nat list" where
  "gots [] = []"
| "gots (Got m # es) = m # gots es"
| "gots (_ # es) = gots es"

lemma puts_append [simp]: "puts (es @ fs) = puts es @ puts fs" "gots (es @ fs) = gots es @ gots fs"
  by (induction es rule: puts.induct; simp) (induction es rule: gots.induct; simp)

lemma trace_fifo: "queue_trace es ms \<Longrightarrow> \<forall>m. Put_front m \<notin> set es \<Longrightarrow> puts es = gots es @ ms"
  by (induction rule: queue_trace.induct) auto

text \<open>As long as nothing is put at the head, the messages come out in the order in which they were put.\<close>

theorem msgqueue_fifo:
  assumes "mq_run maxlen es q" and "\<forall>m. Put_front m \<notin> set es"
  shows "\<exists>ms. puts es = gots es @ ms \<and> queued q ms"
  using mq_run_inv [OF assms(1)] trace_fifo [OF _ assms(2)] lists_ok_queued inv_parts(1) by blast

text \<open>No thread can go on.\<close>

definition blocked :: "msgqueue \<Rightarrow> bool" where
  "blocked q \<longleftrightarrow> (\<forall>i. act i q = None)"

lemma act_None:
  assumes "act i q = None"
  shows "(case thread q i of
      Idle \<Rightarrow> True | Put_sleep m \<Rightarrow> True | Front_sleep m \<Rightarrow> True | Swap_sleep \<Rightarrow> True | Get_lock \<Rightarrow> get_mutex q \<noteq> None
    | Put_lock m \<Rightarrow> put_mutex q \<noteq> None | Front_lock m \<Rightarrow> put_mutex q \<noteq> None | Front_wake m \<Rightarrow> put_mutex q \<noteq> None
    | Swap_lock \<Rightarrow> put_mutex q \<noteq> None | Nonblock_lock \<Rightarrow> put_mutex q \<noteq> None | _ \<Rightarrow> False)"
  using assms by (cases "thread q i") (auto simp: act_def lock_put_def lock_get_def split: if_splits option.splits)

text \<open>When no thread can go on, nobody holds the putters' lock; whoever holds the getters' lock sleeps.\<close>

lemma blocked_locks:
  assumes inv: "mq_inv xs ys q" and b: "blocked q"
  shows "put_mutex q = None" and "get_mutex q = Some i \<Longrightarrow> thread q i = Swap_sleep"
proof -
  have n: "act j q = None" for j using b by (simp add: blocked_def)
  have "\<not> holds_put (thread q j)" for j using act_None [OF n, of j] by (cases "thread q j") auto
  then show p: "put_mutex q = None" using inv_parts(4) [OF inv] by (metis option.exhaust)
  assume "get_mutex q = Some i"
  then have "holds_get (thread q i)" using inv_parts(3) [OF inv] by blast
  then show "thread q i = Swap_sleep" using act_None [OF n, of i] p by (cases "thread q i") auto
qed

text \<open>C29: The threads are only ever all blocked for a reason: either the queue is empty and the threads that are not idle are getters,
  one of them asleep and the others behind it, or the queue is full and all of them are putters asleep; and never
  when the queue has been set not to block. No wake-up is lost, and the locks do not deadlock.\<close>

theorem msgqueue_blocked_legitimately:
  assumes "mq_run maxlen es q" and "blocked q" and "thread q i \<noteq> Idle"
  shows "\<not> nonblock q \<and>
    (queued q [] \<and> (\<forall>j. thread q j \<in> {Idle, Get_lock, Swap_sleep}) \<or>
     queue_full q \<and> (\<forall>j. thread q j \<in> {Idle} \<union> range Put_sleep \<union> range Front_sleep))"
proof -
  obtain xs ys where inv: "mq_inv xs ys q" using mq_run_inv [OF assms(1)] by blast
  note b = blocked_locks [OF inv assms(2)]
  have t: "thread q j = Idle \<or> thread q j = Swap_sleep \<or> thread q j = Get_lock \<and> get_mutex q \<noteq> None \<or>
      (\<exists>m. thread q j \<in> {Put_sleep m, Front_sleep m})" for j
    using act_None [of j q] assms(2) b(1) by (cases "thread q j") (auto simp: blocked_def)
  have "thread q j \<notin> {Put_signal, Nonblock_lock, Nonblock_signal}" for j using t [of j] by auto
  then have quiet: "\<not> notifying q" "\<not> signalling q" unfolding notifying_def signalling_def by auto
  show ?thesis
  proof (cases "get_mutex q")
    case None
    have g: "thread q j \<noteq> Swap_sleep" for j using inv_parts(3) [OF inv, of j] None by auto
    have p: "thread q j \<in> {Idle} \<union> range Put_sleep \<union> range Front_sleep" for j using t [of j] g [of j] None by auto
    have "queue_full q \<and> \<not> nonblock q" using inv_parts(2) [OF inv, of i] p [of i] assms(3) quiet by (auto simp: pc_ok_def)
    then show ?thesis using p by blast
  next
    case (Some k)
    then have k: "thread q k = Swap_sleep" by (rule b(2))
    then have e: "xs = []" "ys = []" "\<not> nonblock q" using inv_parts(2) [OF inv, of k] quiet by (auto simp: pc_ok_def)
    then have nf: "\<not> queue_full q" using queue_full_lists [OF inv_parts(1) [OF inv]] by simp
    have "thread q j \<in> {Idle, Get_lock, Swap_sleep}" for j using t [of j] inv_parts(2) [OF inv, of j] nf by (auto simp: pc_ok_def)
    moreover have "queued q []" using lists_ok_queued [OF inv_parts(1) [OF inv]] e by simp
    ultimately show ?thesis using e(3) by blast
  qed
qed

section \<open>Examples\<close>

text \<open>A thread has put the message 7; and a getter that sleeps.\<close>

definition put_steps :: msgqueue where
  "put_steps = goto 0 (Put_check 7) ((goto 0 (Put_lock 7) (store (Link 7) None (msgqueue_create 2 (\<lambda>_. None))))\<lparr>put_mutex := Some 0\<rparr>)"

definition example_put :: msgqueue where
  "example_put = goto 0 Put_signal (unlock_put (put_back 7 put_steps))"

definition example_asleep :: msgqueue where
  "example_asleep = goto 0 Swap_sleep (unlock_put (goto 0 Swap_check ((goto 0 Swap_lock (goto 0 Get_test
     ((goto 0 Get_lock (msgqueue_create 2 (\<lambda>_. None)))\<lparr>get_mutex := Some 0\<rparr>)))\<lparr>put_mutex := Some 0\<rparr>)))"

lemma create_simps [simp]:
  "thread (msgqueue_create n lk) = (\<lambda>_. Idle)" "put_mutex (msgqueue_create n lk) = None" "get_mutex (msgqueue_create n lk) = None"
  "heads (msgqueue_create n lk) = (\<lambda>_. None)" "msg_cnt (msgqueue_create n lk) = 0" "nonblock (msgqueue_create n lk) = False"
  "msg_max (msgqueue_create n lk) = n" "put_tail (msgqueue_create n lk) = Head True"
  by (simp_all add: msgqueue_create_def)

lemma run_go_on: "mq_run maxlen es q \<Longrightarrow> act i q = Some (e, q') \<Longrightarrow> mq_run maxlen (es @ happened e) q'"
  by (rule mq_run.step [OF _ go_on])

lemma example_put_run: "mq_run 2 [Put 7] example_put"
proof -
  let ?q = "msgqueue_create 2 (\<lambda>_. None)"
  have "queued ?q ms \<longrightarrow> 7 \<notin> set ms" for ms
    by (auto simp: queued_def)
  then have "message_free 7 ?q" by (simp add: message_free_def)
  then have "mq_step ?q None (goto 0 (Put_lock 7) (store (Link 7) None ?q))" by (intro begin_put) simp
  from mq_run.step [OF mq_run.start this] have "mq_run 2 [] (goto 0 (Put_lock 7) (store (Link 7) None ?q))" by simp
  from run_go_on [OF this, of 0 None put_steps] have "mq_run 2 [] put_steps"
    by (simp add: act_def lock_put_def put_steps_def store_def)
  moreover have "act 0 put_steps = Some (Some (Put 7), example_put)"
    by (simp add: act_def example_put_def) (simp add: put_steps_def queue_full_def store_def)
  ultimately show ?thesis using run_go_on by fastforce
qed

lemma example_asleep_run: "mq_run 2 [] example_asleep"
proof -
  let ?q = "msgqueue_create 2 (\<lambda>_. None)"
  let ?a = "goto 0 Get_lock ?q"
  let ?b = "goto 0 Get_test (?a\<lparr>get_mutex := Some 0\<rparr>)"
  let ?c = "goto 0 Swap_lock ?b"
  let ?d = "goto 0 Swap_check (?c\<lparr>put_mutex := Some 0\<rparr>)"
  have "mq_step ?q None ?a" by (intro begin_get) simp
  from mq_run.step [OF mq_run.start this] have "mq_run 2 [] ?a" by simp
  from run_go_on [OF this, of 0 None ?b] have "mq_run 2 [] ?b" by (simp add: act_def lock_get_def)
  from run_go_on [OF this, of 0 None ?c] have "mq_run 2 [] ?c" by (simp add: act_def)
  from run_go_on [OF this, of 0 None ?d] have "mq_run 2 [] ?d" by (simp add: act_def lock_put_def)
  from run_go_on [OF this, of 0 None example_asleep] show ?thesis by (simp add: act_def example_asleep_def)
qed

lemma asleep_thread: "thread example_asleep = (\<lambda>_. Idle)(0 := Swap_sleep)"
  by (simp add: example_asleep_def)


theorem msgqueue_fifo_witness: "\<exists>ms. puts [Put 7] = gots [Put 7] @ ms \<and> queued example_put ms"
  using msgqueue_fifo [OF example_put_run] by simp

theorem msgqueue_blocked_legitimately_witness: "\<not> nonblock example_asleep \<and> queued example_asleep []"
proof -
  have "blocked example_asleep" unfolding blocked_def act_def asleep_thread by simp
  moreover have "thread example_asleep 0 = Swap_sleep" by (simp add: asleep_thread)
  moreover have "thread example_asleep 0 \<notin> {Idle} \<union> range Put_sleep \<union> range Front_sleep" by (auto simp: asleep_thread)
  ultimately show ?thesis using msgqueue_blocked_legitimately [OF example_asleep_run, of 0] by (metis UnCI insertI1)
qed

end
