(* ===== verification/Redis_Parser.thy ===== *)
theory Redis_Parser
  imports Cxx_Strings
begin

text \<open>
  The parser of the Redis protocol (\<open>workflow/src/protocol/redis_parser.c\<close>): a state machine that is fed with chunks,
  keeps all bytes of the message in a buffer and builds the reply, a tree. A pointer into the tree is the
  path from its root. While parsing a string is an offset into the buffer and a length; at the end, a pointer into the buffer.
  Whether the allocations for an array succeed is a parameter.
\<close>

section \<open>Replies\<close>

datatype rstr = Offset nat nat | Text string

datatype redis_reply = NIL | INTEGER int | STRING rstr | STATUS rstr | ERROR rstr | ARRAY "redis_reply list"

fun reply_upd :: "nat list \<Rightarrow> redis_reply \<Rightarrow> redis_reply \<Rightarrow> redis_reply" where
  "reply_upd [] v r = v"
| "reply_upd (i # p) v (ARRAY rs) = ARRAY (rs[i := reply_upd p v (rs ! i)])"
| "reply_upd (i # p) v r = r"

section \<open>State\<close>

datatype redis_status = REDIS_GET_CMD | REDIS_GET_CR | REDIS_GET_LF | REDIS_UNTIL_CRLF | REDIS_GET_NCHAR | REDIS_PARSE_END

text \<open>The buffer is the part of it that has been written; \<open>bufsize\<close> bytes are allocated.\<close>

record redis_parser =
  parse_succ :: bool
  status :: redis_status
  msgbuf :: string
  bufsize :: nat
  cur :: "nat list"
  read_list :: "nat list list"
  msgidx :: nat
  findidx :: nat
  nleft :: int
  nchar :: int
  cmd :: char
  reply :: redis_reply

definition redis_parser_init :: redis_parser where
  "redis_parser_init = \<lparr>parse_succ = False, status = REDIS_GET_CMD, msgbuf = [], bufsize = 0, cur = [], read_list = [], msgidx = 0,
     findidx = 0, nleft = 1, nchar = 0, cmd = NUL, reply = NIL\<rparr>"

definition REDIS_ARRAY_SIZE_LIMIT :: int where "REDIS_ARRAY_SIZE_LIMIT = 4 * 1024 * 1024"
definition REDIS_REPLY_DEPTH_LIMIT :: nat where "REDIS_REPLY_DEPTH_LIMIT = 64"

definition CR :: char where "CR = CHR 0x0D"
definition LF :: char where "LF = CHR 0x0A"

definition set_cur :: "redis_reply \<Rightarrow> redis_parser \<Rightarrow> redis_parser" where
  "set_cur v p = p\<lparr>reply := reply_upd (cur p) v (reply p)\<rparr>"

text \<open>\<open>atoi\<close> on the buffer, which has no terminator: when it reads to the end of what has been written, what it finds there is undefined.\<close>

definition atoi_in :: "string \<Rightarrow> int cxx" where
  "atoi_in s = (let t = dropWhile is_space s;
       u = (case t of [] \<Rightarrow> [] | c # u \<Rightarrow> if c = CHR ''-'' \<or> c = CHR ''+'' then u else t)
     in if dropWhile is_digit u = [] then Undefined else Ok (atoi s))"

definition atoll :: "string \<Rightarrow> int" where
  "atoll s = (case strtol_prefix (c_str s) of None \<Rightarrow> 0 | Some (v, rest) \<Rightarrow> clamp64 v)"

section \<open>Steps\<close>

text \<open>The results are those of the code: -1 and -2 errors, 0 continue, 1 one reply is complete, 2 not enough bytes.\<close>

type_synonym redis_step = "(int \<times> redis_parser) cxx"

definition parse_cmd :: "char \<Rightarrow> redis_parser \<Rightarrow> int \<times> redis_parser" where
  "parse_cmd ch p = (if ch \<in> set ''+-:$*'' then (0, p\<lparr>cmd := ch, status := REDIS_UNTIL_CRLF, findidx := msgidx p\<rparr>) else (-2, p))"

definition parse_cr :: "char \<Rightarrow> redis_parser \<Rightarrow> int \<times> redis_parser" where
  "parse_cr ch p = (if ch \<noteq> CR then (-2, p) else (0, p\<lparr>status := REDIS_GET_LF\<rparr>))"

definition parse_lf :: "char \<Rightarrow> redis_parser \<Rightarrow> int \<times> redis_parser" where
  "parse_lf ch p = (if ch \<noteq> LF then (-2, p) else (1, p))"

text \<open>The header of an array: its elements wait in \<open>read_list\<close>, the first is next.\<close>

definition begin_array :: "(nat \<Rightarrow> bool) \<Rightarrow> int \<Rightarrow> redis_parser \<Rightarrow> redis_step" where
  "begin_array mem n p = (if nleft p + n \<ge> 2 ^ 31 then Undefined
     else
       let p = p\<lparr>nleft := nleft p + n\<rparr>
       in if \<not> mem (nat n) then Ok (-1, p)
          else
            let p = set_cur (ARRAY (replicate (nat n) NIL)) p
            in if n = 0 then Ok (1, p)
               else Ok (0, p\<lparr>nleft := nleft p - 1, read_list := map (\<lambda>i. cur p @ [i]) [1..<nat n] @ read_list p,
                 cur := cur p @ [0], status := REDIS_GET_CMD\<rparr>))"

definition parse_line :: "(nat \<Rightarrow> bool) \<Rightarrow> redis_parser \<Rightarrow> redis_step" where
  "parse_line mem p =
     (let str = drop (msgidx p) (msgbuf p); slen = findidx p - msgidx p; offset = msgidx p;
          p = p\<lparr>msgidx := findidx p + 2\<rparr>
      in if cmd p = CHR ''+'' then Ok (1, set_cur (STATUS (Offset offset slen)) p)
         else if cmd p = CHR ''-'' then Ok (1, set_cur (ERROR (Offset offset slen)) p)
         else if cmd p = CHR '':'' then
           (if slen = 0 \<or> slen > 30 then Ok (-2, p) else Ok (1, set_cur (INTEGER (atoll (take slen str))) p))
         else if cmd p = CHR ''$'' then
           cbind (atoi_in str) (\<lambda>n.
             if n < 0 then Ok (1, set_cur NIL p)
             else if n = 0 then
               if \<not> is_digit (hd str) then Ok (-2, p)
               else Ok (0, (set_cur (STRING (Offset offset 0)) p)\<lparr>status := REDIS_GET_CR\<rparr>)
             else Ok (0, p\<lparr>nchar := n, status := REDIS_GET_NCHAR\<rparr>))
         else if cmd p = CHR ''*'' then
           cbind (atoi_in str) (\<lambda>n.
             if n < 0 then Ok (1, set_cur NIL p)
             else if n = 0 \<and> \<not> is_digit (hd str) then Ok (-2, p)
             else if n > REDIS_ARRAY_SIZE_LIMIT then Ok (-2, p)
             else begin_array mem n p)
         else Ok (-2, p))"

text \<open>The first CR LF from \<open>i\<close> on.\<close>

fun crlf_scan :: "nat \<Rightarrow> string \<Rightarrow> nat \<times> bool" where
  "crlf_scan i (a # b # s) = (if a = CR \<and> b = LF then (i, True) else crlf_scan (Suc i) (b # s))"
| "crlf_scan i s = (i, False)"

definition parse_crlf :: "(nat \<Rightarrow> bool) \<Rightarrow> redis_parser \<Rightarrow> redis_step" where
  "parse_crlf mem p = (let (i, found) = crlf_scan (findidx p) (drop (findidx p) (msgbuf p)); p = p\<lparr>findidx := i\<rparr>
     in if found then parse_line mem p else Ok (2, p))"

definition parse_nchar :: "redis_parser \<Rightarrow> int \<times> redis_parser" where
  "parse_nchar p = (if nat (nchar p) \<le> length (msgbuf p) - msgidx p then
       (0, (set_cur (STRING (Offset (msgidx p) (nat (nchar p)))) p)\<lparr>msgidx := msgidx p + nat (nchar p), status := REDIS_GET_CR\<rparr>)
     else (2, p))"

definition parser_forward :: "(nat \<Rightarrow> bool) \<Rightarrow> redis_parser \<Rightarrow> redis_step" where
  "parser_forward mem p =
     (if msgidx p \<ge> length (msgbuf p) then Ok (2, p)
      else
        let ch = msgbuf p ! msgidx p; q = p\<lparr>msgidx := Suc (msgidx p)\<rparr>
        in case status p of
             REDIS_GET_CMD \<Rightarrow> Ok (parse_cmd ch q)
           | REDIS_GET_CR \<Rightarrow> Ok (parse_cr ch q)
           | REDIS_GET_LF \<Rightarrow> Ok (parse_lf ch q)
           | REDIS_UNTIL_CRLF \<Rightarrow> parse_crlf mem p
           | REDIS_GET_NCHAR \<Rightarrow> Ok (parse_nchar p)
           | REDIS_PARSE_END \<Rightarrow> Ok (-2, p))"

section \<open>Messages\<close>

text \<open>After a complete reply the next one that waits is read, if there is one.\<close>

definition next_reply :: "redis_parser \<Rightarrow> redis_parser" where
  "next_reply p =
     (let p = p\<lparr>nleft := nleft p - 1\<rparr>;
          p = (case read_list p of [] \<Rightarrow> p | r # rs \<Rightarrow> p\<lparr>cur := r, read_list := rs\<rparr>)
      in if nleft p > 0 then p\<lparr>status := REDIS_GET_CMD\<rparr> else p\<lparr>parse_succ := True, status := REDIS_PARSE_END\<rparr>)"

definition parser_turn :: "(nat \<Rightarrow> bool) \<Rightarrow> redis_parser \<Rightarrow> redis_step" where
  "parser_turn mem p = cbind (parser_forward mem p) (\<lambda>(ret, p). Ok (ret, if ret = 1 then next_reply p else p))"

text \<open>The loop; 1 when the whole message has been read.\<close>

fun parser_loop :: "nat \<Rightarrow> (nat \<Rightarrow> bool) \<Rightarrow> redis_parser \<Rightarrow> redis_step" where
  "parser_loop 0 mem p = Out_of_fuel"
| "parser_loop (Suc fuel) mem p = cbind (parser_turn mem p) (\<lambda>(ret, p).
     if ret < 0 \<or> ret = 2 then Ok (ret, p)
     else if status p = REDIS_PARSE_END then Ok (1, p)
     else parser_loop fuel mem p)"

text \<open>The offsets become strings. Too deep a reply is refused.\<close>

fun parse_done :: "string \<Rightarrow> nat \<Rightarrow> redis_reply \<Rightarrow> redis_reply option"
  and parse_done_all :: "string \<Rightarrow> nat \<Rightarrow> redis_reply list \<Rightarrow> redis_reply list option" where
  "parse_done buf depth r = (if depth = REDIS_REPLY_DEPTH_LIMIT then None else case r of
     NIL \<Rightarrow> Some NIL
   | INTEGER i \<Rightarrow> Some (INTEGER i)
   | ARRAY rs \<Rightarrow> map_option ARRAY (parse_done_all buf (Suc depth) rs)
   | STATUS (Offset a l) \<Rightarrow> Some (STATUS (Text (segment a l buf)))
   | ERROR (Offset a l) \<Rightarrow> Some (ERROR (Text (segment a l buf)))
   | STRING (Offset a l) \<Rightarrow> Some (STRING (Text (segment a l buf)))
   | r \<Rightarrow> Some r)"
| "parse_done_all buf depth [] = Some []"
| "parse_done_all buf depth (r # rs) = (case parse_done buf depth r of
     None \<Rightarrow> None | Some r' \<Rightarrow> map_option (\<lambda>rs'. r' # rs') (parse_done_all buf depth rs))"

text \<open>Words between blanks, for commands typed by hand.\<close>

function inline_words :: "string \<Rightarrow> string list" where
  "inline_words s = (case dropWhile is_space s of
     [] \<Rightarrow> []
   | c # t \<Rightarrow> (c # takeWhile (\<lambda>c. \<not> is_space c) t) # inline_words (dropWhile (\<lambda>c. \<not> is_space c) t))"
  by auto
termination
proof (relation "measure length")
  fix s c t
  assume "dropWhile is_space s = c # t"
  then have "Suc (length t) \<le> length s" using length_dropWhile_le [of is_space s] by simp
  then show "(dropWhile (\<lambda>c. \<not> is_space c) t, s) \<in> measure length"
    using length_dropWhile_le [of "\<lambda>c. \<not> is_space c" t] by simp
qed simp

declare inline_words.simps [simp del]

definition split_inline_command :: "(nat \<Rightarrow> bool) \<Rightarrow> redis_parser \<Rightarrow> int \<times> redis_parser" where
  "split_inline_command mem p = (let ws = inline_words (msgbuf p)
     in if ws = [] then (0, p\<lparr>msgbuf := [], msgidx := 0\<rparr>)
        else if \<not> mem (length ws) then (-1, p)
        else (1, p\<lparr>reply := ARRAY (map (\<lambda>w. STRING (Text w)) ws), status := REDIS_PARSE_END\<rparr>))"

definition is_alpha :: "char \<Rightarrow> bool" where
  "is_alpha c \<longleftrightarrow> 65 \<le> (of_char c :: nat) \<and> (of_char c :: nat) \<le> 90 \<or> 97 \<le> (of_char c :: nat) \<and> (of_char c :: nat) \<le> 122"

text \<open>Doubling the buffer until \<open>n\<close> bytes fit.\<close>

function grow :: "nat \<Rightarrow> nat \<Rightarrow> nat" where
  "grow n sz = (if sz < n \<and> 0 < sz then grow n (2 * sz) else sz)"
  by auto
termination by (relation "measure (\<lambda>(n, sz). n - sz)") auto

declare grow.simps [simp del]

text \<open>The result, and how many bytes of the chunk have been used.\<close>

definition append_inline :: "(nat \<Rightarrow> bool) \<Rightarrow> nat \<Rightarrow> nat \<Rightarrow> redis_parser \<Rightarrow> int \<times> nat \<times> redis_parser" where
  "append_inline mem old sz p =
     (let i = msgidx p + length (takeWhile (\<lambda>c. c \<noteq> LF) (drop (msgidx p) (msgbuf p)))
      in if i = length (msgbuf p) then (0, sz, p\<lparr>msgidx := i\<rparr>)
         else let (ret, q) = split_inline_command mem (p\<lparr>msgidx := Suc i, msgbuf := take (Suc i) (msgbuf p)\<rparr>)
              in (ret, Suc i - old, q))"

definition append_message :: "(nat \<Rightarrow> bool) \<Rightarrow> string \<Rightarrow> redis_parser \<Rightarrow> (int \<times> nat \<times> redis_parser) cxx" where
  "append_message mem buf p =
     (let old = length (msgbuf p); new = old + length buf; sz = grow new (max 8 (2 * bufsize p))
      in if status p = REDIS_PARSE_END then Ok (1, 0, p)
         else if bufsize p < new \<and> \<not> mem sz then Ok (-1, length buf, p)
         else
           let p = p\<lparr>bufsize := (if bufsize p < new then sz else bufsize p), msgbuf := msgbuf p @ buf\<rparr>
           in if msgbuf p \<noteq> [] \<and> (is_alpha (hd (msgbuf p)) \<or> is_space (hd (msgbuf p))) then Ok (append_inline mem old (length buf) p)
              else cbind (parser_loop (Suc (length (msgbuf p) - msgidx p)) mem p) (\<lambda>(ret, p).
                if ret < 0 then Ok (ret, length buf, p)
                else if ret = 2 then Ok (0, length buf, p)
                else case parse_done (msgbuf p) 0 (reply p) of
                  None \<Rightarrow> Ok (-2, msgidx p - old, p)
                | Some r \<Rightarrow> Ok (1, msgidx p - old, p\<lparr>reply := r\<rparr>)))"

end
