(* ===== verification/Encode_Stream.thy ===== *)
theory Encode_Stream
  imports Prelude
begin

text \<open>
  The stream into which the messages of the framework are encoded (\<open>workflow/src/util/EncodeStream.cc\<close>): a vector of
  pieces, given by the caller, that refer to the caller's memory or to copies in buffers of the stream. When the vector is
  full the pieces are merged. Memory is modelled byte by byte, so that it can be seen that no copy is overwritten while
  a piece refers to it.
\<close>

section \<open>State\<close>

text \<open>A piece is in the memory of the caller, who leaves it alone, or in a buffer.\<close>

datatype iov_base = Caller string | In_buf nat nat

record iovec =
  iov_base :: iov_base
  iov_len :: nat

text \<open>A byte that has not been written is \<open>None\<close>.\<close>

record EncodeBuf =
  pos :: nat
  capacity :: nat
  data :: "nat \<Rightarrow> char option"

record EncodeStream =
  vec :: "iovec list"
  max_size :: nat
  vec_size :: nat
  bytes :: nat
  merged_size :: nat
  merged_bytes :: nat
  bufs :: "nat \<Rightarrow> EncodeBuf"
  next_buf :: nat
  buf_list :: "nat list"

definition ENCODE_BUF_SIZE :: nat where "ENCODE_BUF_SIZE = 1024"

definition ALIGN :: "nat \<Rightarrow> nat" where "ALIGN x = (x + 7) div 8 * 8"

definition new_EncodeStream :: EncodeStream where
  "new_EncodeStream = \<lparr>vec = [], max_size = 0, vec_size = 0, bytes = 0, merged_size = 0, merged_bytes = 0,
     bufs = (\<lambda>_. \<lparr>pos = 0, capacity = 0, data = (\<lambda>_. None)\<rparr>), next_buf = 0, buf_list = []\<rparr>"

definition reset :: "iovec list \<Rightarrow> EncodeStream \<Rightarrow> EncodeStream" where
  "reset vectors s = s\<lparr>vec := vectors, max_size := length vectors, vec_size := 0, bytes := 0, merged_size := 0, merged_bytes := 0,
     buf_list := []\<rparr>"

section \<open>Memory\<close>

definition read_iov :: "(nat \<Rightarrow> EncodeBuf) \<Rightarrow> iovec \<Rightarrow> char option list" where
  "read_iov bs v = (case iov_base v of
     Caller s \<Rightarrow> map Some (take (iov_len v) s)
   | In_buf b off \<Rightarrow> map (data (bs b)) [off..<off + iov_len v])"

definition memcpy :: "nat \<Rightarrow> char option list \<Rightarrow> EncodeBuf \<Rightarrow> EncodeBuf cxx" where
  "memcpy off cs b = (if off + length cs > capacity b then Undefined
     else Ok (b\<lparr>data := (\<lambda>i. if off \<le> i \<and> i < off + length cs then cs ! (i - off) else data b i)\<rparr>))"

definition new_buf :: "nat \<Rightarrow> EncodeBuf" where
  "new_buf len = \<lparr>pos = 0, capacity = (if len > ENCODE_BUF_SIZE then ALIGN len else ENCODE_BUF_SIZE), data = (\<lambda>_. None)\<rparr>"

section \<open>Operations\<close>

fun copy_pieces :: "(nat \<Rightarrow> EncodeBuf) \<Rightarrow> iovec list \<Rightarrow> nat \<Rightarrow> EncodeBuf \<Rightarrow> EncodeBuf cxx" where
  "copy_pieces bs [] p b = Ok b"
| "copy_pieces bs (v # vs) p b = cbind (memcpy p (read_iov bs v) b) (\<lambda>b. copy_pieces bs vs (p + iov_len v) b)"

definition merge :: "EncodeStream \<Rightarrow> EncodeStream cxx" where
  "merge s = (let len = bytes s - merged_bytes s; bid = next_buf s
     in cbind (copy_pieces (bufs s) (drop (merged_size s) (take (vec_size s) (vec s))) 0 (new_buf len)) (\<lambda>buf.
          Ok (s\<lparr>bufs := (bufs s)(bid := buf\<lparr>pos := ALIGN len\<rparr>), next_buf := Suc bid, buf_list := bid # buf_list s,
            vec := (vec s)[merged_size s := \<lparr>iov_base = In_buf bid 0, iov_len = len\<rparr>],
            merged_size := merged_size s + 1, merged_bytes := bytes s, vec_size := merged_size s + 1\<rparr>)))"

text \<open>Room for one more piece, or the mark that the vector has overflowed.\<close>

definition make_room :: "EncodeStream \<Rightarrow> (bool \<times> EncodeStream) cxx" where
  "make_room s = (if vec_size s \<ge> max_size s then
       if merged_size s + 1 < max_size s then cbind (merge s) (\<lambda>s. Ok (True, s))
       else Ok (False, s\<lparr>vec_size := max_size s + 1\<rparr>)
     else Ok (True, s))"

definition add_piece :: "iov_base \<Rightarrow> nat \<Rightarrow> EncodeStream \<Rightarrow> EncodeStream" where
  "add_piece base len s = s\<lparr>vec := (vec s)[vec_size s := \<lparr>iov_base = base, iov_len = len\<rparr>], vec_size := vec_size s + 1,
     bytes := bytes s + len\<rparr>"

definition append_nocopy :: "string \<Rightarrow> EncodeStream \<Rightarrow> EncodeStream cxx" where
  "append_nocopy str s = cbind (make_room s) (\<lambda>(room, s). Ok (if room then add_piece (Caller str) (length str) s else s))"

text \<open>The last buffer of the list is the one that is filled; a full one goes to the front.\<close>

definition buffer_for :: "nat \<Rightarrow> EncodeStream \<Rightarrow> nat \<times> EncodeStream" where
  "buffer_for len s =
     (if buf_list s = [] \<or> pos (bufs s (last (buf_list s))) + len > ENCODE_BUF_SIZE then
        (next_buf s, s\<lparr>bufs := (bufs s)(next_buf s := new_buf len), next_buf := Suc (next_buf s), buf_list := buf_list s @ [next_buf s]\<rparr>)
      else (last (buf_list s), s))"

definition append_copy :: "string \<Rightarrow> EncodeStream \<Rightarrow> EncodeStream cxx" where
  "append_copy str s = cbind (make_room s) (\<lambda>(room, s).
     if \<not> room then Ok s
     else
       let len = length str; (bid, s) = buffer_for len s
       in cbind (memcpy (pos (bufs s bid)) (map Some str) (bufs s bid)) (\<lambda>buf.
            let s = add_piece (In_buf bid (pos buf)) len s;
                buf = buf\<lparr>pos := pos buf + ALIGN len\<rparr>;
                s = s\<lparr>bufs := (bufs s)(bid := buf)\<rparr>
            in Ok (if pos buf \<ge> ENCODE_BUF_SIZE then s\<lparr>buf_list := bid # remove1 bid (buf_list s)\<rparr> else s)))"

datatype piece = Nocopy string | Copy string

fun append_piece :: "piece \<Rightarrow> EncodeStream \<Rightarrow> EncodeStream cxx" where
  "append_piece (Nocopy s) = append_nocopy s"
| "append_piece (Copy s) = append_copy s"

fun append_all :: "piece list \<Rightarrow> EncodeStream \<Rightarrow> EncodeStream cxx" where
  "append_all [] s = Ok s"
| "append_all (p # ps) s = cbind (append_piece p s) (append_all ps)"

fun piece_text :: "piece \<Rightarrow> string" where
  "piece_text (Nocopy s) = s"
| "piece_text (Copy s) = s"

text \<open>What the caller sends: the bytes of the pieces, in order.\<close>

definition sent :: "EncodeStream \<Rightarrow> char option list" where
  "sent s = concat (map (read_iov (bufs s)) (take (vec_size s) (vec s)))"

section \<open>Invariant\<close>

text \<open>A piece lies in the written part of its buffer.\<close>

definition piece_ok :: "(nat \<Rightarrow> EncodeBuf) \<Rightarrow> nat \<Rightarrow> iovec \<Rightarrow> bool" where
  "piece_ok bs n v \<longleftrightarrow> (case iov_base v of Caller s \<Rightarrow> length s = iov_len v | In_buf b off \<Rightarrow> b < n \<and> off + iov_len v \<le> pos (bs b))"

text \<open>After \<open>k\<close> pieces \<open>m\<close> vectors are merged ones and \<open>z\<close> are used.\<close>

definition pieces_at :: "nat \<Rightarrow> nat \<Rightarrow> nat \<Rightarrow> nat" where
  "pieces_at mx m z = (\<Sum>i<m. mx - i) + (z - m)"

text \<open>What holds while the vector has not overflowed.\<close>

definition holds :: "nat \<Rightarrow> string \<Rightarrow> EncodeStream \<Rightarrow> bool" where
  "holds k str s \<longleftrightarrow> vec_size s \<le> max_size s \<and> merged_size s \<le> vec_size s \<and> merged_size s \<le> max_size s - 1 \<and>
     k = pieces_at (max_size s) (merged_size s) (vec_size s) \<and> sent s = map Some str \<and> bytes s = length str \<and>
     merged_bytes s = length (concat (map (read_iov (bufs s)) (take (merged_size s) (vec s)))) \<and>
     (\<forall>v \<in> set (take (vec_size s) (vec s)). piece_ok (bufs s) (next_buf s) v)"

definition lists_ok :: "EncodeStream \<Rightarrow> bool" where
  "lists_ok s \<longleftrightarrow> length (vec s) = max_size s \<and> distinct (buf_list s) \<and>
     (\<forall>b \<in> set (buf_list s). b < next_buf s \<and> ENCODE_BUF_SIZE \<le> capacity (bufs s b))"

definition overflowed :: "nat \<Rightarrow> EncodeStream \<Rightarrow> bool" where
  "overflowed k s \<longleftrightarrow> vec_size s = max_size s + 1 \<and> max_size s * (max_size s + 1) div 2 < k \<and> max_size s \<le> merged_size s + 1"

definition stream_inv :: "nat \<Rightarrow> string \<Rightarrow> EncodeStream \<Rightarrow> bool" where
  "stream_inv k str s \<longleftrightarrow> lists_ok s \<and> (holds k str s \<or> overflowed k s)"

lemma ALIGN_le: "x \<le> ALIGN x"
  unfolding ALIGN_def by presburger

lemma length_read_iov: "piece_ok bs n v \<Longrightarrow> length (read_iov bs v) = iov_len v"
  by (auto simp: read_iov_def piece_ok_def split: iov_base.splits)

definition extends :: "nat \<Rightarrow> (nat \<Rightarrow> EncodeBuf) \<Rightarrow> (nat \<Rightarrow> EncodeBuf) \<Rightarrow> bool" where
  "extends n bs bs' \<longleftrightarrow> (\<forall>b<n. pos (bs b) \<le> pos (bs' b) \<and> (\<forall>i<pos (bs b). data (bs' b) i = data (bs b) i))"

lemma read_extends: "extends n bs bs' \<Longrightarrow> piece_ok bs n v \<Longrightarrow> read_iov bs' v = read_iov bs v"
  by (auto simp: extends_def read_iov_def piece_ok_def split: iov_base.splits)

lemma piece_extends: "extends n bs bs' \<Longrightarrow> piece_ok bs n v \<Longrightarrow> n \<le> n' \<Longrightarrow> piece_ok bs' n' v"
  by (fastforce simp: extends_def piece_ok_def split: iov_base.splits)

lemma reads_extend:
  "extends n bs bs' \<Longrightarrow> \<forall>v \<in> set vs. piece_ok bs n v \<Longrightarrow> concat (map (read_iov bs') vs) = concat (map (read_iov bs) vs)"
  by (intro arg_cong [of _ _ concat] map_cong refl read_extends) auto

lemma length_reads: "\<forall>v \<in> set vs. piece_ok bs n v \<Longrightarrow> length (concat (map (read_iov bs) vs)) = sum_list (map iov_len vs)"
  by (induction vs) (auto simp: length_read_iov)

lemma copy_pieces_ok:
  "\<lbrakk>\<forall>v \<in> set vs. piece_ok bs n v; p + sum_list (map iov_len vs) \<le> capacity b\<rbrakk> \<Longrightarrow>
   \<exists>b'. copy_pieces bs vs p b = Ok b' \<and> capacity b' = capacity b \<and> (\<forall>i<p. data b' i = data b i) \<and>
     map (data b') [p..<p + sum_list (map iov_len vs)] = concat (map (read_iov bs) vs)"
proof (induction vs arbitrary: p b)
  case (Cons v vs)
  let ?b = "b\<lparr>data := (\<lambda>i. if p \<le> i \<and> i < p + iov_len v then read_iov bs v ! (i - p) else data b i)\<rparr>"
  have l: "length (read_iov bs v) = iov_len v" using Cons.prems(1) length_read_iov [of bs n v] by simp
  then have m: "memcpy p (read_iov bs v) b = Ok ?b" using Cons.prems(2) by (simp add: memcpy_def)
  from Cons.IH [of "p + iov_len v" ?b] Cons.prems obtain b' where b': "copy_pieces bs vs (p + iov_len v) ?b = Ok b'"
    "capacity b' = capacity b" "\<forall>i<p + iov_len v. data b' i = data ?b i"
    "map (data b') [p + iov_len v..<p + iov_len v + sum_list (map iov_len vs)] = concat (map (read_iov bs) vs)" by auto
  have "map (data b') [p..<p + iov_len v] = read_iov bs v" using b'(3) l by (intro nth_equalityI) auto
  moreover have "[p..<p + (iov_len v + sum_list (map iov_len vs))] =
      [p..<p + iov_len v] @ [p + iov_len v..<p + iov_len v + sum_list (map iov_len vs)]"
    by (metis add.assoc le_add1 upt_add_eq_append)
  ultimately show ?case using m b' by simp
qed simp

section \<open>Counting\<close>

lemma pieces_at_sum: "(m::nat) \<le> mx \<Longrightarrow> 2 * (\<Sum>i<m. mx - i) + m * m = m * (2 * mx + 1)"
proof (induction m)
  case (Suc m)
  then obtain d where d: "mx = m + Suc d" using less_iff_Suc_add [of m mx] by auto
  then have "2 * (\<Sum>i<m. mx - i) + m * m = m * (2 * mx + 1)" using Suc by simp
  then show ?case using d by (simp add: algebra_simps)
qed simp

lemma pieces_at_full:
  assumes "m + 1 = mx"
  shows "pieces_at mx m mx = mx * (mx + 1) div 2"
proof -
  have "2 * (\<Sum>i<m. mx - i) + m * m = m * (2 * mx + 1)" using assms by (intro pieces_at_sum) simp
  then have "2 * pieces_at mx m mx = mx * (mx + 1)" using assms unfolding pieces_at_def by (auto simp: algebra_simps)
  then show ?thesis by simp
qed

lemma pieces_at_le:
  assumes "m \<le> z" and "z \<le> mx"
  shows "pieces_at mx m z \<le> mx * (mx + 1) div 2"
proof -
  obtain d where d: "mx = m + d" using assms le_Suc_ex by (metis le_trans)
  have "2 * (\<Sum>i<m. mx - i) + m * m = m * (2 * mx + 1)" using assms by (intro pieces_at_sum) simp
  moreover have "2 * (z - m) \<le> d * (d + 1)" using assms d by (cases d) (auto simp: algebra_simps)
  ultimately have "2 * pieces_at mx m z \<le> mx * (mx + 1)" using d unfolding pieces_at_def by (auto simp: algebra_simps)
  then show ?thesis by linarith
qed

section \<open>Steps\<close>

lemma merge_ok:
  assumes "lists_ok s" and "holds k str s" and "vec_size s = max_size s" and "merged_size s + 1 < max_size s"
  shows "\<exists>s'. merge s = Ok s' \<and> lists_ok s' \<and> holds k str s' \<and> max_size s' = max_size s \<and> vec_size s' < max_size s"
proof -
  let ?m = "merged_size s" and ?bs = "bufs s" and ?n = "next_buf s" and ?vs = "drop (merged_size s) (vec s)"
  let ?len = "bytes s - merged_bytes s"
  have vec: "take (vec_size s) (vec s) = vec s" using assms(1,3) by (simp add: lists_ok_def)
  have ok: "\<forall>v \<in> set (vec s). piece_ok ?bs ?n v" using assms(2) vec by (simp add: holds_def)
  have split: "sent s = concat (map (read_iov ?bs) (take ?m (vec s))) @ concat (map (read_iov ?bs) ?vs)"
    unfolding sent_def vec by (simp flip: concat_append map_append)
  have len: "?len = sum_list (map iov_len ?vs)"
  proof -
    have "length (concat (map (read_iov ?bs) ?vs)) = sum_list (map iov_len ?vs)"
      by (rule length_reads) (use ok in_set_dropD in fastforce)
    then show ?thesis using assms(2) arg_cong [OF split, of length] by (simp add: holds_def)
  qed
  have "0 + sum_list (map iov_len ?vs) \<le> capacity (new_buf ?len)"
    using ALIGN_le [of ?len] unfolding len [symmetric] by (simp add: new_buf_def)
  from copy_pieces_ok [OF _ this, of ?bs ?n] ok obtain b' where b': "copy_pieces ?bs ?vs 0 (new_buf ?len) = Ok b'"
    "capacity b' = capacity (new_buf ?len)" "map (data b') [0..<?len] = concat (map (read_iov ?bs) ?vs)"
    using len by (auto dest: in_set_dropD)
  define bs' where "bs' = ?bs(?n := b'\<lparr>pos := ALIGN ?len\<rparr>)"
  define v where "v = \<lparr>iov_base = In_buf ?n 0, iov_len = ?len\<rparr>"
  define s' where "s' = s\<lparr>bufs := bs', next_buf := Suc ?n, buf_list := ?n # buf_list s, vec := (vec s)[?m := v],
    merged_size := ?m + 1, merged_bytes := bytes s, vec_size := ?m + 1\<rparr>"
  have m: "merge s = Ok s'" using b'(1) vec assms(3) by (simp add: merge_def s'_def bs'_def v_def Let_def)
  have ext: "extends ?n ?bs bs'" by (simp add: extends_def bs'_def)
  have take: "take (Suc ?m) ((vec s)[?m := v]) = take ?m (vec s) @ [v]"
    using assms(1,4) by (simp add: lists_ok_def take_Suc_conv_app_nth)
  have v: "read_iov bs' v = concat (map (read_iov ?bs) ?vs)" "piece_ok bs' (Suc ?n) v"
    using b'(3) ALIGN_le [of ?len] by (simp_all add: v_def read_iov_def bs'_def piece_ok_def)
  have reads: "concat (map (read_iov bs') (take ?m (vec s))) = concat (map (read_iov ?bs) (take ?m (vec s)))"
    by (rule reads_extend [OF ext]) (use ok in_set_takeD in fastforce)
  have sent: "sent s' = sent s" unfolding sent_def [of s'] split by (simp add: s'_def take reads v)
  have "lists_ok s'" using assms(1) b'(2) by (auto simp: lists_ok_def s'_def bs'_def new_buf_def ENCODE_BUF_SIZE_def ALIGN_def)
  moreover have "piece_ok bs' (Suc ?n) u" if "u \<in> set (take ?m (vec s))" for u
    using piece_extends [OF ext] ok that by (auto dest: in_set_takeD)
  then have "holds k str s'"
    using assms sent v arg_cong [OF sent, of length] unfolding holds_def sent_def [of s']
    by (auto simp: s'_def take pieces_at_def)
  ultimately show ?thesis using m assms(4) by (simp add: s'_def)
qed

lemma make_room_ok:
  assumes "lists_ok s" and "holds k str s"
  shows "(\<exists>s'. make_room s = Ok (True, s') \<and> lists_ok s' \<and> holds k str s' \<and> max_size s' = max_size s \<and> vec_size s' < max_size s) \<or>
    (make_room s = Ok (False, s\<lparr>vec_size := max_size s + 1\<rparr>) \<and> k = max_size s * (max_size s + 1) div 2 \<and> max_size s \<le> merged_size s + 1)"
proof (cases "vec_size s < max_size s")
  case True
  then show ?thesis using assms by (simp add: make_room_def)
next
  case False
  then have full: "vec_size s = max_size s" using assms(2) by (simp add: holds_def)
  show ?thesis
  proof (cases "merged_size s + 1 < max_size s")
    case True
    with merge_ok [OF assms full True] full show ?thesis by (auto simp: make_room_def)
  next
    case False
    have "k = max_size s * (max_size s + 1) div 2"
    proof (cases "max_size s = 0")
      case True
      then show ?thesis using assms(2) full by (simp add: holds_def pieces_at_def)
    next
      case z: False
      then have "merged_size s + 1 = max_size s" using False assms(2) unfolding holds_def by linarith
      from pieces_at_full [OF this] show ?thesis using assms(2) full by (simp add: holds_def)
    qed
    then show ?thesis using False full by (simp add: make_room_def)
  qed
qed

lemma add_piece_ok:
  assumes "length (vec s) = max_size s" and "holds k str s" and "vec_size s < max_size s"
    and "extends (next_buf s) (bufs s) bs'" and "next_buf s \<le> n'"
    and "read_iov bs' \<lparr>iov_base = base, iov_len = length t\<rparr> = map Some t" and "piece_ok bs' n' \<lparr>iov_base = base, iov_len = length t\<rparr>"
    and "s' = (add_piece base (length t) s)\<lparr>bufs := bs', next_buf := n', buf_list := l\<rparr>"
  shows "holds (Suc k) (str @ t) s'"
proof -
  let ?z = "vec_size s" and ?v = "\<lparr>iov_base = base, iov_len = length t\<rparr>"
  have ok: "\<forall>v \<in> set (take ?z (vec s)). piece_ok (bufs s) (next_buf s) v" using assms(2) by (simp add: holds_def)
  have mz: "merged_size s \<le> ?z" using assms(2) by (simp add: holds_def)
  have take: "take (Suc ?z) ((vec s)[?z := ?v]) = take ?z (vec s) @ [?v]" using assms(1,3) by (simp add: take_Suc_conv_app_nth)
  have "\<forall>v \<in> set (take (merged_size s) (vec s)). piece_ok (bufs s) (next_buf s) v"
    using ok set_take_subset_set_take [OF mz, of "vec s"] by auto
  from reads_extend [OF assms(4) this] reads_extend [OF assms(4) ok]
  have reads: "concat (map (read_iov bs') (take (merged_size s) (vec s))) = concat (map (read_iov (bufs s)) (take (merged_size s) (vec s)))"
    "concat (map (read_iov bs') (take ?z (vec s))) = concat (map (read_iov (bufs s)) (take ?z (vec s)))" by blast+
  have "piece_ok bs' n' u" if "u \<in> set (take ?z (vec s))" for u using piece_extends [OF assms(4) _ assms(5)] ok that by blast
  moreover have "sent s' = sent s @ map Some t" unfolding sent_def assms(8) by (simp add: add_piece_def take reads assms(6))
  ultimately show ?thesis
    using assms(2,3,7) mz unfolding holds_def assms(8) by (auto simp: add_piece_def take reads pieces_at_def)
qed

lemma append_room:
  assumes "stream_inv k str s"
  shows "(\<exists>s'. make_room s = Ok (True, s') \<and> lists_ok s' \<and> holds k str s' \<and> max_size s' = max_size s \<and> vec_size s' < max_size s) \<or>
    (\<exists>s'. make_room s = Ok (False, s') \<and> lists_ok s' \<and> overflowed (Suc k) s' \<and> max_size s' = max_size s)"
proof (cases "overflowed k s")
  case True
  let ?s = "s\<lparr>vec_size := max_size s + 1\<rparr>"
  have "make_room s = Ok (False, ?s)" using True by (simp add: make_room_def overflowed_def)
  moreover have "lists_ok ?s" "overflowed (Suc k) ?s" using True assms by (auto simp: overflowed_def stream_inv_def lists_ok_def)
  ultimately show ?thesis by (intro disjI2 exI [of _ ?s]) simp
next
  case False
  then have s: "lists_ok s" "holds k str s" using assms by (simp_all add: stream_inv_def)
  let ?s = "s\<lparr>vec_size := max_size s + 1\<rparr>"
  from make_room_ok [OF s] show ?thesis
  proof
    assume a: "make_room s = Ok (False, ?s) \<and> k = max_size s * (max_size s + 1) div 2 \<and> max_size s \<le> merged_size s + 1"
    then have "lists_ok ?s" "overflowed (Suc k) ?s" using s(1) by (auto simp: overflowed_def lists_ok_def)
    then show ?thesis using a by (intro disjI2 exI [of _ ?s]) simp
  qed blast
qed

lemma append_nocopy_ok:
  assumes "stream_inv k str s"
  shows "\<exists>s'. append_nocopy t s = Ok s' \<and> stream_inv (Suc k) (str @ t) s' \<and> max_size s' = max_size s"
  using append_room [OF assms]
proof (elim disjE exE conjE)
  fix u
  assume u: "make_room s = Ok (True, u)" "lists_ok u" "holds k str u" "max_size u = max_size s" "vec_size u < max_size s"
  have same: "add_piece b n u = (add_piece b n u)\<lparr>bufs := bufs u, next_buf := next_buf u, buf_list := buf_list u\<rparr>" for b n
    by (cases u) (simp add: add_piece_def)
  have "holds (Suc k) (str @ t) (add_piece (Caller t) (length t) u)"
    by (rule add_piece_ok [where s = u and bs' = "bufs u" and n' = "next_buf u" and base = "Caller t" and l = "buf_list u"])
      (use u same in \<open>auto simp: lists_ok_def extends_def read_iov_def piece_ok_def map_nth\<close>)
  then show ?thesis using u by (auto simp: append_nocopy_def stream_inv_def lists_ok_def add_piece_def)
qed (auto simp: append_nocopy_def stream_inv_def)

lemma buffer_for_ok:
  assumes "lists_ok s" and "buffer_for len s = (bid, u)"
  shows "lists_ok u \<and> bid \<in> set (buf_list u) \<and> bid < next_buf u \<and> next_buf s \<le> next_buf u \<and> extends (next_buf s) (bufs s) (bufs u) \<and>
    pos (bufs u bid) + len \<le> capacity (bufs u bid) \<and>
    u = s\<lparr>bufs := bufs u, next_buf := next_buf u, buf_list := buf_list u\<rparr>"
proof (cases "buf_list s = [] \<or> pos (bufs s (last (buf_list s))) + len > ENCODE_BUF_SIZE")
  case True
  have "len \<le> capacity (new_buf len)" "ENCODE_BUF_SIZE \<le> capacity (new_buf len)"
    using ALIGN_le [of len] by (auto simp: new_buf_def)
  moreover have "pos (new_buf len) = 0" by (simp add: new_buf_def)
  ultimately show ?thesis using True assms by (auto simp: buffer_for_def lists_ok_def extends_def less_SucI)
next
  case False
  then show ?thesis using assms by (fastforce simp: buffer_for_def lists_ok_def extends_def dest: last_in_set)
qed

lemma append_copy_ok:
  assumes "stream_inv k str s"
  shows "\<exists>s'. append_copy t s = Ok s' \<and> stream_inv (Suc k) (str @ t) s' \<and> max_size s' = max_size s"
  using append_room [OF assms]
proof (elim disjE exE conjE)
  fix u
  assume u: "make_room s = Ok (True, u)" "lists_ok u" "holds k str u" "max_size u = max_size s" "vec_size u < max_size s"
  obtain bid w where w: "buffer_for (length t) u = (bid, w)" by fastforce
  from buffer_for_ok [OF u(2) w] have w': "lists_ok w" "bid \<in> set (buf_list w)" "bid < next_buf w" "next_buf u \<le> next_buf w"
    "extends (next_buf u) (bufs u) (bufs w)" "pos (bufs w bid) + length t \<le> capacity (bufs w bid)"
    "w = u\<lparr>bufs := bufs w, next_buf := next_buf w, buf_list := buf_list w\<rparr>" by blast+
  let ?p = "pos (bufs w bid)"
  define b' where "b' = (bufs w bid)\<lparr>data := (\<lambda>i. if ?p \<le> i \<and> i < ?p + length t then map Some t ! (i - ?p) else data (bufs w bid) i)\<rparr>"
  define bs' where "bs' = (bufs w)(bid := b'\<lparr>pos := ?p + ALIGN (length t)\<rparr>)"
  define l where "l = (if ?p + ALIGN (length t) \<ge> ENCODE_BUF_SIZE then bid # remove1 bid (buf_list w) else buf_list w)"
  define s' where "s' = (add_piece (In_buf bid ?p) (length t) u)\<lparr>bufs := bs', next_buf := next_buf w, buf_list := l\<rparr>"
  have "memcpy ?p (map Some t) (bufs w bid) = Ok b'" using w'(6) by (simp add: memcpy_def b'_def)
  moreover have "add_piece (In_buf bid ?p) (length t) w =
      (add_piece (In_buf bid ?p) (length t) u)\<lparr>bufs := bufs w, next_buf := next_buf w, buf_list := buf_list w\<rparr>"
    by (subst w'(7)) (auto simp: add_piece_def intro!: EncodeStream.equality)
  ultimately have a: "append_copy t s = Ok s'"
    using u(1) w by (auto simp: append_copy_def s'_def bs'_def b'_def l_def Let_def intro!: EncodeStream.equality)
  have "extends (next_buf u) (bufs u) bs'"
    using w'(5) by (auto simp: extends_def bs'_def b'_def)
  moreover have "read_iov bs' \<lparr>iov_base = In_buf bid ?p, iov_len = length t\<rparr> = map Some t"
    by (intro nth_equalityI) (auto simp: read_iov_def bs'_def b'_def)
  moreover have "piece_ok bs' (next_buf w) \<lparr>iov_base = In_buf bid ?p, iov_len = length t\<rparr>"
    using w'(3) ALIGN_le [of "length t"] by (simp add: piece_ok_def bs'_def)
  ultimately have "holds (Suc k) (str @ t) s'"
    by (intro add_piece_ok [OF _ u(3) _ _ w'(4), of bs' "In_buf bid ?p" t s' l]) (use u(2,4,5) in \<open>simp_all add: lists_ok_def s'_def\<close>)
  moreover have "lists_ok s'"
    using w'(1,2) u(2) by (auto simp: lists_ok_def s'_def add_piece_def bs'_def b'_def l_def dest: set_remove1_subset [THEN subsetD])
  ultimately show ?thesis using a u(4) by (auto simp: stream_inv_def s'_def add_piece_def)
qed (auto simp: append_copy_def stream_inv_def)

lemma append_all_ok:
  "stream_inv k str s \<Longrightarrow> \<exists>s'. append_all ps s = Ok s' \<and> stream_inv (k + length ps) (str @ concat (map piece_text ps)) s' \<and> max_size s' = max_size s"
proof (induction ps arbitrary: k str s)
  case (Cons p ps)
  have "\<exists>s'. append_piece p s = Ok s' \<and> stream_inv (Suc k) (str @ piece_text p) s' \<and> max_size s' = max_size s"
    using append_nocopy_ok [OF Cons.prems] append_copy_ok [OF Cons.prems] by (cases p) simp_all
  then obtain u where u: "append_piece p s = Ok u" "stream_inv (Suc k) (str @ piece_text p) u" "max_size u = max_size s" by blast
  from Cons.IH [OF u(2)] u show ?case by auto
qed simp

lemma append_all_exact:
  "\<exists>s'. append_all ps (reset vectors s) = Ok s' \<and>
    (if 2 * length ps > length vectors * (length vectors + 1) then vec_size s' = length vectors + 1
     else vec_size s' \<le> length vectors \<and> sent s' = map Some (concat (map piece_text ps)) \<and> bytes s' = length (concat (map piece_text ps)))"
proof -
  have "stream_inv 0 [] (reset vectors s)"
    by (simp add: stream_inv_def holds_def lists_ok_def reset_def pieces_at_def sent_def)
  from append_all_ok [OF this, of ps] obtain s' where s': "append_all ps (reset vectors s) = Ok s'"
    "stream_inv (length ps) (concat (map piece_text ps)) s'" "max_size s' = length vectors" by (auto simp: reset_def)
  show ?thesis
  proof (cases "overflowed (length ps) s'")
    case True
    then show ?thesis using s' by (auto simp: overflowed_def)
  next
    case False
    then have h: "holds (length ps) (concat (map piece_text ps)) s'" using s'(2) by (simp add: stream_inv_def)
    then have "length ps \<le> length vectors * (length vectors + 1) div 2"
      using pieces_at_le [of "merged_size s'" "vec_size s'" "max_size s'"] s'(3) by (simp add: holds_def)
    then show ?thesis using h s' by (auto simp: holds_def)
  qed
qed

text \<open>C33: 
  C0: However pieces are appended to an encoding stream, copied or not, in whatever order and however often the vector
  is merged: all writes stay in their buffers, and the vector either holds exactly the bytes of the pieces, in order, or
  is marked as overflowed; it overflows exactly when there are more than \<open>n (n + 1) / 2\<close> pieces for \<open>n\<close> entries.
\<close>

theorem encode_stream_exact:
  "\<exists>s'. append_all ps (reset vectors s) = Ok s' \<and>
    (if 2 * length ps > length vectors * (length vectors + 1) then vec_size s' = length vectors + 1
     else vec_size s' \<le> length vectors \<and> sent s' = map Some (concat (map piece_text ps)) \<and> bytes s' = length (concat (map piece_text ps)))"
  by (rule append_all_exact)

end
