(* ===== verification/Redis_Wire.thy ===== *)
theory Redis_Wire
  imports Redis_Parser Encode_Stream
begin

text \<open>
  What \<open>RedisMessage::encode_reply\<close> (\<open>workflow/src/protocol/RedisMessage.cc\<close>) writes for a reply, as the pieces it
  gives to the stream, and that the parser reads it back.
\<close>

section \<open>Encoding\<close>

abbreviation CRLF :: string where
  "CRLF \<equiv> [CR, LF]"

text \<open>A reply that is encoded has been built by the program or parsed to its end: its strings are there.\<close>

fun text_of :: "rstr \<Rightarrow> string" where
  "text_of (Text t) = t"
| "text_of (Offset a l) = []"

fun encode_reply :: "redis_reply \<Rightarrow> piece list" where
  "encode_reply (STATUS t) = [Nocopy ''+'', Nocopy (text_of t), Nocopy CRLF]"
| "encode_reply (ERROR t) = [Nocopy ''-'', Nocopy (text_of t), Nocopy CRLF]"
| "encode_reply NIL = [Nocopy (''$-1'' @ CRLF)]"
| "encode_reply (INTEGER i) = [Nocopy '':'', Copy (dec_int i), Nocopy CRLF]"
| "encode_reply (STRING t) = [Nocopy ''$'', Copy (dec_nat (length (text_of t))), Nocopy CRLF, Nocopy (text_of t), Nocopy CRLF]"
| "encode_reply (ARRAY rs) = [Nocopy ''*'', Copy (dec_nat (length rs)), Nocopy CRLF] @ concat (map encode_reply rs)"

definition wire :: "redis_reply \<Rightarrow> string" where
  "wire r = concat (map piece_text (encode_reply r))"

lemma concat_pieces: "concat (map f (concat pss)) = concat (map (\<lambda>ps. concat (map f ps)) pss)"
  by (induction pss) simp_all

lemma wire_simps [simp]:
  "wire (STATUS t) = CHR ''+'' # text_of t @ CRLF" "wire (ERROR t) = CHR ''-'' # text_of t @ CRLF"
  "wire NIL = ''$-1'' @ CRLF" "wire (INTEGER i) = CHR '':'' # dec_int i @ CRLF"
  "wire (STRING t) = CHR ''$'' # dec_nat (length (text_of t)) @ CRLF @ text_of t @ CRLF"
  "wire (ARRAY rs) = CHR ''*'' # dec_nat (length rs) @ CRLF @ concat (map wire rs)"
  by (simp_all add: wire_def [abs_def] concat_pieces comp_def)

text \<open>Replies the protocol can carry.\<close>

fun reply_ok :: "redis_reply \<Rightarrow> bool" where
  "reply_ok NIL = True"
| "reply_ok (INTEGER i) = (- (2 ^ 63) \<le> i \<and> i < 2 ^ 63)"
| "reply_ok (STATUS t) = (\<exists>s. t = Text s \<and> CR \<notin> set s)"
| "reply_ok (ERROR t) = (\<exists>s. t = Text s \<and> CR \<notin> set s)"
| "reply_ok (STRING t) = (\<exists>s. t = Text s \<and> length s < 2 ^ 31)"
| "reply_ok (ARRAY rs) = (int (length rs) \<le> REDIS_ARRAY_SIZE_LIMIT \<and> list_all reply_ok rs)"

fun nodes :: "redis_reply \<Rightarrow> nat" where
  "nodes (ARRAY rs) = Suc (sum_list (map nodes rs))"
| "nodes r = 1"

fun reply_depth :: "redis_reply \<Rightarrow> nat" where
  "reply_depth (ARRAY rs) = Suc (Max (set (0 # map reply_depth rs)))"
| "reply_depth r = 1"

text \<open>Where the strings of a reply that starts at \<open>k\<close> are.\<close>

fun placed :: "nat \<Rightarrow> redis_reply \<Rightarrow> redis_reply"
  and placed_all :: "nat \<Rightarrow> redis_reply list \<Rightarrow> redis_reply list" where
  "placed k NIL = NIL"
| "placed k (INTEGER i) = INTEGER i"
| "placed k (STATUS t) = STATUS (Offset (Suc k) (length (text_of t)))"
| "placed k (ERROR t) = ERROR (Offset (Suc k) (length (text_of t)))"
| "placed k (STRING t) = STRING (Offset
     (if text_of t = [] then Suc k else k + length (dec_nat (length (text_of t))) + 3) (length (text_of t)))"
| "placed k (ARRAY rs) = ARRAY (placed_all (k + length (dec_nat (length rs)) + 3) rs)"
| "placed_all k [] = []"
| "placed_all k (r # rs) = placed k r # placed_all (k + length (wire r)) rs"

section \<open>Numbers and lines\<close>

lemma crlf_scan_line: "CR \<notin> set line \<Longrightarrow> crlf_scan i (line @ CR # LF # post) = (i + length line, True)"
proof (induction line arbitrary: i)
  case (Cons c line)
  then show ?case by (cases line) auto
qed simp

lemma not_digit_CR: "\<not> is_digit CR" "is_space CR" "CR \<noteq> NUL" "LF \<noteq> NUL" "CR \<noteq> LF"
  by (simp_all add: CR_def LF_def is_digit_def is_space_def NUL_def)

lemma digit_not_space: "is_digit c \<Longrightarrow> \<not> is_space c \<and> c \<noteq> CHR ''-'' \<and> c \<noteq> CHR ''+'' \<and> c \<noteq> NUL \<and> c \<noteq> CR"
  by (auto simp: is_digit_def is_space_def NUL_def CR_def)

lemma dec_nat_no_CR: "CR \<notin> set (dec_nat n)"
  using dec_nat_digits [of CR n] not_digit_CR(1) by blast

lemma dec_int_no_CR: "CR \<notin> set (dec_int i)"
  using dec_nat_no_CR by (auto simp: dec_int_def CR_def)

lemma c_str_append: "NUL \<notin> set a \<Longrightarrow> c_str (a @ b) = a @ c_str b"
  by (induction a) (auto simp: c_str_def)

lemma dec_nat_no_NUL: "NUL \<notin> set (dec_nat n)"
  using dec_nat_digits [of NUL n] digit_not_space [of NUL] by blast

lemma hd_dec_nat: "is_digit (hd (dec_nat n @ s))"
  using dec_nat_digits [of "hd (dec_nat n)" n] by (cases "dec_nat n") auto

lemma dropWhile_dec_nat: "dropWhile is_space (dec_nat n @ s) = dec_nat n @ s"
  using hd_dec_nat [of n s] digit_not_space by (cases "dec_nat n") auto

lemma atoi_in_dec_nat:
  assumes "int n < 2 ^ 31"
  shows "atoi_in (dec_nat n @ CR # s) = Ok (int n)"
proof -
  have d: "dropWhile is_digit (dec_nat n @ CR # s) = CR # s"
    using dec_nat_digits not_digit_CR(1) by (subst dropWhile_append) (auto simp: dropWhile_append)
  have "strtol_prefix (c_str (dec_nat n @ CR # s)) = Some (int n, CR # c_str s)"
    using strtol_dec_nat [of "CR # c_str s" n] not_digit_CR by (simp add: c_str_append dec_nat_no_NUL) (simp add: c_str_def)
  then have a: "atoi (dec_nat n @ CR # s) = int n" using assms by (simp add: atoi_def clamp64_def cut32_def)
  obtain c u where c: "dec_nat n @ CR # s = c # u" by (cases "dec_nat n @ CR # s") auto
  then have "\<not> is_space c \<and> c \<noteq> CHR ''-'' \<and> c \<noteq> CHR ''+''" using hd_dec_nat [of n "CR # s"] digit_not_space by auto
  then have "(let t = dropWhile is_space (c # u); v = (case t of [] \<Rightarrow> [] | c # u \<Rightarrow> if c = CHR ''-'' \<or> c = CHR ''+'' then u else t)
      in if dropWhile is_digit v = [] then Undefined else Ok (atoi (c # u))) =
    (if dropWhile is_digit (c # u) = [] then Undefined else Ok (atoi (c # u)))"
    by (simp del: dropWhile_eq_Nil_conv)
  then show ?thesis using d a unfolding atoi_in_def c by (simp del: dropWhile_eq_Nil_conv)
qed

lemma atoi_in_minus: "atoi_in (CHR ''-'' # CHR ''1'' # CR # s) = Ok (-1)"
proof -
  have "c_str (CHR ''-'' # CHR ''1'' # CR # s) = CHR ''-'' # CHR ''1'' # CR # c_str s"
    by (simp add: c_str_def NUL_def CR_def)
  then have "strtol_prefix (c_str (CHR ''-'' # CHR ''1'' # CR # s)) = Some (-1, CR # c_str s)"
    by (simp add: strtol_prefix_def is_space_def is_digit_def CR_def digits_val_def digit_val_def)
  then have "atoi (CHR ''-'' # CHR ''1'' # CR # s) = -1" by (simp add: atoi_def clamp64_def cut32_def)
  then show ?thesis by (simp add: atoi_in_def is_space_def is_digit_def CR_def del: dropWhile_eq_Nil_conv)
qed

lemma strtol_signed: "strtol_prefix (dec_int i) = Some (i, [])"
proof (cases "i < 0")
  case True
  have "takeWhile is_digit (dec_nat m) = dec_nat m" for m using dec_nat_digits by (simp add: takeWhile_eq_all_conv)
  moreover have "dropWhile is_digit (dec_nat m) = []" for m using dec_nat_digits by simp
  ultimately have "strtol_prefix (CHR ''-'' # dec_nat m) = Some (- int m, [])" for m
    unfolding strtol_prefix_def by (simp add: is_space_def Let_def del: dropWhile_eq_Nil_conv takeWhile_eq_all_conv)
  then show ?thesis using True by (simp add: dec_int_def)
next
  case False
  then show ?thesis using strtol_dec_nat [of "[]" "nat i"] by (simp add: dec_int_def)
qed

lemma atoll_dec_int:
  assumes "- (2 ^ 63) \<le> i" and "i < 2 ^ 63"
  shows "atoll (dec_int i) = i" and "dec_int i \<noteq> []" and "length (dec_int i) \<le> 30"
proof -
  have "NUL \<notin> set (dec_int i)" using dec_nat_no_NUL by (auto simp: dec_int_def NUL_def)
  then show "atoll (dec_int i) = i" using assms by (simp add: atoll_def c_str_id strtol_signed clamp64_def)
  show "dec_int i \<noteq> []" by (simp add: dec_int_def)
  have "nat (abs i) < 10 ^ Suc 19" using assms by simp
  from length_dec_nat [OF this] show "length (dec_int i) \<le> 30" by (auto simp: dec_int_def)
qed

section \<open>Runs of the parser\<close>

text \<open>A number is only read when its line does not start with a blank: then nothing outside of the line is looked at.\<close>

definition line_safe :: "redis_parser \<Rightarrow> bool" where
  "line_safe p \<longleftrightarrow> (status p = REDIS_UNTIL_CRLF \<longrightarrow> msgidx p \<le> findidx p \<and>
     (cmd p \<in> set ''$*'' \<longrightarrow> msgidx p < length (msgbuf p) \<longrightarrow> \<not> is_space (msgbuf p ! msgidx p))) \<and>
     (status p = REDIS_GET_NCHAR \<longrightarrow> 0 < nchar p)"

inductive goes :: "(nat \<Rightarrow> bool) \<Rightarrow> redis_parser \<Rightarrow> nat \<Rightarrow> redis_parser \<Rightarrow> bool" for mem where
  none: "goes mem p 0 p"
| step: "\<lbrakk>line_safe p; status p \<noteq> REDIS_PARSE_END; parser_turn mem p = Ok (ret, p1); ret = 0 \<or> ret = 1; goes mem p1 k p2\<rbrakk> \<Longrightarrow>
    goes mem p (Suc k) p2"

lemma goes_trans: "goes mem p k q \<Longrightarrow> goes mem q j r \<Longrightarrow> goes mem p (k + j) r"
  by (induction rule: goes.induct) (auto intro: goes.step)

lemma goes_one:
  "\<lbrakk>line_safe p; status p \<noteq> REDIS_PARSE_END; parser_turn mem p = Ok (ret, q); ret = 0 \<or> ret = 1\<rbrakk> \<Longrightarrow> goes mem p 1 q"
  using goes.step [OF _ _ _ _ goes.none] by simp

lemma next_reply_simps [simp]:
  "msgbuf (next_reply p) = msgbuf p" "msgidx (next_reply p) = msgidx p" "reply (next_reply p) = reply p"
  "nleft (next_reply p) = nleft p - 1" "bufsize (next_reply p) = bufsize p"
  "status (next_reply p) = (if nleft p > 1 then REDIS_GET_CMD else REDIS_PARSE_END)"
  "parse_succ (next_reply p) = (nleft p \<le> 1 \<or> parse_succ p)"
  "read_list (next_reply p) = tl (read_list p)" "cur (next_reply p) = (if read_list p = [] then cur p else hd (read_list p))"
  by (auto simp: next_reply_def Let_def split: list.split)

lemma set_cur_simps [simp]:
  "msgbuf (set_cur v p) = msgbuf p" "msgidx (set_cur v p) = msgidx p" "reply (set_cur v p) = reply_upd (cur p) v (reply p)"
  "nleft (set_cur v p) = nleft p" "status (set_cur v p) = status p" "read_list (set_cur v p) = read_list p" "cur (set_cur v p) = cur p"
  "parse_succ (set_cur v p) = parse_succ p" "cmd (set_cur v p) = cmd p" "findidx (set_cur v p) = findidx p" "bufsize (set_cur v p) = bufsize p"
  "nchar (set_cur v p) = nchar p"
  by (simp_all add: set_cur_def)

text \<open>The parser has read a reply, which ends at \<open>k\<close>.\<close>

definition finished :: "nat \<Rightarrow> redis_reply \<Rightarrow> redis_parser \<Rightarrow> redis_parser \<Rightarrow> bool" where
  "finished k v p q \<longleftrightarrow> msgbuf q = msgbuf p \<and> msgidx q = k \<and> reply q = reply_upd (cur p) v (reply p) \<and> nleft q = nleft p - 1 \<and>
     read_list q = tl (read_list p) \<and> (read_list p \<noteq> [] \<longrightarrow> cur q = hd (read_list p)) \<and>
     status q = (if nleft p > 1 then REDIS_GET_CMD else REDIS_PARSE_END) \<and> parse_succ q = (nleft p \<le> 1 \<or> parse_succ p)"

text \<open>The start of a line.\<close>

definition at_line :: "char \<Rightarrow> string \<Rightarrow> string \<Rightarrow> redis_parser \<Rightarrow> redis_parser \<Rightarrow> bool" where
  "at_line c line post p q \<longleftrightarrow> msgbuf q = msgbuf p \<and> msgidx q = Suc (msgidx p) \<and> findidx q = Suc (msgidx p) \<and> cmd q = c \<and>
     status q = REDIS_UNTIL_CRLF \<and> reply q = reply p \<and> nleft q = nleft p \<and> read_list q = read_list p \<and> cur q = cur p \<and>
     parse_succ q = parse_succ p \<and> drop (Suc (msgidx p)) (msgbuf p) = line @ CR # LF # post"

lemma drop_Suc_Cons: "drop n xs = x # ys \<Longrightarrow> drop (Suc n) xs = ys \<and> n < length xs \<and> xs ! n = x"
  by (metis Cons_nth_drop_Suc drop_eq_Nil linorder_not_less list.inject list.simps(3))

lemma line_started:
  assumes "status p = REDIS_GET_CMD" and "drop (msgidx p) (msgbuf p) = c # line @ CR # LF # post" and "c \<in> set ''+-:$*''"
  shows "\<exists>q. goes mem p 1 q \<and> at_line c line post p q"
proof -
  note d = drop_Suc_Cons [OF assms(2)]
  let ?q = "p\<lparr>msgidx := Suc (msgidx p), cmd := c, status := REDIS_UNTIL_CRLF, findidx := Suc (msgidx p)\<rparr>"
  have "parser_turn mem p = Ok (0, ?q)"
    using d assms by (auto simp: parser_turn_def parser_forward_def parse_cmd_def Let_def)
  then have "goes mem p 1 ?q" by (rule goes_one [rotated 2]) (use assms(1) in \<open>simp_all add: line_safe_def\<close>)
  moreover have "at_line c line post p ?q" using d by (simp add: at_line_def)
  ultimately show ?thesis by blast
qed

lemma line_read:
  assumes "at_line c line post p q" and "CR \<notin> set line" and "c \<in> set ''$*'' \<Longrightarrow> line \<noteq> [] \<and> \<not> is_space (hd line)"
    and "parse_line mem (q\<lparr>findidx := msgidx q + length line\<rparr>) = Ok (ret, r)" and "ret = 0 \<or> ret = 1"
  shows "goes mem q 1 (if ret = 1 then next_reply r else r)"
proof (rule goes_one)
  have d: "drop (msgidx q) (msgbuf q) = line @ CR # LF # post" and f: "findidx q = msgidx q"
    and s: "status q = REDIS_UNTIL_CRLF" and c: "cmd q = c"
    using assms(1) unfolding at_line_def by simp_all
  have l: "msgidx q < length (msgbuf q)"
  proof (rule ccontr)
    assume "\<not> ?thesis"
    then show False using d by simp
  qed
  have "crlf_scan (findidx q) (drop (findidx q) (msgbuf q)) = (msgidx q + length line, True)"
    unfolding f d by (rule crlf_scan_line [OF assms(2)])
  then have "parser_forward mem q = Ok (ret, r)"
    using assms(4) l s by (simp add: parser_forward_def parse_crlf_def Let_def)
  then show "parser_turn mem q = Ok (ret, if ret = 1 then next_reply r else r)" by (simp add: parser_turn_def)
  have "msgbuf q ! msgidx q = hd (line @ CR # LF # post)" using l d by (metis hd_drop_conv_nth)
  then show "line_safe q" using assms(3) c f s by (auto simp: line_safe_def)
  show "status q \<noteq> REDIS_PARSE_END" using s by simp
qed (rule assms(5))

text \<open>A reply that is one line.\<close>

lemma line_finished:
  assumes "at_line c line post p q" and "CR \<notin> set line" and "c \<in> set ''$*'' \<Longrightarrow> line \<noteq> [] \<and> \<not> is_space (hd line)"
    and "parse_line mem (q\<lparr>findidx := msgidx q + length line\<rparr>) = Ok (1, set_cur v (q\<lparr>findidx := a, msgidx := b\<rparr>))"
    and "b = msgidx p + length line + 3" 
  shows "\<exists>r. goes mem q 1 r \<and> finished (msgidx p + length line + 3) v p r"
proof -
  from line_read [OF assms(1-4)] have "goes mem q 1 (next_reply (set_cur v (q\<lparr>findidx := a, msgidx := b\<rparr>)))" by simp
  moreover have "finished (msgidx p + length line + 3) v p (next_reply (set_cur v (q\<lparr>findidx := a, msgidx := b\<rparr>)))"
    using assms(1,5) by (simp add: finished_def at_line_def)
  ultimately show ?thesis by blast
qed

definition readable :: "(nat \<Rightarrow> bool) \<Rightarrow> redis_reply \<Rightarrow> bool" where
  "readable mem v \<longleftrightarrow> (\<forall>p post. status p = REDIS_GET_CMD \<longrightarrow> drop (msgidx p) (msgbuf p) = wire v @ post \<longrightarrow> 1 \<le> nleft p \<longrightarrow>
     nleft p + int (nodes v) \<le> 2 ^ 31 \<longrightarrow> (\<exists>k q. goes mem p k q \<and> finished (msgidx p + length (wire v)) (placed (msgidx p) v) p q))"

lemma line_readable:
  assumes "wire v = c # line @ CRLF" and "c \<in> set ''+-:$*''" and "CR \<notin> set line"
    and "c \<in> set ''$*'' \<Longrightarrow> line \<noteq> [] \<and> \<not> is_space (hd line)"
    and "\<And>q k rest. cmd q = c \<Longrightarrow> msgidx q = Suc k \<Longrightarrow> drop (msgidx q) (msgbuf q) = line @ CR # rest \<Longrightarrow> findidx q = msgidx q + length line \<Longrightarrow>
      parse_line mem q = Ok (1, set_cur (placed k v) (q\<lparr>msgidx := findidx q + 2\<rparr>))"
  shows "readable mem v"
  unfolding readable_def
proof (intro allI impI)
  fix p :: redis_parser and post
  assume p: "status p = REDIS_GET_CMD" "drop (msgidx p) (msgbuf p) = wire v @ post"
  then have "drop (msgidx p) (msgbuf p) = c # line @ CR # LF # post" using assms(1) by simp
  from line_started [OF p(1) this assms(2)] obtain q where q: "goes mem p 1 q" "at_line c line post p q" by blast
  have "parse_line mem (q\<lparr>findidx := msgidx q + length line\<rparr>) =
    Ok (1, set_cur (placed (msgidx p) v) (q\<lparr>findidx := msgidx q + length line, msgidx := msgidx q + length line + 2\<rparr>))"
    by (subst assms(5) [where rest = "LF # post" and k = "msgidx p"]) (use q(2) in \<open>simp_all add: at_line_def\<close>)
  from line_finished [OF q(2) assms(3,4) this] obtain r
    where "goes mem q 1 r" "finished (msgidx p + length line + 3) (placed (msgidx p) v) p r"
    using q(2) by (auto simp: at_line_def)
  then show "\<exists>k q. goes mem p k q \<and> finished (msgidx p + length (wire v)) (placed (msgidx p) v) p q"
    using goes_trans [OF q(1)] assms(1) by (auto simp: numeral_3_eq_3)
qed

lemma status_readable: "CR \<notin> set s \<Longrightarrow> readable mem (STATUS (Text s))"
  by (rule line_readable [where c = "CHR ''+''" and line = s]) (simp_all add: parse_line_def)

lemma error_readable: "CR \<notin> set s \<Longrightarrow> readable mem (ERROR (Text s))"
  by (rule line_readable [where c = "CHR ''-''" and line = s]) (simp_all add: parse_line_def)

lemma integer_readable:
  assumes "- (2 ^ 63) \<le> i" and "i < 2 ^ 63"
  shows "readable mem (INTEGER i)"
proof (rule line_readable [where line = "dec_int i"])
  fix q :: redis_parser and k rest
  assume "cmd q = CHR '':''" "msgidx q = Suc k" "drop (msgidx q) (msgbuf q) = dec_int i @ CR # rest" "findidx q = msgidx q + length (dec_int i)"
  then show "parse_line mem q = Ok (1, set_cur (placed k (INTEGER i)) (q\<lparr>msgidx := findidx q + 2\<rparr>))"
    using atoll_dec_int [OF assms] by (simp add: parse_line_def)
qed (use dec_int_no_CR in auto)

lemma nil_readable: "readable mem NIL"
proof (rule line_readable [where line = "''-1''"])
  fix q :: redis_parser and k rest
  assume "cmd q = CHR ''$''" "msgidx q = Suc k" "drop (msgidx q) (msgbuf q) = ''-1'' @ CR # rest" "findidx q = msgidx q + length ''-1''"
  then show "parse_line mem q = Ok (1, set_cur (placed k NIL) (q\<lparr>msgidx := findidx q + 2\<rparr>))"
    using atoi_in_minus by (simp add: parse_line_def)
qed (auto simp: CR_def is_space_def)

section \<open>Strings\<close>

lemma crlf_finished:
  assumes "status q = REDIS_GET_CR" and "drop (msgidx q) (msgbuf q) = CR # LF # post" and "msgbuf q = msgbuf p"
    and "reply q = reply_upd (cur p) v (reply p)" and "nleft q = nleft p" and "read_list q = read_list p" and "parse_succ q = parse_succ p"
  shows "\<exists>r. goes mem q 2 r \<and> finished (msgidx q + 2) v p r"
proof -
  note d = drop_Suc_Cons [OF assms(2)]
  note e = drop_Suc_Cons [OF conjunct1 [OF d]]
  let ?q1 = "q\<lparr>msgidx := Suc (msgidx q), status := REDIS_GET_LF\<rparr>"
  let ?q2 = "?q1\<lparr>msgidx := Suc (Suc (msgidx q))\<rparr>"
  have "parser_turn mem q = Ok (0, ?q1)" using d assms(1) by (simp add: parser_turn_def parser_forward_def parse_cr_def)
  then have 1: "goes mem q 1 ?q1" by (rule goes_one [rotated 2]) (use assms(1) in \<open>simp_all add: line_safe_def\<close>)
  have "parser_turn mem ?q1 = Ok (1, next_reply ?q2)" using e by (simp add: parser_turn_def parser_forward_def parse_lf_def)
  then have "goes mem ?q1 1 (next_reply ?q2)" by (rule goes_one [rotated 2]) (simp_all add: line_safe_def)
  from goes_trans [OF 1 this] have "goes mem q 2 (next_reply ?q2)" by (simp add: numeral_2_eq_2)
  moreover have "finished (msgidx q + 2) v p (next_reply ?q2)" using assms by (simp add: finished_def)
  ultimately show ?thesis by blast
qed

lemma hd_dec_nat_self: "dec_nat n \<noteq> [] \<and> is_digit (hd (dec_nat n))"
  using hd_dec_nat [of n "[]"] by simp

lemma dec_nat_line: "dec_nat n \<noteq> [] \<and> \<not> is_space (hd (dec_nat n))"
  using hd_dec_nat_self digit_not_space by blast

lemma string_readable:
  assumes "length s < 2 ^ 31"
  shows "readable mem (STRING (Text s))"
  unfolding readable_def
proof (intro allI impI)
  fix p :: redis_parser and post
  let ?l = "dec_nat (length s)" and ?v = "placed (msgidx p) (STRING (Text s))"
  assume p: "status p = REDIS_GET_CMD" "drop (msgidx p) (msgbuf p) = wire (STRING (Text s)) @ post"
  then have "drop (msgidx p) (msgbuf p) = CHR ''$'' # ?l @ CR # LF # s @ CR # LF # post" by simp
  from line_started [OF p(1) this] obtain q where q: "goes mem p 1 q" "at_line (CHR ''$'') ?l (s @ CR # LF # post) p q" by auto
  let ?q = "q\<lparr>findidx := msgidx q + length ?l, msgidx := msgidx q + length ?l + 2\<rparr>"
  have d: "drop (msgidx q) (msgbuf q) = ?l @ CR # LF # s @ CR # LF # post" and c: "cmd q = CHR ''$''" using q(2) by (simp_all add: at_line_def)
  have a: "atoi_in (?l @ CR # LF # s @ CR # LF # post) = Ok (int (length s))"
    by (rule atoi_in_dec_nat) (use assms in simp)
  have d': "drop (msgidx q + length ?l + 2) (msgbuf q) = s @ CR # LF # post"
    using arg_cong [OF d, of "drop (length ?l + 2)"] by (simp add: add.commute add.left_commute)
  have hd_q: "is_digit (hd (?l @ CR # LF # s @ CR # LF # post))" by (rule hd_dec_nat)
  have "\<exists>k r. goes mem q k r \<and> status r = REDIS_GET_CR \<and> drop (msgidx r) (msgbuf r) = CR # LF # post \<and> msgbuf r = msgbuf p \<and>
     msgidx r + 2 = msgidx p + length (wire (STRING (Text s))) \<and> reply r = reply_upd (cur p) ?v (reply p) \<and> nleft r = nleft p \<and>
     read_list r = read_list p \<and> parse_succ r = parse_succ p"
  proof (cases "s = []")
    case True
    let ?r = "(set_cur ?v ?q)\<lparr>status := REDIS_GET_CR\<rparr>"
    have "parse_line mem (q\<lparr>findidx := msgidx q + length ?l\<rparr>) = Ok (0, ?r)"
      using d c a hd_q True q(2) by (simp add: parse_line_def at_line_def)
    from line_read [OF q(2) dec_nat_no_CR dec_nat_line this] have "goes mem q 1 ?r" by simp
    moreover have "drop (msgidx ?r) (msgbuf ?r) = CR # LF # post" using d' True by simp
    ultimately show ?thesis using q(2) True by (intro exI [of _ 1] exI [of _ ?r]) (simp add: at_line_def)
  next
    case False
    let ?r1 = "?q\<lparr>nchar := int (length s), status := REDIS_GET_NCHAR\<rparr>"
    let ?r = "(set_cur ?v ?r1)\<lparr>msgidx := msgidx ?q + length s, status := REDIS_GET_CR\<rparr>"
    have "parse_line mem (q\<lparr>findidx := msgidx q + length ?l\<rparr>) = Ok (0, ?r1)"
      using d c a False by (simp add: parse_line_def)
    from line_read [OF q(2) dec_nat_no_CR dec_nat_line this] have 1: "goes mem q 1 ?r1" by simp
    have l: "length (msgbuf q) - (msgidx q + length ?l + 2) = length s + 2 + length post"
      using arg_cong [OF d', of length] by simp
    have "parser_forward mem ?r1 = Ok (0, ?r)"
      using l q(2) False by (simp add: parser_forward_def parse_nchar_def at_line_def set_cur_def numeral_3_eq_3)
    then have "goes mem ?r1 1 ?r" using False by (intro goes_one [where ret = 0]) (simp_all add: line_safe_def parser_turn_def)
    with 1 have "goes mem q 2 ?r" using goes_trans by (fastforce simp: numeral_2_eq_2)
    moreover have "drop (msgidx ?r) (msgbuf ?r) = CR # LF # post"
      using arg_cong [OF d', of "drop (length s)"] by (simp add: add.commute add.left_commute)
    ultimately show ?thesis using q(2) by (intro exI [of _ 2] exI [of _ ?r]) (simp add: at_line_def)
  qed
  then obtain k r where r: "goes mem q k r" "status r = REDIS_GET_CR" "drop (msgidx r) (msgbuf r) = CR # LF # post" "msgbuf r = msgbuf p"
     "msgidx r + 2 = msgidx p + length (wire (STRING (Text s)))" "reply r = reply_upd (cur p) ?v (reply p)" "nleft r = nleft p"
     "read_list r = read_list p" "parse_succ r = parse_succ p" by blast
  from crlf_finished [OF r(2-4,6-9)] obtain u where u: "goes mem r 2 u" "finished (msgidx r + 2) ?v p u" by blast
  show "\<exists>k q. goes mem p k q \<and> finished (msgidx p + length (wire (STRING (Text s)))) ?v p q"
    using goes_trans [OF goes_trans [OF q(1) r(1)] u(1)] u(2) unfolding r(5) by blast
qed

section \<open>Arrays\<close>

lemma reply_upd_child: "reply_upd (c @ [i]) v (reply_upd c (ARRAY xs) R) = reply_upd c (ARRAY (xs[i := v])) R"
proof (induction c arbitrary: R)
  case (Cons j c)
  show ?case
  proof (cases R)
    case (ARRAY rs)
    then show ?thesis using Cons by (cases "j < length rs") (auto simp: not_less list_update_beyond)
  qed simp_all
qed simp

lemma node_pos: "1 \<le> nodes v"
  by (cases v) auto

lemma length_le_nodes: "length vs \<le> sum_list (map nodes vs)"
proof -
  have "sum_list (map (\<lambda>_. 1) vs) \<le> sum_list (map nodes vs)" using node_pos by (rule sum_list_mono)
  then show ?thesis by (simp add: sum_list_triv)
qed

lemma list_run:
  assumes "\<forall>v \<in> set (v # vs). readable mem v" and "status p = REDIS_GET_CMD"
    and "drop (msgidx p) (msgbuf p) = concat (map wire (v # vs)) @ post" and "int (length (v # vs)) \<le> nleft p"
    and "nleft p + int (sum_list (map nodes (v # vs))) \<le> 2 ^ 31 + int (length vs)" and "cur p = c @ [length xs]"
    and "read_list p = map (\<lambda>j. c @ [j]) [Suc (length xs)..<length xs + length (v # vs)] @ L"
    and "reply p = reply_upd c (ARRAY (xs @ replicate (length (v # vs)) NIL)) R"
  shows "\<exists>k q. goes mem p k q \<and> msgbuf q = msgbuf p \<and> msgidx q = msgidx p + length (concat (map wire (v # vs))) \<and>
    reply q = reply_upd c (ARRAY (xs @ placed_all (msgidx p) (v # vs))) R \<and> nleft q = nleft p - int (length (v # vs)) \<and>
    read_list q = tl L \<and> (L \<noteq> [] \<longrightarrow> cur q = hd L) \<and>
    status q = (if nleft p > int (length (v # vs)) then REDIS_GET_CMD else REDIS_PARSE_END) \<and>
    parse_succ q = (nleft p \<le> int (length (v # vs)) \<or> parse_succ p)"
  using assms
proof (induction vs arbitrary: v p xs)
  case Nil
  have "readable mem v" using Nil.prems(1) by simp
  then obtain k q where q: "goes mem p k q" "finished (msgidx p + length (wire v)) (placed (msgidx p) v) p q"
    unfolding readable_def using Nil.prems(2-5) by fastforce
  have "reply q = reply_upd c (ARRAY (xs @ [placed (msgidx p) v])) R"
    using q(2) Nil.prems(6,8) by (simp add: finished_def reply_upd_child list_update_append)
  then show ?case using q Nil.prems(7) by (intro exI [of _ k] exI [of _ q]) (simp add: finished_def)
next
  case (Cons w vs)
  have "readable mem v" using Cons.prems(1) by simp
  then obtain k q where q: "goes mem p k q" "finished (msgidx p + length (wire v)) (placed (msgidx p) v) p q"
    unfolding readable_def using Cons.prems(2-5) length_le_nodes [of "w # vs"] by (fastforce simp: algebra_simps)
  let ?xs = "xs @ [placed (msgidx p) v]"
  have ups: "[Suc (length xs)..<length xs + length (v # w # vs)] = length ?xs # [Suc (length ?xs)..<length ?xs + length (w # vs)]"
    by (subst upt_conv_Cons) simp_all
  have "\<exists>k r. goes mem q k r \<and> msgbuf r = msgbuf q \<and> msgidx r = msgidx q + length (concat (map wire (w # vs))) \<and>
    reply r = reply_upd c (ARRAY (?xs @ placed_all (msgidx q) (w # vs))) R \<and> nleft r = nleft q - int (length (w # vs)) \<and>
    read_list r = tl L \<and> (L \<noteq> [] \<longrightarrow> cur r = hd L) \<and>
    status r = (if nleft q > int (length (w # vs)) then REDIS_GET_CMD else REDIS_PARSE_END) \<and>
    parse_succ r = (nleft q \<le> int (length (w # vs)) \<or> parse_succ q)"
  proof (rule Cons.IH)
    show "\<forall>v \<in> set (w # vs). readable mem v" using Cons.prems(1) by simp
    show "status q = REDIS_GET_CMD" using q(2) Cons.prems(4) by (simp add: finished_def)
    show "drop (msgidx q) (msgbuf q) = concat (map wire (w # vs)) @ post"
      using q(2) arg_cong [OF Cons.prems(3), of "drop (length (wire v))"] by (simp add: finished_def add.commute)
    show "int (length (w # vs)) \<le> nleft q" using q(2) Cons.prems(4) by (simp add: finished_def)
    show "nleft q + int (sum_list (map nodes (w # vs))) \<le> 2 ^ 31 + int (length vs)"
      using q(2) Cons.prems(5) node_pos [of v] by (simp add: finished_def)
    show "cur q = c @ [length ?xs]" using q(2) Cons.prems(7) unfolding ups by (simp add: finished_def)
    show "read_list q = map (\<lambda>j. c @ [j]) [Suc (length ?xs)..<length ?xs + length (w # vs)] @ L"
      using q(2) Cons.prems(7) unfolding ups by (simp add: finished_def)
    show "reply q = reply_upd c (ARRAY (?xs @ replicate (length (w # vs)) NIL)) R"
      using q(2) Cons.prems(6,8) by (simp add: finished_def reply_upd_child list_update_append)
  qed
  then obtain j r where r: "goes mem q j r" "msgbuf r = msgbuf q" "msgidx r = msgidx q + length (concat (map wire (w # vs)))"
    "reply r = reply_upd c (ARRAY (?xs @ placed_all (msgidx q) (w # vs))) R" "nleft r = nleft q - int (length (w # vs))"
    "read_list r = tl L" "L \<noteq> [] \<longrightarrow> cur r = hd L"
    "status r = (if nleft q > int (length (w # vs)) then REDIS_GET_CMD else REDIS_PARSE_END)"
    "parse_succ r = (nleft q \<le> int (length (w # vs)) \<or> parse_succ q)" by blast
  have "goes mem p (k + j) r" by (rule goes_trans [OF q(1) r(1)])
  then show ?case using r q(2) Cons.prems(4) by (intro exI [of _ "k + j"] exI [of _ r]) (auto simp: finished_def)
qed

lemma begin_array_elements:
  assumes "nleft p + int n < 2 ^ 31" and "mem n" and "0 < n"
  shows "begin_array mem (int n) p = Ok (0, (set_cur (ARRAY (replicate n NIL)) p)\<lparr>nleft := nleft p + int n - 1,
      read_list := map (\<lambda>i. cur p @ [i]) [1..<n] @ read_list p, cur := cur p @ [0], status := REDIS_GET_CMD\<rparr>)"
  using assms by (cases p) (simp add: begin_array_def set_cur_def)

lemma array_readable:
  assumes "\<forall>v \<in> set vs. readable mem v" and "int (length vs) \<le> REDIS_ARRAY_SIZE_LIMIT" and "\<forall>n. mem n"
  shows "readable mem (ARRAY vs)"
  unfolding readable_def
proof (intro allI impI)
  fix p :: redis_parser and post
  let ?l = "dec_nat (length vs)" and ?v = "placed (msgidx p) (ARRAY vs)"
  assume p: "status p = REDIS_GET_CMD" "drop (msgidx p) (msgbuf p) = wire (ARRAY vs) @ post" "1 \<le> nleft p"
    "nleft p + int (nodes (ARRAY vs)) \<le> 2 ^ 31"
  note nodes = length_le_nodes [of vs]
  from p(2) have "drop (msgidx p) (msgbuf p) = CHR ''*'' # ?l @ CR # LF # concat (map wire vs) @ post" by simp
  from line_started [OF p(1) this] obtain q where q: "goes mem p 1 q" "at_line (CHR ''*'') ?l (concat (map wire vs) @ post) p q" by auto
  let ?q = "q\<lparr>findidx := msgidx q + length ?l, msgidx := msgidx q + length ?l + 2\<rparr>"
  have d: "drop (msgidx q) (msgbuf q) = ?l @ CR # LF # concat (map wire vs) @ post" and c: "cmd q = CHR ''*''"
    using q(2) by (simp_all add: at_line_def)
  have lim: "length vs < 2 ^ 31" using assms(2) by (simp add: REDIS_ARRAY_SIZE_LIMIT_def)
  have a: "atoi_in (?l @ CR # LF # concat (map wire vs) @ post) = Ok (int (length vs))"
    by (rule atoi_in_dec_nat) (use lim in simp)
  have d': "drop (msgidx q + length ?l + 2) (msgbuf q) = concat (map wire vs) @ post"
    using arg_cong [OF d, of "drop (length ?l + 2)"] by (simp add: add.commute add.left_commute)
  have hd_q: "is_digit (hd (?l @ CR # LF # concat (map wire vs) @ post))" by (rule hd_dec_nat)
  have begin_line: "parse_line mem (q\<lparr>findidx := msgidx q + length ?l\<rparr>) = begin_array mem (int (length vs)) ?q"
    using d c a hd_q assms(2) by (auto simp: parse_line_def)
  have nl: "\<not> nleft q + int (length vs) \<ge> 2 ^ 31" using q(2) p(4) nodes by (simp add: at_line_def)
  show "\<exists>k q. goes mem p k q \<and> finished (msgidx p + length (wire (ARRAY vs))) ?v p q"
  proof (cases vs)
    case Nil
    let ?r = "set_cur (ARRAY []) ?q"
    have "begin_array mem (int (length vs)) ?q = Ok (1, ?r)"
      using nl assms(3) Nil by (simp add: begin_array_def set_cur_def)
    from line_finished [OF q(2) dec_nat_no_CR dec_nat_line begin_line [unfolded this]] obtain u
      where "goes mem q 1 u" "finished (msgidx p + length ?l + 3) (ARRAY []) p u" using q(2) by (auto simp: at_line_def)
    then show ?thesis using goes_trans [OF q(1)] Nil by (auto simp: numeral_3_eq_3)
  next
    case (Cons w ws)
    let ?r = "(set_cur (ARRAY (replicate (length vs) NIL)) ?q)\<lparr>nleft := nleft q + int (length vs) - 1,
      read_list := map (\<lambda>i. cur q @ [i]) [1..<length vs] @ read_list q, cur := cur q @ [0], status := REDIS_GET_CMD\<rparr>"
    have "begin_array mem (int (length vs)) ?q = Ok (0, ?r)"
      by (subst begin_array_elements) (use nl assms(3) Cons in simp_all)
    from line_read [OF q(2) dec_nat_no_CR dec_nat_line begin_line [unfolded this]] have 1: "goes mem q 1 ?r" by simp
    have "\<exists>k u. goes mem ?r k u \<and> msgbuf u = msgbuf ?r \<and> msgidx u = msgidx ?r + length (concat (map wire (w # ws))) \<and>
      reply u = reply_upd (cur q) (ARRAY ([] @ placed_all (msgidx ?r) (w # ws))) (reply q) \<and>
      nleft u = nleft ?r - int (length (w # ws)) \<and>
      read_list u = tl (read_list q) \<and> (read_list q \<noteq> [] \<longrightarrow> cur u = hd (read_list q)) \<and>
      status u = (if nleft ?r > int (length (w # ws)) then REDIS_GET_CMD else REDIS_PARSE_END) \<and>
      parse_succ u = (nleft ?r \<le> int (length (w # ws)) \<or> parse_succ ?r)"
    proof (rule list_run)
      show "nleft ?r + int (sum_list (map nodes (w # ws))) \<le> 2 ^ 31 + int (length ws)"
        using q(2) p(4) Cons nodes lim assms(2) by (simp add: at_line_def)
    qed (use assms(1) Cons d' p(3) q(2) in \<open>simp_all add: at_line_def\<close>)
    then obtain k u where u: "goes mem ?r k u" "msgbuf u = msgbuf ?r" "msgidx u = msgidx ?r + length (concat (map wire (w # ws)))"
      "reply u = reply_upd (cur q) (ARRAY ([] @ placed_all (msgidx ?r) (w # ws))) (reply q)"
      "nleft u = nleft ?r - int (length (w # ws))"
      "read_list u = tl (read_list q)" "read_list q \<noteq> [] \<longrightarrow> cur u = hd (read_list q)"
      "status u = (if nleft ?r > int (length (w # ws)) then REDIS_GET_CMD else REDIS_PARSE_END)"
      "parse_succ u = (nleft ?r \<le> int (length (w # ws)) \<or> parse_succ ?r)" by blast
    have "finished (msgidx p + length (wire (ARRAY vs))) ?v p u"
      using u(2-) q(2) Cons by (auto simp: finished_def at_line_def numeral_3_eq_3)
    then show ?thesis using goes_trans [OF goes_trans [OF q(1) 1] u(1)] by blast
  qed
qed

lemma reply_readable: "reply_ok v \<Longrightarrow> \<forall>n. mem n \<Longrightarrow> readable mem v"
proof (induction v)
  case (ARRAY vs)
  then show ?case by (intro array_readable) (auto simp: list_all_iff)
qed (auto intro: nil_readable integer_readable string_readable status_readable error_readable)

end
