(* ===== verification/Redis_Chunks.thy ===== *)
theory Redis_Chunks
  imports Redis_Wire
begin

text \<open>
  The parser of the Redis protocol fed in chunks: a run over the whole message is cut at the end of what has arrived,
  and goes on when more arrives.
\<close>

section \<open>Steps on a part of the message\<close>

text \<open>The parser when only \<open>n\<close> bytes of the buffer have arrived, in \<open>b\<close> allocated bytes.\<close>

definition cut :: "nat \<Rightarrow> nat \<Rightarrow> redis_parser \<Rightarrow> redis_parser" where
  "cut n b p = p\<lparr>msgbuf := take n (msgbuf p), bufsize := b\<rparr>"

lemma cut_simps [simp]:
  "msgbuf (cut n b p) = take n (msgbuf p)" "bufsize (cut n b p) = b" "msgidx (cut n b p) = msgidx p"
  "findidx (cut n b p) = findidx p" "status (cut n b p) = status p" "cmd (cut n b p) = cmd p" "nchar (cut n b p) = nchar p"
  "nleft (cut n b p) = nleft p" "reply (cut n b p) = reply p" "cur (cut n b p) = cur p" "read_list (cut n b p) = read_list p"
  by (simp_all add: cut_def)

lemma crlf_scan_found: "crlf_scan f s = (j, True) \<Longrightarrow> f \<le> j \<and> j - f + 2 \<le> length s \<and> s ! (j - f) = CR \<and> crlf_scan f (take (j - f + 2) s) = (j, True)"
proof (induction f s rule: crlf_scan.induct)
  case (1 i a b s)
  then show ?case
  proof (cases "a = CR \<and> b = LF")
    case False
    then have "crlf_scan (Suc i) (b # s) = (j, True)" using 1(2) by (simp only: crlf_scan.simps if_False)
    from 1(1) [OF False this] have h: "Suc i \<le> j" "j - Suc i + 2 \<le> length (b # s)" "(b # s) ! (j - Suc i) = CR"
      "crlf_scan (Suc i) (take (j - Suc i + 2) (b # s)) = (j, True)" by auto
    have e: "j - i = Suc (j - Suc i)" using h(1) by simp
    show ?thesis using h False unfolding e by auto
  qed auto
qed auto

lemma crlf_scan_take:
  "crlf_scan f s = (j, True) \<Longrightarrow>
   (j + 2 \<le> f + m \<and> crlf_scan f (take m s) = (j, True)) \<or>
   (f + m < j + 2 \<and> (\<exists>i. f \<le> i \<and> crlf_scan f (take m s) = (i, False) \<and> crlf_scan i (drop (i - f) s) = (j, True)))"
proof (induction f s arbitrary: m rule: crlf_scan.induct)
  case (1 i a b s)
  show ?case
  proof (cases "m < 2")
    case True
    then have "m = 0 \<or> m = 1" by auto
    then have "crlf_scan i (take m (a # b # s)) = (i, False)" by auto
    moreover have "i \<le> j" using crlf_scan_found [OF 1(2)] by simp
    ultimately show ?thesis using 1(2) True by (intro disjI2 conjI exI [of _ i]) simp_all
  next
    case False
    then obtain k where m: "m = Suc (Suc k)" by (metis Suc_1 add_2_eq_Suc le_Suc_ex linorder_not_less)
    show ?thesis
    proof (cases "a = CR \<and> b = LF")
      case True
      then show ?thesis using 1(2) m by simp
    next
      case f: False
      then have "crlf_scan (Suc i) (b # s) = (j, True)" using 1(2) by (simp only: crlf_scan.simps if_False)
      from 1(1) [OF f this, of "Suc k"] show ?thesis
      proof
        assume a: "Suc i + Suc k < j + 2 \<and>
          (\<exists>i'\<ge>Suc i. crlf_scan (Suc i) (take (Suc k) (b # s)) = (i', False) \<and> crlf_scan i' (drop (i' - Suc i) (b # s)) = (j, True))"
        then obtain i' where i': "Suc i \<le> i'" "crlf_scan (Suc i) (take (Suc k) (b # s)) = (i', False)"
          "crlf_scan i' (drop (i' - Suc i) (b # s)) = (j, True)" by blast
        have "i' - i = Suc (i' - Suc i)" using i'(1) by simp
        then have "drop (i' - i) (a # b # s) = drop (i' - Suc i) (b # s)" by simp
        then show ?thesis using i' f m a by (intro disjI2 conjI exI [of _ i']) auto
      qed (use f m in auto)
    qed
  qed
qed auto

lemma takeWhile_digit_CR: "takeWhile is_digit (u @ CR # t) = takeWhile is_digit u"
  using not_digit_CR(1) by (induction u) auto

lemma strtol_prefix_cut:
  assumes "\<not> is_space c"
  shows "map_option fst (strtol_prefix (c # s @ CR # t)) = map_option fst (strtol_prefix (c # s @ [CR]))"
  using assms takeWhile_digit_CR [of s] takeWhile_digit_CR [of "c # s"]
  by (simp add: strtol_prefix_def Let_def)

lemma atoi_in_cut:
  assumes "line \<noteq> []" and "\<not> is_space (hd line)"
  shows "atoi_in (line @ CR # t) = atoi_in (line @ [CR])"
proof -
  have a: "atoi (line @ CR # t) = atoi (line @ [CR])"
  proof (cases "NUL \<in> set line")
    case True
    then have "c_str (line @ u) = c_str line" for u by (simp add: c_str_def)
    then show ?thesis by (simp add: atoi_def)
  next
    case False
    then have "c_str (line @ CR # u) = line @ CR # c_str u" for u
      using not_digit_CR(3) by (simp add: c_str_append) (simp add: c_str_def)
    moreover obtain c l where "line = c # l" "\<not> is_space c" using assms by (cases line) auto
    ultimately have "map_option fst (strtol_prefix (c_str (line @ CR # t))) = map_option fst (strtol_prefix (c_str (line @ CR # [])))"
      using strtol_prefix_cut [of c l "c_str t"] by (simp add: c_str_def)
    then show ?thesis by (auto simp: atoi_def split: option.splits)
  qed
  have d: "dropWhile is_digit (u @ CR # t) \<noteq> []" for u t using not_digit_CR(1) by auto
  obtain c l where l: "line = c # l" "\<not> is_space c" using assms by (cases line) auto
  show ?thesis using a d [of l t] d [of l "[]"] d [of line t] d [of line "[]"] l
    by (auto simp: atoi_in_def Let_def simp del: dropWhile_eq_Nil_conv)
qed

definition cut_out :: "nat \<Rightarrow> nat \<Rightarrow> redis_step \<Rightarrow> redis_step" where
  "cut_out n b x = cbind x (\<lambda>(ret, p). Ok (ret, cut n b p))"

lemma cut_out_simps [simp]:
  "cut_out n b (Ok (ret, p)) = Ok (ret, cut n b p)" "cut_out n b Undefined = Undefined"
  by (simp_all add: cut_out_def)

lemma cut_out_cbind: "cut_out n b (cbind x f) = cbind x (\<lambda>y. cut_out n b (f y))"
  by (cases x) (simp_all add: cut_out_def)

lemma cut_upd [simp]:
  "(cut n b p)\<lparr>msgidx := a\<rparr> = cut n b (p\<lparr>msgidx := a\<rparr>)" "(cut n b p)\<lparr>findidx := a\<rparr> = cut n b (p\<lparr>findidx := a\<rparr>)"
  "(cut n b p)\<lparr>status := st\<rparr> = cut n b (p\<lparr>status := st\<rparr>)" "(cut n b p)\<lparr>nchar := i\<rparr> = cut n b (p\<lparr>nchar := i\<rparr>)"
  "(cut n b p)\<lparr>nleft := i\<rparr> = cut n b (p\<lparr>nleft := i\<rparr>)" "(cut n b p)\<lparr>read_list := rl\<rparr> = cut n b (p\<lparr>read_list := rl\<rparr>)"
  "(cut n b p)\<lparr>cur := c\<rparr> = cut n b (p\<lparr>cur := c\<rparr>)" "(cut n b p)\<lparr>cmd := ch\<rparr> = cut n b (p\<lparr>cmd := ch\<rparr>)"
  "(cut n b p)\<lparr>reply := r\<rparr> = cut n b (p\<lparr>reply := r\<rparr>)" "(cut n b p)\<lparr>parse_succ := ps\<rparr> = cut n b (p\<lparr>parse_succ := ps\<rparr>)"
  "set_cur v (cut n b p) = cut n b (set_cur v p)"
  by (cases p; simp add: cut_def set_cur_def)+

lemma next_reply_cut [simp]: "next_reply (cut n b p) = cut n b (next_reply p)"
  by (simp add: next_reply_def Let_def split: list.split)

lemma begin_array_cut: "begin_array mem i (cut n b p) = cut_out n b (begin_array mem i p)"
  by (simp add: begin_array_def Let_def)

lemma parse_line_cut:
  assumes "drop (msgidx q) (msgbuf q) = line @ CR # rest" and "findidx q = msgidx q + length line" and "findidx q + 2 \<le> n"
    and "cmd q \<in> set ''$*'' \<Longrightarrow> line \<noteq> [] \<and> \<not> is_space (hd line)"
  shows "parse_line mem (cut n b q) = cut_out n b (parse_line mem q)"
proof -
  have "n - msgidx q = length line + Suc (n - msgidx q - length line - 1)" using assms(2,3) by simp
  then have "take (n - msgidx q) (line @ CR # rest) = line @ CR # take (n - msgidx q - length line - 1) rest"
    by (metis append_eq_append_conv2 take_Suc_Cons take_append take_all add_diff_cancel_left' le_add1)
  then have d: "drop (msgidx q) (take n (msgbuf q)) = line @ CR # take (n - msgidx q - length line - 1) rest"
    using assms(1) by (simp add: drop_take)
  consider "cmd q = CHR ''$''" | "cmd q = CHR ''*''" | "cmd q \<notin> set ''$*''" by auto
  then show ?thesis
  proof cases
    case 1
    then have "line \<noteq> [] \<and> \<not> is_space (hd line)" using assms(4) by simp
    then show ?thesis using 1 d assms(1,2) atoi_in_cut [of line rest] atoi_in_cut [of line "take (n - msgidx q - length line - 1) rest"]
      by (simp add: parse_line_def Let_def cut_out_cbind if_distrib [of "cut_out n b"] cong: if_cong)
  next
    case 2
    then have "line \<noteq> [] \<and> \<not> is_space (hd line)" using assms(4) by simp
    then show ?thesis using 2 d assms(1,2) atoi_in_cut [of line rest] atoi_in_cut [of line "take (n - msgidx q - length line - 1) rest"]
      by (simp add: parse_line_def Let_def cut_out_cbind begin_array_cut if_distrib [of "cut_out n b"] cong: if_cong)
  next
    case 3
    then show ?thesis using d assms(1,2) by (auto simp: parse_line_def Let_def)
  qed
qed

text \<open>A turn on a part of the message is the turn on the whole, or it waits for more.\<close>

definition waits :: "(nat \<Rightarrow> bool) \<Rightarrow> redis_step \<Rightarrow> nat \<Rightarrow> nat \<Rightarrow> redis_parser \<Rightarrow> bool" where
  "waits mem x n b p \<longleftrightarrow> (\<exists>i. parser_turn mem (cut n b p) = Ok (2, cut n b (p\<lparr>findidx := i\<rparr>)) \<and>
     line_safe (p\<lparr>findidx := i\<rparr>) \<and> parser_turn mem (p\<lparr>findidx := i\<rparr>) = x)"

lemma waits_here:
  assumes "parser_forward mem (cut n b p) = Ok (2, cut n b p)" and "line_safe p" and "parser_turn mem p = x"
  shows "waits mem x n b p"
proof -
  have "p\<lparr>findidx := findidx p\<rparr> = p" by simp
  then show ?thesis using assms unfolding waits_def parser_turn_def by (intro exI [of _ "findidx p"]) simp
qed

lemma turn_cut_crlf:
  assumes "status p = REDIS_UNTIL_CRLF" and "line_safe p" and "msgidx p < length (msgbuf p)" and "msgidx p < n"
    and "crlf_scan (findidx p) (drop (findidx p) (msgbuf p)) = (j, True)"
  shows "(parser_turn mem (cut n b p) = cut_out n b (parser_turn mem p) \<and> j + 2 \<le> n) \<or> (n < j + 2 \<and> waits mem (parser_turn mem p) n b p)"
proof -
  have le: "msgidx p \<le> findidx p" using assms(1,2) by (simp add: line_safe_def)
  have j: "findidx p \<le> j" "j - findidx p + 2 \<le> length (drop (findidx p) (msgbuf p))" "drop (findidx p) (msgbuf p) ! (j - findidx p) = CR"
    using crlf_scan_found [OF assms(5)] by auto
  have jl: "j < length (msgbuf p)" "msgbuf p ! j = CR" using j by auto
  have fwd: "parser_forward mem p = parse_line mem (p\<lparr>findidx := j\<rparr>)"
    using assms by (simp add: parser_forward_def parse_crlf_def)
  from crlf_scan_take [OF assms(5), of "n - findidx p"] show ?thesis
  proof
    assume n: "j + 2 \<le> findidx p + (n - findidx p) \<and> crlf_scan (findidx p) (take (n - findidx p) (drop (findidx p) (msgbuf p))) = (j, True)"
    then have jn: "j + 2 \<le> n" by (cases "n - findidx p") auto
    from n have "parser_forward mem (cut n b p) = parse_line mem (cut n b (p\<lparr>findidx := j\<rparr>))"
      using assms by (simp add: parser_forward_def parse_crlf_def drop_take min_le_iff_disj)
    also have "\<dots> = cut_out n b (parse_line mem (p\<lparr>findidx := j\<rparr>))"
    proof (rule parse_line_cut)
      let ?q = "p\<lparr>findidx := j\<rparr>" and ?l = "take (j - msgidx p) (drop (msgidx p) (msgbuf p))"
      have "drop (msgidx p) (msgbuf p) = ?l @ drop j (msgbuf p)" 
        using j(1) le append_take_drop_id [of "j - msgidx p" "drop (msgidx p) (msgbuf p)"] by simp
      moreover have "drop j (msgbuf p) = CR # drop (Suc j) (msgbuf p)"
        using jl Cons_nth_drop_Suc [of j "msgbuf p"] by simp
      ultimately show d: "drop (msgidx ?q) (msgbuf ?q) = ?l @ CR # drop (Suc j) (msgbuf p)" by simp
      show "findidx ?q = msgidx ?q + length ?l" using j(1,2) le by simp
      show "findidx ?q + 2 \<le> n" using jn by simp
      assume "cmd ?q \<in> set ''$*''"
      then have h: "\<not> is_space (msgbuf p ! msgidx p)" using assms(1-3) by (simp add: line_safe_def)
      have e: "msgbuf p ! msgidx p = hd (?l @ CR # drop (Suc j) (msgbuf p))" 
        using d assms(3) hd_drop_conv_nth [of "msgidx p" "msgbuf p"] by simp
      then have "?l \<noteq> []" using h not_digit_CR(2) by auto
      then show "?l \<noteq> [] \<and> \<not> is_space (hd ?l)" using h e by simp
    qed
    finally have "parser_turn mem (cut n b p) = cut_out n b (parser_turn mem p)"
      unfolding parser_turn_def fwd by (cases "parse_line mem (p\<lparr>findidx := j\<rparr>)") (auto simp: cut_out_def)
    then show ?thesis using jn by blast
  next
    assume a: "findidx p + (n - findidx p) < j + 2 \<and>
      (\<exists>i\<ge>findidx p. crlf_scan (findidx p) (take (n - findidx p) (drop (findidx p) (msgbuf p))) = (i, False) \<and>
      crlf_scan i (drop (i - findidx p) (drop (findidx p) (msgbuf p))) = (j, True))"
    then have "n < j + 2" by arith
    from a obtain i where i: "findidx p \<le> i" "crlf_scan (findidx p) (take (n - findidx p) (drop (findidx p) (msgbuf p))) = (i, False)"
      "crlf_scan i (drop i (msgbuf p)) = (j, True)" by auto
    have "parser_turn mem (cut n b p) = Ok (2, cut n b (p\<lparr>findidx := i\<rparr>))"
      using i(2) assms by (simp add: parser_turn_def parser_forward_def parse_crlf_def drop_take min_le_iff_disj)
    moreover have "line_safe (p\<lparr>findidx := i\<rparr>)" using assms(2) i(1) by (auto simp: line_safe_def)
    moreover have "parser_forward mem (p\<lparr>findidx := i\<rparr>) = parse_line mem (p\<lparr>findidx := j\<rparr>)"
      using assms i(3) by (simp add: parser_forward_def parse_crlf_def)
    then have "parser_turn mem (p\<lparr>findidx := i\<rparr>) = parser_turn mem p" unfolding parser_turn_def fwd by simp
    ultimately show ?thesis using \<open>n < j + 2\<close> unfolding waits_def by blast
  qed
qed

definition keeps :: "nat \<Rightarrow> string \<Rightarrow> redis_step \<Rightarrow> bool" where
  "keeps m buf x \<longleftrightarrow> (\<forall>ret r. x = Ok (ret, r) \<longrightarrow> ret = 0 \<or> ret = 1 \<longrightarrow> msgidx r = m \<and> msgbuf r = buf)"

lemma keeps_rules:
  "msgidx r = m \<and> msgbuf r = buf \<Longrightarrow> keeps m buf (Ok (ret, r))" "keeps m buf Undefined" "keeps m buf (Ok (-1, r))" "keeps m buf (Ok (-2, r))"
  "(\<And>y. keeps m buf (f y)) \<Longrightarrow> keeps m buf (cbind x f)" "keeps m buf a \<Longrightarrow> keeps m buf b \<Longrightarrow> keeps m buf (if c then a else b)"
  by (auto simp: keeps_def cbind_eq_Ok)

lemma begin_array_keeps: "msgidx p = m \<Longrightarrow> msgbuf p = buf \<Longrightarrow> keeps m buf (begin_array mem n p)"
  unfolding begin_array_def Let_def by (intro keeps_rules) simp_all

lemma parse_line_keeps: "keeps (findidx q + 2) (msgbuf q) (parse_line mem q)"
  unfolding parse_line_def Let_def by (intro keeps_rules(3-6) keeps_rules(1) begin_array_keeps) simp_all

lemma parse_line_idx: "parse_line mem q = Ok (ret, r) \<Longrightarrow> ret = 0 \<or> ret = 1 \<Longrightarrow> msgidx r = findidx q + 2 \<and> msgbuf r = msgbuf q"
  using parse_line_keeps [of q mem] by (auto simp: keeps_def)

lemma turn_buf:
  assumes "parser_turn mem p = Ok (ret, p1)" and "ret = 0 \<or> ret = 1"
  shows "msgbuf p1 = msgbuf p"
proof -
  obtain r where r: "parser_forward mem p = Ok (ret, r)" "msgbuf p1 = msgbuf r"
    using assms(1) by (auto simp: parser_turn_def cbind_eq_Ok split: if_splits)
  have "msgbuf r = msgbuf p"
  proof (cases "status p")
    case REDIS_UNTIL_CRLF
    obtain j found where j: "crlf_scan (findidx p) (drop (findidx p) (msgbuf p)) = (j, found)" by fastforce
    then have "parse_line mem (p\<lparr>findidx := j\<rparr>) = Ok (ret, r)"
      using r(1) assms(2) REDIS_UNTIL_CRLF by (auto simp: parser_forward_def parse_crlf_def Let_def split: if_splits)
    from parse_line_idx [OF this assms(2)] show ?thesis by simp
  qed (use r(1) assms(2) in \<open>auto simp: parser_forward_def parse_cmd_def parse_cr_def parse_lf_def parse_nchar_def Let_def split: if_splits\<close>)
  then show ?thesis using r(2) by simp
qed

lemma turn_cut_less:
  assumes "line_safe p" and "status p \<noteq> REDIS_PARSE_END" and "parser_turn mem p = Ok (ret, p1)" and "ret = 0 \<or> ret = 1"
    and n: "msgidx p < n"
  shows "(parser_turn mem (cut n b p) = Ok (ret, cut n b p1) \<and> msgidx p < msgidx p1 \<and> msgidx p1 \<le> n) \<or>
    (n < msgidx p1 \<and> waits mem (Ok (ret, p1)) n b p)"
proof -
  have l: "msgidx p < length (msgbuf p)"
  proof (rule ccontr)
    assume "\<not> ?thesis"
    then show False using assms(3,4) by (simp add: parser_turn_def parser_forward_def)
  qed
  show ?thesis
  proof (cases "status p")
    case REDIS_UNTIL_CRLF
    obtain j found where j: "crlf_scan (findidx p) (drop (findidx p) (msgbuf p)) = (j, found)" by fastforce
    have found
    proof (rule ccontr)
      assume "\<not> found"
      then show False using assms(3,4) l j REDIS_UNTIL_CRLF by (simp add: parser_turn_def parser_forward_def parse_crlf_def)
    qed
    with j have j: "crlf_scan (findidx p) (drop (findidx p) (msgbuf p)) = (j, True)" by simp
    have "msgidx p1 = j + 2"
    proof -
      obtain r where r: "parse_line mem (p\<lparr>findidx := j\<rparr>) = Ok (ret, r)" "p1 = (if ret = 1 then next_reply r else r)"
        using assms(3) l j REDIS_UNTIL_CRLF by (auto simp: parser_turn_def parser_forward_def parse_crlf_def cbind_eq_Ok)
      from parse_line_idx [OF r(1) assms(4)] r(2) show ?thesis by simp
    qed
    moreover have "msgidx p \<le> j" using crlf_scan_found [OF j] assms(1) REDIS_UNTIL_CRLF by (simp add: line_safe_def)
    ultimately show ?thesis using turn_cut_crlf [OF REDIS_UNTIL_CRLF assms(1) l n j, of mem b] assms(3) by auto
  next
    case REDIS_GET_NCHAR
    define c where "c = nat (nchar p)"
    have c: "0 < c" using assms(1) REDIS_GET_NCHAR by (simp add: line_safe_def c_def)
    have r: "msgidx p + c \<le> length (msgbuf p)" "ret = 0"
      "p1 = (set_cur (STRING (Offset (msgidx p) c)) p)\<lparr>msgidx := msgidx p + c, status := REDIS_GET_CR\<rparr>"
      using assms(3,4) l REDIS_GET_NCHAR c
      by (auto simp: parser_turn_def parser_forward_def parse_nchar_def c_def split: if_splits)
    show ?thesis
    proof (cases "msgidx p + c \<le> n")
      case True
      then show ?thesis using r c n l REDIS_GET_NCHAR
        by (auto simp: parser_turn_def parser_forward_def parse_nchar_def simp flip: c_def)
    next
      case False
      then have "parser_forward mem (cut n b p) = Ok (2, cut n b p)" using n l r(1) REDIS_GET_NCHAR
        by (auto simp: parser_forward_def parse_nchar_def simp flip: c_def)
      moreover have "n < msgidx p1" using False r(3) by simp
      ultimately show ?thesis using waits_here assms(1,3) by blast
    qed
  qed (use assms l n in \<open>auto simp: parser_turn_def parser_forward_def parse_cmd_def parse_cr_def parse_lf_def Let_def split: if_splits\<close>)
qed

lemma turn_cut:
  assumes "line_safe p" and "status p \<noteq> REDIS_PARSE_END" and "parser_turn mem p = Ok (ret, p1)" and "ret = 0 \<or> ret = 1"
    and "msgidx p \<le> n"
  shows "(parser_turn mem (cut n b p) = Ok (ret, cut n b p1) \<and> msgidx p < msgidx p1 \<and> msgidx p1 \<le> n) \<or>
    (n < msgidx p1 \<and> waits mem (Ok (ret, p1)) n b p)"
proof (cases "msgidx p = n")
  case True
  then have "parser_forward mem (cut n b p) = Ok (2, cut n b p)" by (simp add: parser_forward_def)
  moreover have "n < msgidx p1" using turn_cut_less [OF assms(1-4), of "Suc n" b] True by auto
  ultimately show ?thesis using waits_here assms(1,3) by blast
next
  case False
  then show ?thesis using turn_cut_less [OF assms(1-4)] assms(5) by simp
qed

lemma goes_mono: "goes mem p k q \<Longrightarrow> msgidx p \<le> msgidx q"
proof (induction rule: goes.induct)
  case (step p ret p1 k q)
  from turn_cut [OF step.hyps(1-4) order_refl, where b = 0] step.IH show ?case by auto
qed simp

text \<open>A run on a part of the message gets to the end of the run, or waits where the run goes on.\<close>

lemma loop_cut:
  assumes "goes mem p k q" and "status q = REDIS_PARSE_END" and "status p \<noteq> REDIS_PARSE_END" and "msgidx p \<le> n" and "n - msgidx p < fuel"
  shows "(parser_loop fuel mem (cut n b p) = Ok (1, cut n b q) \<and> msgidx q \<le> n) \<or>
    (\<exists>p' k'. parser_loop fuel mem (cut n b p) = Ok (2, cut n b p') \<and> goes mem p' k' q \<and> status p' \<noteq> REDIS_PARSE_END \<and>
       msgidx p' \<le> n \<and> msgbuf p' = msgbuf p \<and> n < msgidx q)"
  using assms
proof (induction arbitrary: fuel rule: goes.induct)
  case (none p)
  then show ?case by simp
next
  case (step p ret p1 k q)
  obtain f where f: "fuel = Suc f" using step.prems(4) by (cases fuel) auto
  from turn_cut [OF step.hyps(1-4) step.prems(3)] show ?case
  proof
    assume t: "parser_turn mem (cut n b p) = Ok (ret, cut n b p1) \<and> msgidx p < msgidx p1 \<and> msgidx p1 \<le> n"
    show ?thesis
    proof (cases "status p1 = REDIS_PARSE_END")
      case True
      have "q = p1" using True step.hyps(5) by (auto elim: goes.cases)
      then show ?thesis using t f True step.hyps(4) by auto
    next
      case False
      have "n - msgidx p1 < f" using step.prems(4) t f by arith
      from step.IH [OF step.prems(1) False _ this] t have "(parser_loop f mem (cut n b p1) = Ok (1, cut n b q) \<and> msgidx q \<le> n) \<or>
        (\<exists>p' k'. parser_loop f mem (cut n b p1) = Ok (2, cut n b p') \<and> goes mem p' k' q \<and> status p' \<noteq> REDIS_PARSE_END \<and>
          msgidx p' \<le> n \<and> msgbuf p' = msgbuf p1 \<and> n < msgidx q)" by blast
      moreover have "parser_loop fuel mem (cut n b p) = parser_loop f mem (cut n b p1)" using t f False step.hyps(4) by auto
      moreover have "msgbuf p1 = msgbuf p" by (rule turn_buf [OF step.hyps(3,4)])
      ultimately show ?thesis by simp
    qed
  next
    assume w: "n < msgidx p1 \<and> waits mem (Ok (ret, p1)) n b p"
    then have "n < msgidx q" using goes_mono [OF step.hyps(5)] by simp
    from w obtain i where i: "parser_turn mem (cut n b p) = Ok (2, cut n b (p\<lparr>findidx := i\<rparr>))" "line_safe (p\<lparr>findidx := i\<rparr>)"
      "parser_turn mem (p\<lparr>findidx := i\<rparr>) = Ok (ret, p1)" unfolding waits_def by blast
    have "goes mem (p\<lparr>findidx := i\<rparr>) (Suc k) q" using goes.step [OF i(2) _ i(3) step.hyps(4,5)] step.hyps(2) by simp
    moreover have "parser_loop fuel mem (cut n b p) = Ok (2, cut n b (p\<lparr>findidx := i\<rparr>))" using i(1) f by simp
    ultimately show ?thesis using step.hyps(2) step.prems(3) \<open>n < msgidx q\<close>
      by (intro disjI2 exI [of _ "p\<lparr>findidx := i\<rparr>"] exI [of _ "Suc k"]) simp
  qed
qed

section \<open>Chunks\<close>

text \<open>The reply at the end of a run.\<close>

lemma segment_at:
  assumes "drop k buf = a @ s @ post" and "j = k + length a"
  shows "segment j (length s) buf = s"
proof -
  have "drop j buf = drop (length a) (drop k buf)" using assms(2) by (simp add: add.commute)
  then show ?thesis using assms(1) by (simp add: segment_def)
qed

lemma parse_done_placed:
  "drop k buf = wire v @ post \<Longrightarrow> reply_ok v \<Longrightarrow> depth + reply_depth v \<le> REDIS_REPLY_DEPTH_LIMIT \<Longrightarrow> parse_done buf depth (placed k v) = Some v"
  "drop k buf = concat (map wire vs) @ post \<Longrightarrow> list_all reply_ok vs \<Longrightarrow>
    (\<And>v. v \<in> set vs \<Longrightarrow> depth + reply_depth v \<le> REDIS_REPLY_DEPTH_LIMIT) \<Longrightarrow> parse_done_all buf depth (placed_all k vs) = Some vs"
proof (induction k v and k vs arbitrary: depth post and depth post rule: placed_placed_all.induct)
  case (6 k vs)
  have "drop (k + length (dec_nat (length vs)) + 3) buf = concat (map wire vs) @ post"
    using arg_cong [OF 6(2), of "drop (length (dec_nat (length vs)) + 3)"] by (simp add: numeral_3_eq_3 ac_simps)
  moreover have "Suc depth + reply_depth v \<le> REDIS_REPLY_DEPTH_LIMIT" if "v \<in> set vs" for v
  proof -
    have "reply_depth v \<le> Max (insert 0 (reply_depth ` set vs))" using that by (intro Max_ge) auto
    then show ?thesis using 6(4) by simp
  qed
  ultimately have "parse_done_all buf (Suc depth) (placed_all (k + length (dec_nat (length vs)) + 3) vs) = Some vs"
    using 6(1,3) by simp
  then show ?case using 6(4) by auto
next
  case (8 k v vs)
  have "drop k buf = wire v @ concat (map wire vs) @ post" using 8(3) by simp
  from 8(1) [OF this] 8(4,5) have v: "parse_done buf depth (placed k v) = Some v" by simp
  have "drop (k + length (wire v)) buf = concat (map wire vs) @ post"
    using arg_cong [OF 8(3), of "drop (length (wire v))"] by (simp add: add.commute)
  from 8(2) [OF this] 8(4,5) have "parse_done_all buf depth (placed_all (k + length (wire v)) vs) = Some vs" by simp
  with v show ?case by simp
next
  case (3 k t)
  then show ?case using segment_at [of k buf "''+''" "text_of t" _ "Suc k"] by auto
next
  case (4 k t)
  then show ?case using segment_at [of k buf "''-''" "text_of t" _ "Suc k"] by auto
next
  case (5 k t)
  then show ?case
    using segment_at [of k buf "CHR ''$'' # dec_nat (length (text_of t)) @ CRLF" "text_of t" _ "k + length (dec_nat (length (text_of t))) + 3"]
    by (auto simp: segment_def)
qed auto

lemma message_run:
  assumes "reply_ok v" and "\<forall>n. mem n" and "nodes v < 2 ^ 31" and "buf = wire v @ rest"
  shows "\<exists>k q. goes mem (redis_parser_init\<lparr>msgbuf := buf\<rparr>) k q \<and> status q = REDIS_PARSE_END \<and> reply q = placed 0 v \<and>
    msgidx q = length (wire v) \<and> msgbuf q = buf \<and> parse_succ q"
proof -
  have "readable mem v" by (rule reply_readable [OF assms(1,2)])
  from this [unfolded readable_def, rule_format, of "redis_parser_init\<lparr>msgbuf := buf\<rparr>" rest] assms(3,4) show ?thesis
    by (auto simp: redis_parser_init_def finished_def)
qed

text \<open>A chunk that continues the message.\<close>

lemma append_continues:
  assumes "goes mem p k q" and "status q = REDIS_PARSE_END" and "status p \<noteq> REDIS_PARSE_END" and "msgidx p \<le> n" and "\<forall>n. mem n"
    and "msgbuf p = buf" and "n \<le> length buf" and "take (n + length c) buf = take n buf @ c" and "hd buf \<in> set ''+-:$*''" and "msgbuf q = buf"
  shows "(\<exists>p' k' b'. append_message mem c (cut n b p) = Ok (0, length c, cut (n + length c) b' p') \<and> goes mem p' k' q \<and>
      status p' \<noteq> REDIS_PARSE_END \<and> msgidx p' \<le> n + length c \<and> msgbuf p' = buf \<and> n + length c < msgidx q) \<or>
    (msgidx q \<le> n + length c \<and> (\<exists>b'. append_message mem c (cut n b p) = (case parse_done (take (n + length c) buf) 0 (reply q) of
       None \<Rightarrow> Ok (-2, msgidx q - n, cut (n + length c) b' q) | Some r \<Rightarrow> Ok (1, msgidx q - n, (cut (n + length c) b' q)\<lparr>reply := r\<rparr>))))"
proof -
  let ?m = "n + length c"
  define T where "T = take ?m buf"
  have len: "length T = ?m" unfolding T_def assms(8) using assms(7) by simp
  define b' where "b' = (if b < ?m then grow ?m (max 8 (2 * b)) else b)"
  have p': "(cut n b p)\<lparr>bufsize := x, msgbuf := T\<rparr> = cut ?m x p" for x
    using assms(6) by (cases p) (simp add: cut_def T_def)
  have no_inline: "\<not> (T \<noteq> [] \<and> (is_alpha (hd T) \<or> is_space (hd T)))"
    using assms(9) unfolding T_def by (cases buf; cases ?m) (auto simp: is_alpha_def is_space_def)
  have a: "append_message mem c (cut n b p) = cbind (parser_loop (Suc (?m - msgidx p)) mem (cut ?m b' p)) (\<lambda>(ret, p).
      if ret < 0 then Ok (ret, length c, p) else if ret = 2 then Ok (0, length c, p)
      else case parse_done (msgbuf p) 0 (reply p) of
        None \<Rightarrow> Ok (-2, msgidx p - n, p) | Some r \<Rightarrow> Ok (1, msgidx p - n, p\<lparr>reply := r\<rparr>))"
  proof -
    have old: "length (msgbuf (cut n b p)) = n" using assms(6,7) by simp
    have buf': "msgbuf (cut n b p) @ c = T" using assms(6,8) by (simp add: T_def)
    show ?thesis using assms(3,5) no_inline len
      unfolding append_message_def Let_def old buf' by (simp add: b'_def del: parser_loop.simps) (auto simp: p' simp del: parser_loop.simps)
  qed
  have "msgidx p \<le> ?m" using assms(4) by simp
  from loop_cut [OF assms(1-3) this, of "Suc (?m - msgidx p)" b'] show ?thesis
  proof
    assume "parser_loop (Suc (?m - msgidx p)) mem (cut ?m b' p) = Ok (1, cut ?m b' q) \<and> msgidx q \<le> ?m"
    then show ?thesis using assms(10) unfolding a
      by (intro disjI2 conjI exI [of _ b']) (simp_all del: parser_loop.simps parse_done.simps split: option.split)
  next
    assume "\<exists>p' k'. parser_loop (Suc (?m - msgidx p)) mem (cut ?m b' p) = Ok (2, cut ?m b' p') \<and> goes mem p' k' q \<and>
      status p' \<noteq> REDIS_PARSE_END \<and> msgidx p' \<le> ?m \<and> msgbuf p' = msgbuf p \<and> ?m < msgidx q"
    then obtain p' k' where h: "parser_loop (Suc (?m - msgidx p)) mem (cut ?m b' p) = Ok (2, cut ?m b' p')" "goes mem p' k' q"
      "status p' \<noteq> REDIS_PARSE_END" "msgidx p' \<le> ?m" "msgbuf p' = buf" "?m < msgidx q" using assms(6) by blast
    have "append_message mem c (cut n b p) = Ok (0, length c, cut ?m b' p')" unfolding a h(1) by simp
    then show ?thesis using h(2-6) by blast
  qed simp
qed

end
