(* ===== verification/Redis_Message.thy ===== *)
theory Redis_Message
  imports Redis_Chunks Stream_Parser String_Util
begin

text \<open>
  Redis messages (\<open>workflow/src/protocol/RedisMessage.cc\<close>, \<open>RedisMessage.h\<close>): the values a program uses, requests and
  responses, how they are encoded and received.
\<close>

section \<open>Values\<close>

datatype RedisValue = Value_nil | Value_int int | Value_string string | Value_status string | Value_error string
  | Value_array "RedisValue list"

text \<open>Setting a value releases what it was.\<close>

definition set_nil :: "RedisValue \<Rightarrow> RedisValue" where "set_nil v = Value_nil"
definition set_int :: "int \<Rightarrow> RedisValue \<Rightarrow> RedisValue" where "set_int i v = Value_int i"
definition set_string :: "string \<Rightarrow> RedisValue \<Rightarrow> RedisValue" where "set_string s v = Value_string s"
definition set_status :: "string \<Rightarrow> RedisValue \<Rightarrow> RedisValue" where "set_status s v = Value_status s"
definition set_error :: "string \<Rightarrow> RedisValue \<Rightarrow> RedisValue" where "set_error s v = Value_error s"

fun set_array :: "nat \<Rightarrow> RedisValue \<Rightarrow> RedisValue" where
  "set_array n (Value_array vs) = Value_array (take n vs @ replicate (n - length vs) Value_nil)"
| "set_array n v = Value_array (replicate n Value_nil)"

fun arr_clear :: "RedisValue \<Rightarrow> RedisValue" where
  "arr_clear (Value_array vs) = Value_array []"
| "arr_clear v = v"

fun arr_resize :: "nat \<Rightarrow> RedisValue \<Rightarrow> RedisValue" where
  "arr_resize n (Value_array vs) = set_array n (Value_array vs)"
| "arr_resize n v = v"

fun string_value :: "RedisValue \<Rightarrow> string" where
  "string_value (Value_string s) = s"
| "string_value (Value_status s) = s"
| "string_value (Value_error s) = s"
| "string_value v = []"

text \<open>A string that the parser has not placed yet is no pointer.\<close>

fun set_value :: "redis_reply \<Rightarrow> RedisValue cxx"
  and set_values :: "redis_reply list \<Rightarrow> RedisValue list cxx" where
  "set_value NIL = Ok Value_nil"
| "set_value (INTEGER i) = Ok (Value_int i)"
| "set_value (ERROR (Text s)) = Ok (Value_error s)"
| "set_value (STATUS (Text s)) = Ok (Value_status s)"
| "set_value (STRING (Text s)) = Ok (Value_string s)"
| "set_value (ARRAY rs) = cbind (set_values rs) (\<lambda>vs. Ok (Value_array vs))"
| "set_value r = Undefined"
| "set_values [] = Ok []"
| "set_values (r # rs) = cbind (set_value r) (\<lambda>v. cbind (set_values rs) (\<lambda>vs. Ok (v # vs)))"

text \<open>When the allocation of an array fails, the rest is left out.\<close>

fun transform :: "(nat \<Rightarrow> bool) \<Rightarrow> RedisValue \<Rightarrow> bool \<times> redis_reply"
  and transform_all :: "(nat \<Rightarrow> bool) \<Rightarrow> RedisValue list \<Rightarrow> bool \<times> redis_reply list" where
  "transform mem Value_nil = (True, NIL)"
| "transform mem (Value_int i) = (True, INTEGER i)"
| "transform mem (Value_string s) = (True, STRING (Text s))"
| "transform mem (Value_status s) = (True, STATUS (Text s))"
| "transform mem (Value_error s) = (True, ERROR (Text s))"
| "transform mem (Value_array vs) = (if mem (length vs) then let (ok, rs) = transform_all mem vs in (ok, ARRAY rs) else (False, NIL))"
| "transform_all mem [] = (True, [])"
| "transform_all mem (v # vs) = (let (ok, r) = transform mem v
     in if ok then let (ok, rs) = transform_all mem vs in (ok, r # rs) else (False, r # replicate (length vs) NIL))"

fun join_comma :: "string list \<Rightarrow> string" where
  "join_comma [] = []"
| "join_comma [s] = s"
| "join_comma (s # ss) = s @ '', '' @ join_comma ss"

text \<open>\<open>c_str\<close> cuts a string at its first NUL.\<close>

fun debug_string :: "RedisValue \<Rightarrow> string" where
  "debug_string (Value_error s) = ''ERROR: '' @ c_str s"
| "debug_string (Value_int i) = dec_int i"
| "debug_string Value_nil = ''nil''"
| "debug_string (Value_string s) = [CHR 0x22] @ c_str s @ [CHR 0x22]"
| "debug_string (Value_status s) = [CHR 0x22] @ c_str s @ [CHR 0x22]"
| "debug_string (Value_array vs) = ''['' @ join_comma (map debug_string vs) @ '']''"

section \<open>Messages\<close>

record RedisMessage = ProtocolMessage +
  parser :: redis_parser
  stream :: EncodeStream
  cur_size :: nat
  asking :: bool

definition new_RedisMessage :: RedisMessage where
  "new_RedisMessage = \<lparr>size_limit = 2 ^ 64 - 1, parser = redis_parser_init, stream = new_EncodeStream, cur_size = 0, asking = False\<rparr>"

definition set_asking :: "bool \<Rightarrow> 'a RedisMessage_scheme \<Rightarrow> 'a RedisMessage_scheme" where
  "set_asking b m = m\<lparr>asking := b\<rparr>"

text \<open>The number of vectors used; more than there are when the message does not fit.\<close>

definition message_encode :: "iovec list \<Rightarrow> 'a RedisMessage_scheme \<Rightarrow> (nat \<times> 'a RedisMessage_scheme) cxx" where
  "message_encode vectors m = cbind (append_all (encode_reply (reply (parser m))) (reset vectors (stream m))) (\<lambda>s.
     Ok (vec_size s, m\<lparr>stream := s\<rparr>))"

definition message_append :: "(nat \<Rightarrow> bool) \<Rightarrow> 'a RedisMessage_scheme \<Rightarrow> string \<Rightarrow> 'a RedisMessage_scheme append_result" where
  "message_append mem m buf = cbind (append_message mem buf (parser m)) (\<lambda>(ret, used, p).
     let m = m\<lparr>parser := p\<rparr>
     in if ret \<ge> 0 then
          let m = m\<lparr>cur_size := cur_size m + used\<rparr>
          in if cur_size m > size_limit m then Ok (Append_error EMSGSIZE, used, m)
             else Ok (if ret > 0 then Done else More, used, m)
        else Ok (Append_error (if ret = -2 then EBADMSG else ENOMEM), used, m))"

section \<open>Requests\<close>

record RedisRequest = RedisMessage +
  user_request :: "string list"

definition new_RedisRequest :: RedisRequest where
  "new_RedisRequest = RedisMessage.extend new_RedisMessage (RedisRequest.fields [])"

text \<open>The result of \<open>redis_reply_set_array\<close> is not looked at: when it fails, the strings go into the old elements.\<close>

definition set_request :: "(nat \<Rightarrow> bool) \<Rightarrow> string \<Rightarrow> string list \<Rightarrow> RedisRequest \<Rightarrow> RedisRequest cxx" where
  "set_request mem command params m =
     (let strs = command # params; n = length strs; p = parser m;
          elements = (if mem n then replicate n NIL else case reply p of ARRAY rs \<Rightarrow> rs | _ \<Rightarrow> [])
      in if length elements < n then Undefined
         else Ok (m\<lparr>user_request := strs, parser := p\<lparr>reply := ARRAY (map (\<lambda>s. STRING (Text s)) strs @ drop n elements)\<rparr>\<rparr>))"

definition get_command :: "RedisRequest \<Rightarrow> string option cxx" where
  "get_command m = (case reply (parser m) of
     ARRAY (STRING (Text s) # _) \<Rightarrow> Ok (Some s)
   | ARRAY (STRING (Offset a l) # _) \<Rightarrow> Undefined
   | _ \<Rightarrow> Ok None)"

fun param_type_ok :: "redis_reply \<Rightarrow> bool" where
  "param_type_ok (STRING t) = True"
| "param_type_ok NIL = True"
| "param_type_ok r = False"

fun param_texts :: "redis_reply list \<Rightarrow> string list cxx" where
  "param_texts [] = Ok []"
| "param_texts (STRING (Text s) # rs) = cbind (param_texts rs) (\<lambda>ss. Ok (s # ss))"
| "param_texts (NIL # rs) = cbind (param_texts rs) (\<lambda>ss. Ok ([] # ss))"
| "param_texts (r # rs) = Undefined"

definition get_params :: "RedisRequest \<Rightarrow> string list option cxx" where
  "get_params m = (case reply (parser m) of
     ARRAY (r # rs) \<Rightarrow> if list_all param_type_ok rs then cbind (param_texts rs) (\<lambda>ss. Ok (Some ss)) else Ok None
   | _ \<Rightarrow> Ok None)"

definition REDIS_ASK_REQUEST :: string where
  "REDIS_ASK_REQUEST = ''*1'' @ CRLF @ ''$6'' @ CRLF @ ''ASKING'' @ CRLF"

definition REDIS_OK_RESPONSE :: string where
  "REDIS_OK_RESPONSE = ''+OK'' @ CRLF"

definition request_encode :: "iovec list \<Rightarrow> RedisRequest \<Rightarrow> (nat \<times> RedisRequest) cxx" where
  "request_encode vectors m =
     cbind (append_all ((if asking m then [Nocopy REDIS_ASK_REQUEST] else []) @ encode_reply (reply (parser m))) (reset vectors (stream m)))
       (\<lambda>s. Ok (vec_size s, m\<lparr>stream := s\<rparr>))"

definition same_ignoring_case :: "string \<Rightarrow> string \<Rightarrow> bool" where
  "same_ignoring_case s t \<longleftrightarrow> map to_upper s = map to_upper t"

text \<open>\<open>ASKING\<close> is answered on the connection at once, and the request that follows is received.
  \<open>feedback\<close> is the sending on the connection, and returns how many bytes were sent.\<close>

definition request_append :: "(nat \<Rightarrow> bool) \<Rightarrow> (string \<Rightarrow> int) \<Rightarrow> RedisRequest \<Rightarrow> string \<Rightarrow> RedisRequest append_result" where
  "request_append mem feedback m buf = cbind (message_append mem m buf) (\<lambda>(ret, used, m).
     if ret = Done then
       cbind (get_command m) (\<lambda>command.
         case command of
           Some c \<Rightarrow>
             (if same_ignoring_case (c_str c) ''ASKING'' then
                let m = set_asking True (m\<lparr>parser := redis_parser_init\<rparr>)
                in Ok (if feedback REDIS_OK_RESPONSE = int (length REDIS_OK_RESPONSE) then More else Append_error ENOBUFS, used, m)
              else Ok (ret, used, m))
         | None \<Rightarrow> Ok (ret, used, m))
     else Ok (ret, used, m))"

section \<open>Responses\<close>

record RedisResponse = RedisMessage +
  result_value :: RedisValue

definition new_RedisResponse :: RedisResponse where
  "new_RedisResponse = RedisMessage.extend new_RedisMessage (RedisResponse.fields Value_nil)"

text \<open>The first answer to a request that asked is the answer to \<open>ASKING\<close>, and is dropped.\<close>

definition response_append :: "(nat \<Rightarrow> bool) \<Rightarrow> RedisResponse \<Rightarrow> string \<Rightarrow> RedisResponse append_result" where
  "response_append mem m buf = cbind (message_append mem m buf) (\<lambda>(ret, used, m).
     if ret = Done \<and> asking m then Ok (More, used, set_asking False (m\<lparr>parser := redis_parser_init\<rparr>))
     else Ok (ret, used, m))"

definition set_result :: "(nat \<Rightarrow> bool) \<Rightarrow> RedisValue \<Rightarrow> RedisResponse \<Rightarrow> bool \<times> RedisResponse" where
  "set_result mem v m = (let (ok, r) = transform mem v in (ok, m\<lparr>result_value := v, parser := (parser m)\<lparr>reply := r\<rparr>\<rparr>))"

definition get_result :: "RedisResponse \<Rightarrow> RedisValue cxx" where
  "get_result m = (if parse_succ (parser m) then set_value (reply (parser m)) else Ok Value_nil)"

section \<open>Delivery\<close>

lemma message_append_continues:
  assumes "goes mem p k q" and "status q = REDIS_PARSE_END" and "status p \<noteq> REDIS_PARSE_END" and "msgidx p \<le> n" and "\<forall>n. mem n"
    and "msgbuf p = buf" and "n \<le> length buf" and "take (n + length c) buf = take n buf @ c" and "hd buf \<in> set ''+-:$*''" and "msgbuf q = buf"
    and "n \<le> msgidx q" and "msgidx q \<le> size_limit m" and "\<forall>j\<ge>msgidx q. parse_done (take j buf) 0 (reply q) = Some v"
  shows "(\<exists>p' k' b'. message_append mem (m\<lparr>parser := cut n b p, cur_size := n\<rparr>) c =
        Ok (More, length c, m\<lparr>parser := cut (n + length c) b' p', cur_size := n + length c\<rparr>) \<and> goes mem p' k' q \<and>
      status p' \<noteq> REDIS_PARSE_END \<and> msgidx p' \<le> n + length c \<and> msgbuf p' = buf \<and> n + length c < msgidx q) \<or>
    (\<exists>P sz. message_append mem (m\<lparr>parser := cut n b p, cur_size := n\<rparr>) c = Ok (Done, msgidx q - n, m\<lparr>parser := P, cur_size := sz\<rparr>) \<and>
      reply P = v \<and> parse_succ P = parse_succ q)"
  using append_continues [OF assms(1-10), of b]
proof (elim disjE exE conjE)
  fix p' k' b'
  assume a: "append_message mem c (cut n b p) = Ok (0, length c, cut (n + length c) b' p')" "goes mem p' k' q"
    "status p' \<noteq> REDIS_PARSE_END" "msgidx p' \<le> n + length c" "msgbuf p' = buf" "n + length c < msgidx q"
  have "message_append mem (m\<lparr>parser := cut n b p, cur_size := n\<rparr>) c =
      Ok (More, length c, m\<lparr>parser := cut (n + length c) b' p', cur_size := n + length c\<rparr>)"
    using a(1,6) assms(12) by (simp add: message_append_def)
  with a(2-) show ?thesis by blast
next
  fix b'
  assume a: "append_message mem c (cut n b p) = (case parse_done (take (n + length c) buf) 0 (reply q) of
       None \<Rightarrow> Ok (-2, msgidx q - n, cut (n + length c) b' q) | Some r \<Rightarrow> Ok (1, msgidx q - n, (cut (n + length c) b' q)\<lparr>reply := r\<rparr>))"
    "msgidx q \<le> n + length c"
  have "parse_done (take (n + length c) buf) 0 (reply q) = Some v" using assms(13) a(2) by blast
  then have "message_append mem (m\<lparr>parser := cut n b p, cur_size := n\<rparr>) c =
      Ok (Done, msgidx q - n, m\<lparr>parser := (cut (n + length c) b' q)\<lparr>reply := v\<rparr>, cur_size := msgidx q\<rparr>)"
    using a(1) assms(11,12) by (simp add: message_append_def del: parse_done.simps cut_upd)
  moreover have "parse_succ ((cut (n + length c) b' q)\<lparr>reply := v\<rparr>) = parse_succ q" by (simp add: cut_def)
  moreover have "reply ((cut (n + length c) b' q)\<lparr>reply := v\<rparr>) = v" by (simp del: cut_upd)
  ultimately show ?thesis by blast
qed

text \<open>A receiver that treats the message like \<open>message_append\<close>, chunk by chunk.\<close>

definition receives_like :: "('a RedisMessage_scheme \<Rightarrow> string \<Rightarrow> 'a RedisMessage_scheme append_result) \<Rightarrow> redis_reply \<Rightarrow>
    ('a RedisMessage_scheme \<Rightarrow> string \<Rightarrow> 'a RedisMessage_scheme append_result) \<Rightarrow> 'a RedisMessage_scheme \<Rightarrow> bool" where
  "receives_like g v f m \<longleftrightarrow> (\<forall>P sz c ret used m'. g (m\<lparr>parser := P, cur_size := sz\<rparr>) c = Ok (ret, used, m') \<longrightarrow>
     ret = More \<or> ret = Done \<and> reply (parser m') = v \<longrightarrow> f (m\<lparr>parser := P, cur_size := sz\<rparr>) c = Ok (ret, used, m'))"

lemma deliver:
  assumes "receives_like (message_append mem) v f m"
    and "\<forall>n. mem n" and "hd buf \<in> set ''+-:$*''" and "msgbuf q = buf" and "status q = REDIS_PARSE_END" and "msgidx q \<le> length buf"
    and "msgidx q \<le> size_limit m" and "\<forall>j\<ge>msgidx q. parse_done (take j buf) 0 (reply q) = Some v"
    and "goes mem p k q" and "status p \<noteq> REDIS_PARSE_END" and "msgidx p \<le> n" and "msgbuf p = buf" and "n < msgidx q" and "drop n buf = concat cs"
  shows "\<exists>P sz. feed_chunks f (m\<lparr>parser := cut n b p, cur_size := n\<rparr>) cs = Ok (Done, msgidx q - n, m\<lparr>parser := P, cur_size := sz\<rparr>) \<and>
    reply P = v \<and> parse_succ P = parse_succ q"
  using assms(9-)
proof (induction cs arbitrary: n b p k)
  case Nil
  then show ?case using assms(6) by simp
next
  case (Cons c cs)
  have n: "n \<le> length buf" "n \<le> msgidx q" using Cons.prems(5) assms(6) by simp_all
  have c: "take (n + length c) buf = take n buf @ c" using Cons.prems(6) by (simp add: take_add)
  from message_append_continues [OF Cons.prems(1) assms(5) Cons.prems(2,3) assms(2) Cons.prems(4) n(1) c assms(3,4) n(2) assms(7,8), of b]
  show ?case
  proof (elim disjE exE conjE)
    fix p' k' b'
    assume a: "message_append mem (m\<lparr>parser := cut n b p, cur_size := n\<rparr>) c =
        Ok (More, length c, m\<lparr>parser := cut (n + length c) b' p', cur_size := n + length c\<rparr>)" "goes mem p' k' q"
      "status p' \<noteq> REDIS_PARSE_END" "msgidx p' \<le> n + length c" "msgbuf p' = buf" "n + length c < msgidx q"
    have "drop (n + length c) buf = concat cs" using Cons.prems(6) by (metis append_eq_conv_conj concat.simps(2) drop_drop add.commute)
    from Cons.IH [OF a(2-6) this, of b'] obtain P sz where
      "feed_chunks f (m\<lparr>parser := cut (n + length c) b' p', cur_size := n + length c\<rparr>) cs = Ok (Done, msgidx q - (n + length c), m\<lparr>parser := P, cur_size := sz\<rparr>)"
      "reply P = v" "parse_succ P = parse_succ q" by blast
    moreover have "f (m\<lparr>parser := cut n b p, cur_size := n\<rparr>) c = Ok (More, length c, m\<lparr>parser := cut (n + length c) b' p', cur_size := n + length c\<rparr>)"
      using assms(1) a(1) unfolding receives_like_def by blast
    ultimately show ?thesis using a(6) by auto
  next
    fix P sz
    assume a: "message_append mem (m\<lparr>parser := cut n b p, cur_size := n\<rparr>) c = Ok (Done, msgidx q - n, m\<lparr>parser := P, cur_size := sz\<rparr>)"
      "reply P = v" "parse_succ P = parse_succ q"
    have "f (m\<lparr>parser := cut n b p, cur_size := n\<rparr>) c = Ok (Done, msgidx q - n, m\<lparr>parser := P, cur_size := sz\<rparr>)"
      using assms(1) a(1,2) unfolding receives_like_def by simp
    then show ?thesis using a(2,3) by auto
  qed
qed

definition fresh_message :: "'a RedisMessage_scheme \<Rightarrow> bool" where
  "fresh_message m \<longleftrightarrow> parser m = redis_parser_init \<and> cur_size m = 0"

lemma wire_start: "hd (wire r @ s) \<in> set ''+-:$*'' \<and> wire r \<noteq> []"
  by (cases r) auto

lemma reply_delivered:
  assumes "reply_ok r" and "nodes r < 2 ^ 31" and "reply_depth r \<le> REDIS_REPLY_DEPTH_LIMIT" and "\<forall>n. mem n"
    and "fresh_message m" and "length (wire r) \<le> size_limit m" and "concat cs = wire r @ rest"
    and "receives_like (message_append mem) r f m"
  shows "\<exists>P sz. feed_chunks f m cs = Ok (Done, length (wire r), m\<lparr>parser := P, cur_size := sz\<rparr>) \<and> reply P = r \<and> parse_succ P"
proof -
  define p where "p = redis_parser_init\<lparr>msgbuf := concat cs\<rparr>"
  from message_run [OF assms(1,4,2,7)] obtain k q where q: "goes mem p k q" "status q = REDIS_PARSE_END" "reply q = placed 0 r"
    "msgidx q = length (wire r)" "msgbuf q = concat cs" "parse_succ q" unfolding p_def by blast
  have parsed: "\<forall>j\<ge>msgidx q. parse_done (take j (concat cs)) 0 (reply q) = Some r"
  proof (intro allI impI)
    fix j
    assume that: "msgidx q \<le> j"
    have "drop 0 (take j (concat cs)) = wire r @ take (j - length (wire r)) rest" using that q(4) assms(7) by simp
    from parse_done_placed(1) [OF this assms(1), of 0] assms(3) show "parse_done (take j (concat cs)) 0 (reply q) = Some r"
      unfolding q(3) by (simp del: parse_done.simps)
  qed
  have start: "hd (concat cs) \<in> set ''+-:$*''" "0 < msgidx q" using wire_start [of r rest] q(4) assms(7) by auto
  have fresh: "m\<lparr>parser := cut 0 0 p, cur_size := 0\<rparr> = m"
    using assms(5) by (cases m) (simp add: fresh_message_def p_def cut_def redis_parser_init_def)
  have "\<exists>P sz. feed_chunks f (m\<lparr>parser := cut 0 0 p, cur_size := 0\<rparr>) cs = Ok (Done, msgidx q - 0, m\<lparr>parser := P, cur_size := sz\<rparr>) \<and>
    reply P = r \<and> parse_succ P = parse_succ q"
  proof (rule deliver [OF assms(8,4) start(1) q(5,2) _ _ parsed q(1)])
    show "msgidx q \<le> length (concat cs)" "msgidx q \<le> size_limit m" using q(4) assms(6,7) by simp_all
  qed (use start(2) in \<open>simp_all add: p_def redis_parser_init_def\<close>)
  then show ?thesis unfolding fresh using q(4,6) by simp
qed

lemma message_append_keeps:
  "message_append mem m c = Ok (ret, used, m') \<Longrightarrow> asking m' = asking m"
  by (auto simp: message_append_def cbind_eq_Ok Let_def split: if_splits)

lemma encode_sent:
  assumes "2 * length ps \<le> length vectors * (length vectors + 1)"
  shows "\<exists>s. append_all ps (reset vectors u) = Ok s \<and> vec_size s \<le> length vectors \<and> sent s = map Some (concat (map piece_text ps))"
  using append_all_exact [of ps vectors u] assms by auto

lemma new_response: "fresh_message new_RedisResponse" "\<not> asking new_RedisResponse" "size_limit new_RedisResponse = 2 ^ 64 - 1"
  by (simp_all add: fresh_message_def new_RedisResponse_def new_RedisMessage_def RedisMessage.extend_def RedisResponse.fields_def)

lemma new_request: "fresh_message new_RedisRequest" "\<not> asking new_RedisRequest" "size_limit new_RedisRequest = 2 ^ 64 - 1"
  by (simp_all add: fresh_message_def new_RedisRequest_def new_RedisMessage_def RedisMessage.extend_def RedisRequest.fields_def)

lemma map_Some_eq: "map Some xs = map Some ys @ map Some zs \<longleftrightarrow> xs = ys @ zs"
  by (simp flip: map_append add: inj_map_eq_map)

lemma transform_set:
  "transform mem v = (True, r) \<Longrightarrow> set_value r = Ok v"
  "transform_all mem vs = (True, rs) \<Longrightarrow> set_values rs = Ok vs"
proof (induction mem v and mem vs arbitrary: r and rs rule: transform_transform_all.induct)
  case (8 mem v vs)
  then show ?case by (cases "transform mem v"; cases "transform_all mem vs") (auto split: if_splits)
qed (auto split: if_splits prod.splits)

text \<open>C30: 
  C0: A result that a server sets, of values the protocol can carry and nested to a depth of at most 64, is encoded
  when there are enough vectors; and in whatever chunks the bytes arrive at a client, and whatever follows them, they are
  received as a complete message whose result is the one that was set.
\<close>

theorem redis_result_delivered:
  assumes "set_result mem v server = (True, server1)" and "r = reply (parser server1)"
    and "reply_ok r" and "nodes r < 2 ^ 31" and "reply_depth r \<le> REDIS_REPLY_DEPTH_LIMIT" and "\<forall>n. mem n"
    and "2 * length (encode_reply r) \<le> length vectors * (length vectors + 1)"
    and "fresh_message client" and "\<not> asking client" and "length (wire r) \<le> size_limit client"
  shows "\<exists>cnt server2. message_encode vectors server1 = Ok (cnt, server2) \<and> cnt \<le> length vectors \<and>
    (\<forall>cs rest. map Some (concat cs) = sent (stream server2) @ map Some rest \<longrightarrow>
      (\<exists>client'. feed_chunks (response_append mem) client cs = Ok (Done, length (sent (stream server2)), client') \<and>
         get_result client' = Ok v))"
proof -
  obtain s where s: "append_all (encode_reply r) (reset vectors (stream server1)) = Ok s" "vec_size s \<le> length vectors"
    "sent s = map Some (wire r)" using encode_sent [OF assms(7)] unfolding wire_def by blast
  have "transform mem v = (True, r)" using assms(1,2) by (auto simp: set_result_def split: prod.splits)
  then have v: "set_value r = Ok v" by (rule transform_set)
  have like: "receives_like (message_append mem) r (response_append mem) client"
    using assms(9) by (auto simp: receives_like_def response_append_def dest: message_append_keeps)
  have "\<exists>client'. feed_chunks (response_append mem) client cs = Ok (Done, length (wire r), client') \<and> get_result client' = Ok v"
    if "concat cs = wire r @ rest" for cs rest
    using reply_delivered [OF assms(3-6,8,10) that like] v by (auto simp: get_result_def)
  then show ?thesis using s assms(2) by (auto simp: message_encode_def map_Some_eq)
qed

theorem redis_result_delivered_witness:
  "\<exists>cnt server2. message_encode (replicate 4 \<lparr>iov_base = Caller [], iov_len = 0\<rparr>)
      (snd (set_result (\<lambda>_. True) (Value_array [Value_int 7, Value_nil]) new_RedisResponse)) = Ok (cnt, server2) \<and> cnt \<le> 4 \<and>
    (\<forall>cs rest. map Some (concat cs) = sent (stream server2) @ map Some rest \<longrightarrow>
      (\<exists>client'. feed_chunks (response_append (\<lambda>_. True)) new_RedisResponse cs = Ok (Done, length (sent (stream server2)), client') \<and>
         get_result client' = Ok (Value_array [Value_int 7, Value_nil])))"
proof -
  define server1 where "server1 = snd (set_result (\<lambda>_. True) (Value_array [Value_int 7, Value_nil]) new_RedisResponse)"
  have s: "set_result (\<lambda>_. True) (Value_array [Value_int 7, Value_nil]) new_RedisResponse = (True, server1)"
    "ARRAY [INTEGER 7, NIL] = reply (parser server1)" by (simp_all add: set_result_def server1_def)
  have "length (dec_nat (Suc (Suc 0))) \<le> 30" "length (dec_int 7) \<le> 30"
    using length_dec_nat [of "Suc (Suc 0)" 0] length_dec_nat [of 7 0] by (simp_all add: dec_int_def)
  with redis_result_delivered [OF s, where vectors = "replicate 4 \<lparr>iov_base = Caller [], iov_len = 0\<rparr>" and client = new_RedisResponse]
    new_response s(1)
  show ?thesis by (simp add: REDIS_REPLY_DEPTH_LIMIT_def REDIS_ARRAY_SIZE_LIMIT_def)
qed

lemma request_reply:
  assumes "set_request mem command params client = Ok client1" and "mem (Suc (length params))"
  shows "reply (parser client1) = ARRAY (map (\<lambda>s. STRING (Text s)) (command # params)) \<and> asking client1 = asking client"
  using assms by (auto simp: set_request_def Let_def)

lemma param_texts_strings: "param_texts (map (\<lambda>s. STRING (Text s)) ss) = Ok ss" "list_all param_type_ok (map (\<lambda>s. STRING (Text s)) ss)"
  by (induction ss) auto

text \<open>C31: 
  C0: A request that a client sets is encoded when there are enough vectors, and a server that receives its bytes in
  whatever chunks, whatever follows them, has a complete message with the same command and the same parameters, which may
  contain any bytes.
\<close>

theorem redis_request_delivered:
  assumes "set_request mem command params client = Ok client1" and "\<not> asking client" and "\<forall>n. mem n"
    and "int (length (command # params)) \<le> REDIS_ARRAY_SIZE_LIMIT" and "\<forall>s \<in> set (command # params). length s < 2 ^ 31"
    and "\<not> same_ignoring_case (c_str command) ''ASKING''"
    and "2 * (5 * length (command # params) + 3) \<le> length vectors * (length vectors + 1)"
    and "fresh_message server" and "size_limit server = 2 ^ 64 - 1"
    and "length (wire (reply (parser client1))) < 2 ^ 64"
  shows "\<exists>cnt client2. request_encode vectors client1 = Ok (cnt, client2) \<and> cnt \<le> length vectors \<and>
    (\<forall>cs rest. map Some (concat cs) = sent (stream client2) @ map Some rest \<longrightarrow>
      (\<exists>server'. feed_chunks (request_append mem feedback) server cs = Ok (Done, length (sent (stream client2)), server') \<and>
         get_command server' = Ok (Some command) \<and> get_params server' = Ok (Some params)))"
proof -
  let ?ss = "command # params"
  define r where "r = ARRAY (map (\<lambda>s. STRING (Text s)) ?ss)"
  have r: "reply (parser client1) = r" "\<not> asking client1" using request_reply [OF assms(1)] assms(2,3) unfolding r_def by simp_all
  have "length (encode_reply r) = 5 * length ?ss + 3" unfolding r_def by (simp add: length_concat comp_def sum_list_triv)
  then have "2 * length (encode_reply r) \<le> length vectors * (length vectors + 1)" using assms(7) by simp
  from encode_sent [OF this] obtain s where s: "append_all (encode_reply r) (reset vectors (stream client1)) = Ok s"
    "vec_size s \<le> length vectors" "sent s = map Some (wire r)" unfolding wire_def by blast
  have ok: "reply_ok r" using assms(4,5) by (auto simp: r_def list_all_iff)
  have "sum_list (map (nodes \<circ> (\<lambda>s. STRING (Text s))) params) = length params" by (induction params) simp_all
  then have n: "nodes r < 2 ^ 31" using assms(4) by (simp add: r_def REDIS_ARRAY_SIZE_LIMIT_def)
  have "reply_depth ` (\<lambda>s. STRING (Text s)) ` set ss \<subseteq> {1}" for ss by auto
  then have d: "reply_depth r \<le> REDIS_REPLY_DEPTH_LIMIT"
    by (simp add: r_def REDIS_REPLY_DEPTH_LIMIT_def image_subset_iff)
  have get: "get_command m = Ok (Some command) \<and> get_params m = Ok (Some params)" if "reply (parser m) = r" for m
    using that param_texts_strings [of params] by (simp add: r_def get_command_def get_params_def)
  have like: "receives_like (message_append mem) r (request_append mem feedback) server"
    using assms(6) get by (auto simp: receives_like_def request_append_def)
  have lim: "length (wire r) \<le> size_limit server" using assms(9,10) r by simp
  have "\<exists>server'. feed_chunks (request_append mem feedback) server cs = Ok (Done, length (wire r), server') \<and>
      get_command server' = Ok (Some command) \<and> get_params server' = Ok (Some params)"
    if "concat cs = wire r @ rest" for cs rest
    using reply_delivered [OF ok n d assms(3,8) lim that like] get by fastforce
  then show ?thesis using s r by (auto simp: request_encode_def map_Some_eq)
qed

theorem redis_request_delivered_witness:
  "\<exists>client1 cnt client2. set_request (\<lambda>_. True) ''GET'' [''k''] new_RedisRequest = Ok client1 \<and>
    request_encode (replicate 5 \<lparr>iov_base = Caller [], iov_len = 0\<rparr>) client1 = Ok (cnt, client2) \<and> cnt \<le> 5 \<and>
    (\<forall>cs rest. map Some (concat cs) = sent (stream client2) @ map Some rest \<longrightarrow>
      (\<exists>server'. feed_chunks (request_append (\<lambda>_. True) (\<lambda>_. 0)) new_RedisRequest cs = Ok (Done, length (sent (stream client2)), server') \<and>
         get_command server' = Ok (Some ''GET'') \<and> get_params server' = Ok (Some [''k''])))"
proof -
  obtain client1 where c: "set_request (\<lambda>_. True) ''GET'' [''k''] new_RedisRequest = Ok client1" by (simp add: set_request_def Let_def)
  have l: "length (dec_nat (Suc (Suc 0))) \<le> 30" "length (dec_nat (Suc (Suc (Suc 0)))) \<le> 30" "length (dec_nat (Suc 0)) \<le> 30"
    using length_dec_nat [of "Suc (Suc 0)" 0] length_dec_nat [of "Suc (Suc (Suc 0))" 0] length_dec_nat [of 1 0] by simp_all
  have w: "length (wire (reply (parser client1))) < 2 ^ 64" using request_reply [OF c] l by simp
  have a: "\<not> same_ignoring_case (c_str ''GET'') ''ASKING''" by (simp add: same_ignoring_case_def c_str_def NUL_def)
  from redis_request_delivered [OF c new_request(2) _ _ _ a _ new_request(1,3) w, where feedback = "\<lambda>_. 0"
      and vectors = "replicate 5 \<lparr>iov_base = Caller [], iov_len = 0\<rparr>"] c
  show ?thesis by (simp add: REDIS_ARRAY_SIZE_LIMIT_def)
qed

end
