(* ===== verification/Redis_Safety.thy ===== *)
theory Redis_Safety
  imports Redis_Message
begin

text \<open>
  What holds of the parser of the Redis protocol for all bytes: it ends, and what it reports as complete is complete.
\<close>

section \<open>States\<close>

definition parser_ok :: "redis_parser \<Rightarrow> bool" where
  "parser_ok p \<longleftrightarrow> (status p = REDIS_UNTIL_CRLF \<longrightarrow> msgidx p \<le> findidx p) \<and> (status p = REDIS_GET_NCHAR \<longrightarrow> 0 < nchar p)"

definition redis_ends :: "'a cxx \<Rightarrow> bool" where
  "redis_ends x \<longleftrightarrow> x = Undefined \<or> returns x"

lemma redis_ends_simps [simp]: "redis_ends (Ok y)" "redis_ends Undefined" "\<not> redis_ends Out_of_fuel"
  by (simp_all add: redis_ends_def returns_def)

lemma redis_ends_cbind: "redis_ends x \<Longrightarrow> (\<And>y. x = Ok y \<Longrightarrow> redis_ends (f y)) \<Longrightarrow> redis_ends (cbind x f)"
  by (auto simp: redis_ends_def returns_def)

text \<open>What a line leaves behind.\<close>

definition after_line :: "redis_step \<Rightarrow> bool" where
  "after_line x \<longleftrightarrow> redis_ends x \<and> (\<forall>r. x = Ok (0, r) \<longrightarrow> status r \<noteq> REDIS_UNTIL_CRLF \<and> status r \<noteq> REDIS_PARSE_END \<and>
     (status r = REDIS_GET_NCHAR \<longrightarrow> 0 < nchar r)) \<and> (\<forall>ret r. x = Ok (ret, r) \<longrightarrow> ret \<in> {-2, -1, 0, 1})"

lemma after_line_rules:
  "after_line Undefined" "after_line (Ok (-1, r))" "after_line (Ok (-2, r))" "after_line (Ok (1, r))"
  "status r \<noteq> REDIS_UNTIL_CRLF \<Longrightarrow> status r \<noteq> REDIS_PARSE_END \<Longrightarrow> (status r = REDIS_GET_NCHAR \<Longrightarrow> 0 < nchar r) \<Longrightarrow> after_line (Ok (0, r))"
  "redis_ends x \<Longrightarrow> (\<And>y. after_line (f y)) \<Longrightarrow> after_line (cbind x f)"
  "(c \<Longrightarrow> after_line a) \<Longrightarrow> (\<not> c \<Longrightarrow> after_line b) \<Longrightarrow> after_line (if c then a else b)"
  by (auto simp: after_line_def cbind_eq_Ok intro: redis_ends_cbind)

lemma atoi_in_ends: "redis_ends (atoi_in s)"
  by (simp add: atoi_in_def Let_def)

lemma begin_array_after: "after_line (begin_array mem n p)"
  unfolding begin_array_def Let_def by (intro after_line_rules) simp_all

lemma parse_line_after: "after_line (parse_line mem p)"
  unfolding parse_line_def Let_def by (intro after_line_rules atoi_in_ends begin_array_after) simp_all

lemma crlf_scan_from: "crlf_scan f s = (j, found) \<Longrightarrow> f \<le> j"
  by (induction f s rule: crlf_scan.induct) (auto split: if_splits)

lemma next_reply_ok: "parser_ok (next_reply p)"
  by (simp add: parser_ok_def)

text \<open>A turn makes progress or waits for more; it never ends the message while it waits.\<close>

definition turn_ok :: "redis_parser \<Rightarrow> redis_step \<Rightarrow> bool" where
  "turn_ok p x \<longleftrightarrow> redis_ends x \<and> (\<forall>ret r. x = Ok (ret, r) \<longrightarrow> ret < 0 \<or>
     (ret = 2 \<and> status r \<noteq> REDIS_PARSE_END \<and> parser_ok r \<and> msgbuf r = msgbuf p) \<or>
     ((ret = 0 \<or> ret = 1) \<and> msgidx p < msgidx r \<and> msgidx r \<le> length (msgbuf p) \<and> parser_ok r \<and> msgbuf r = msgbuf p))"

lemma turn_any:
  assumes "parser_ok p" and "status p \<noteq> REDIS_PARSE_END"
  shows "turn_ok p (parser_turn mem p)"
proof (cases "msgidx p < length (msgbuf p)")
  case False
  then show ?thesis using assms by (simp add: turn_ok_def parser_turn_def parser_forward_def)
next
  case True
  show ?thesis
  proof (cases "status p")
    case REDIS_UNTIL_CRLF
    obtain j found where j: "crlf_scan (findidx p) (drop (findidx p) (msgbuf p)) = (j, found)" by fastforce
    have le: "msgidx p \<le> findidx p" "findidx p \<le> j" using assms(1) REDIS_UNTIL_CRLF crlf_scan_from [OF j] by (simp_all add: parser_ok_def)
    show ?thesis
    proof (cases found)
      case False
      then have "parser_turn mem p = Ok (2, p\<lparr>findidx := j\<rparr>)"
        using True j REDIS_UNTIL_CRLF by (simp add: parser_turn_def parser_forward_def parse_crlf_def)
      then show ?thesis using REDIS_UNTIL_CRLF le by (simp add: turn_ok_def parser_ok_def)
    next
      case f: True
      let ?x = "parse_line mem (p\<lparr>findidx := j\<rparr>)"
      have t: "parser_turn mem p = cbind ?x (\<lambda>(ret, p). Ok (ret, if ret = 1 then next_reply p else p))"
        using True j f REDIS_UNTIL_CRLF by (simp add: parser_turn_def parser_forward_def parse_crlf_def)
      have "crlf_scan (findidx p) (drop (findidx p) (msgbuf p)) = (j, True)" using j f by simp
      from crlf_scan_found [OF this] have len: "j + 2 \<le> length (msgbuf p)" using le by auto
      have a: "after_line ?x" by (rule parse_line_after)
      then have "redis_ends (parser_turn mem p)"
        unfolding t by (intro redis_ends_cbind) (auto simp: after_line_def)
      moreover have "ret < 0 \<or> ((ret = 0 \<or> ret = 1) \<and> msgidx p < msgidx r \<and> msgidx r \<le> length (msgbuf p) \<and> parser_ok r \<and> msgbuf r = msgbuf p)"
        if eq: "parser_turn mem p = Ok (ret, r)" for ret r
      proof -
        from eq obtain r0 where r0: "?x = Ok (ret, r0)" "r = (if ret = 1 then next_reply r0 else r0)"
          unfolding t by (auto simp: cbind_eq_Ok)
        have "ret \<in> {-2, -1, 0, 1}" using a r0(1) by (auto simp: after_line_def)
        then consider "ret < 0" | "ret = 0 \<or> ret = 1" by auto
        then show ?thesis
        proof cases
          case 2
          then have "msgidx r0 = j + 2" "msgbuf r0 = msgbuf p" using parse_line_idx [OF r0(1)] by simp_all
          moreover have "parser_ok r"
          proof (cases "ret = 1")
            case True
            then show ?thesis using r0(2) next_reply_ok by simp
          next
            case False
            with 2 r0 have "?x = Ok (0, r)" by simp
            then show ?thesis using a by (auto simp: after_line_def parser_ok_def)
          qed
          ultimately show ?thesis using 2 r0(2) len le by auto
        qed simp
      qed
      ultimately show ?thesis by (auto simp: turn_ok_def)
    qed
  qed (use True assms in \<open>auto simp: turn_ok_def parser_turn_def parser_forward_def parse_cmd_def parse_cr_def parse_lf_def parse_nchar_def
      parser_ok_def Let_def\<close>)
qed

lemma loop_any:
  "\<lbrakk>parser_ok p; status p \<noteq> REDIS_PARSE_END; length (msgbuf p) - msgidx p < fuel\<rbrakk> \<Longrightarrow>
   redis_ends (parser_loop fuel mem p) \<and> (\<forall>ret r. parser_loop fuel mem p = Ok (ret, r) \<longrightarrow> ret < 0 \<or> ret = 1 \<or>
     (ret = 2 \<and> status r \<noteq> REDIS_PARSE_END \<and> parser_ok r \<and> msgbuf r = msgbuf p))"
proof (induction fuel arbitrary: p)
  case (Suc fuel)
  have t: "turn_ok p (parser_turn mem p)" by (rule turn_any [OF Suc.prems(1,2)])
  then consider "parser_turn mem p = Undefined" | ret r where "parser_turn mem p = Ok (ret, r)"
    by (auto simp: turn_ok_def redis_ends_def returns_def)
  then show ?case
  proof cases
    case 2
    with t consider "ret < 0" | "ret = 2" "status r \<noteq> REDIS_PARSE_END" "parser_ok r" "msgbuf r = msgbuf p" |
      "ret = 0 \<or> ret = 1" "msgidx p < msgidx r" "msgidx r \<le> length (msgbuf p)" "parser_ok r" "msgbuf r = msgbuf p"
      by (auto simp: turn_ok_def)
    then show ?thesis
    proof cases
      case 3
      show ?thesis
      proof (cases "status r = REDIS_PARSE_END")
        case True
        then show ?thesis using 2 3 by auto
      next
        case False
        have "length (msgbuf r) - msgidx r < fuel" using 3 Suc.prems(3) by simp
        from Suc.IH [OF 3(4) False this] show ?thesis using 2 3(1,5) False by auto
      qed
    qed (use 2 in auto)
  qed simp
qed simp

section \<open>Complete replies\<close>

fun placed_reply :: "redis_reply \<Rightarrow> bool" where
  "placed_reply (STRING t) = (\<exists>s. t = Text s)"
| "placed_reply (STATUS t) = (\<exists>s. t = Text s)"
| "placed_reply (ERROR t) = (\<exists>s. t = Text s)"
| "placed_reply (ARRAY rs) = list_all placed_reply rs"
| "placed_reply r = True"

lemma parse_done_complete:
  "parse_done buf depth r = Some r' \<Longrightarrow> depth \<le> REDIS_REPLY_DEPTH_LIMIT \<Longrightarrow> placed_reply r' \<and> depth + reply_depth r' \<le> REDIS_REPLY_DEPTH_LIMIT"
  "parse_done_all buf depth rs = Some rs' \<Longrightarrow> depth \<le> REDIS_REPLY_DEPTH_LIMIT \<Longrightarrow>
    list_all placed_reply rs' \<and> (\<forall>r \<in> set rs'. depth + reply_depth r \<le> REDIS_REPLY_DEPTH_LIMIT)"
proof (induction buf depth r and buf depth rs arbitrary: r' and rs' rule: parse_done_parse_done_all.induct)
  case (1 buf depth r)
  then have less: "depth < REDIS_REPLY_DEPTH_LIMIT" by (cases "depth = REDIS_REPLY_DEPTH_LIMIT") auto
  show ?case
  proof (cases r)
    case (ARRAY rs)
    then obtain rs' where rs': "parse_done_all buf (Suc depth) rs = Some rs'" "r' = ARRAY rs'" using 1(2) less by auto
    from 1(1) [OF _ ARRAY rs'(1)] less have h: "list_all placed_reply rs'" "\<forall>r \<in> set rs'. Suc depth + reply_depth r \<le> REDIS_REPLY_DEPTH_LIMIT"
      by auto
    define d where "d = Max (insert 0 (reply_depth ` set rs'))"
    have "d \<le> REDIS_REPLY_DEPTH_LIMIT - Suc depth" using h(2) less unfolding d_def by (intro Max.boundedI) auto
    moreover have "reply_depth r' = Suc d" by (simp add: rs'(2) d_def)
    ultimately show ?thesis using h(1) rs'(2) less by simp
  qed (use 1(2) less in \<open>auto split: rstr.splits\<close>)
qed (auto split: option.splits)

lemma set_value_placed: "placed_reply r \<Longrightarrow> returns (set_value r)" "list_all placed_reply rs \<Longrightarrow> returns (set_values rs)"
proof (induction r and rs rule: set_value_set_values.induct)
  case (9 r rs)
  then show ?case by (auto simp: returns_def)
qed (auto simp: returns_def)

section \<open>Messages\<close>

definition receiving :: "redis_parser \<Rightarrow> bool" where
  "receiving p \<longleftrightarrow> parser_ok p \<and> status p \<noteq> REDIS_PARSE_END \<and>
     (msgbuf p = [] \<or> is_alpha (hd (msgbuf p)) \<or> is_space (hd (msgbuf p)) \<longrightarrow> status p = REDIS_GET_CMD)"

definition complete :: "redis_parser \<Rightarrow> bool" where
  "complete p \<longleftrightarrow> placed_reply (reply p) \<and> reply_depth (reply p) \<le> REDIS_REPLY_DEPTH_LIMIT"

definition append_ok :: "(int \<times> nat \<times> redis_parser) cxx \<Rightarrow> bool" where
  "append_ok x \<longleftrightarrow> redis_ends x \<and> (\<forall>ret used r. x = Ok (ret, used, r) \<longrightarrow> ret < 0 \<or> (ret = 0 \<and> receiving r) \<or> (ret = 1 \<and> complete r))"

lemma inline_complete: "complete (p\<lparr>reply := ARRAY (map (\<lambda>w. STRING (Text w)) ws), status := st\<rparr>)"
proof -
  have "Max (insert 0 (reply_depth ` (\<lambda>w. STRING (Text w)) ` set ws)) \<le> 1" by (intro Max.boundedI) auto
  then have "reply_depth (ARRAY (map (\<lambda>w. STRING (Text w)) ws)) \<le> REDIS_REPLY_DEPTH_LIMIT"
    unfolding REDIS_REPLY_DEPTH_LIMIT_def by (simp del: Max_insert)
  then show ?thesis by (simp add: complete_def list_all_iff del: reply_depth.simps)
qed

lemma append_inline_ok:
  assumes "status p = REDIS_GET_CMD"
  shows "append_ok (Ok (append_inline mem old sz p))"
  using assms inline_complete
  by (auto simp: append_ok_def append_inline_def split_inline_command_def Let_def receiving_def parser_ok_def)

lemma append_any:
  assumes "receiving p"
  shows "append_ok (append_message mem c p)"
proof (cases "bufsize p < length (msgbuf p) + length c \<and> \<not> mem (grow (length (msgbuf p) + length c) (max 8 (2 * bufsize p)))")
  case True
  then show ?thesis using assms by (simp add: append_message_def append_ok_def receiving_def)
next
  case False
  define q where "q = p\<lparr>bufsize := (if bufsize p < length (msgbuf p) + length c then grow (length (msgbuf p) + length c) (max 8 (2 * bufsize p))
    else bufsize p), msgbuf := msgbuf p @ c\<rparr>"
  have q: "parser_ok q" "status q \<noteq> REDIS_PARSE_END" "status q = status p" "msgbuf q = msgbuf p @ c"
    using assms by (simp_all add: q_def receiving_def parser_ok_def)
  show ?thesis
  proof (cases "msgbuf q \<noteq> [] \<and> (is_alpha (hd (msgbuf q)) \<or> is_space (hd (msgbuf q)))")
    case inl: True
    then have "append_message mem c p = Ok (append_inline mem (length (msgbuf p)) (length c) q)"
      using False q assms by (auto simp: append_message_def Let_def receiving_def q_def)
    moreover have "status q = REDIS_GET_CMD" using assms inl q(3,4) by (cases "msgbuf p") (auto simp: receiving_def)
    ultimately show ?thesis using append_inline_ok by simp
  next
    case inl: False
    let ?x = "parser_loop (Suc (length (msgbuf q) - msgidx q)) mem q"
    have a: "append_message mem c p = cbind ?x (\<lambda>(ret, r).
        if ret < 0 then Ok (ret, length c, r) else if ret = 2 then Ok (0, length c, r)
        else case parse_done (msgbuf r) 0 (reply r) of
          None \<Rightarrow> Ok (-2, msgidx r - length (msgbuf p), r) | Some v \<Rightarrow> Ok (1, msgidx r - length (msgbuf p), r\<lparr>reply := v\<rparr>))"
      using False assms inl unfolding append_message_def Let_def q_def by (auto simp: receiving_def simp del: parser_loop.simps)
    from loop_any [OF q(1,2), of "Suc (length (msgbuf q) - msgidx q)" mem] have l: "redis_ends ?x"
      "\<And>ret r. ?x = Ok (ret, r) \<Longrightarrow> ret < 0 \<or> ret = 1 \<or> (ret = 2 \<and> status r \<noteq> REDIS_PARSE_END \<and> parser_ok r \<and> msgbuf r = msgbuf q)" by auto
    have rec: "receiving r" if "?x = Ok (2, r)" for r
    proof (cases "msgbuf q = []")
      case True
      then have "status q = REDIS_GET_CMD" using assms q(3,4) by (simp add: receiving_def)
      moreover have "r = q" using that True by (simp add: parser_turn_def parser_forward_def)
      ultimately show ?thesis using q by (simp add: receiving_def)
    next
      case n: False
      then show ?thesis using l(2) [OF that] inl by (auto simp: receiving_def)
    qed
    show ?thesis
    proof (cases ?x)
      case (Ok y)
      obtain ret r where y: "y = (ret, r)" by fastforce
      from l(2) [of ret r] Ok y consider "ret < 0" | "ret = 1" | "ret = 2" by auto
      then show ?thesis
      proof cases
        case 2
        then show ?thesis using Ok y parse_done_complete(1) [of "msgbuf r" 0 "reply r"] unfolding a
          by (auto simp: append_ok_def complete_def simp del: parse_done.simps parser_loop.simps split: option.split)
      next
        case 3
        then show ?thesis using Ok y rec [of r] unfolding a by (simp add: append_ok_def del: parser_loop.simps)
      qed (use Ok y in \<open>simp add: a append_ok_def del: parser_loop.simps\<close>)
    qed (use l(1) in \<open>simp_all add: a append_ok_def redis_ends_def del: parser_loop.simps\<close>)
  qed
qed

lemma message_append_any:
  assumes "receiving (parser m)"
  shows "redis_ends (message_append mem m c)"
    and "message_append mem m c = Ok (ret, used, m') \<Longrightarrow> (ret = More \<longrightarrow> receiving (parser m')) \<and> (ret = Done \<longrightarrow> complete (parser m'))"
proof -
  note a = append_any [OF assms, of mem c, unfolded append_ok_def]
  show "redis_ends (message_append mem m c)"
    unfolding message_append_def using a by (intro redis_ends_cbind) (auto simp: Let_def)
  assume "message_append mem m c = Ok (ret, used, m')"
  then obtain k p where "append_message mem c (parser m) = Ok (k, used, p)" "parser m' = p" "ret = More \<longrightarrow> k = 0" "ret = Done \<longrightarrow> 0 < k"
    by (auto simp: message_append_def cbind_eq_Ok Let_def split: if_splits)
  then show "(ret = More \<longrightarrow> receiving (parser m')) \<and> (ret = Done \<longrightarrow> complete (parser m'))" using a by fastforce
qed

lemma feed_any:
  "receiving (parser m) \<Longrightarrow> redis_ends (feed_chunks (message_append mem) m cs) \<and>
    (\<forall>n m'. feed_chunks (message_append mem) m cs = Ok (Done, n, m') \<longrightarrow> complete (parser m'))"
proof (induction cs arbitrary: m)
  case (Cons c cs)
  note a = message_append_any [OF Cons.prems, of mem c]
  have "redis_ends (if ret = More then cbind (feed_chunks (message_append mem) m1 cs) (shift_used used) else Ok (ret, used, m1))"
    if "message_append mem m c = Ok (ret, used, m1)" for ret used m1
    using a(2) [OF that] Cons.IH [of m1] by (auto intro!: redis_ends_cbind)
  then have "redis_ends (feed_chunks (message_append mem) m (c # cs))" using a(1) by (auto intro!: redis_ends_cbind)
  moreover have "complete (parser m')" if "feed_chunks (message_append mem) m (c # cs) = Ok (Done, n, m')" for n m'
  proof -
    from that obtain ret used m1 where 1: "message_append mem m c = Ok (ret, used, m1)"
      "(if ret = More then cbind (feed_chunks (message_append mem) m1 cs) (shift_used used) else Ok (ret, used, m1)) = Ok (Done, n, m')"
      by (auto simp: cbind_eq_Ok)
    then show ?thesis using a(2) [OF 1(1)] Cons.IH [of m1] by (auto split: if_splits)
  qed
  ultimately show ?case by blast
qed simp



end
